(* ===== verification/K_Prelude.thy ===== *)
theory K_Prelude
  imports Main "HOL-Library.Word"
begin

unbundle bit_operations_syntax

text \<open>
  The prelude of the development: the machine integer types of the kernel, the result type of
  its functions, the address macros of \<open>inc/types.h\<close>, \<open>inc/mmu.h\<close> and \<open>inc/memlayout.h\<close>, and the
  generic lemmas that several components share.

  A kernel function that can end in \<open>panic\<close>, spin for ever on a lock its own CPU already
  holds, access memory outside the object it is given, or go to sleep, returns a \<open>kres\<close>: the
  left summand says why the call does not return, the right one carries the value and the new
  state. C error codes such as \<open>-ENOMEM\<close> are ordinary values (of type \<open>int\<close>), not stops.
\<close>

section \<open>Machine types\<close>

type_synonym u8 = "8 word"
type_synonym u16 = "16 word"
type_synonym u32 = "32 word"
type_synonym u64 = "64 word"

section \<open>Results\<close>

datatype kstop =
    Panic string     \<comment> \<open>a call of \<open>panic\<close> or a failed \<open>assert\<close>\<close>
  | Deadlock string  \<comment> \<open>\<open>acquire\<close> of a spinlock that the same CPU holds, or another endless loop\<close>
  | Fault string     \<comment> \<open>a null or out-of-range access, or a signed overflow\<close>
  | Sleeps string    \<comment> \<open>the caller sleeps until another thread changes the state\<close>

type_synonym 'a kres = "kstop + 'a"

definition kbind :: "'a kres \<Rightarrow> ('a \<Rightarrow> 'b kres) \<Rightarrow> 'b kres" where
  "kbind m f = (case m of Inl e \<Rightarrow> Inl e | Inr x \<Rightarrow> f x)"

lemma kbind_simps [simp]:
  "kbind (Inl e) f = Inl e"
  "kbind (Inr x) f = f x"
  by (simp_all add: kbind_def)

lemma kbind_Inr_iff: "kbind m f = Inr y \<longleftrightarrow> (\<exists>x. m = Inr x \<and> f x = Inr y)"
  by (cases m) auto

lemma kbind_InrE [elim!]:
  assumes "kbind m f = Inr y"
  obtains x where "m = Inr x" and "f x = Inr y"
  using assms by (cases m) auto

lemma kbind_assoc: "kbind (kbind m f) g = kbind m (\<lambda>x. kbind (f x) g)"
  by (cases m) auto

lemma kbind_cong [fundef_cong]:
  "m = m' \<Longrightarrow> (\<And>x. m' = Inr x \<Longrightarrow> f x = g x) \<Longrightarrow> kbind m f = kbind m' g"
  by (cases m') auto

text \<open>
  \<open>kfold f xs s\<close> is the loop that runs \<open>f\<close> for every element of \<open>xs\<close> in order and stops at the
  first stop; a C loop \<open>for (i = 0; i < n; i++)\<close> is \<open>kfold\<close> over \<open>[0..<n]\<close>.
\<close>

primrec kfold :: "('i \<Rightarrow> 's \<Rightarrow> 's kres) \<Rightarrow> 'i list \<Rightarrow> 's \<Rightarrow> 's kres" where
  "kfold f [] s = Inr s"
| "kfold f (x # xs) s = kbind (f x s) (kfold f xs)"

lemma kfold_append: "kfold f (xs @ ys) s = kbind (kfold f xs s) (kfold f ys)"
  by (induction xs arbitrary: s) (simp_all add: kbind_assoc cong: kbind_cong)

text \<open>A loop whose body keeps an indexed invariant establishes it at its end.\<close>

lemma kfold_upt_invariant:
  assumes "P 0 s"
    and "\<And>i s. i < n \<Longrightarrow> P i s \<Longrightarrow> \<exists>s'. f i s = Inr s' \<and> P (Suc i) s'"
  shows "\<exists>s'. kfold f [0..<n] s = Inr s' \<and> P n s'"
  using assms
proof (induction n)
  case (Suc n)
  then obtain s' where s': "kfold f [0..<n] s = Inr s'" "P n s'"
    by (metis less_SucI)
  moreover obtain s'' where "f n s' = Inr s''" "P (Suc n) s''"
    using Suc.prems(2) [OF _ s'(2)] by auto
  ultimately show ?case by (simp add: kfold_append)
qed simp

lemma kfold_cong [fundef_cong]:
  assumes "xs = ys" and "s = t" and "\<And>x u. x \<in> set ys \<Longrightarrow> f x u = g x u"
  shows "kfold f xs s = kfold g ys t"
  using assms(3) unfolding assms(1,2)
  by (induction ys arbitrary: t) (auto intro!: kbind_cong)

section \<open>Lists\<close>

lemma find_SomeD: "find P xs = Some x \<Longrightarrow> x \<in> set xs \<and> P x"
  by (induction xs) (auto split: if_splits)

text \<open>The index at which a search loop over \<open>[0..<n]\<close> stops.\<close>

lemma takeWhile_index:
  fixes f :: "nat \<Rightarrow> 'a" and x :: 'a and n :: nat
  defines "i \<equiv> length (takeWhile (\<lambda>i. f i \<noteq> x) [0..<n])"
  shows "i \<le> n" and "i < n \<Longrightarrow> f i = x" and "j < i \<Longrightarrow> f j \<noteq> x"
proof -
  show le: "i \<le> n" using length_takeWhile_le [of _ "[0..<n]"] by (simp add: i_def)
  show "f i = x" if "i < n"
    using nth_length_takeWhile [of "\<lambda>i. f i \<noteq> x" "[0..<n]"] that by (simp add: i_def)
  show "f j \<noteq> x" if "j < i"
  proof -
    have "takeWhile (\<lambda>i. f i \<noteq> x) [0..<n] ! j = j"
      using that le takeWhile_nth [of j "\<lambda>i. f i \<noteq> x" "[0..<n]"] by (simp add: i_def)
    then show ?thesis
      using that nth_mem [of j "takeWhile (\<lambda>i. f i \<noteq> x) [0..<n]"] by (auto simp: i_def dest: set_takeWhileD)
  qed
qed

section \<open>Unsigned words as naturals\<close>

lemma unat_u64_less: "unat (x :: u64) < 18446744073709551616"
  using unsigned_less [of x, where ?'a = nat] by simp

lemma unat_u32_less: "unat (x :: u32) < 4294967296"
  using unsigned_less [of x, where ?'a = nat] by simp

lemma unat_add_nowrap64:
  "unat (a :: u64) + unat b < 18446744073709551616 \<Longrightarrow> unat (a + b) = unat a + unat b"
  by (simp add: unat_word_ariths)

lemma unat_sub_nowrap: "(b :: 'a::len word) \<le> a \<Longrightarrow> unat (a - b) = unat a - unat b"
  by (rule unat_sub)

lemma of_nat_u32_eq_iff:
  "a < 4294967296 \<Longrightarrow> b < 4294967296 \<Longrightarrow> (of_nat a :: u32) = of_nat b \<longleftrightarrow> a = b"
  by (simp add: word_of_nat_eq_iff take_bit_nat_eq_self)

lemma unat_of_nat_u32: "a < 4294967296 \<Longrightarrow> unat (of_nat a :: u32) = a"
  by (simp add: unat_of_nat)

end
