(* ===== verification/K_Layout.thy ===== *)
theory K_Layout
  imports K_Prelude
begin

text \<open>
  The address arithmetic of the kernel: the rounding macros of \<open>inc/types.h\<close>, the layout
  constants of \<open>inc/memlayout.h\<close> and the page and page-table-entry macros of \<open>inc/mmu.h\<close>.
  All of it is 64-bit unsigned arithmetic, kept on \<open>u64\<close>.
\<close>

section \<open>Constants and macros\<close>

definition PGSIZE :: u64 where "PGSIZE = 4096"
definition PGSHIFT :: nat where "PGSHIFT = 12"

definition KERNBASE :: u64 where "KERNBASE = 0xFFFF000000000000"
definition USERTOP :: u64 where "USERTOP = 0x0001000000000000"
definition MMAPBASE :: u64 where "MMAPBASE = 0x600000000000"

definition V2P :: "u64 \<Rightarrow> u64" where "V2P a = a - KERNBASE"
definition P2V :: "u64 \<Rightarrow> u64" where "P2V a = a + KERNBASE"

definition ROUNDDOWN :: "u64 \<Rightarrow> u64 \<Rightarrow> u64" where
  "ROUNDDOWN a n = a - a mod n"

definition ROUNDUP :: "u64 \<Rightarrow> u64 \<Rightarrow> u64" where
  "ROUNDUP a n = ROUNDDOWN (a + n - 1) n"

definition PTE_VALID :: u64 where "PTE_VALID = 0x1"
definition PTE_TABLE :: u64 where "PTE_TABLE = 0x3"
definition PTE_PAGE :: u64 where "PTE_PAGE = 0x3"
definition PTE_USER :: u64 where "PTE_USER = push_bit 6 1"
definition PTE_RO :: u64 where "PTE_RO = push_bit 7 1"
definition PTE_SH :: u64 where "PTE_SH = push_bit 8 3"
definition PTE_AF :: u64 where "PTE_AF = push_bit 10 1"
definition PTE_PXN :: u64 where "PTE_PXN = push_bit 53 1"
definition PTE_UXN :: u64 where "PTE_UXN = push_bit 54 1"
definition MT_NORMAL :: u64 where "MT_NORMAL = 1"
definition MT_NORMAL_NC :: u64 where "MT_NORMAL_NC = 2"
definition SH_INNER :: u64 where "SH_INNER = push_bit 8 3"
definition AF_USED :: u64 where "AF_USED = push_bit 10 1"
definition PTE_NORMAL :: u64 where "PTE_NORMAL = push_bit 2 MT_NORMAL OR AF_USED OR SH_INNER"
definition PTE_UDATA :: u64 where "PTE_UDATA = PTE_USER OR PTE_NORMAL OR PTE_PAGE"

definition PTE_ADDR :: "u64 \<Rightarrow> u64" where "PTE_ADDR pte = pte AND NOT 0xFFFF000000000FFF"
definition PTE_FLAGS :: "u64 \<Rightarrow> u64" where "PTE_FLAGS pte = pte AND 0xFFFF000000000FFF"

lemmas layout_defs = PGSIZE_def PGSHIFT_def KERNBASE_def USERTOP_def V2P_def P2V_def

section \<open>Facts\<close>

lemma V2P_P2V [simp]: "V2P (P2V a) = a" and P2V_V2P [simp]: "P2V (V2P a) = a"
  by (simp_all add: V2P_def P2V_def)

lemma P2V_inject [simp]: "P2V a = P2V b \<longleftrightarrow> a = b"
  by (simp add: P2V_def)

lemma V2P_inject [simp]: "V2P a = V2P b \<longleftrightarrow> a = b"
  by (simp add: V2P_def)

lemma unat_ROUNDDOWN: "unat (ROUNDDOWN a n) = unat a - unat a mod unat n"
proof -
  have "a mod n \<le> a"
    by (simp add: word_le_nat_alt unat_mod)
  then show ?thesis
    by (simp add: ROUNDDOWN_def unat_sub unat_mod)
qed

lemma ROUNDDOWN_PGSIZE_aligned: "unat (ROUNDDOWN a PGSIZE) mod 4096 = 0"
  by (simp add: unat_ROUNDDOWN PGSIZE_def minus_mod_eq_mult_div)

lemma PTE_mask_bits: "(0xFFFF000000000FFF :: u64) = mask 12 OR push_bit 48 (mask 16)"
  by (simp add: mask_eq_exp_minus_1 push_bit_eq_mult)

text \<open>A page frame address: page aligned and below \<open>2 ^ 48\<close>, so it has no flag bit.\<close>

lemma PTE_FLAGS_frame:
  assumes "unat pa mod 4096 = 0" and "unat pa < 2 ^ 48"
  shows "PTE_FLAGS pa = 0"
proof -
  have low: "pa AND mask 12 = 0"
    using assms(1) by (simp flip: and_mask_dvd_nat add: mod_eq_0_iff_dvd)
  have "unat (drop_bit 48 pa) = 0"
    using assms(2) by (subst unat_drop_bit_eq) (simp add: drop_bit_eq_div)
  then have high: "drop_bit 48 pa = 0"
    by (simp add: unat_0_iff)
  have "pa AND push_bit 48 (mask 16) = push_bit 48 (drop_bit 48 pa AND mask 16)"
    by (rule bit_word_eqI) (auto simp: bit_simps)
  then show ?thesis
    using low high by (simp add: PTE_FLAGS_def PTE_mask_bits bit.conj_disj_distrib)
qed

lemma PTE_ADDR_frame:
  assumes "PTE_FLAGS pa = 0" and "PTE_ADDR f = 0"
  shows "PTE_ADDR (pa OR f) = pa"
proof -
  have "pa = (pa AND 0xFFFF000000000FFF) OR (pa AND NOT 0xFFFF000000000FFF)"
    by (simp flip: bit.conj_disj_distrib)
  with assms(1) have "pa AND NOT 0xFFFF000000000FFF = pa"
    by (simp add: PTE_FLAGS_def)
  moreover have "f AND NOT 0xFFFF000000000FFF = 0"
    using assms(2) by (simp add: PTE_ADDR_def)
  ultimately show ?thesis
    unfolding PTE_ADDR_def by (simp add: bit.conj_disj_distrib2)
qed

lemma PTE_VALID_or:
  assumes "f AND PTE_VALID \<noteq> 0"
  shows "(pa OR f) AND PTE_VALID \<noteq> 0"
  using assms by (auto simp: PTE_VALID_def bit.conj_disj_distrib2 or_eq_0_iff)

end
