(* ===== verification/Mm.thy ===== *)
theory Mm
  imports K_Layout
begin

text \<open>
  The physical page allocator, \<open>kern/mm.c\<close>: a LIFO free list threaded through the free pages
  themselves (\<open>struct run\<close>), the count of free pages and the table of page reference counts.

  \<open>mem\<close> is the kernel's memory, one 64-bit cell per 8-byte aligned kernel virtual address; the
  cell at the start of a free page is its \<open>next\<close> pointer, and address 0 is \<open>NULL\<close>. Every
  function holds \<open>kmem.lock\<close> or \<open>kmem_reftable.lock\<close> from its first to its last access of the
  state, so each is one atomic step. \<open>kend\<close>, the linker symbol \<open>end\<close> that closes the kernel
  image, is a parameter.
\<close>

section \<open>State and operations\<close>

definition PHYSTOP :: u64 where "PHYSTOP = 0x3b400000"
definition NFRAMES :: nat where "NFRAMES = 242688"

record kmem =
  mem :: "u64 \<Rightarrow> u64"
  freelist :: u64
  fpages :: u64
  kref :: "nat \<Rightarrow> u32"
  totalram :: u64

definition frame :: "u64 \<Rightarrow> nat" where
  "frame pa = unat (drop_bit PGSHIFT pa)"

definition set_kmem_ref :: "u64 \<Rightarrow> u32 \<Rightarrow> kmem \<Rightarrow> kmem kres" where
  "set_kmem_ref pa count s =
     (if frame pa < NFRAMES then Inr (s\<lparr>kref := (kref s)(frame pa := count)\<rparr>)
      else Inl (Fault ''kmem_reftable''))"

definition get_kmem_ref :: "u64 \<Rightarrow> kmem \<Rightarrow> u32 kres" where
  "get_kmem_ref pa s =
     (if frame pa < NFRAMES then Inr (kref s (frame pa)) else Inl (Fault ''kmem_reftable''))"

definition inc_kmem_ref :: "u64 \<Rightarrow> kmem \<Rightarrow> kmem kres" where
  "inc_kmem_ref pa s =
     (if frame pa < NFRAMES then Inr (s\<lparr>kref := (kref s)(frame pa := kref s (frame pa) + 1)\<rparr>)
      else Inl (Fault ''kmem_reftable''))"

definition dec_kmem_ref :: "u64 \<Rightarrow> kmem \<Rightarrow> kmem kres" where
  "dec_kmem_ref pa s =
     (if frame pa < NFRAMES then Inr (s\<lparr>kref := (kref s)(frame pa := kref s (frame pa) - 1)\<rparr>)
      else Inl (Fault ''kmem_reftable''))"

definition get_totalram :: "kmem \<Rightarrow> u64" where
  "get_totalram s = totalram s"

definition get_freeram :: "kmem \<Rightarrow> u64" where
  "get_freeram s = fpages s * PGSIZE"

definition kalloc :: "kmem \<Rightarrow> (u64 \<times> kmem) kres" where
  "kalloc s =
     (let r = freelist s in
      if r \<noteq> 0 then
        kbind (set_kmem_ref (V2P r) 1 (s\<lparr>freelist := mem s r, fpages := fpages s - 1\<rparr>))
          (\<lambda>s'. Inr (r, s'))
      else Inr (0, s))"

definition kfree :: "u64 \<Rightarrow> u64 \<Rightarrow> kmem \<Rightarrow> kmem kres" where
  "kfree kend va s =
     (if va mod PGSIZE \<noteq> 0 \<or> va < kend \<or> V2P va \<ge> PHYSTOP then Inl (Panic ''kfree'')
      else set_kmem_ref (V2P va) 0
             (s\<lparr>mem := (mem s)(va := freelist s), freelist := va, fpages := fpages s + 1\<rparr>))"

text \<open>
  \<open>p + PGSIZE \<le> end\<close> is a comparison of pointers: running past the address space is undefined
  in C, so the guard is read without wrap-around.
\<close>

function free_range :: "u64 \<Rightarrow> u64 \<Rightarrow> u64 \<Rightarrow> kmem \<Rightarrow> kmem kres" where
  "free_range kend p e s =
     (if unat p + 4096 \<le> unat e then
        kbind (kfree kend p s)
          (\<lambda>s'. free_range kend (p + PGSIZE) e (s'\<lparr>totalram := totalram s' + PGSIZE\<rparr>))
      else Inr s)"
  by pat_completeness auto
termination
proof (relation "measure (\<lambda>(kend, p, e, s). unat e - unat p)")
  fix kend p e :: u64 and s s' :: kmem
  assume "unat p + 4096 \<le> unat e"
  moreover from this have "unat (p + PGSIZE) = unat p + 4096"
    using unat_u64_less [of e] by (simp add: PGSIZE_def unat_word_ariths)
  ultimately show "((kend, p + PGSIZE, e, s'\<lparr>totalram := totalram s' + PGSIZE\<rparr>), kend, p, e, s)
      \<in> measure (\<lambda>(kend, p, e, s). unat e - unat p)"
    by simp
qed simp

declare free_range.simps [simp del]

definition mm_init :: "u64 \<Rightarrow> kmem \<Rightarrow> kmem kres" where
  "mm_init kend s =
     free_range kend (ROUNDUP kend PGSIZE) (P2V PHYSTOP)
       (s\<lparr>kref := (\<lambda>i. if i < NFRAMES then 0 else kref s i), fpages := 0\<rparr>)"

section \<open>The free list as a list of pages\<close>

primrec free_chain :: "(u64 \<Rightarrow> u64) \<Rightarrow> u64 \<Rightarrow> u64 list \<Rightarrow> bool" where
  "free_chain m p [] \<longleftrightarrow> p = 0"
| "free_chain m p (x # xs) \<longleftrightarrow> p = x \<and> x \<noteq> 0 \<and> free_chain m (m x) xs"

lemma free_chain_upd [simp]:
  "x \<notin> set ps \<Longrightarrow> free_chain (m(x := v)) p ps = free_chain m p ps"
  by (induction ps arbitrary: p) auto

lemma free_chain_Nil_iff: "free_chain m p ps \<Longrightarrow> p = 0 \<longleftrightarrow> ps = []"
  by (cases ps) auto

lemma free_chain_cong:
  "(\<And>x. x \<in> set ps \<Longrightarrow> m x = m' x) \<Longrightarrow> free_chain m p ps = free_chain m' p ps"
  by (induction ps arbitrary: p) auto

definition page_ok :: "u64 \<Rightarrow> u64 \<Rightarrow> bool" where
  "page_ok kend va \<longleftrightarrow> va mod PGSIZE = 0 \<and> kend \<le> va \<and> V2P va < PHYSTOP"

definition mm_inv :: "u64 \<Rightarrow> u64 list \<Rightarrow> kmem \<Rightarrow> bool" where
  "mm_inv kend ps s \<longleftrightarrow>
     free_chain (mem s) (freelist s) ps \<and> distinct ps \<and>
     (\<forall>p \<in> set ps. page_ok kend p \<and> kref s (frame (V2P p)) = 0) \<and>
     fpages s = of_nat (length ps)"

lemma unat_V2P:
  assumes "V2P p < PHYSTOP"
  shows "unat p = 18446462598732840960 + unat (V2P p)"
proof -
  have "unat (V2P p) < 0x3b400000"
    using assms by (simp add: PHYSTOP_def word_less_nat_alt)
  then have "unat (KERNBASE + V2P p) = unat KERNBASE + unat (V2P p)"
    by (intro unat_add_nowrap64) (simp add: KERNBASE_def)
  then show ?thesis
    by (simp add: V2P_def KERNBASE_def)
qed

lemma frame_eq: "frame pa = unat pa div 4096"
  unfolding frame_def PGSHIFT_def by (subst unat_drop_bit_eq) (simp add: drop_bit_eq_div)

lemma page_ok_aligned: "page_ok kend p \<Longrightarrow> unat (V2P p) mod 4096 = 0"
proof -
  assume ok: "page_ok kend p"
  then have "unat p mod 4096 = 0"
    by (simp add: page_ok_def PGSIZE_def word_unat_eq_iff unat_mod)
  moreover have "unat p = unat (V2P p) + 4503530907893760 * 4096"
    using ok unat_V2P [of p] by (simp add: page_ok_def)
  ultimately show ?thesis by (simp only: mod_mult_self1)
qed

lemma page_ok_nonzero: "page_ok kend p \<Longrightarrow> p \<noteq> 0"
  by (auto simp: page_ok_def V2P_def KERNBASE_def PHYSTOP_def)

lemma page_ok_frame: "page_ok kend p \<Longrightarrow> frame (V2P p) < NFRAMES"
  by (simp add: page_ok_def frame_eq NFRAMES_def PHYSTOP_def word_less_nat_alt
      less_mult_imp_div_less)

lemma page_ok_frame_inj:
  assumes "page_ok kend p" and "page_ok kend' q" and "frame (V2P p) = frame (V2P q)"
  shows "p = q"
proof -
  have "unat (V2P p) = unat (V2P q)"
    using page_ok_aligned [OF assms(1)] page_ok_aligned [OF assms(2)] assms(3)
    unfolding frame_eq by (metis div_mult_mod_eq)
  then show ?thesis
    by (simp add: word_unat_eq_iff [symmetric])
qed

lemma mm_inv_length:
  assumes "mm_inv kend ps s"
  shows "length ps \<le> NFRAMES" and "unat (fpages s) = length ps"
proof -
  have dist: "distinct ps" and ok: "\<forall>p \<in> set ps. page_ok kend p"
    using assms by (auto simp: mm_inv_def)
  have "inj_on (\<lambda>p. frame (V2P p)) (set ps)"
    using ok by (intro inj_onI) (blast intro: page_ok_frame_inj)
  moreover have "(\<lambda>p. frame (V2P p)) ` set ps \<subseteq> {..<NFRAMES}"
    using ok page_ok_frame by auto
  ultimately have "card (set ps) \<le> card {..<NFRAMES}"
    by (intro card_inj_on_le) auto
  then show len: "length ps \<le> NFRAMES"
    using dist by (simp add: distinct_card)
  show "unat (fpages s) = length ps"
    using assms len by (simp add: mm_inv_def unat_of_nat NFRAMES_def)
qed

lemma kalloc_Nil:
  assumes "mm_inv kend [] s"
  shows "kalloc s = Inr (0, s)"
  using assms by (simp add: mm_inv_def kalloc_def)

lemma kalloc_Cons:
  assumes "mm_inv kend (p # ps) s"
  shows "\<exists>s'. kalloc s = Inr (p, s') \<and> mm_inv kend ps s' \<and> mem s' = mem s \<and>
           kref s' = (kref s)(frame (V2P p) := 1)"
proof -
  have ok: "page_ok kend p" and fl: "freelist s = p" "p \<noteq> 0" and notin: "p \<notin> set ps"
    using assms by (auto simp: mm_inv_def)
  have "frame (V2P q) \<noteq> frame (V2P p)" if "q \<in> set ps" for q
    using that assms notin page_ok_frame_inj [OF _ ok] by (auto simp: mm_inv_def)
  moreover have "kalloc s = Inr (p, s\<lparr>freelist := mem s p, fpages := fpages s - 1,
      kref := (kref s)(frame (V2P p) := 1)\<rparr>)"
    using fl page_ok_frame [OF ok] by (simp add: kalloc_def set_kmem_ref_def)
  ultimately show ?thesis
    using assms by (simp add: mm_inv_def)
qed

lemma kfree_Cons:
  assumes "mm_inv kend ps s" and "page_ok kend p" and "p \<notin> set ps"
  shows "\<exists>s'. kfree kend p s = Inr s' \<and> mm_inv kend (p # ps) s' \<and>
           mem s' = (mem s)(p := freelist s) \<and> kref s' = (kref s)(frame (V2P p) := 0)"
proof -
  have "kfree kend p s = Inr (s\<lparr>mem := (mem s)(p := freelist s), freelist := p,
      fpages := fpages s + 1, kref := (kref s)(frame (V2P p) := 0)\<rparr>)"
    using assms(2) page_ok_frame [OF assms(2)]
    by (simp add: kfree_def set_kmem_ref_def page_ok_def not_less not_le)
  then show ?thesis
    using assms page_ok_nonzero [OF assms(2)] by (simp add: mm_inv_def)
qed

section \<open>The interface of the page allocator\<close>

text \<open>
  What the rest of the kernel relies on: \<open>inv ps s\<close> says that exactly the pages \<open>ps\<close> are free,
  in the order in which they will be handed out; \<open>ok\<close> are the addresses that may be freed;
  \<open>contents\<close> is the memory a client sees.
\<close>

locale page_allocator =
  fixes alloc :: "'s \<Rightarrow> (u64 \<times> 's) kres"
    and free :: "u64 \<Rightarrow> 's \<Rightarrow> 's kres"
    and inv :: "u64 list \<Rightarrow> 's \<Rightarrow> bool"
    and ok :: "u64 \<Rightarrow> bool"
    and contents :: "'s \<Rightarrow> u64 \<Rightarrow> u64"
  assumes inv_distinct: "inv ps s \<Longrightarrow> distinct ps"
    and inv_ok: "inv ps s \<Longrightarrow> p \<in> set ps \<Longrightarrow> ok p"
    and ok_nonzero: "ok p \<Longrightarrow> p \<noteq> 0"
    and alloc_none: "inv [] s \<Longrightarrow> alloc s = Inr (0, s)"
    and alloc_some: "inv (p # ps) s \<Longrightarrow>
          \<exists>s'. alloc s = Inr (p, s') \<and> inv ps s' \<and> contents s' = contents s"
    and free_some: "inv ps s \<Longrightarrow> ok p \<Longrightarrow> p \<notin> set ps \<Longrightarrow>
          \<exists>s'. free p s = Inr s' \<and> inv (p # ps) s' \<and>
            (\<forall>a. a \<noteq> p \<longrightarrow> contents s' a = contents s a)"
begin

lemma alloc_cases:
  assumes "inv ps s"
  obtains (none) "ps = []" "alloc s = Inr (0, s)"
    | (some) p qs s' where "ps = p # qs" "alloc s = Inr (p, s')" "inv qs s'" "ok p" "p \<notin> set qs"
        "contents s' = contents s"
proof (cases ps)
  case Nil
  with assms none alloc_none show ?thesis by simp
next
  case (Cons p qs)
  with assms inv_distinct [OF assms] inv_ok [OF assms, of p] alloc_some [of p qs s] some
  show ?thesis by auto
qed

text \<open>The allocator never stops the kernel, and says \<open>NULL\<close> only when nothing is free.\<close>

lemma alloc_total:
  assumes "inv ps s"
  shows "\<exists>r s'. alloc s = Inr (r, s') \<and> (r = 0 \<longleftrightarrow> ps = [])"
  using assms by (rule alloc_cases) (auto dest: ok_nonzero)

text \<open>A page that was freed is the next one handed out, and the free pages are as before.\<close>

lemma free_then_alloc:
  assumes "inv ps s" and "ok p" and "p \<notin> set ps"
  shows "\<exists>s1 s2. free p s = Inr s1 \<and> alloc s1 = Inr (p, s2) \<and> inv ps s2"
proof -
  from free_some [OF assms] obtain s1 where f: "free p s = Inr s1" and i: "inv (p # ps) s1"
    by blast
  from alloc_some [OF i] obtain s2 where "alloc s1 = Inr (p, s2)" and "inv ps s2"
    by blast
  with f show ?thesis by blast
qed

text \<open>Two allocations with no free between them never return the same page.\<close>

lemma alloc_twice:
  assumes "inv ps s" and "alloc s = Inr (p, s1)" and "alloc s1 = Inr (q, s2)" and "p \<noteq> 0"
  shows "p \<noteq> q"
proof -
  from assms(1) show ?thesis
  proof (cases rule: alloc_cases)
    case none
    with assms(2,4) show ?thesis by simp
  next
    case (some p' qs s')
    with assms(2) have p: "p = p'" and i: "inv qs s1" by auto
    from i show ?thesis
      by (cases rule: alloc_cases) (use some p assms(3,4) in auto)
  qed
qed

end

interpretation pg: page_allocator kalloc "kfree kend" "mm_inv kend" "page_ok kend" mem
  for kend :: u64
proof
  show "\<And>ps s. mm_inv kend ps s \<Longrightarrow> distinct ps"
    by (simp add: mm_inv_def)
  show "\<And>ps s p. mm_inv kend ps s \<Longrightarrow> p \<in> set ps \<Longrightarrow> page_ok kend p"
    by (simp add: mm_inv_def)
  show "\<And>p. page_ok kend p \<Longrightarrow> p \<noteq> 0"
    by (rule page_ok_nonzero)
  show "\<And>s. mm_inv kend [] s \<Longrightarrow> kalloc s = Inr (0, s)"
    by (rule kalloc_Nil)
  show "\<And>p ps s. mm_inv kend (p # ps) s \<Longrightarrow>
      \<exists>s'. kalloc s = Inr (p, s') \<and> mm_inv kend ps s' \<and> mem s' = mem s"
    using kalloc_Cons by blast
  show "\<And>ps s p. mm_inv kend ps s \<Longrightarrow> page_ok kend p \<Longrightarrow> p \<notin> set ps \<Longrightarrow>
      \<exists>s'. kfree kend p s = Inr s' \<and> mm_inv kend (p # ps) s' \<and>
        (\<forall>a. a \<noteq> p \<longrightarrow> mem s' a = mem s a)"
    using kfree_Cons by fastforce
qed

section \<open>Initialisation\<close>

lemma page_ok_below:
  assumes "page_ok kend q" and "unat p mod 4096 = 0" and "q < p + PGSIZE" and "unat (p + PGSIZE) = unat p + 4096"
  shows "q < p \<or> q = p"
proof (rule ccontr)
  assume "\<not> (q < p \<or> q = p)"
  then have gt: "unat p < unat q" by (simp add: word_less_nat_alt word_unat_eq_iff)
  have lt: "unat q < unat p + 4096"
    using assms(3,4) by (simp add: word_less_nat_alt)
  have al: "unat q mod 4096 = 0"
    using assms(1) by (simp add: page_ok_def PGSIZE_def word_unat_eq_iff unat_mod)
  obtain a b where "unat p = 4096 * a" "unat q = 4096 * b"
    using al assms(2) by (auto simp: mod_eq_0_iff_dvd elim!: dvdE)
  with gt lt show False by simp
qed

lemma free_range_frees:
  assumes "mm_inv kend ps s" and "set ps = {q. page_ok kend q \<and> q < p}"
    and "kend \<le> p" and "unat p mod 4096 = 0" and "p \<le> P2V PHYSTOP"
    and "P2V 0 \<le> p"
  shows "\<exists>s' qs. free_range kend p (P2V PHYSTOP) s = Inr s' \<and> mm_inv kend qs s' \<and>
           set qs = {q. page_ok kend q} \<and>
           totalram s' - fpages s' * PGSIZE = totalram s - fpages s * PGSIZE"
  using assms
proof (induction kend p "P2V PHYSTOP" s arbitrary: ps rule: free_range.induct)
  case (1 kend p s)
  have top: "unat (P2V PHYSTOP) = 18446462599726891008"
    by (simp add: P2V_def KERNBASE_def PHYSTOP_def)
  show ?case
  proof (cases "unat p + 4096 \<le> unat (P2V PHYSTOP)")
    case True
    then have next_p: "unat (p + PGSIZE) = unat p + 4096"
      using top by (simp add: PGSIZE_def unat_word_ariths)
    have base: "unat (P2V 0) = 18446462598732840960"
      by (simp add: P2V_def KERNBASE_def)
    have "unat (V2P p) = unat p - 18446462598732840960"
      using \<open>P2V 0 \<le> p\<close> by (simp add: V2P_def KERNBASE_def P2V_def unat_sub)
    then have "unat (V2P p) < unat PHYSTOP"
      using True top base \<open>P2V 0 \<le> p\<close> by (simp add: PHYSTOP_def word_le_nat_alt)
    then have ok: "page_ok kend p"
      using "1.prems" by (simp add: page_ok_def word_less_nat_alt PGSIZE_def
          word_unat_eq_iff unat_mod)
    have "p \<notin> set ps" using "1.prems"(2) by simp
    from kfree_Cons [OF "1.prems"(1) ok this] obtain s' where
      f: "kfree kend p s = Inr s'" and i: "mm_inv kend (p # ps) s'"
      by blast
    have tot: "totalram s' = totalram s" and fp: "fpages s' = fpages s + 1"
      using f page_ok_frame [OF ok]
      by (auto simp: kfree_def set_kmem_ref_def split: if_splits)
    let ?s = "s'\<lparr>totalram := totalram s' + PGSIZE\<rparr>"
    have i': "mm_inv kend (p # ps) ?s" using i by (simp add: mm_inv_def)
    have sub: "q < p + PGSIZE \<longleftrightarrow> q < p \<or> q = p" if "page_ok kend q" for q
      using page_ok_below [OF that "1.prems"(4) _ next_p] next_p
      by (auto simp: word_less_nat_alt)
    have sets: "set (p # ps) = {q. page_ok kend q \<and> q < p + PGSIZE}"
      using "1.prems"(2) ok sub by auto
    have bounds: "kend \<le> p + PGSIZE" "p + PGSIZE \<le> P2V PHYSTOP" "P2V 0 \<le> p + PGSIZE"
      using "1.prems" next_p True by (simp_all add: word_le_nat_alt)
    have al: "unat (p + PGSIZE) mod 4096 = 0"
      using "1.prems"(4) next_p by simp
    from "1.hyps" [OF True f i' sets bounds(1) al bounds(2,3)] obtain s'' qs where
      "free_range kend (p + PGSIZE) (P2V PHYSTOP) ?s = Inr s''" "mm_inv kend qs s''"
      "set qs = {q. page_ok kend q}"
      "totalram s'' - fpages s'' * PGSIZE = totalram ?s - fpages ?s * PGSIZE"
      by blast
    then show ?thesis
      using True f tot fp by (subst free_range.simps) (auto simp: algebra_simps)
  next
    case False
    obtain a where a: "unat p = 4096 * a"
      using "1.prems"(4) by (auto simp: mod_eq_0_iff_dvd elim!: dvdE)
    with False "1.prems"(5) top have p: "p = P2V PHYSTOP"
      by (simp add: word_le_nat_alt word_unat_eq_iff)
    have "q < p" if "page_ok kend q" for q
      using that unat_V2P [of q] unfolding p
      by (simp add: page_ok_def word_less_nat_alt top) (simp add: PHYSTOP_def)
    then show ?thesis
      using False "1.prems"(1,2) by (subst free_range.simps) auto
  qed
qed

lemma ROUNDUP_bounds:
  assumes "unat kend < 18446744073709547520"
  shows "unat kend \<le> unat (ROUNDUP kend PGSIZE)"
    and "unat (ROUNDUP kend PGSIZE) \<le> unat kend + 4095"
    and "unat (ROUNDUP kend PGSIZE) mod 4096 = 0"
proof -
  have "unat (kend + PGSIZE - 1) = unat kend + 4095"
    using assms by (simp add: PGSIZE_def unat_word_ariths)
  then have up: "unat (ROUNDUP kend PGSIZE) = unat kend + 4095 - (unat kend + 4095) mod 4096"
    by (simp add: ROUNDUP_def unat_ROUNDDOWN PGSIZE_def)
  have "(unat kend + 4095) mod 4096 < 4096" by simp
  then show "unat kend \<le> unat (ROUNDUP kend PGSIZE)"
    and "unat (ROUNDUP kend PGSIZE) \<le> unat kend + 4095"
    unfolding up by linarith+
  show "unat (ROUNDUP kend PGSIZE) mod 4096 = 0"
    unfolding ROUNDUP_def by (rule ROUNDDOWN_PGSIZE_aligned)
qed

text \<open>C31: After \<open>mm_init\<close>, whatever the memory held before, the kernel has not stopped, the
  free list is a well-formed chain without repetition that holds exactly the page-aligned
  addresses between the end of the kernel image and \<open>PHYSTOP\<close>, each with reference count 0,
  \<open>fpages\<close> is their number, and \<open>totalram\<close> has grown by \<open>fpages\<close> pages.\<close>

theorem mm_init_free_pages:
  assumes "P2V 0 \<le> kend" and "kend \<le> P2V PHYSTOP" and "freelist s = 0"
  shows "\<exists>s' ps. mm_init kend s = Inr s' \<and> mm_inv kend ps s' \<and>
           set ps = {p. page_ok kend p} \<and> unat (fpages s') = length ps \<and>
           totalram s' = totalram s + get_freeram s'"
proof -
  let ?s = "s\<lparr>kref := (\<lambda>i. if i < NFRAMES then 0 else kref s i), fpages := 0\<rparr>"
  have lo: "18446462598732840960 \<le> unat kend" and hi: "unat kend \<le> 18446462599726891008"
    using assms(1,2) by (simp_all add: word_le_nat_alt P2V_def KERNBASE_def PHYSTOP_def)
  let ?p = "ROUNDUP kend PGSIZE"
  have b: "unat kend < 18446744073709547520" using hi by simp
  note r = ROUNDUP_bounds [OF b]
  have "unat ?p \<le> 18446462599726891008"
  proof (rule ccontr)
    assume big: "\<not> ?thesis"
    obtain a where a: "unat ?p = 4096 * a"
      using r(3) by (auto simp: mod_eq_0_iff_dvd elim!: dvdE)
    with big have "4503530908136449 \<le> a" by linarith
    with a r(2) hi show False by linarith
  qed
  then have top: "?p \<le> P2V PHYSTOP"
    by (simp add: word_le_nat_alt P2V_def KERNBASE_def PHYSTOP_def)
  have base: "P2V 0 \<le> ?p"
    using lo r(1) by (simp add: word_le_nat_alt P2V_def KERNBASE_def)
  have none: "\<not> (page_ok kend q \<and> q < ?p)" for q
  proof
    assume q: "page_ok kend q \<and> q < ?p"
    then have "unat q mod 4096 = 0" "unat kend \<le> unat q" "unat q < unat ?p"
      by (simp_all add: page_ok_def PGSIZE_def word_unat_eq_iff unat_mod word_le_nat_alt
          word_less_nat_alt)
    moreover then obtain b where "unat q = 4096 * b"
      by (auto simp: mod_eq_0_iff_dvd elim!: dvdE)
    moreover obtain a where "unat ?p = 4096 * a"
      using r(3) by (auto simp: mod_eq_0_iff_dvd elim!: dvdE)
    ultimately show False using r(2) by simp
  qed
  have i: "mm_inv kend [] ?s" using assms(3) by (simp add: mm_inv_def)
  have "set [] = {q. page_ok kend q \<and> q < ?p}" using none by simp
  moreover have "kend \<le> ?p" using r(1) by (simp add: word_le_nat_alt)
  ultimately obtain s' ps where s': "free_range kend ?p (P2V PHYSTOP) ?s = Inr s'"
    "mm_inv kend ps s'" "set ps = {q. page_ok kend q}"
    "totalram s' - fpages s' * PGSIZE = totalram ?s - fpages ?s * PGSIZE"
    using free_range_frees [OF i _ _ r(3) top base] by blast
  then show ?thesis
    using mm_inv_length(2) [OF s'(2)]
    by (auto simp: mm_init_def get_freeram_def algebra_simps)
qed

text \<open>C32: On a well-formed free list \<open>kalloc\<close> never stops the kernel: it returns \<open>NULL\<close> and
  changes nothing exactly when no page is free; otherwise it returns a page of the managed range
  that was free and no longer is, gives it reference count 1, and touches no memory. In particular it does not
  fill the page, which its comment says it does.\<close>

theorem kalloc_correct:
  assumes "mm_inv kend ps s"
  shows "\<exists>r s'. kalloc s = Inr (r, s') \<and>
           (if ps = [] then r = 0 \<and> s' = s
            else r \<in> set ps \<and> page_ok kend r \<and> mm_inv kend (removeAll r ps) s' \<and>
                 mem s' = mem s \<and> get_kmem_ref (V2P r) s' = Inr 1)"
proof (cases ps)
  case Nil
  with assms show ?thesis by (simp add: kalloc_Nil)
next
  case (Cons p qs)
  with assms have ok: "page_ok kend p" and "removeAll p ps = qs"
    by (auto simp: mm_inv_def)
  with kalloc_Cons [of kend p qs s] assms Cons page_ok_frame [OF ok] show ?thesis
    by (auto simp: get_kmem_ref_def)
qed

text \<open>C33: Freeing an allocated page of the managed range keeps the allocator well formed, adds
  exactly that page to the free pages with reference count 0, changes no cell of memory but the
  page's own link, and the next \<open>kalloc\<close> returns that page.\<close>

theorem kfree_correct:
  assumes "mm_inv kend ps s" and "page_ok kend p" and "p \<notin> set ps"
  shows "\<exists>s1 s2. kfree kend p s = Inr s1 \<and> mm_inv kend (p # ps) s1 \<and>
           get_kmem_ref (V2P p) s1 = Inr 0 \<and> (\<forall>a. a \<noteq> p \<longrightarrow> mem s1 a = mem s a) \<and>
           kalloc s1 = Inr (p, s2) \<and> mm_inv kend ps s2"
proof -
  from kfree_Cons [OF assms] obtain s1 where s1: "kfree kend p s = Inr s1"
    "mm_inv kend (p # ps) s1" "mem s1 = (mem s)(p := freelist s)"
    "kref s1 = (kref s)(frame (V2P p) := 0)"
    by blast
  moreover from pg.free_then_alloc [OF assms] s1(1) obtain s2 where
    "kalloc s1 = Inr (p, s2)" "mm_inv kend ps s2"
    by auto
  ultimately show ?thesis
    using page_ok_frame [OF assms(2)] by (simp add: get_kmem_ref_def)
qed

section \<open>Witnesses\<close>

definition kmem0 :: kmem where
  "kmem0 = \<lparr>mem = (\<lambda>_. 0), freelist = 0, fpages = 0, kref = (\<lambda>_. 0), totalram = 0\<rparr>"

definition kmem2 :: kmem where
  "kmem2 = \<lparr>mem = (\<lambda>_. 0)(0xFFFF000000200000 := 0xFFFF000000201000), freelist = 0xFFFF000000200000,
     fpages = 2, kref = (\<lambda>_. 0), totalram = 8192\<rparr>"

lemma mm_inv_kmem2:
  "mm_inv 0xFFFF000000125000 [0xFFFF000000200000, 0xFFFF000000201000] kmem2"
  by (simp add: mm_inv_def kmem2_def page_ok_def PGSIZE_def V2P_def KERNBASE_def PHYSTOP_def)

theorem mm_init_free_pages_witness:
  "\<exists>s' ps. mm_init 0xFFFF000000125000 kmem0 = Inr s' \<and> mm_inv 0xFFFF000000125000 ps s' \<and>
     set ps = {p. page_ok 0xFFFF000000125000 p} \<and> unat (fpages s') = length ps \<and>
     totalram s' = totalram kmem0 + get_freeram s'"
  by (rule mm_init_free_pages) (simp_all add: P2V_def KERNBASE_def PHYSTOP_def kmem0_def)

theorem kalloc_correct_witness:
  "\<exists>r s'. kalloc kmem2 = Inr (r, s') \<and>
     r \<in> set [0xFFFF000000200000, 0xFFFF000000201000] \<and> page_ok 0xFFFF000000125000 r \<and>
     get_kmem_ref (V2P r) s' = Inr 1"
  using kalloc_correct [OF mm_inv_kmem2] by auto

theorem kfree_correct_witness:
  "\<exists>s1 s2. kfree 0xFFFF000000125000 0xFFFF000000300000 kmem2 = Inr s1 \<and>
     get_kmem_ref (V2P 0xFFFF000000300000) s1 = Inr 0 \<and>
     kalloc s1 = Inr (0xFFFF000000300000, s2)"
proof -
  have "page_ok 0xFFFF000000125000 0xFFFF000000300000"
    by (simp add: page_ok_def PGSIZE_def V2P_def KERNBASE_def PHYSTOP_def)
  from kfree_correct [OF mm_inv_kmem2 this] show ?thesis by auto
qed

end
