(* ===== verification/Klist.thy ===== *)
theory Klist
  imports K_Prelude
begin

text \<open>
  The circular doubly linked lists of \<open>inc/list.h\<close>, on an explicit heap: \<open>lnext\<close> and \<open>lprev\<close> are
  the two pointer fields of every \<open>struct list_head\<close>, indexed by its address. The operations are
  the C assignments in their order, so the aliasing of \<open>head\<close>, \<open>prev\<close> and \<open>next\<close> in an empty or
  one-element list is in the model. \<open>ring h head xs\<close> says that the list anchored at \<open>head\<close> holds
  exactly the entries \<open>xs\<close>, front to back; every operation is refined to the operation on \<open>xs\<close> it
  stands for. The run queue, the sleep queues, the buffer cache order, the device queue and the
  mount lists of the later theories are these lists, modelled by their \<open>xs\<close>.
\<close>

section \<open>Operations\<close>

record 'a list_heap =
  lnext :: "'a \<Rightarrow> 'a"
  lprev :: "'a \<Rightarrow> 'a"

definition set_next :: "'a \<Rightarrow> 'a \<Rightarrow> 'a list_heap \<Rightarrow> 'a list_heap" where
  "set_next p v h = h\<lparr>lnext := (lnext h)(p := v)\<rparr>"

definition set_prev :: "'a \<Rightarrow> 'a \<Rightarrow> 'a list_heap \<Rightarrow> 'a list_heap" where
  "set_prev p v h = h\<lparr>lprev := (lprev h)(p := v)\<rparr>"

definition list_init :: "'a \<Rightarrow> 'a list_heap \<Rightarrow> 'a list_heap" where
  "list_init head h = set_next head head (set_prev head head h)"

definition list_empty :: "'a \<Rightarrow> 'a list_heap \<Rightarrow> bool" where
  "list_empty head h \<longleftrightarrow> lnext h head = head"

definition list_front :: "'a \<Rightarrow> 'a list_heap \<Rightarrow> 'a" where
  "list_front head h = lnext h head"

definition list_back :: "'a \<Rightarrow> 'a list_heap \<Rightarrow> 'a" where
  "list_back head h = lprev h head"

definition list_insert :: "'a \<Rightarrow> 'a \<Rightarrow> 'a \<Rightarrow> 'a list_heap \<Rightarrow> 'a list_heap" where
  "list_insert cur prev nxt h =
     set_next prev cur (set_prev cur prev (set_next cur nxt (set_prev nxt cur h)))"

definition list_push_front :: "'a \<Rightarrow> 'a \<Rightarrow> 'a list_heap \<Rightarrow> 'a list_heap" where
  "list_push_front head cur h = list_insert cur head (lnext h head) h"

definition list_push_back :: "'a \<Rightarrow> 'a \<Rightarrow> 'a list_heap \<Rightarrow> 'a list_heap" where
  "list_push_back head cur h = list_insert cur (lprev h head) head h"

definition list_del :: "'a \<Rightarrow> 'a \<Rightarrow> 'a list_heap \<Rightarrow> 'a list_heap" where
  "list_del prev nxt h = set_next prev nxt (set_prev nxt prev h)"

definition list_drop :: "'a \<Rightarrow> 'a list_heap \<Rightarrow> 'a list_heap" where
  "list_drop item h = list_del (lprev h item) (lnext h item) h"

definition list_pop_front :: "'a \<Rightarrow> 'a list_heap \<Rightarrow> 'a list_heap" where
  "list_pop_front head h = list_drop (list_front head h) h"

definition list_pop_back :: "'a \<Rightarrow> 'a list_heap \<Rightarrow> 'a list_heap" where
  "list_pop_back head h = list_drop (list_back head h) h"

text \<open>
  The traversal of \<open>list_find\<close> ends only if following \<open>next\<close> from \<open>p\<close> comes back to \<open>head\<close>: not
  returning is \<open>None\<close>; the result is the entry, or nothing for the \<open>NULL\<close> of the C code.
\<close>

partial_function (option) list_find_from :: "'a \<Rightarrow> 'a \<Rightarrow> 'a \<Rightarrow> 'a list_heap \<Rightarrow> 'a option option" where
  "list_find_from p head item h =
     (if p = head then Some None
      else if p = item then Some (Some item)
      else list_find_from (lnext h p) head item h)"

definition list_find :: "'a \<Rightarrow> 'a \<Rightarrow> 'a list_heap \<Rightarrow> 'a option option" where
  "list_find head item h = list_find_from (lnext h head) head item h"

text \<open>
  The iteration macros: the entries visited by \<open>LIST_FOREACH_ENTRY\<close> and
  \<open>LIST_FOREACH_ENTRY_REVERSE\<close> when the body leaves the list alone.
\<close>

partial_function (option) foreach_from :: "'a \<Rightarrow> 'a \<Rightarrow> 'a list_heap \<Rightarrow> 'a list option" where
  "foreach_from p head h =
     (if p = head then Some []
      else Option.bind (foreach_from (lnext h p) head h) (\<lambda>xs. Some (p # xs)))"

definition foreach :: "'a \<Rightarrow> 'a list_heap \<Rightarrow> 'a list option" where
  "foreach head h = foreach_from (lnext h head) head h"

partial_function (option) foreach_reverse_from :: "'a \<Rightarrow> 'a \<Rightarrow> 'a list_heap \<Rightarrow> 'a list option" where
  "foreach_reverse_from p head h =
     (if p = head then Some []
      else Option.bind (foreach_reverse_from (lprev h p) head h) (\<lambda>xs. Some (p # xs)))"

definition foreach_reverse :: "'a \<Rightarrow> 'a list_heap \<Rightarrow> 'a list option" where
  "foreach_reverse head h = foreach_reverse_from (lprev h head) head h"

text \<open>
  \<open>LIST_FOREACH_ENTRY_SAFE\<close> reads the next entry \<open>n\<close> before the body runs on \<open>p\<close>, so that the body may take \<open>p\<close>
  off the list.
\<close>

partial_function (option) foreach_safe_from ::
  "('a \<Rightarrow> 'a list_heap \<Rightarrow> 'a list_heap) \<Rightarrow> 'a \<Rightarrow> 'a \<Rightarrow> 'a \<Rightarrow> 'a list_heap \<Rightarrow> 'a list_heap option" where
  "foreach_safe_from body p n head h =
     (if p = head then Some h
      else let h = body p h in foreach_safe_from body n (lnext h n) head h)"

definition foreach_safe :: "('a \<Rightarrow> 'a list_heap \<Rightarrow> 'a list_heap) \<Rightarrow> 'a \<Rightarrow> 'a list_heap \<Rightarrow> 'a list_heap option" where
  "foreach_safe body head h = (let p = lnext h head in foreach_safe_from body p (lnext h p) head h)"

section \<open>The entries of a list\<close>

text \<open>\<open>path f p xs q\<close>: following the field \<open>f\<close> from \<open>p\<close> visits \<open>xs\<close> and then arrives at \<open>q\<close>.\<close>

fun path :: "('a \<Rightarrow> 'a) \<Rightarrow> 'a \<Rightarrow> 'a list \<Rightarrow> 'a \<Rightarrow> bool" where
  "path f p [] q \<longleftrightarrow> f p = q"
| "path f p (x # xs) q \<longleftrightarrow> f p = x \<and> path f x xs q"

definition ring :: "'a list_heap \<Rightarrow> 'a \<Rightarrow> 'a list \<Rightarrow> bool" where
  "ring h head xs \<longleftrightarrow> distinct (head # xs) \<and>
     path (lnext h) head xs head \<and> path (lprev h) head (rev xs) head"

lemma path_append [simp]: "path f p (xs @ x # ys) q \<longleftrightarrow> path f p xs x \<and> path f x ys q"
  by (induction xs arbitrary: p) auto

lemma path_cong:
  "f' p' = f p \<Longrightarrow> (\<And>x. x \<in> set xs \<Longrightarrow> f' x = f x) \<Longrightarrow> path f' p' xs q = path f p xs q"
  by (induction xs arbitrary: p p') auto

lemma path_first: "path f p xs q \<Longrightarrow> f p = hd (xs @ [q])"
  by (cases xs) auto

lemma path_unique:
  "path f p xs q \<Longrightarrow> path f p ys q \<Longrightarrow> q \<notin> set xs \<Longrightarrow> q \<notin> set ys \<Longrightarrow> xs = ys"
proof (induction xs arbitrary: p ys)
  case Nil
  then show ?case by (cases ys) auto
next
  case (Cons x xs)
  then show ?case by (cases ys) auto
qed

declare last.simps [simp del]

lemma path_retarget:
  "path f p xs q \<Longrightarrow> distinct (p # xs) \<Longrightarrow> path (f(last (p # xs) := q')) p xs q'"
proof (induction xs arbitrary: p)
  case Nil
  then show ?case by (simp add: last_ConsL)
next
  case (Cons x xs)
  have "last (x # xs) \<in> set (x # xs)" by (rule last_in_set) simp
  with Cons.prems have "p \<noteq> last (x # xs)" by auto
  moreover have "path (f(last (x # xs) := q')) x xs q'"
    by (rule Cons.IH) (use Cons.prems in auto)
  ultimately show ?case
    using Cons.prems by (simp add: last_ConsR fun_upd_other del: fun_upd_apply)
qed

lemma path_split:
  "path f p (xs @ ys) q \<longleftrightarrow>
     path f p xs (hd (ys @ [q])) \<and> (ys \<noteq> [] \<longrightarrow> path f (hd ys) (tl ys) q)"
  by (cases ys) simp_all

lemma path_drop:
  assumes "path f p (xs @ x # ys) q" and "distinct (p # xs @ x # ys)"
  shows "path (f(last (p # xs) := f x)) p (xs @ ys) q"
proof -
  let ?l = "last (p # xs)" and ?n = "hd (ys @ [q])"
  have n: "f x = ?n" using assms(1) path_first by auto
  have "?l \<in> set (p # xs)" by (rule last_in_set) simp
  then have out: "?l \<notin> set ys" using assms(2) by auto
  have "path (f(?l := ?n)) p xs ?n"
    using assms path_retarget by (metis distinct_append append_Cons path_append)
  moreover have "path (f(?l := ?n)) (hd ys) (tl ys) q" if "ys \<noteq> []"
  proof -
    from that obtain y zs where ys: "ys = y # zs" by (cases ys) auto
    with assms(1) have "path f y zs q" by simp
    moreover have "path (f(?l := ?n)) y zs q = path f y zs q"
      using ys out by (intro path_cong) auto
    ultimately show ?thesis using ys by simp
  qed
  ultimately show ?thesis using n by (simp add: path_split)
qed

lemma path_insert:
  assumes "path f p (xs @ ys) q" and "distinct (p # xs @ ys)" and "c \<notin> set (p # xs @ ys)"
  shows "path (f(last (p # xs) := c, c := hd (ys @ [q]))) p (xs @ c # ys) q"
proof -
  let ?l = "last (p # xs)" and ?n = "hd (ys @ [q])"
  let ?f = "f(?l := c, c := ?n)"
  have "?l \<in> set (p # xs)" by (rule last_in_set) simp
  then have out: "?l \<notin> set ys" "?l \<noteq> c" using assms(2,3) by auto
  have "path f p xs ?n" and rest: "ys \<noteq> [] \<longrightarrow> path f (hd ys) (tl ys) q"
    using assms(1) by (simp_all add: path_split)
  then have "path (f(?l := c)) p xs c"
    using assms(2) path_retarget by (metis distinct_append append_Cons)
  moreover have "path ?f p xs c = path (f(?l := c)) p xs c"
    using assms(3) by (intro path_cong) auto
  moreover have "path ?f c ys q"
  proof (cases ys)
    case Nil
    then show ?thesis by simp
  next
    case (Cons y zs)
    with rest have "path f y zs q" by simp
    moreover have "path ?f y zs q = path f y zs q"
      using assms(3) out Cons by (intro path_cong) auto
    ultimately show ?thesis using Cons by simp
  qed
  ultimately show ?thesis by simp
qed

section \<open>Every operation on the entries\<close>

lemma ring_unique: "ring h head xs \<Longrightarrow> ring h head ys \<Longrightarrow> xs = ys"
  by (auto simp: ring_def intro: path_unique)

lemma ring_init: "ring (list_init head h) head []"
  by (simp add: ring_def list_init_def set_next_def set_prev_def)

lemma ring_empty: "ring h head xs \<Longrightarrow> list_empty head h \<longleftrightarrow> xs = []"
  by (cases xs) (auto simp: ring_def list_empty_def)

lemma ring_front: "ring h head xs \<Longrightarrow> list_front head h = hd (xs @ [head])"
  unfolding ring_def list_front_def by (blast intro: path_first)

lemma ring_back: "ring h head xs \<Longrightarrow> list_back head h = last (head # xs)"
proof -
  assume "ring h head xs"
  then have "list_back head h = hd (rev xs @ [head])"
    unfolding ring_def list_back_def by (blast intro: path_first)
  then show ?thesis by (cases xs rule: rev_cases) (simp_all add: last_ConsL last_ConsR)
qed

lemma hd_rev_last: "hd (rev xs @ [x]) = last (x # xs)"
  by (cases xs rule: rev_cases) (simp_all add: last_ConsL last_ConsR)

lemma last_rev_hd: "last (x # rev ys) = hd (ys @ [x])"
  by (cases ys) (simp_all add: last_ConsL last_ConsR)

lemma list_insert_fields:
  "lnext (list_insert cur prev nxt h) = (lnext h)(cur := nxt, prev := cur)"
  "lprev (list_insert cur prev nxt h) = (lprev h)(nxt := cur, cur := prev)"
  by (simp_all add: list_insert_def set_next_def set_prev_def)

lemma ring_insert:
  assumes "ring h head (xs @ ys)" and "cur \<notin> set (head # xs @ ys)"
  shows "ring (list_insert cur (last (head # xs)) (hd (ys @ [head])) h) head (xs @ cur # ys)"
proof -
  let ?l = "last (head # xs)" and ?n = "hd (ys @ [head])"
  have "?l \<in> set (head # xs)" by (rule last_in_set) simp
  then have l: "?l \<noteq> cur" using assms(2) by auto
  have "?n \<in> set (ys @ [head])" by (rule hd_in_set) simp
  then have n: "?n \<noteq> cur" using assms(2) by auto
  have "path ((lnext h)(?l := cur, cur := ?n)) head (xs @ cur # ys) head"
    using assms by (intro path_insert) (auto simp: ring_def)
  moreover have "(lnext h)(?l := cur, cur := ?n) = (lnext h)(cur := ?n, ?l := cur)"
    using l by (simp add: fun_upd_twist)
  moreover have "path ((lprev h)(last (head # rev ys) := cur, cur := hd (rev xs @ [head]))) head
      (rev ys @ cur # rev xs) head"
    using assms by (intro path_insert) (auto simp: ring_def)
  ultimately show ?thesis
    using assms by (auto simp: ring_def list_insert_fields last_rev_hd hd_rev_last)
qed

lemma ring_push_back:
  assumes "ring h head xs" and "cur \<notin> set (head # xs)"
  shows "ring (list_push_back head cur h) head (xs @ [cur])"
  using ring_insert [of h head xs "[]" cur] assms ring_back [OF assms(1)]
  by (simp add: list_push_back_def list_back_def)

lemma ring_push_front:
  assumes "ring h head xs" and "cur \<notin> set (head # xs)"
  shows "ring (list_push_front head cur h) head (cur # xs)"
  using ring_insert [of h head "[]" xs cur] assms ring_front [OF assms(1)]
  by (simp add: list_push_front_def list_front_def last_ConsL)

lemma list_drop_fields:
  "lnext (list_drop item h) = (lnext h)(lprev h item := lnext h item)"
  "lprev (list_drop item h) = (lprev h)(lnext h item := lprev h item)"
  by (simp_all add: list_drop_def list_del_def set_next_def set_prev_def)

lemma ring_drop_split:
  assumes "ring h head (xs @ x # ys)"
  shows "ring (list_drop x h) head (xs @ ys)"
proof -
  have nx: "lnext h x = hd (ys @ [head])"
    using assms path_first by (auto simp: ring_def)
  have "path (lprev h) x (rev xs) head"
    using assms by (auto simp: ring_def)
  then have px: "lprev h x = last (head # xs)"
    using path_first hd_rev_last by metis
  have "path ((lnext h)(last (head # xs) := lnext h x)) head (xs @ ys) head"
    using assms by (intro path_drop) (auto simp: ring_def)
  moreover have "path ((lprev h)(last (head # rev ys) := lprev h x)) head (rev ys @ rev xs) head"
    using assms by (intro path_drop) (auto simp: ring_def)
  ultimately show ?thesis
    using assms px nx by (auto simp: ring_def list_drop_fields last_rev_hd)
qed

lemma ring_drop:
  assumes "ring h head xs" and "x \<in> set xs"
  shows "ring (list_drop x h) head (remove1 x xs)"
proof -
  from assms(2) obtain ys zs where xs: "xs = ys @ x # zs" and "x \<notin> set ys"
    by (metis split_list_first)
  then have "remove1 x xs = ys @ zs" by (simp add: remove1_append)
  with assms(1) xs ring_drop_split show ?thesis by metis
qed

lemma ring_pop_front:
  assumes "ring h head (x # xs)"
  shows "ring (list_pop_front head h) head xs"
  using ring_drop_split [of h head "[]" x xs] ring_front [OF assms] assms
  by (simp add: list_pop_front_def)

lemma ring_pop_back:
  assumes "ring h head (xs @ [x])"
  shows "ring (list_pop_back head h) head xs"
  using ring_drop_split [of h head xs x "[]"] ring_back [OF assms] assms
  by (simp add: list_pop_back_def last_ConsR)

lemma ring_frame:
  assumes "\<And>x. x \<in> set (head # xs) \<Longrightarrow> lnext h' x = lnext h x \<and> lprev h' x = lprev h x"
  shows "ring h' head xs = ring h head xs"
proof -
  have "path (lnext h') head xs head = path (lnext h) head xs head"
    and "path (lprev h') head (rev xs) head = path (lprev h) head (rev xs) head"
    using assms by (auto intro!: path_cong)
  then show ?thesis by (simp add: ring_def)
qed

lemma ring_next_in:
  assumes "ring h head xs" and "x \<in> set (head # xs)"
  shows "lnext h x \<in> set (head # xs)" and "lprev h x \<in> set (head # xs)"
proof -
  have *: "path f p xs q \<Longrightarrow> x \<in> set (p # xs) \<Longrightarrow> f x \<in> set (q # xs)" for f p q and xs :: "'a list"
    by (induction xs arbitrary: p) auto
  show "lnext h x \<in> set (head # xs)"
    using assms * [of "lnext h" head xs head] by (auto simp: ring_def)
  show "lprev h x \<in> set (head # xs)"
    using assms * [of "lprev h" head "rev xs" head] by (auto simp: ring_def)
qed

lemma ring_drop_other:
  assumes "ring h a xs" and "x \<in> set xs" and "ring h b ys"
    and "set (a # xs) \<inter> set (b # ys) = {}"
  shows "ring (list_drop x h) b ys"
proof -
  have "lnext h x \<in> set (a # xs)" "lprev h x \<in> set (a # xs)"
    by (rule ring_next_in [OF assms(1)], simp add: assms(2))+
  then have "y \<noteq> lnext h x \<and> y \<noteq> lprev h x" if "y \<in> set (b # ys)" for y
    using that assms(4) by blast
  then have "ring (list_drop x h) b ys = ring h b ys"
    by (intro ring_frame) (simp add: list_drop_fields)
  with assms(3) show ?thesis by simp
qed

lemma ring_push_back_other:
  assumes "ring h a xs" and "ring h b ys" and "x \<notin> set (b # ys)"
    and "set (a # xs) \<inter> set (b # ys) = {}"
  shows "ring (list_push_back a x h) b ys"
proof -
  have "lprev h a \<in> set (a # xs)"
    by (rule ring_next_in [OF assms(1)]) simp
  then have "y \<noteq> lprev h a \<and> y \<noteq> a \<and> y \<noteq> x" if "y \<in> set (b # ys)" for y
    using that assms(3,4) by auto
  then have "ring (list_push_back a x h) b ys = ring h b ys"
    by (intro ring_frame) (simp add: list_push_back_def list_insert_fields)
  with assms(2) show ?thesis by simp
qed

lemma list_find_from_path:
  assumes "path (lnext h) p xs head" and "p \<noteq> head" and "head \<notin> set xs"
  shows "list_find_from p head item h =
           Some (if item \<in> set (p # xs) then Some item else None)"
  using assms
proof (induction xs arbitrary: p)
  case Nil
  then show ?case
    by (simp add: list_find_from.simps [of p] list_find_from.simps [of head])
next
  case (Cons x xs)
  then have "list_find_from x head item h = Some (if item \<in> set (x # xs) then Some item else None)"
    by (intro Cons.IH) auto
  with Cons.prems show ?case
    by (simp add: list_find_from.simps [of p])
qed

lemma foreach_from_path:
  assumes "path (lnext h) p xs head" and "p \<noteq> head" and "head \<notin> set xs"
  shows "foreach_from p head h = Some (p # xs)"
  using assms
proof (induction xs arbitrary: p)
  case Nil
  then show ?case by (simp add: foreach_from.simps [of p] foreach_from.simps [of head])
next
  case (Cons x xs)
  then have "foreach_from x head h = Some (x # xs)" by (intro Cons.IH) auto
  with Cons.prems show ?case by (simp add: foreach_from.simps [of p])
qed

lemma foreach_reverse_from_path:
  assumes "path (lprev h) p xs head" and "p \<noteq> head" and "head \<notin> set xs"
  shows "foreach_reverse_from p head h = Some (p # xs)"
  using assms
proof (induction xs arbitrary: p)
  case Nil
  then show ?case
    by (simp add: foreach_reverse_from.simps [of p] foreach_reverse_from.simps [of head])
next
  case (Cons x xs)
  then have "foreach_reverse_from x head h = Some (x # xs)" by (intro Cons.IH) auto
  with Cons.prems show ?case by (simp add: foreach_reverse_from.simps [of p])
qed

lemma ring_move:
  assumes "ring h a xs" and "ring h b ys" and "x \<in> set xs" and "set (a # xs) \<inter> set (b # ys) = {}"
  shows "ring (list_push_back b x (list_drop x h)) a (remove1 x xs)" and "ring (list_push_back b x (list_drop x h)) b (ys @ [x])"
proof -
  let ?h = "list_drop x h"
  have a: "ring ?h a (remove1 x xs)" using assms(1,3) by (rule ring_drop)
  have b: "ring ?h b ys" using assms by (intro ring_drop_other)
  have "distinct xs" and "x \<noteq> a" using assms(1,3) by (auto simp: ring_def)
  then have x: "x \<notin> set (a # remove1 x xs)" by (simp add: set_remove1_eq)
  have "x \<notin> set (b # ys)" using assms(3,4) by auto
  moreover have "set (b # ys) \<inter> set (a # remove1 x xs) = {}"
    using assms(4) set_remove1_subset [of x xs] by auto
  ultimately show "ring (list_push_back b x ?h) a (remove1 x xs)" "ring (list_push_back b x ?h) b (ys @ [x])"
    using ring_push_back_other [OF b a x] ring_push_back [OF b] by blast+
qed

text \<open>
  The loop of \<open>wakeup1\<close>: it visits every entry, also when it takes entries off the list while it goes, and moves
  exactly those that satisfy the test, in order, to the end of the other list.
\<close>

definition move_if :: "('a \<Rightarrow> bool) \<Rightarrow> 'a \<Rightarrow> 'a \<Rightarrow> 'a list_heap \<Rightarrow> 'a list_heap" where
  "move_if P b x h = (if P x then list_push_back b x (list_drop x h) else h)"

lemma ring_move_if:
  assumes r: "ring h a (us @ x # zs)" "ring h b ys" and d: "set (a # us @ x # zs) \<inter> set (b # ys) = {}"
  shows "ring (move_if P b x h) a (us @ (if P x then [] else [x]) @ zs)" and "ring (move_if P b x h) b (ys @ (if P x then [x] else []))"
proof -
  have "x \<notin> set us" using r(1) by (auto simp: ring_def)
  then have "remove1 x (us @ x # zs) = us @ zs" by (simp add: remove1_append)
  then show "ring (move_if P b x h) a (us @ (if P x then [] else [x]) @ zs)" "ring (move_if P b x h) b (ys @ (if P x then [x] else []))"
    using r ring_move [OF r _ d, of x] by (auto simp: move_if_def)
qed

lemma ring_next_entry:
  assumes "ring h a (us @ x # zs)"
  shows "lnext h x = hd (zs @ [a])"
  using assms path_first [of "lnext h" x zs a] by (simp add: ring_def)

lemma foreach_safe_from_moves:
  assumes "ring h a (us @ zs)" and "ring h b ys" and "set (a # us @ zs) \<inter> set (b # ys) = {}"
    and "p = hd (zs @ [a])" and "n = lnext h p"
  shows "\<exists>h'. foreach_safe_from (move_if P b) p n a h = Some h' \<and>
    ring h' a (us @ filter (\<lambda>x. \<not> P x) zs) \<and> ring h' b (ys @ filter P zs)"
  using assms
proof (induction zs arbitrary: h us ys p n)
  case Nil
  then have "foreach_safe_from (move_if P b) p n a h = Some h" by (subst foreach_safe_from.simps) simp
  then show ?case using Nil.prems by simp
next
  case (Cons z zs)
  note m = ring_move_if [OF Cons.prems(1-3), of P]
  have p: "p = z" "p \<noteq> a" "n = hd (zs @ [a])"
    using Cons.prems ring_next_entry [OF Cons.prems(1)] by (auto simp: ring_def)
  have "\<exists>h'. foreach_safe_from (move_if P b) n (lnext (move_if P b z h) n) a (move_if P b z h) = Some h' \<and>
      ring h' a ((us @ (if P z then [] else [z])) @ filter (\<lambda>x. \<not> P x) zs) \<and>
      ring h' b ((ys @ (if P z then [z] else [])) @ filter P zs)"
    using m Cons.prems(1,3) p(3) by (intro Cons.IH) (auto simp: ring_def)
  moreover have "foreach_safe_from (move_if P b) p n a h =
      foreach_safe_from (move_if P b) n (lnext (move_if P b z h) n) a (move_if P b z h)"
    using p by (subst foreach_safe_from.simps) (simp add: Let_def)
  ultimately show ?case by (simp split: if_splits)
qed

lemma foreach_safe_moves:
  assumes "ring h a xs" and "ring h b ys" and "set (a # xs) \<inter> set (b # ys) = {}"
  shows "\<exists>h'. foreach_safe (move_if P b) a h = Some h' \<and> ring h' a (filter (\<lambda>x. \<not> P x) xs) \<and> ring h' b (ys @ filter P xs)"
  using foreach_safe_from_moves [of h a "[]" xs b ys, OF _ assms(2) _ _ refl] assms ring_front [OF assms(1)]
  by (simp add: foreach_safe_def list_front_def Let_def)

section \<open>The queue interface\<close>

text \<open>
  The contract on which the run queue, the sleep queues and the buffer order rest: \<open>repr s q xs\<close>
  says that the queue at anchor \<open>q\<close> holds \<open>xs\<close>.
\<close>

locale list_queue =
  fixes push_back :: "'a \<Rightarrow> 'a \<Rightarrow> 's \<Rightarrow> 's"
    and pop_front :: "'a \<Rightarrow> 's \<Rightarrow> 's"
    and front :: "'a \<Rightarrow> 's \<Rightarrow> 'a"
    and empty :: "'a \<Rightarrow> 's \<Rightarrow> bool"
    and repr :: "'s \<Rightarrow> 'a \<Rightarrow> 'a list \<Rightarrow> bool"
  assumes repr_distinct: "repr s q xs \<Longrightarrow> distinct (q # xs)"
    and repr_push_back: "repr s q xs \<Longrightarrow> x \<notin> set (q # xs) \<Longrightarrow> repr (push_back q x s) q (xs @ [x])"
    and repr_pop_front: "repr s q (x # xs) \<Longrightarrow> repr (pop_front q s) q xs"
    and repr_front: "repr s q (x # xs) \<Longrightarrow> front q s = x"
    and repr_empty: "repr s q xs \<Longrightarrow> empty q s \<longleftrightarrow> xs = []"
begin

text \<open>Taking the front entry off and putting it back at the end is one round-robin turn.\<close>

lemma rotate_turn:
  assumes "repr s q (x # xs)"
  shows "repr (push_back q (front q s) (pop_front q s)) q (xs @ [x])"
proof -
  have "repr (pop_front q s) q xs" using assms by (rule repr_pop_front)
  moreover have "x \<notin> set (q # xs)" using repr_distinct [OF assms] by auto
  ultimately show ?thesis using repr_front [OF assms] by (simp add: repr_push_back)
qed

text \<open>Entries leave in the order in which they came: first in, first out.\<close>

lemma fifo:
  assumes "repr s q []" and "distinct (q # xs)"
  shows "repr (fold (push_back q) xs s) q xs"
proof -
  have "repr s q ys \<Longrightarrow> distinct (q # ys @ xs) \<Longrightarrow> repr (fold (push_back q) xs s) q (ys @ xs)" for ys
  proof (induction xs arbitrary: s ys)
    case (Cons x xs)
    then have "repr (push_back q x s) q (ys @ [x])"
      by (intro repr_push_back) auto
    with Cons.IH [of "push_back q x s" "ys @ [x]"] Cons.prems show ?case by simp
  qed simp
  from this [of "[]"] assms show ?thesis by simp
qed

end

interpretation kq: list_queue list_push_back list_pop_front list_front list_empty ring
proof
  show "\<And>s q xs. ring s q xs \<Longrightarrow> distinct (q # xs)"
    by (simp add: ring_def)
  show "\<And>s q xs x. ring s q xs \<Longrightarrow> x \<notin> set (q # xs) \<Longrightarrow> ring (list_push_back q x s) q (xs @ [x])"
    by (rule ring_push_back)
  show "\<And>s q x xs. ring s q (x # xs) \<Longrightarrow> ring (list_pop_front q s) q xs"
    by (rule ring_pop_front)
  show "\<And>s q x xs. ring s q (x # xs) \<Longrightarrow> list_front q s = x"
    by (simp add: ring_front)
  show "\<And>s q xs. ring s q xs \<Longrightarrow> list_empty q s \<longleftrightarrow> xs = []"
    by (rule ring_empty)
qed

section \<open>Properties\<close>

text \<open>C22: Moving an entry from one list to the end of another, as \<open>wakeup1\<close> and \<open>exit\<close> do with
  \<open>list_drop\<close> and \<open>list_push_back\<close>, removes exactly that entry from the first list, appends it to
  the second and leaves both rings closed in both directions, also where a list is empty or
  becomes empty.\<close>

theorem list_move_entry:
  assumes "ring h a xs" and "ring h b ys" and "x \<in> set xs"
    and "set (a # xs) \<inter> set (b # ys) = {}"
  shows "ring (list_push_back b x (list_drop x h)) a (remove1 x xs) \<and>
         ring (list_push_back b x (list_drop x h)) b (ys @ [x])"
  using ring_move [OF assms] by blast

text \<open>C34: On a well-formed list the traversals terminate: \<open>LIST_FOREACH_ENTRY\<close> visits exactly the
  entries from front to back, \<open>LIST_FOREACH_ENTRY_REVERSE\<close> from back to front, and \<open>list_find\<close>
  returns the entry if it is on the list and \<open>NULL\<close> otherwise.\<close>

theorem list_traversals:
  assumes "ring h head xs"
  shows "foreach head h = Some xs \<and> foreach_reverse head h = Some (rev xs) \<and>
         list_find head item h = Some (if item \<in> set xs then Some item else None)"
proof -
  have f: "path (lnext h) head xs head" and b: "path (lprev h) head (rev xs) head"
    and d: "distinct (head # xs)"
    using assms by (auto simp: ring_def)
  have "foreach head h = Some xs"
    using f d foreach_from_path [of h] by (cases xs)
      (auto simp: foreach_def foreach_from.simps [of head])
  moreover have "foreach_reverse head h = Some (rev xs)"
    using b d foreach_reverse_from_path [of h] by (cases xs rule: rev_cases)
      (auto simp: foreach_reverse_def foreach_reverse_from.simps [of head])
  moreover have "list_find head item h = Some (if item \<in> set xs then Some item else None)"
    using f d list_find_from_path [of h] by (cases xs)
      (auto simp: list_find_def list_find_from.simps [of head])
  ultimately show ?thesis by blast
qed

text \<open>A run queue built by pushing entries at the back of an initialised list holds them in
  that order, and a round-robin turn, popping the front entry and pushing it back, rotates the
  queue by one.\<close>

lemma queue_fifo_rotate:
  assumes "distinct (head # x # xs)"
  shows "ring (fold (list_push_back head) (x # xs) (list_init head h)) head (x # xs) \<and>
         (let q = fold (list_push_back head) (x # xs) (list_init head h)
          in ring (list_push_back head (list_front head q) (list_pop_front head q)) head (xs @ [x]))"
proof -
  have r: "ring (fold (list_push_back head) (x # xs) (list_init head h)) head (x # xs)"
    using ring_init assms by (rule kq.fifo)
  from r kq.rotate_turn [OF r] show ?thesis by (simp only: Let_def) 
qed

declare last.simps [simp]

theorem list_move_entry_witness:
  "\<exists>h. ring h (0::nat) [1, 2] \<and> ring h 10 [] \<and>
     ring (list_push_back 10 2 (list_drop 2 h)) 0 [1] \<and>
     ring (list_push_back 10 2 (list_drop 2 h)) 10 [2]"
proof -
  let ?h = "\<lparr>lnext = (\<lambda>_. 10)(0::nat := 1, 1 := 2, 2 := 0), lprev = (\<lambda>_. 10)(0 := 2, 1 := 0, 2 := 1)\<rparr>"
  have a: "ring ?h (0::nat) [1, 2]" and b: "ring ?h 10 []"
    by (simp_all add: ring_def)
  from list_move_entry [OF a b, of 2] a b show ?thesis by (intro exI [of _ ?h]) simp
qed

theorem list_traversals_witness:
  "let h = list_push_back 0 2 (list_push_back 0 1 (list_init (0::nat) \<lparr>lnext = \<lambda>_. 0, lprev = \<lambda>_. 0\<rparr>))
   in foreach 0 h = Some [1, 2] \<and> foreach_reverse 0 h = Some [2, 1] \<and>
      list_find 0 2 h = Some (Some 2) \<and> list_find 0 7 h = Some None"
proof -
  let ?h = "list_push_back 0 2 (list_push_back 0 1 (list_init (0::nat) \<lparr>lnext = \<lambda>_. 0, lprev = \<lambda>_. 0\<rparr>))"
  have "ring ?h 0 [1, 2]"
    using kq.fifo [OF ring_init, of "0::nat" "[1, 2]"] by simp
  from list_traversals [OF this, of 2] list_traversals [OF this, of 7] show ?thesis
    by (simp add: Let_def)
qed

lemma queue_fifo_rotate_witness:
  "let q = fold (list_push_back 0) [1, 2, 3] (list_init (0::nat) \<lparr>lnext = \<lambda>_. 0, lprev = \<lambda>_. 0\<rparr>)
   in ring (list_push_back 0 (list_front 0 q) (list_pop_front 0 q)) 0 [2, 3, 1]"
  using queue_fifo_rotate [of "0::nat" 1 "[2, 3]" "\<lparr>lnext = \<lambda>_. 0, lprev = \<lambda>_. 0\<rparr>"]
  by (simp add: Let_def)

end
