(* ===== verification/Bytes.thy ===== *)
theory Bytes
  imports K_Prelude
begin

text \<open>
  Memory objects as bytes and the little-endian integers inside them. The kernel reads the fields
  of on-disk structures by casting a block's data to a struct pointer; on AArch64 such a field is
  the little-endian combination of its bytes. An object is a function from byte offsets to bytes;
  the offsets at and beyond its size carry \<open>0\<close>, which \<^term>\<open>clip\<close> establishes, so that two objects
  of the same size are equal as functions exactly when their bytes are.
\<close>

type_synonym bytes = "nat \<Rightarrow> u8"

definition clip :: "nat \<Rightarrow> bytes \<Rightarrow> bytes" where
  "clip n m = (\<lambda>i. if i < n then m i else 0)"

primrec get_le :: "nat \<Rightarrow> bytes \<Rightarrow> nat \<Rightarrow> 'a::len word" where
  "get_le 0 m a = 0"
| "get_le (Suc n) m a = ucast (m a) OR push_bit 8 (get_le n m (Suc a))"

primrec put_le :: "nat \<Rightarrow> bytes \<Rightarrow> nat \<Rightarrow> 'a::len word \<Rightarrow> bytes" where
  "put_le 0 m a v = m"
| "put_le (Suc n) m a v = put_le n (m(a := ucast v)) (Suc a) (drop_bit 8 v)"

abbreviation get16 :: "bytes \<Rightarrow> nat \<Rightarrow> u16" where "get16 \<equiv> get_le 2"
abbreviation get32 :: "bytes \<Rightarrow> nat \<Rightarrow> u32" where "get32 \<equiv> get_le 4"
abbreviation get64 :: "bytes \<Rightarrow> nat \<Rightarrow> u64" where "get64 \<equiv> get_le 8"
abbreviation put16 :: "bytes \<Rightarrow> nat \<Rightarrow> u16 \<Rightarrow> bytes" where "put16 \<equiv> put_le 2"
abbreviation put32 :: "bytes \<Rightarrow> nat \<Rightarrow> u32 \<Rightarrow> bytes" where "put32 \<equiv> put_le 4"
abbreviation put64 :: "bytes \<Rightarrow> nat \<Rightarrow> u64 \<Rightarrow> bytes" where "put64 \<equiv> put_le 8"

text \<open>\<open>memmove (dst + di, src + si, n)\<close> for objects that do not overlap.\<close>

definition memcopy :: "bytes \<Rightarrow> nat \<Rightarrow> bytes \<Rightarrow> nat \<Rightarrow> nat \<Rightarrow> bytes" where
  "memcopy dst di src si n = (\<lambda>i. if di \<le> i \<and> i < di + n then src (si + (i - di)) else dst i)"

definition memset_bytes :: "bytes \<Rightarrow> nat \<Rightarrow> u8 \<Rightarrow> nat \<Rightarrow> bytes" where
  "memset_bytes dst di c n = (\<lambda>i. if di \<le> i \<and> i < di + n then c else dst i)"

section \<open>Lemmas\<close>

lemma clip_idem [simp]: "clip n (clip n m) = clip n m"
  by (simp add: clip_def fun_eq_iff)

lemma clip_apply: "clip n m i = (if i < n then m i else 0)"
  by (simp add: clip_def)

lemma clip_eq_iff: "clip n m = clip n m' \<longleftrightarrow> (\<forall>i<n. m i = m' i)"
  by (auto simp: clip_def fun_eq_iff)

lemma clip_memcopy [simp]: "clip n (memcopy dst 0 src 0 n) = clip n src"
  by (simp add: clip_def memcopy_def fun_eq_iff)

lemma put_le_frame: "i < a \<or> a + n \<le> i \<Longrightarrow> put_le n m a v i = m i"
  by (induction n arbitrary: m a v) auto

lemma get_le_cong: "(\<And>i. a \<le> i \<Longrightarrow> i < a + n \<Longrightarrow> m i = m' i) \<Longrightarrow>
     get_le n m a = (get_le n m' a :: 'a::len word)"
proof (induction n arbitrary: a)
  case (Suc n)
  then have "get_le n m (Suc a) = (get_le n m' (Suc a) :: 'a word)" by (intro Suc.IH) auto
  with Suc.prems show ?case by simp
qed simp

lemma get_put_le_other:
  "a + n \<le> b \<or> b + k \<le> a \<Longrightarrow> get_le n (put_le k m b v) a = get_le n m a"
  by (rule get_le_cong) (auto intro!: put_le_frame)

lemma get_le_clip: "a + n \<le> k \<Longrightarrow> get_le n (clip k m) a = get_le n m a"
  by (rule get_le_cong) (simp add: clip_def)

lemma get_put_le_take_bit:
  "get_le n (put_le n m a v) a = take_bit (8 * n) (v :: 'a::len word)"
proof (induction n arbitrary: m a v)
  case (Suc n)
  have "(ucast (ucast v :: u8) :: 'a word) = take_bit 8 v"
    by (simp add: bit_eq_iff bit_simps)
  moreover have "put_le n (m(a := ucast v)) (Suc a) (drop_bit 8 v) a = ucast v"
    by (simp add: put_le_frame)
  moreover have "take_bit 8 v OR push_bit 8 (take_bit (8 * n) (drop_bit 8 v)) = take_bit (8 * Suc n) v"
    by (auto simp: bit_eq_iff bit_simps)
  ultimately show ?case by (simp add: Suc.IH)
qed simp

lemma get_put_le [simp]:
  "LENGTH('a) \<le> 8 * n \<Longrightarrow> get_le n (put_le n m a v) a = (v :: 'a::len word)"
  by (simp add: get_put_le_take_bit take_bit_word_eq_self)

text \<open>An array of 32-bit words, the \<open>i\<close>-th at offset \<open>a + 4 * i\<close>.\<close>

lemma get32_put32_array [simp]:
  "get32 (put32 m (a + 4 * i) v) (a + 4 * j) = (if i = j then v else get32 m (a + 4 * j))"
  by (auto intro!: get_put_le_other)

lemma get_le_zero [simp]: "get_le n (\<lambda>_. 0) a = 0"
  by (induction n arbitrary: a) simp_all

end
