(* ===== verification/Dev.thy ===== *)
theory Dev
  imports Bytes Klist
begin

text \<open>
  The block device: the SD card behind \<open>emmc_seek\<close>, \<open>emmc_read\<close> and \<open>emmc_write\<close>
  (\<open>kern/emmc.c\<close>) and the request queue of \<open>kern/dev.c\<close>.

  The card's register protocol is not modelled. A data command transfers whole 512-byte sectors
  or fails; which sectors fail is the parameter \<open>broken\<close> of the card. The card also keeps the
  sectors it had at power-on (\<open>base\<close>) and the sequence of sector writes since (\<open>writes\<close>), so that
  a power failure at any moment is the same card with a prefix of its writes; \<open>medium\<close> is what the
  sectors hold.

  Buffers are addressed by number: \<open>0\<close> to \<open>NBUF - 1\<close> are the entries of \<open>bcache.buf\<close>, the number
  \<open>NBUF\<close> is the buffer that \<open>dev_init\<close> has on its stack.
\<close>

section \<open>The card\<close>

definition SD_BLOCK_SIZE :: nat where "SD_BLOCK_SIZE = 512"
definition BSIZE :: nat where "BSIZE = 4096"

record emmc =
  ull_offset :: u64
  card_supports_sdhc :: bool
  base :: "u32 \<Rightarrow> bytes"
  writes :: "(u32 \<times> bytes) list"
  broken :: "u32 \<Rightarrow> bool"

definition replay :: "(u32 \<times> bytes) list \<Rightarrow> (u32 \<Rightarrow> bytes) \<Rightarrow> u32 \<Rightarrow> bytes" where
  "replay ws m = fold (\<lambda>(n, d) m. m(n := d)) ws m"

definition medium :: "emmc \<Rightarrow> u32 \<Rightarrow> bytes" where
  "medium c = replay (writes c) (base c)"

definition power_cut :: "nat \<Rightarrow> emmc \<Rightarrow> emmc" where
  "power_cut k c = c\<lparr>writes := take k (writes c)\<rparr>"

text \<open>The \<open>n\<close> sector writes that store the bytes \<open>d\<close> from sector \<open>sec\<close> on.\<close>

definition sector_writes :: "u32 \<Rightarrow> bytes \<Rightarrow> nat \<Rightarrow> (u32 \<times> bytes) list" where
  "sector_writes sec d n =
     map (\<lambda>j. (sec + of_nat j, clip SD_BLOCK_SIZE (\<lambda>i. d (SD_BLOCK_SIZE * j + i)))) [0..<n]"

text \<open>
  The command argument is a sector number on an SDHC card and a byte address on an SDSC card;
  \<open>emmc_issue_command\<close> is tried three times, and a broken sector fails each time.
\<close>

definition card_sector :: "emmc \<Rightarrow> u32 \<Rightarrow> u32" where
  "card_sector c arg = (if card_supports_sdhc c then arg else arg div of_nat SD_BLOCK_SIZE)"

definition emmc_do_data_command ::
  "emmc \<Rightarrow> bool \<Rightarrow> bytes \<Rightarrow> u64 \<Rightarrow> u32 \<Rightarrow> int \<times> bytes \<times> emmc" where
  "emmc_do_data_command c is_write buf buf_size block_no =
     (let arg = if \<not> card_supports_sdhc c then block_no * of_nat SD_BLOCK_SIZE else block_no;
          sec = card_sector c arg;
          cnt = unat buf_size;
          n = cnt div SD_BLOCK_SIZE
      in if cnt < SD_BLOCK_SIZE then (-1, buf, c)
         else if cnt mod SD_BLOCK_SIZE \<noteq> 0 then (-1, buf, c)
         else if list_ex (\<lambda>j. broken c (sec + of_nat j)) [0..<n] then (-1, buf, c)
         else if is_write then (0, buf, c\<lparr>writes := writes c @ sector_writes sec buf n\<rparr>)
         else (0, \<lambda>i. if i < cnt
                       then medium c (sec + of_nat (i div SD_BLOCK_SIZE)) (i mod SD_BLOCK_SIZE)
                       else buf i, c))"

definition emmc_do_read :: "emmc \<Rightarrow> bytes \<Rightarrow> u64 \<Rightarrow> u32 \<Rightarrow> u64 \<times> bytes \<times> emmc" where
  "emmc_do_read c buf buf_size block_no =
     (case emmc_do_data_command c False buf buf_size block_no of
        (r, buf', c') \<Rightarrow> (if r < 0 then -1 else buf_size, buf', c'))"

definition emmc_do_write :: "emmc \<Rightarrow> bytes \<Rightarrow> u64 \<Rightarrow> u32 \<Rightarrow> u64 \<times> bytes \<times> emmc" where
  "emmc_do_write c buf buf_size block_no =
     (case emmc_do_data_command c True buf buf_size block_no of
        (r, buf', c') \<Rightarrow> (if r < 0 then -1 else buf_size, buf', c'))"

definition emmc_seek :: "emmc \<Rightarrow> u64 \<Rightarrow> emmc" where
  "emmc_seek c off = c\<lparr>ull_offset := off\<rparr>"

definition emmc_read :: "emmc \<Rightarrow> bytes \<Rightarrow> u64 \<Rightarrow> u64 \<times> bytes \<times> emmc" where
  "emmc_read c buf cnt =
     (if unat (ull_offset c) mod SD_BLOCK_SIZE \<noteq> 0 then (-1, buf, c)
      else let nblock = ucast (ull_offset c div of_nat SD_BLOCK_SIZE) :: u32
           in case emmc_do_read c buf cnt nblock of
                (r, buf', c') \<Rightarrow> (if r \<noteq> cnt then -1 else cnt, buf', c'))"

definition emmc_write :: "emmc \<Rightarrow> bytes \<Rightarrow> u64 \<Rightarrow> u64 \<times> bytes \<times> emmc" where
  "emmc_write c buf cnt =
     (if unat (ull_offset c) mod SD_BLOCK_SIZE \<noteq> 0 then (-1, buf, c)
      else let nblock = ucast (ull_offset c div of_nat SD_BLOCK_SIZE) :: u32
           in case emmc_do_write c buf cnt nblock of
                (r, buf', c') \<Rightarrow> (if r \<noteq> cnt then -1 else cnt, buf', c'))"

section \<open>Buffers, superblocks and the state of the block layer\<close>

definition B_BUSY :: u32 where "B_BUSY = 1"
definition B_VALID :: u32 where "B_VALID = 2"
definition B_DIRTY :: u32 where "B_DIRTY = 4"

definition NBUF :: nat where "NBUF = 126"
definition NMINOR :: nat where "NMINOR = 10"
definition ROOTDEV :: u32 where "ROOTDEV = 1"

record buf =
  b_flags :: u32
  b_dev :: u32
  b_blockno :: u32
  b_data :: bytes

record v6_superblock =
  v6_size :: u32
  v6_nblocks :: u32
  v6_ninodes :: u32
  v6_nlog :: u32
  v6_logstart :: u32
  v6_inodestart :: u32
  v6_bmapstart :: u32

record superblock =
  sb_major :: int
  sb_minor :: int
  sb_blocksize :: u32
  sb_lba :: u32
  sb_nsecs :: u32
  fs_info :: "v6_superblock option"
  s_blocksize_bits :: u8
  sb_flags :: int

record iost =
  sdcard :: emmc
  devque :: "nat list"
  bufs :: "nat \<Rightarrow> buf"
  lru :: "nat list"
  sb :: "nat \<Rightarrow> superblock"
  first_bno :: u32
  nblocks :: u32
  mbr :: bytes
  ndev :: nat

definition buf_upd :: "nat \<Rightarrow> (buf \<Rightarrow> buf) \<Rightarrow> 'a iost_scheme \<Rightarrow> 'a iost_scheme" where
  "buf_upd b f s = s\<lparr>bufs := (bufs s)(b := f (bufs s b))\<rparr>"

section \<open>The request queue\<close>

text \<open>
  One iteration of the loop of \<open>dev_start\<close>: the sector address is computed in 32 bits, and so is
  the byte offset \<open>bno * SD_BLOCK_SIZE\<close> before it is widened for \<open>emmc_seek\<close>.
\<close>

definition request_bno :: "nat \<Rightarrow> 'a iost_scheme \<Rightarrow> (u32 \<times> 'a iost_scheme) kres" where
  "request_bno b s =
     (let B = bufs s b in
      if b_blockno B = -1 then Inr (0, s)
      else if \<not> unat (b_dev B) < NMINOR then Inl (Fault ''sb[dev]'')
      else let p = sb s (unat (b_dev B)); s = s\<lparr>first_bno := sb_lba p, nblocks := sb_nsecs p\<rparr>
           in if \<not> b_blockno B < nblocks s then Inl (Panic ''assert(b->blockno < nblocks)'')
              else Inr (b_blockno B * 8 + first_bno s, s))"

definition transfer :: "nat \<Rightarrow> u32 \<Rightarrow> 'a iost_scheme \<Rightarrow> 'a iost_scheme kres" where
  "transfer b bno s =
     (let c = emmc_seek (sdcard s) (ucast (bno * of_nat SD_BLOCK_SIZE :: u32));
          B = bufs s b
      in if b_flags B AND B_DIRTY \<noteq> 0
         then (case emmc_write c (b_data B) (of_nat BSIZE) of
                 (r, d, c') \<Rightarrow> if r = of_nat BSIZE then Inr (s\<lparr>sdcard := c'\<rparr>)
                               else Inl (Panic ''assert(emmc_write)''))
         else (case emmc_read c (b_data B) (of_nat BSIZE) of
                 (r, d, c') \<Rightarrow> if r = of_nat BSIZE
                               then Inr (buf_upd b (\<lambda>B. B\<lparr>b_data := d\<rparr>) (s\<lparr>sdcard := c'\<rparr>))
                               else Inl (Panic ''assert(emmc_read)'')))"

definition dev_serve :: "nat \<Rightarrow> 'a iost_scheme \<Rightarrow> 'a iost_scheme kres" where
  "dev_serve b s =
     kbind (request_bno b s) (\<lambda>(bno, s).
     kbind (transfer b bno s) (\<lambda>s.
     Inr (buf_upd b (\<lambda>B. B\<lparr>b_flags := (b_flags B OR B_VALID) AND NOT B_DIRTY\<rparr>) s)))"

lemma dev_serve_devque: "dev_serve b s = Inr s' \<Longrightarrow> devque s' = devque s"
  by (auto simp: dev_serve_def request_bno_def transfer_def buf_upd_def Let_def
      split: if_splits prod.splits)

function dev_start :: "'a iost_scheme \<Rightarrow> 'a iost_scheme kres" where
  "dev_start s =
     (if devque s = [] then Inr s
      else kbind (dev_serve (hd (devque s)) s)
             (\<lambda>s'. dev_start (s'\<lparr>devque := tl (devque s')\<rparr>)))"
  by pat_completeness auto
termination
  by (relation "measure (\<lambda>s. length (devque s))") (auto dest: dev_serve_devque)

declare dev_start.simps [simp del]

definition devrw :: "nat \<Rightarrow> 'a iost_scheme \<Rightarrow> 'a iost_scheme kres" where
  "devrw b s =
     (let s = s\<lparr>devque := devque s @ [b]\<rparr> in
      kbind (if hd (devque s) = b then dev_start s else Inr s) (\<lambda>s.
      if b_flags (bufs s b) AND (B_VALID OR B_DIRTY) \<noteq> B_VALID then Inl (Sleeps ''devrw'')
      else Inr s))"

text \<open>
  \<open>dev_init\<close>: the card is initialised (\<open>ret\<close> is the result of \<open>emmc_init\<close>), the master boot
  record is read through a buffer on the stack and its partitions are counted up to the first
  empty entry.
\<close>

definition mbr_lba :: "bytes \<Rightarrow> nat \<Rightarrow> u32" where
  "mbr_lba m i = get32 m (446 + 16 * i + 8)"

definition mbr_nsecs :: "bytes \<Rightarrow> nat \<Rightarrow> u32" where
  "mbr_nsecs m i = get32 m (446 + 16 * i + 12)"

definition mbr_signature :: "bytes \<Rightarrow> u16" where
  "mbr_signature m = get16 m 510"

definition dev_init :: "int \<Rightarrow> 'a iost_scheme \<Rightarrow> 'a iost_scheme kres" where
  "dev_init ret s =
     (let s = s\<lparr>devque := []\<rparr> in
      if ret \<noteq> 0 then Inl (Panic ''assert(ret == 0)'')
      else kbind (devrw NBUF
             (buf_upd NBUF (\<lambda>b. b\<lparr>b_blockno := -1, b_flags := 0, b_dev := ROOTDEV\<rparr>) s)) (\<lambda>s.
           let s = s\<lparr>mbr := clip 512 (b_data (bufs s NBUF))\<rparr> in
           if mbr_signature (mbr s) \<noteq> 0xAA55 then Inl (Panic ''assert(mbr.signature)'')
           else Inr (s\<lparr>ndev := ndev s + length (takeWhile (\<lambda>i. mbr_lba (mbr s) i \<noteq> 0) [0..<4])\<rparr>)))"

section \<open>The disk of a device\<close>

text \<open>
  \<open>blk_sector s d b\<close> is the first of the eight sectors of block \<open>b\<close> of device \<open>d\<close>, and
  \<open>disk s d b\<close> the block's contents on the card. \<open>key_ok\<close> says that the block lies inside its
  partition, that the partition ends below 4 GiB, so that the 32-bit byte offset does not wrap,
  and that none of its sectors is broken.
\<close>

definition blk_sector :: "'a iost_scheme \<Rightarrow> u32 \<Rightarrow> u32 \<Rightarrow> u32" where
  "blk_sector s d b = b * 8 + sb_lba (sb s (unat d))"

definition block_at :: "(u32 \<Rightarrow> bytes) \<Rightarrow> u32 \<Rightarrow> bytes" where
  "block_at m sec =
     clip BSIZE (\<lambda>i. m (sec + of_nat (i div SD_BLOCK_SIZE)) (i mod SD_BLOCK_SIZE))"

definition disk :: "'a iost_scheme \<Rightarrow> u32 \<Rightarrow> u32 \<Rightarrow> bytes" where
  "disk s d b = block_at (medium (sdcard s)) (blk_sector s d b)"

definition key_ok :: "'a iost_scheme \<Rightarrow> u32 \<Rightarrow> u32 \<Rightarrow> bool" where
  "key_ok s d b \<longleftrightarrow> unat d < NMINOR \<and>
     8 * (unat b + 1) \<le> unat (sb_nsecs (sb s (unat d))) \<and>
     unat (sb_lba (sb s (unat d))) + unat (sb_nsecs (sb s (unat d))) \<le> 8388608 \<and>
     (\<forall>j<8. \<not> broken (sdcard s) (blk_sector s d b + of_nat j))"

definition parts_disjoint :: "'a iost_scheme \<Rightarrow> bool" where
  "parts_disjoint s \<longleftrightarrow> (\<forall>i<NMINOR. \<forall>j<NMINOR. i \<noteq> j \<longrightarrow>
     unat (sb_lba (sb s i)) + unat (sb_nsecs (sb s i)) \<le> unat (sb_lba (sb s j)) \<or>
     unat (sb_lba (sb s j)) + unat (sb_nsecs (sb s j)) \<le> unat (sb_lba (sb s i)))"

section \<open>Lemmas\<close>

lemmas size_defs = SD_BLOCK_SIZE_def BSIZE_def NBUF_def NMINOR_def

lemma replay_append: "replay (xs @ ys) m = replay ys (replay xs m)"
  by (simp add: replay_def)

lemma replay_other: "n \<notin> fst ` set ws \<Longrightarrow> replay ws m n = m n"
  by (induction ws arbitrary: m) (auto simp: replay_def)

lemma replay_sector_writes:
  assumes "j < n" and "n \<le> 8"
  shows "replay (sector_writes sec d n) m (sec + of_nat j) =
           clip SD_BLOCK_SIZE (\<lambda>i. d (SD_BLOCK_SIZE * j + i))"
  using assms
proof (induction n)
  case (Suc n)
  have last: "sector_writes sec d (Suc n) = sector_writes sec d n @
      [(sec + of_nat n, clip SD_BLOCK_SIZE (\<lambda>i. d (SD_BLOCK_SIZE * n + i)))]"
    by (simp add: sector_writes_def)
  have "(of_nat j :: u32) = of_nat n \<longleftrightarrow> j = n"
    using Suc.prems by (intro of_nat_u32_eq_iff) auto
  with Suc show ?case
    by (cases "j = n") (simp_all add: last replay_append, simp_all add: replay_def)
qed simp

lemma sector_writes_clip: "sector_writes sec (clip BSIZE d) 8 = sector_writes sec d 8"
  by (auto simp: sector_writes_def clip_def fun_eq_iff size_defs)

lemma block_at_sector_writes:
  "block_at (replay (sector_writes sec d 8) m) sec = clip BSIZE d"
proof -
  have "replay (sector_writes sec d 8) m (sec + of_nat (i div SD_BLOCK_SIZE)) (i mod SD_BLOCK_SIZE) = d i"
    if "i < BSIZE" for i
  proof -
    have "i div SD_BLOCK_SIZE < 8" using that by (simp add: size_defs)
    then show ?thesis
      by (simp add: replay_sector_writes clip_apply) (simp add: size_defs)
  qed
  then show ?thesis by (auto simp: block_at_def clip_def)
qed

lemma unat_sector:
  assumes "key_ok s d b" and "j < 8"
  shows "unat (blk_sector s d b + of_nat j) = unat (sb_lba (sb s (unat d))) + 8 * unat b + j"
proof -
  have "blk_sector s d b + of_nat j = of_nat (unat (sb_lba (sb s (unat d))) + 8 * unat b + j)"
    by (simp add: blk_sector_def)
  moreover have "unat (sb_lba (sb s (unat d))) + 8 * unat b + j < 8388608"
    using assms by (simp add: key_ok_def)
  ultimately show ?thesis by (simp only: unat_of_nat_u32)
qed

lemma part_ranges_disjoint:
  "l + 8 * b + j = l' + 8 * b' + j' \<Longrightarrow> 8 * (b + 1) \<le> n \<Longrightarrow> 8 * (b' + 1) \<le> n' \<Longrightarrow> j < 8 \<Longrightarrow> j' < 8 \<Longrightarrow>
   l + n \<le> l' \<or> l' + n' \<le> (l :: nat) \<Longrightarrow> False"
  by (elim disjE) simp_all

lemma sectors_disjoint:
  assumes "key_ok s d b" and "key_ok s d' b'" and "parts_disjoint s" and "(d, b) \<noteq> (d', b')"
    and "j < 8" and "j' < 8"
  shows "blk_sector s d b + of_nat j \<noteq> blk_sector s d' b' + of_nat j'"
proof
  assume eq: "blk_sector s d b + of_nat j = blk_sector s d' b' + of_nat j'"
  let ?l = "\<lambda>d. unat (sb_lba (sb s (unat d)))" and ?n = "\<lambda>d. unat (sb_nsecs (sb s (unat d)))"
  have u: "?l d + 8 * unat b + j = ?l d' + 8 * unat b' + j'"
    using unat_sector [OF assms(1,5)] unat_sector [OF assms(2,6)] eq by simp
  have k: "unat d < NMINOR" "8 * (unat b + 1) \<le> ?n d" "unat d' < NMINOR" "8 * (unat b' + 1) \<le> ?n d'"
    using assms(1,2) by (simp_all add: key_ok_def)
  show False
  proof (cases "d = d'")
    case True
    with u assms(5,6) have "unat b = unat b'" by simp
    with True assms(4) show False by (simp add: word_unat_eq_iff)
  next
    case False
    then have "unat d \<noteq> unat d'" by (simp add: word_unat_eq_iff)
    then have "?l d + ?n d \<le> ?l d' \<or> ?l d' + ?n d' \<le> ?l d"
      using assms(3) k(1,3) unfolding parts_disjoint_def by blast
    then show False by (rule part_ranges_disjoint [OF u k(2,4) assms(5,6)])
  qed
qed

text \<open>Below 4 GiB the byte offset computed in 32 bits names the sector it was computed from.\<close>

lemma seek_sector:
  assumes "unat (bno :: u32) < 8388608"
  shows "unat (ucast (bno * of_nat SD_BLOCK_SIZE) :: u64) mod SD_BLOCK_SIZE = 0"
    and "ucast ((ucast (bno * of_nat SD_BLOCK_SIZE) :: u64) div of_nat SD_BLOCK_SIZE) = bno"
    and "bno * of_nat SD_BLOCK_SIZE div of_nat SD_BLOCK_SIZE = bno"
proof -
  have u: "unat (bno * 512) = 512 * unat bno"
    using assms by (simp add: unat_word_ariths)
  then have v: "unat (ucast (bno * 512) :: u64) = 512 * unat bno"
    using assms by (simp add: unsigned_ucast_eq take_bit_nat_eq_self)
  from v show "unat (ucast (bno * of_nat SD_BLOCK_SIZE) :: u64) mod SD_BLOCK_SIZE = 0"
    by (simp add: size_defs)
  have "unat ((ucast (bno * 512) :: u64) div 512) = unat bno"
    by (simp add: unat_div v)
  then show "ucast ((ucast (bno * of_nat SD_BLOCK_SIZE) :: u64) div of_nat SD_BLOCK_SIZE) = bno"
    using unat_u32_less [of bno]
    by (simp add: size_defs word_unat_eq_iff unsigned_ucast_eq take_bit_nat_eq_self)
  show "bno * of_nat SD_BLOCK_SIZE div of_nat SD_BLOCK_SIZE = bno"
    by (simp add: size_defs word_unat_eq_iff unat_div u)
qed

definition seeked :: "u32 \<Rightarrow> u32 \<Rightarrow> 'a iost_scheme \<Rightarrow> 'a iost_scheme" where
  "seeked d b s = s\<lparr>first_bno := sb_lba (sb s (unat d)), nblocks := sb_nsecs (sb s (unat d)),
     sdcard := emmc_seek (sdcard s) (ucast (blk_sector s d b * of_nat SD_BLOCK_SIZE))\<rparr>"

lemma key_ok_blockno:
  assumes "key_ok s d b"
  shows "b \<noteq> -1" and "b < sb_nsecs (sb s (unat d))" and "unat d < NMINOR"
    and "unat (blk_sector s d b) < 8388608"
    and "\<not> list_ex (\<lambda>j. broken (sdcard s) (blk_sector s d b + of_nat j)) [0..<8]"
proof -
  have k: "8 * (unat b + 1) \<le> unat (sb_nsecs (sb s (unat d)))"
    and l: "unat (sb_lba (sb s (unat d))) + unat (sb_nsecs (sb s (unat d))) \<le> 8388608"
    using assms by (simp_all add: key_ok_def)
  from k l have "unat b < 8388608" by simp
  then show "b \<noteq> -1" 
    by (auto simp: unsigned_minus_1_eq_mask mask_eq_exp_minus_1)
  from k show "b < sb_nsecs (sb s (unat d))" by (simp add: word_less_nat_alt)
  show "unat d < NMINOR" using assms by (simp add: key_ok_def)
  show "unat (blk_sector s d b) < 8388608"
    using unat_sector [OF assms, of 0] k l by simp
  show "\<not> list_ex (\<lambda>j. broken (sdcard s) (blk_sector s d b + of_nat j)) [0..<8]"
    using assms by (auto simp: key_ok_def list_ex_iff)
qed

lemma request_bno_ok:
  assumes "b_dev (bufs s i) = d" and "b_blockno (bufs s i) = b" and "key_ok s d b"
  shows "request_bno i s = Inr (blk_sector s d b,
           s\<lparr>first_bno := sb_lba (sb s (unat d)), nblocks := sb_nsecs (sb s (unat d))\<rparr>)"
  using key_ok_blockno [OF assms(3)] assms(1,2)
  by (simp add: request_bno_def Let_def blk_sector_def)

lemma transfer_write:
  assumes "b_flags (bufs s i) AND B_DIRTY \<noteq> 0" and "unat bno < 8388608"
    and "\<not> list_ex (\<lambda>j. broken (sdcard s) (bno + of_nat j)) [0..<8]"
  shows "transfer i bno s =
     Inr (s\<lparr>sdcard := (emmc_seek (sdcard s) (ucast (bno * of_nat SD_BLOCK_SIZE)))
              \<lparr>writes := writes (sdcard s) @ sector_writes bno (b_data (bufs s i)) 8\<rparr>\<rparr>)"
  using assms seek_sector [OF assms(2)]
  by (auto simp: transfer_def emmc_write_def emmc_do_write_def emmc_do_data_command_def
      card_sector_def emmc_seek_def Let_def size_defs)

lemma transfer_read:
  assumes "b_flags (bufs s i) AND B_DIRTY = 0" and "unat bno < 8388608"
    and "\<not> list_ex (\<lambda>j. broken (sdcard s) (bno + of_nat j)) [0..<8]"
  shows "transfer i bno s =
     Inr (buf_upd i (\<lambda>B. B\<lparr>b_data := memcopy (b_data B) 0 (block_at (medium (sdcard s)) bno) 0 BSIZE\<rparr>)
           (s\<lparr>sdcard := emmc_seek (sdcard s) (ucast (bno * of_nat SD_BLOCK_SIZE))\<rparr>))"
  using assms seek_sector [OF assms(2)]
  by (auto simp: transfer_def emmc_read_def emmc_do_read_def emmc_do_data_command_def
      card_sector_def emmc_seek_def Let_def size_defs buf_upd_def medium_def memcopy_def
      block_at_def clip_def fun_eq_iff intro!: arg_cong [where f = "\<lambda>f. bufs_update f _"])

definition written :: "nat \<Rightarrow> u32 \<Rightarrow> u32 \<Rightarrow> 'a iost_scheme \<Rightarrow> 'a iost_scheme" where
  "written i d b s =
     buf_upd i (\<lambda>B. B\<lparr>b_flags := (b_flags B OR B_VALID) AND NOT B_DIRTY\<rparr>)
       ((seeked d b s)\<lparr>sdcard := sdcard (seeked d b s)
          \<lparr>writes := writes (sdcard s) @ sector_writes (blk_sector s d b) (b_data (bufs s i)) 8\<rparr>\<rparr>)"

definition loaded :: "nat \<Rightarrow> u32 \<Rightarrow> u32 \<Rightarrow> 'a iost_scheme \<Rightarrow> 'a iost_scheme" where
  "loaded i d b s =
     buf_upd i (\<lambda>B. B\<lparr>b_data := memcopy (b_data B) 0 (disk s d b) 0 BSIZE,
                     b_flags := (b_flags B OR B_VALID) AND NOT B_DIRTY\<rparr>) (seeked d b s)"

lemmas flag_defs = B_BUSY_def B_VALID_def B_DIRTY_def

lemma flag_bits [bit_simps]:
  "bit B_BUSY n \<longleftrightarrow> n = 0" "bit B_VALID n \<longleftrightarrow> n = Suc 0" "bit B_DIRTY n \<longleftrightarrow> n = 2"
proof -
  have e: "B_BUSY = 2 ^ 0" "B_VALID = 2 ^ 1" "B_DIRTY = 2 ^ 2" by (simp_all add: flag_defs)
  show "bit B_BUSY n \<longleftrightarrow> n = 0" "bit B_VALID n \<longleftrightarrow> n = Suc 0" "bit B_DIRTY n \<longleftrightarrow> n = 2"
    unfolding e bit_exp_iff by auto
qed

lemma flag_test:
  "f AND B_BUSY = 0 \<longleftrightarrow> \<not> bit f 0" "f AND B_VALID = 0 \<longleftrightarrow> \<not> bit f (Suc 0)"
  "f AND B_DIRTY = 0 \<longleftrightarrow> \<not> bit f 2"
  using and_exp_eq_0_iff_not_bit [of f 0] and_exp_eq_0_iff_not_bit [of f 1]
    and_exp_eq_0_iff_not_bit [of f 2] by (simp_all add: flag_defs)

lemma flags_served: "((f OR B_VALID) AND NOT B_DIRTY) AND (B_VALID OR B_DIRTY) = B_VALID"
  by (rule bit_word_eqI) (auto simp: bit_simps)

lemma devrw_write:
  assumes "devque s = []" and "b_dev (bufs s i) = d" and "b_blockno (bufs s i) = b"
    and "key_ok s d b" and "b_flags (bufs s i) AND B_DIRTY \<noteq> 0"
  shows "devrw i s = Inr (written i d b s)"
proof -
  let ?s = "s\<lparr>devque := [i]\<rparr>"
  have k: "key_ok ?s d b" using assms(4) by (simp add: key_ok_def blk_sector_def)
  have "dev_serve i ?s = Inr (written i d b ?s)"
    using request_bno_ok [of ?s i d b] key_ok_blockno [OF k] k assms(2,3,5)
      transfer_write [of "?s\<lparr>first_bno := sb_lba (sb s (unat d)), nblocks := sb_nsecs (sb s (unat d))\<rparr>"
        i "blk_sector s d b"]
    by (simp add: dev_serve_def blk_sector_def written_def seeked_def)
  moreover have "(written i d b ?s)\<lparr>devque := []\<rparr> = written i d b s"
    using assms(1) by (simp add: written_def seeked_def buf_upd_def blk_sector_def)
  moreover have "devque (written i d b ?s) = [i]"
    by (simp add: written_def seeked_def buf_upd_def)
  ultimately show ?thesis
    using assms(1) by (simp add: devrw_def dev_start.simps)
      (simp add: written_def buf_upd_def flags_served)
qed

lemma devrw_read:
  assumes "devque s = []" and "b_dev (bufs s i) = d" and "b_blockno (bufs s i) = b"
    and "key_ok s d b" and "b_flags (bufs s i) AND B_DIRTY = 0"
  shows "devrw i s = Inr (loaded i d b s)"
proof -
  let ?s = "s\<lparr>devque := [i]\<rparr>"
  have k: "key_ok ?s d b" using assms(4) by (simp add: key_ok_def blk_sector_def)
  have "dev_serve i ?s = Inr (loaded i d b ?s)"
    using request_bno_ok [of ?s i d b] key_ok_blockno [OF k] k assms(2,3,5)
      transfer_read [of "?s\<lparr>first_bno := sb_lba (sb s (unat d)), nblocks := sb_nsecs (sb s (unat d))\<rparr>"
        i "blk_sector s d b"]
    by (simp add: dev_serve_def blk_sector_def loaded_def seeked_def buf_upd_def disk_def)
  moreover have "(loaded i d b ?s)\<lparr>devque := []\<rparr> = loaded i d b s"
    using assms(1) by (simp add: loaded_def seeked_def buf_upd_def blk_sector_def disk_def)
  moreover have "devque (loaded i d b ?s) = [i]"
    by (simp add: loaded_def seeked_def buf_upd_def)
  ultimately show ?thesis
    using assms(1) by (simp add: devrw_def dev_start.simps)
      (simp add: loaded_def buf_upd_def flags_served)
qed

lemma sb_served [simp]:
  "sb (written i d b s) = sb s" "sb (loaded i d b s) = sb s"
  "devque (written i d b s) = devque s" "devque (loaded i d b s) = devque s"
  "lru (written i d b s) = lru s" "lru (loaded i d b s) = lru s"
  by (simp_all add: written_def loaded_def seeked_def buf_upd_def)

lemma blk_sector_served [simp]:
  "blk_sector (written i d b s) = blk_sector s" "blk_sector (loaded i d b s) = blk_sector s"
  by (simp_all add: blk_sector_def fun_eq_iff)

lemma medium_served:
  "medium (sdcard (written i d b s)) =
     replay (sector_writes (blk_sector s d b) (b_data (bufs s i)) 8) (medium (sdcard s))"
  "medium (sdcard (loaded i d b s)) = medium (sdcard s)"
  by (simp_all add: written_def loaded_def seeked_def buf_upd_def medium_def emmc_seek_def
      replay_append)

lemma broken_served [simp]:
  "broken (sdcard (written i d b s)) = broken (sdcard s)"
  "broken (sdcard (loaded i d b s)) = broken (sdcard s)"
  by (simp_all add: written_def loaded_def seeked_def buf_upd_def emmc_seek_def)

lemma key_ok_served [simp]:
  "key_ok (written i d b s) = key_ok s" "key_ok (loaded i d b s) = key_ok s"
  by (simp_all add: key_ok_def fun_eq_iff)

lemma disk_loaded [simp]: "disk (loaded i d b s) = disk s"
  by (simp add: disk_def fun_eq_iff medium_served)

lemma fst_sector_writes: "fst ` set (sector_writes sec d n) = (\<lambda>j. sec + of_nat j) ` {..<n}"
  by (force simp: sector_writes_def)

lemma disk_written_same: "disk (written i d b s) d b = clip BSIZE (b_data (bufs s i))"
  by (simp add: disk_def medium_served block_at_sector_writes)

lemma block_at_other:
  assumes "\<And>j. j < 8 \<Longrightarrow> sec + of_nat j \<notin> fst ` set ws"
  shows "block_at (replay ws m) sec = block_at m sec"
proof -
  have "replay ws m (sec + of_nat (i div SD_BLOCK_SIZE)) = m (sec + of_nat (i div SD_BLOCK_SIZE))"
    if "i < BSIZE" for i
    using that by (intro replay_other assms) (simp add: size_defs)
  then show ?thesis by (auto simp: block_at_def clip_def)
qed

lemma disk_written_other:
  assumes "key_ok s d b" and "key_ok s d' b'" and "parts_disjoint s" and "(d', b') \<noteq> (d, b)"
  shows "disk (written i d b s) d' b' = disk s d' b'"
proof -
  have "blk_sector s d' b' + of_nat j \<notin> (\<lambda>j. blk_sector s d b + of_nat j) ` {..<8}" if "j < 8" for j
    using sectors_disjoint [OF assms(2,1,3,4) that] by auto
  then show ?thesis
    unfolding disk_def medium_served blk_sector_served
    by (intro block_at_other) (simp only: fst_sector_writes not_False_eq_True)
qed

lemma dev_serve_more: "dev_serve b s = Inr s' \<Longrightarrow> iost.more s' = iost.more s"
  by (auto simp: dev_serve_def request_bno_def transfer_def buf_upd_def Let_def
      split: if_splits prod.splits)

lemma dev_start_more: "dev_start s = Inr s' \<Longrightarrow> iost.more s' = iost.more s"
proof (induction s arbitrary: s' rule: dev_start.induct)
  case (1 s)
  from 1(2) show ?case
    by (subst (asm) dev_start.simps) (auto split: if_splits dest!: 1(1) dest: dev_serve_more)
qed

lemma devrw_more: "devrw b s = Inr s' \<Longrightarrow> iost.more s' = iost.more s"
  by (auto simp: devrw_def Let_def split: if_splits dest: dev_start_more)

section \<open>Properties\<close>

text \<open>C25: Writing a dirty buffer with \<open>devrw\<close> succeeds for a block of a sound partition, marks the
  buffer valid and clean, leaves every other block on the card alone, and reading the block back
  into any other buffer yields the bytes written.\<close>

theorem devrw_write_then_read:
  assumes "devque s = []" and "parts_disjoint s" and "key_ok s d b"
    and "b_dev (bufs s i) = d" and "b_blockno (bufs s i) = b" and "b_flags (bufs s i) AND B_DIRTY \<noteq> 0"
    and "j \<noteq> i"
  shows "\<exists>s1 s3. devrw i s = Inr s1 \<and>
           b_flags (bufs s1 i) = (b_flags (bufs s i) OR B_VALID) AND NOT B_DIRTY \<and>
           (\<forall>d' b'. (d', b') \<noteq> (d, b) \<and> key_ok s d' b' \<longrightarrow> disk s1 d' b' = disk s d' b') \<and>
           devrw j (buf_upd j (\<lambda>B. B\<lparr>b_flags := 0, b_dev := d, b_blockno := b\<rparr>) s1) = Inr s3 \<and>
           clip BSIZE (b_data (bufs s3 j)) = clip BSIZE (b_data (bufs s i))"
proof -
  let ?s1 = "written i d b s"
  let ?s2 = "buf_upd j (\<lambda>B. B\<lparr>b_flags := 0, b_dev := d, b_blockno := b\<rparr>) ?s1"
  have 1: "devrw i s = Inr ?s1" using assms by (intro devrw_write)
  have k: "key_ok ?s2 d b" using assms(3) key_ok_served(1) [of i d b s]
    by (simp add: key_ok_def blk_sector_def buf_upd_def)
  have 2: "devrw j ?s2 = Inr (loaded j d b ?s2)"
    using assms(1) k by (intro devrw_read) (simp_all add: buf_upd_def)
  have "disk ?s2 d b = disk ?s1 d b" by (simp add: disk_def buf_upd_def blk_sector_def)
  then have "clip BSIZE (b_data (bufs (loaded j d b ?s2) j)) = clip BSIZE (b_data (bufs s i))"
    by (simp add: loaded_def disk_written_same) (simp add: buf_upd_def)
  moreover have "b_flags (bufs ?s1 i) = (b_flags (bufs s i) OR B_VALID) AND NOT B_DIRTY"
    by (simp add: written_def buf_upd_def seeked_def)
  ultimately show ?thesis
    using 1 2 disk_written_other [OF assms(3) _ assms(2)] by blast
qed

text \<open>C36: The byte offset of a request is computed in 32 bits: a write to the block that starts
  4 GiB into the card (sector \<open>0x800000\<close>) lands on sector \<open>0\<close>, over the master boot record.\<close>

theorem dev_serve_4gib_wrap:
  assumes "b_dev (bufs s i) = d" and "b_blockno (bufs s i) = b" and "b \<noteq> -1" and "unat d < NMINOR"
    and "b < sb_nsecs (sb s (unat d))" and "blk_sector s d b = 8388608"
    and "b_flags (bufs s i) AND B_DIRTY \<noteq> 0" and "broken (sdcard s) = (\<lambda>_. False)"
  shows "\<exists>s'. dev_serve i s = Inr s' \<and>
           writes (sdcard s') = writes (sdcard s) @ sector_writes 0 (b_data (bufs s i)) 8"
proof -
  have "request_bno i s = Inr (8388608,
          s\<lparr>first_bno := sb_lba (sb s (unat d)), nblocks := sb_nsecs (sb s (unat d))\<rparr>)"
    using assms(1-6) by (simp add: request_bno_def Let_def blk_sector_def)
  then show ?thesis
    using assms(7,8)
    by (simp add: dev_serve_def transfer_def emmc_write_def emmc_do_write_def
        emmc_do_data_command_def card_sector_def emmc_seek_def size_defs Let_def buf_upd_def
        list_ex_iff)
qed

section \<open>A concrete state\<close>

definition sb0 :: superblock where
  "sb0 = \<lparr>sb_major = 0, sb_minor = 0, sb_blocksize = 0, sb_lba = 0, sb_nsecs = 0, fs_info = None,
          s_blocksize_bits = 0, sb_flags = 0\<rparr>"

definition iost0 :: iost where
  "iost0 = \<lparr>sdcard = \<lparr>ull_offset = 0, card_supports_sdhc = True, base = \<lambda>_ _. 0, writes = [],
              broken = \<lambda>_. False\<rparr>,
            devque = [], bufs = \<lambda>_. \<lparr>b_flags = 0, b_dev = 0, b_blockno = 0, b_data = \<lambda>_. 0\<rparr>,
            lru = [0..<NBUF],
            sb = (\<lambda>_. sb0)(1 := sb0\<lparr>sb_lba := 2048, sb_nsecs := 16777216\<rparr>),
            first_bno = 0, nblocks = 1, mbr = \<lambda>_. 0, ndev = 0\<rparr>"

definition iost1 :: iost where
  "iost1 = (buf_upd 3 (\<lambda>B. B\<lparr>b_flags := 7, b_dev := 1, b_blockno := 9, b_data := (\<lambda>_. 0)(5 := 77)\<rparr>) iost0)
             \<lparr>sb := (\<lambda>_. sb0)(1 := sb0\<lparr>sb_lba := 2048, sb_nsecs := 800\<rparr>)\<rparr>"

theorem devrw_write_then_read_witness:
  "\<exists>s1 s3. devrw 3 iost1 = Inr s1 \<and>
        devrw 4 (buf_upd 4 (\<lambda>B. B\<lparr>b_flags := 0, b_dev := 1, b_blockno := 9\<rparr>) s1) = Inr s3 \<and>
        clip BSIZE (b_data (bufs s3 4)) = clip BSIZE ((\<lambda>_. 0)(5 := 77))"
proof -
  have "key_ok iost1 1 9" by (simp add: key_ok_def iost1_def iost0_def buf_upd_def sb0_def size_defs)
  moreover have "parts_disjoint iost1"
    by (auto simp: parts_disjoint_def iost1_def iost0_def buf_upd_def sb0_def)
  moreover have "devque iost1 = []"
    and "bufs iost1 3 = \<lparr>b_flags = 7, b_dev = 1, b_blockno = 9, b_data = (\<lambda>_. 0)(5 := 77)\<rparr>"
    by (simp_all add: iost1_def iost0_def buf_upd_def)
  ultimately obtain s1 s3 where "devrw 3 iost1 = Inr s1"
    and "devrw 4 (buf_upd 4 (\<lambda>B. B\<lparr>b_flags := 0, b_dev := 1, b_blockno := 9\<rparr>) s1) = Inr s3"
    and "clip BSIZE (b_data (bufs s3 4)) = clip BSIZE ((\<lambda>_. 0)(5 := 77))"
    using devrw_write_then_read [of iost1 1 9 3 4] by (auto simp: flag_defs)
  then show ?thesis by blast
qed

theorem dev_serve_4gib_wrap_witness:
  "\<exists>s'. dev_serve 3 (buf_upd 3 (\<lambda>B. B\<lparr>b_flags := 7, b_dev := 1, b_blockno := 1048320\<rparr>) iost0) = Inr s' \<and>
     writes (sdcard s') = sector_writes 0 (\<lambda>_. 0) 8"
  using dev_serve_4gib_wrap [of "buf_upd 3 (\<lambda>B. B\<lparr>b_flags := 7, b_dev := 1, b_blockno := 1048320\<rparr>) iost0"
      3 1 1048320]
  by (simp add: iost0_def buf_upd_def sb0_def flag_defs size_defs blk_sector_def)

end
