(* ===== verification/Bio.thy ===== *)
theory Bio
  imports Dev
begin

text \<open>
  The buffer cache (\<open>kern/bio.c\<close>). \<open>lru\<close> is the list anchored at \<open>bcache.head\<close>, front first;
  a buffer locked by another process makes the caller sleep, which is the stop \<open>Sleeps\<close>.

  The abstraction of the cache is the contents every block has for the kernel (\<open>view\<close>): what the
  cache holds, or what the card holds for a block that is not cached. Together with the set of
  pinned blocks (\<open>dirty\<close>) and the locked buffers (\<open>lock\<close>) it is the interface \<open>block_cache\<close> on which
  the log and the file system rest; \<open>bc\<close> interprets it for the operations of \<open>bio.c\<close>.
\<close>

section \<open>Operations\<close>

definition binit :: "'a iost_scheme \<Rightarrow> 'a iost_scheme" where
  "binit s = s\<lparr>lru := fold (\<lambda>b q. q @ [b]) [0..<NBUF] []\<rparr>"

definition bget :: "u32 \<Rightarrow> u32 \<Rightarrow> 'a iost_scheme \<Rightarrow> (nat \<times> 'a iost_scheme) kres" where
  "bget d bno s =
     (case find (\<lambda>b. b_dev (bufs s b) = d \<and> b_blockno (bufs s b) = bno) (lru s) of
        Some b \<Rightarrow>
          if b_flags (bufs s b) AND B_BUSY = 0
          then Inr (b, buf_upd b (\<lambda>B. B\<lparr>b_flags := b_flags B OR B_BUSY\<rparr>) s)
          else Inl (Sleeps ''bget'')
      | None \<Rightarrow>
          (case find (\<lambda>b. b_flags (bufs s b) AND B_BUSY = 0 \<and> b_flags (bufs s b) AND B_DIRTY = 0)
                  (rev (lru s)) of
             Some b \<Rightarrow>
               Inr (b, buf_upd b (\<lambda>B. B\<lparr>b_flags := B_BUSY, b_dev := d, b_blockno := bno\<rparr>) s)
           | None \<Rightarrow> Inl (Panic ''bget: no buffers'')))"

definition bread :: "u32 \<Rightarrow> u32 \<Rightarrow> 'a iost_scheme \<Rightarrow> (nat \<times> 'a iost_scheme) kres" where
  "bread d bno s =
     kbind (bget d bno s) (\<lambda>(b, s).
       if b_flags (bufs s b) AND B_VALID = 0 then kbind (devrw b s) (\<lambda>s. Inr (b, s))
       else Inr (b, s))"

definition bwrite :: "nat \<Rightarrow> 'a iost_scheme \<Rightarrow> 'a iost_scheme kres" where
  "bwrite b s =
     (if b_flags (bufs s b) AND B_BUSY = 0 then Inl (Panic ''bwrite: not locked'')
      else devrw b (buf_upd b (\<lambda>B. B\<lparr>b_flags := b_flags B OR B_DIRTY\<rparr>) s))"

definition brelse :: "nat \<Rightarrow> 'a iost_scheme \<Rightarrow> 'a iost_scheme kres" where
  "brelse b s =
     (if b_flags (bufs s b) AND B_BUSY = 0 then Inl (Panic ''brelse'')
      else Inr (buf_upd b (\<lambda>B. B\<lparr>b_flags := b_flags B AND NOT B_BUSY\<rparr>)
                 (s\<lparr>lru := remove1 b (lru s) @ [b]\<rparr>)))"

text \<open>The holder of a locked buffer stores into its data.\<close>

definition buf_store :: "nat \<Rightarrow> bytes \<Rightarrow> 'a iost_scheme \<Rightarrow> 'a iost_scheme" where
  "buf_store b x s = buf_upd b (\<lambda>B. B\<lparr>b_data := x\<rparr>) s"

text \<open>The mark by which \<open>log_write\<close> keeps a buffer in the cache.\<close>

definition buf_dirty :: "nat \<Rightarrow> 'a iost_scheme \<Rightarrow> 'a iost_scheme" where
  "buf_dirty b s = buf_upd b (\<lambda>B. B\<lparr>b_flags := b_flags B OR B_DIRTY\<rparr>) s"

text \<open>The operations leave the state above the cache alone.\<close>

lemma buf_upd_more [simp]: "iost.more (buf_upd b f s) = iost.more s"
  by (simp add: buf_upd_def)

lemma bread_more: "bread d b s = Inr (i, s') \<Longrightarrow> iost.more s' = iost.more s"
  by (auto simp: bread_def bget_def split: if_splits option.splits dest!: devrw_more)

lemma bwrite_more: "bwrite b s = Inr s' \<Longrightarrow> iost.more s' = iost.more s"
  by (auto simp: bwrite_def split: if_splits dest!: devrw_more)

lemma brelse_more: "brelse b s = Inr s' \<Longrightarrow> iost.more s' = iost.more s"
  by (auto simp: brelse_def split: if_splits)

section \<open>The interface of the cache\<close>

type_synonym key = "u32 \<times> u32"

locale block_cache =
  fixes bread' :: "u32 \<Rightarrow> u32 \<Rightarrow> 's \<Rightarrow> (nat \<times> 's) kres"
    and bwrite' :: "nat \<Rightarrow> 's \<Rightarrow> 's kres"
    and brelse' :: "nat \<Rightarrow> 's \<Rightarrow> 's kres"
    and store :: "nat \<Rightarrow> bytes \<Rightarrow> 's \<Rightarrow> 's"
    and pin :: "nat \<Rightarrow> 's \<Rightarrow> 's"
    and getd :: "'s \<Rightarrow> nat \<Rightarrow> bytes"
    and inv :: "'s \<Rightarrow> bool"
    and env :: "'s \<Rightarrow> 'e"
    and ok :: "'e \<Rightarrow> key \<Rightarrow> bool"
    and sector :: "'e \<Rightarrow> key \<Rightarrow> u32"
    and lock :: "'s \<Rightarrow> nat \<Rightarrow> key option"
    and dirty :: "'s \<Rightarrow> key set"
    and view :: "'s \<Rightarrow> key \<Rightarrow> bytes"
    and dsk :: "'s \<Rightarrow> key \<Rightarrow> bytes"
    and history :: "'s \<Rightarrow> (u32 \<times> bytes) list"
  assumes finite_dirty: "inv s \<Longrightarrow> finite (dirty s)"
    and clean_agrees:
      "inv s \<Longrightarrow> ok (env s) k \<Longrightarrow> k \<notin> dirty s \<Longrightarrow> k \<notin> ran (lock s) \<Longrightarrow> view s k = dsk s k"
    and lock_inj: "inv s \<Longrightarrow> lock s i = Some k \<Longrightarrow> lock s j = Some k \<Longrightarrow> i = j"
    and lock_ok: "inv s \<Longrightarrow> lock s i = Some k \<Longrightarrow> ok (env s) k"
    and lock_view: "inv s \<Longrightarrow> lock s i = Some k \<Longrightarrow> view s k = clip BSIZE (getd s i)"
    and bread_law:
      "inv s \<Longrightarrow> ok (env s) k \<Longrightarrow> k \<notin> ran (lock s) \<Longrightarrow> card (dirty s \<union> ran (lock s)) < NBUF \<Longrightarrow>
       \<exists>i s'. bread' (fst k) (snd k) s = Inr (i, s') \<and> inv s' \<and> env s' = env s \<and>
         lock s i = None \<and> lock s' = (lock s)(i \<mapsto> k) \<and> dirty s' = dirty s \<and>
         view s' = view s \<and> dsk s' = dsk s \<and> history s' = history s \<and>
         (\<forall>j. lock s j \<noteq> None \<longrightarrow> getd s' j = getd s j)"
    and store_law:
      "inv s \<Longrightarrow> lock s i = Some k \<Longrightarrow>
       inv (store i x s) \<and> env (store i x s) = env s \<and> lock (store i x s) = lock s \<and>
       dirty (store i x s) = dirty s \<and> view (store i x s) = (view s)(k := clip BSIZE x) \<and>
       dsk (store i x s) = dsk s \<and> history (store i x s) = history s \<and>
       getd (store i x s) = (getd s)(i := x)"
    and pin_law:
      "inv s \<Longrightarrow> lock s i = Some k \<Longrightarrow>
       inv (pin i s) \<and> env (pin i s) = env s \<and> lock (pin i s) = lock s \<and>
       dirty (pin i s) = insert k (dirty s) \<and> view (pin i s) = view s \<and>
       dsk (pin i s) = dsk s \<and> history (pin i s) = history s \<and> getd (pin i s) = getd s"
    and bwrite_law:
      "inv s \<Longrightarrow> lock s i = Some k \<Longrightarrow>
       \<exists>s'. bwrite' i s = Inr s' \<and> inv s' \<and> env s' = env s \<and> lock s' = lock s \<and>
         dirty s' = dirty s - {k} \<and> dsk s' k = view s k \<and>
         (\<forall>k'. ok (env s) k' \<longrightarrow> view s' k' = view s k') \<and>
         (\<forall>k'. ok (env s) k' \<and> k' \<noteq> k \<longrightarrow> dsk s' k' = dsk s k') \<and>
         history s' = history s @ sector_writes (sector (env s) k) (view s k) 8 \<and> getd s' = getd s"
    and brelse_law:
      "inv s \<Longrightarrow> lock s i = Some k \<Longrightarrow> k \<in> dirty s \<or> view s k = dsk s k \<Longrightarrow>
       \<exists>s'. brelse' i s = Inr s' \<and> inv s' \<and> env s' = env s \<and> lock s' = (lock s)(i := None) \<and>
         dirty s' = dirty s \<and> view s' = view s \<and> dsk s' = dsk s \<and> history s' = history s \<and>
         getd s' = getd s"
begin

text \<open>
  Copying one block to another through the cache, the body of the loops of \<open>write_log\<close> and
  \<open>install_trans\<close>: both buffers are read, the data is moved, the destination is written and both
  are released. The two loops read, and release, the buffers in opposite orders.
\<close>

lemma two_reads:
  assumes "inv s" and "lock s = (\<lambda>_. None)" and "ok (env s) k1" and "ok (env s) k2" and "k1 \<noteq> k2"
    and "card (dirty s) + 1 < NBUF"
  obtains i1 i2 s1 s2 where "bread' (fst k1) (snd k1) s = Inr (i1, s1)"
    and "bread' (fst k2) (snd k2) s1 = Inr (i2, s2)" and "i1 \<noteq> i2" and "inv s2" and "env s2 = env s"
    and "lock s2 = [i1 \<mapsto> k1, i2 \<mapsto> k2]" and "dirty s2 = dirty s" and "view s2 = view s"
    and "dsk s2 = dsk s" and "history s2 = history s"
proof -
  have "card (dirty s \<union> ran (lock s)) < NBUF" using assms(2,6) by simp
  then obtain i1 s1 where 1: "bread' (fst k1) (snd k1) s = Inr (i1, s1)" "inv s1" "env s1 = env s"
      "lock s1 = [i1 \<mapsto> k1]" "dirty s1 = dirty s" "view s1 = view s" "dsk s1 = dsk s"
      "history s1 = history s"
    using bread_law [OF assms(1,3)] assms(2) by fastforce
  have "card (dirty s1 \<union> ran (lock s1)) < NBUF"
    using assms(6) finite_dirty [OF assms(1)] by (simp add: 1 card_insert_if)
  then obtain i2 s2 where 2: "bread' (fst k2) (snd k2) s1 = Inr (i2, s2)" "inv s2" "env s2 = env s1"
      "lock s1 i2 = None" "lock s2 = (lock s1)(i2 \<mapsto> k2)" "dirty s2 = dirty s1" "view s2 = view s1"
      "dsk s2 = dsk s1" "history s2 = history s1"
    using bread_law [OF 1(2), of k2] assms(4,5) by (fastforce simp: 1)
  from 2(4) have "i1 \<noteq> i2" by (auto simp: 1)
  from that [OF 1(1) 2(1) this 2(2)] show ?thesis by (simp add: 1 2)
qed

lemma move_and_write:
  assumes "inv s" and "lock s = [i1 \<mapsto> k1, i2 \<mapsto> k2]" and "i1 \<noteq> i2" and "k1 \<noteq> k2"
    and "k1 \<in> dirty s \<or> view s k1 = dsk s k1"
  obtains s' where "bwrite' i2 (store i2 (memcopy (getd s i2) 0 (getd s i1) 0 BSIZE) s) = Inr s'"
    and "inv s'" and "env s' = env s" and "lock s' = lock s"
    and "dirty s' = dirty s - {k2}" and "view s' k2 = view s k1" and "dsk s' k2 = view s k1"
    and "\<And>k. ok (env s) k \<Longrightarrow> k \<noteq> k2 \<Longrightarrow> view s' k = view s k \<and> dsk s' k = dsk s k"
    and "history s' = history s @ sector_writes (sector (env s) k2) (view s k1) 8"
    and "k1 \<in> dirty s' \<or> view s' k1 = dsk s' k1" and "k2 \<in> dirty s' \<or> view s' k2 = dsk s' k2"
proof -
  let ?t = "store i2 (memcopy (getd s i2) 0 (getd s i1) 0 BSIZE) s"
  have l1: "lock s i1 = Some k1" and l2: "lock s i2 = Some k2" using assms(2,3) by auto
  note ok1 = lock_ok [OF assms(1) l1] and ok2 = lock_ok [OF assms(1) l2]
  from store_law [OF assms(1) l2, of "memcopy (getd s i2) 0 (getd s i1) 0 BSIZE"]
  have t: "inv ?t" "env ?t = env s" "lock ?t = lock s" "dirty ?t = dirty s"
      "view ?t = (view s)(k2 := view s k1)" "dsk ?t = dsk s" "history ?t = history s"
    using lock_view [OF assms(1) l1] by auto
  have "lock ?t i2 = Some k2" using t(3) l2 by simp
  from bwrite_law [OF t(1) this]
  obtain s' where s': "bwrite' i2 ?t = Inr s'" "inv s'" "env s' = env ?t" "lock s' = lock ?t"
      "dirty s' = dirty ?t - {k2}" "dsk s' k2 = view ?t k2"
      "\<forall>k'. ok (env ?t) k' \<longrightarrow> view s' k' = view ?t k'"
      "\<forall>k'. ok (env ?t) k' \<and> k' \<noteq> k2 \<longrightarrow> dsk s' k' = dsk ?t k'"
      "history s' = history ?t @ sector_writes (sector (env ?t) k2) (view ?t k2) 8"
    by blast
  have v: "view s' k = ((view s)(k2 := view s k1)) k" if "ok (env s) k" for k
    using s'(7) [rule_format, of k] that by (simp add: t)
  have d: "dsk s' k = dsk s k" if "ok (env s) k" "k \<noteq> k2" for k
    using s'(8) [rule_format, of k] that by (simp add: t)
  show ?thesis
  proof (rule that [OF s'(1,2)])
    show "view s' k2 = view s k1" "dsk s' k2 = view s k1"
      using s'(6) v [OF ok2] by (simp_all add: t)
    show "k1 \<in> dirty s' \<or> view s' k1 = dsk s' k1"
      using assms(4,5) s'(5) v [OF ok1] d [OF ok1] by (auto simp: t)
    show "k2 \<in> dirty s' \<or> view s' k2 = dsk s' k2"
      using s'(6) v [OF ok2] by (simp add: t)
    show "view s' k = view s k \<and> dsk s' k = dsk s k" if "ok (env s) k" "k \<noteq> k2" for k
      using v d that by simp
  qed (use s' in \<open>simp_all add: t\<close>)
qed

lemma two_releases:
  assumes "inv s" and "lock s = [i1 \<mapsto> k1, i2 \<mapsto> k2]" and "i1 \<noteq> i2"
    and "k1 \<in> dirty s \<or> view s k1 = dsk s k1" and "k2 \<in> dirty s \<or> view s k2 = dsk s k2"
  obtains s' where "kbind (brelse' i1 s) (brelse' i2) = Inr s'" and "inv s'" and "env s' = env s"
    and "lock s' = (\<lambda>_. None)" and "dirty s' = dirty s" and "view s' = view s"
    and "dsk s' = dsk s" and "history s' = history s"
proof -
  have l1: "lock s i1 = Some k1" and l2: "lock s i2 = Some k2" using assms(2,3) by auto
  from brelse_law [OF assms(1) l1 assms(4)]
  obtain s1 where 1: "brelse' i1 s = Inr s1" "inv s1" "env s1 = env s" "lock s1 = (lock s)(i1 := None)"
      "dirty s1 = dirty s" "view s1 = view s" "dsk s1 = dsk s" "history s1 = history s"
    by blast
  have "lock s1 i2 = Some k2" using 1(4) l2 assms(3) by simp
  from brelse_law [OF 1(2) this] assms(5)
  obtain s2 where 2: "brelse' i2 s1 = Inr s2" "inv s2" "env s2 = env s1"
      "lock s2 = (lock s1)(i2 := None)"
      "dirty s2 = dirty s1" "view s2 = view s1" "dsk s2 = dsk s1" "history s2 = history s1"
    using 1 by auto
  show ?thesis by (rule that [of s2]) (use 1 2 assms(2) in \<open>auto simp: fun_eq_iff\<close>)
qed

text \<open>Reading a block and releasing it, and reading, changing, writing and releasing it.\<close>

lemma read_block:
  assumes "inv s" and "lock s = (\<lambda>_. None)" and "ok (env s) k" and "card (dirty s) < NBUF"
  obtains i s1 where "bread' (fst k) (snd k) s = Inr (i, s1)" and "inv s1" and "env s1 = env s"
    and "lock s1 = [i \<mapsto> k]" and "dirty s1 = dirty s" and "view s1 = view s" and "dsk s1 = dsk s"
    and "history s1 = history s" and "clip BSIZE (getd s1 i) = view s k"
    and "k \<in> dirty s1 \<or> view s1 k = dsk s1 k"
proof -
  obtain i s1 where 1: "bread' (fst k) (snd k) s = Inr (i, s1)" "inv s1" "env s1 = env s"
      "lock s1 = [i \<mapsto> k]" "dirty s1 = dirty s" "view s1 = view s" "dsk s1 = dsk s"
      "history s1 = history s"
    using bread_law [OF assms(1,3)] assms(2,4) by fastforce
  have "clip BSIZE (getd s1 i) = view s k"
    using lock_view [OF 1(2), of i k] by (simp add: 1)
  moreover have "k \<in> dirty s \<or> view s k = dsk s k"
    using clean_agrees [OF assms(1,3)] assms(2) by auto
  ultimately show ?thesis using that 1 by auto
qed

lemma release_block:
  assumes "inv s" and "lock s = [i \<mapsto> k]" and "k \<in> dirty s \<or> view s k = dsk s k"
  obtains s' where "brelse' i s = Inr s'" and "inv s'" and "env s' = env s" and "lock s' = (\<lambda>_. None)"
    and "dirty s' = dirty s" and "view s' = view s" and "dsk s' = dsk s" and "history s' = history s"
proof -
  have "lock s i = Some k" by (simp add: assms(2))
  from brelse_law [OF assms(1) this assms(3)]
  obtain s' where "brelse' i s = Inr s'" "inv s'" "env s' = env s" "lock s' = (lock s)(i := None)"
      "dirty s' = dirty s" "view s' = view s" "dsk s' = dsk s" "history s' = history s"
    by blast
  then show ?thesis using that assms(2) by (simp add: fun_eq_iff)
qed

lemma write_block:
  assumes "inv s" and "lock s = [i \<mapsto> k]"
  obtains s1 s2 where "bwrite' i (store i x s) = Inr s1" and "brelse' i s1 = Inr s2"
    and "inv s2" and "env s2 = env s" and "lock s2 = (\<lambda>_. None)" and "dirty s2 = dirty s - {k}"
    and "view s2 k = clip BSIZE x" and "dsk s2 k = clip BSIZE x"
    and "\<And>k'. ok (env s) k' \<Longrightarrow> k' \<noteq> k \<Longrightarrow> view s2 k' = view s k' \<and> dsk s2 k' = dsk s k'"
    and "history s2 = history s @ sector_writes (sector (env s) k) (clip BSIZE x) 8"
proof -
  let ?t = "store i x s"
  have l: "lock s i = Some k" by (simp add: assms(2))
  note ok = lock_ok [OF assms(1) l]
  from store_law [OF assms(1) l, of x]
  have t: "inv ?t" "env ?t = env s" "lock ?t = lock s" "dirty ?t = dirty s"
      "view ?t = (view s)(k := clip BSIZE x)" "dsk ?t = dsk s" "history ?t = history s"
    by auto
  from bwrite_law [OF t(1)] l
  obtain s1 where s1: "bwrite' i ?t = Inr s1" "inv s1" "env s1 = env s" "lock s1 = lock s"
      "dirty s1 = dirty s - {k}" "dsk s1 k = clip BSIZE x"
      and v: "\<forall>k'. ok (env s) k' \<longrightarrow> view s1 k' = view ?t k'"
      and d: "\<forall>k'. ok (env s) k' \<and> k' \<noteq> k \<longrightarrow> dsk s1 k' = dsk s k'"
      and h: "history s1 = history s @ sector_writes (sector (env s) k) (clip BSIZE x) 8"
    by (fastforce simp: t)
  have vk: "view s1 k = clip BSIZE x" using v [rule_format, OF ok] by (simp add: t)
  have "lock s1 = [i \<mapsto> k]" using s1(4) assms(2) by simp
  moreover have "k \<in> dirty s1 \<or> view s1 k = dsk s1 k" using vk s1(6) by simp
  ultimately obtain s2 where s2: "brelse' i s1 = Inr s2" "inv s2" "env s2 = env s1"
      "lock s2 = (\<lambda>_. None)" "dirty s2 = dirty s1" "view s2 = view s1" "dsk s2 = dsk s1"
      "history s2 = history s1"
    using release_block [OF s1(2)] by blast
  show ?thesis
  proof (rule that [OF s1(1) s2(1,2)])
    show "view s2 k' = view s k' \<and> dsk s2 k' = dsk s k'" if "ok (env s) k'" "k' \<noteq> k" for k'
      using v [rule_format, of k'] d [rule_format, of k'] that by (simp add: s2 t)
  qed (use s1 s2 vk h in auto)
qed

end

section \<open>The cache of the kernel\<close>

type_synonym 'a bio_env = "(nat \<Rightarrow> superblock) \<times> (u32 \<Rightarrow> bytes) \<times> (u32 \<Rightarrow> bool) \<times> 'a"

definition bio_env :: "'a iost_scheme \<Rightarrow> 'a bio_env" where
  "bio_env s = (sb s, base (sdcard s), broken (sdcard s), iost.more s)"

definition key_sector :: "'a bio_env \<Rightarrow> key \<Rightarrow> u32" where
  "key_sector e k = snd k * 8 + sb_lba (fst e (unat (fst k)))"

text \<open>
  Buffer \<open>0\<close> of device \<open>0\<close> is excluded: all buffers carry that number after \<open>binit\<close>.
\<close>

definition blk_ok :: "'a bio_env \<Rightarrow> key \<Rightarrow> bool" where
  "blk_ok e k \<longleftrightarrow> k \<noteq> (0, 0) \<and> unat (fst k) < NMINOR \<and>
     8 * (unat (snd k) + 1) \<le> unat (sb_nsecs (fst e (unat (fst k)))) \<and>
     unat (sb_lba (fst e (unat (fst k)))) + unat (sb_nsecs (fst e (unat (fst k)))) \<le> 8388608 \<and>
     (\<forall>j<8. \<not> fst (snd (snd e)) (key_sector e k + of_nat j))"

definition bkey :: "'a iost_scheme \<Rightarrow> nat \<Rightarrow> key" where
  "bkey s i = (b_dev (bufs s i), b_blockno (bufs s i))"

abbreviation busy :: "'a iost_scheme \<Rightarrow> nat \<Rightarrow> bool" where "busy s i \<equiv> bit (b_flags (bufs s i)) 0"
abbreviation valid :: "'a iost_scheme \<Rightarrow> nat \<Rightarrow> bool" where "valid s i \<equiv> bit (b_flags (bufs s i)) (Suc 0)"
abbreviation dirt :: "'a iost_scheme \<Rightarrow> nat \<Rightarrow> bool" where "dirt s i \<equiv> bit (b_flags (bufs s i)) 2"

definition bio_lock :: "'a iost_scheme \<Rightarrow> nat \<Rightarrow> key option" where
  "bio_lock s i = (if i < NBUF \<and> busy s i then Some (bkey s i) else None)"

definition bio_dirty :: "'a iost_scheme \<Rightarrow> key set" where
  "bio_dirty s = bkey s ` {i. i < NBUF \<and> dirt s i}"

definition kdisk :: "'a iost_scheme \<Rightarrow> key \<Rightarrow> bytes" where
  "kdisk s k = disk s (fst k) (snd k)"

definition bio_view :: "'a iost_scheme \<Rightarrow> key \<Rightarrow> bytes" where
  "bio_view s k =
     (case find (\<lambda>i. bkey s i = k \<and> valid s i) [0..<NBUF] of
        Some i \<Rightarrow> clip BSIZE (b_data (bufs s i))
      | None \<Rightarrow> kdisk s k)"

definition bio_inv :: "'a iost_scheme \<Rightarrow> bool" where
  "bio_inv s \<longleftrightarrow> distinct (lru s) \<and> set (lru s) = {..<NBUF} \<and> devque s = [] \<and> parts_disjoint s \<and>
     (\<forall>i<NBUF. \<forall>j<NBUF. bkey s i = bkey s j \<and> bkey s i \<noteq> (0, 0) \<longrightarrow> i = j) \<and>
     (\<forall>i<NBUF. (dirt s i \<longrightarrow> valid s i) \<and> (busy s i \<longrightarrow> valid s i) \<and>
        (valid s i \<longrightarrow> blk_ok (bio_env s) (bkey s i)) \<and>
        (valid s i \<and> \<not> dirt s i \<and> \<not> busy s i \<longrightarrow> clip BSIZE (b_data (bufs s i)) = kdisk s (bkey s i)))"

lemma bio_lock_ran: "i < NBUF \<Longrightarrow> busy s i \<Longrightarrow> bkey s i \<in> ran (bio_lock s)"
  by (rule ranI [of _ i]) (simp add: bio_lock_def)

lemma blk_ok_key_ok: "blk_ok (bio_env s) k \<longleftrightarrow> k \<noteq> (0, 0) \<and> key_ok s (fst k) (snd k)"
  by (simp add: blk_ok_def key_ok_def bio_env_def key_sector_def blk_sector_def)

lemma bio_view_valid:
  assumes "bio_inv s" and "i < NBUF" and "valid s i"
  shows "bio_view s (bkey s i) = clip BSIZE (b_data (bufs s i))"
proof (cases "find (\<lambda>j. bkey s j = bkey s i \<and> valid s j) [0..<NBUF]")
  case None
  with assms show ?thesis by (auto simp: find_None_iff)
next
  case (Some j)
  then have j: "j < NBUF" "bkey s j = bkey s i" by (auto simp: find_Some_iff)
  moreover have "bkey s i \<noteq> (0, 0)" using assms by (auto simp: bio_inv_def blk_ok_def)
  ultimately have "j = i" using assms(1,2) by (auto simp: bio_inv_def)
  with Some show ?thesis by (simp add: bio_view_def)
qed

lemma bio_view_disk:
  "(\<And>i. i < NBUF \<Longrightarrow> valid s i \<Longrightarrow> bkey s i \<noteq> k) \<Longrightarrow> bio_view s k = kdisk s k"
proof -
  assume "\<And>i. i < NBUF \<Longrightarrow> valid s i \<Longrightarrow> bkey s i \<noteq> k"
  then have "find (\<lambda>i. bkey s i = k \<and> valid s i) [0..<NBUF] = None"
    by (auto simp: find_None_iff)
  then show ?thesis by (simp add: bio_view_def)
qed

text \<open>A change of one buffer, with the card's contents and the devices left alone.\<close>

definition bio_change :: "nat \<Rightarrow> 'a iost_scheme \<Rightarrow> 'a iost_scheme \<Rightarrow> bool" where
  "bio_change b s s' \<longleftrightarrow> b < NBUF \<and> (\<forall>j. j \<noteq> b \<longrightarrow> bufs s' j = bufs s j) \<and>
     distinct (lru s') \<and> set (lru s') = {..<NBUF} \<and> devque s' = [] \<and> bio_env s' = bio_env s \<and>
     writes (sdcard s') = writes (sdcard s) \<and>
     (bkey s' b = bkey s b \<or> (\<forall>j<NBUF. bkey s j \<noteq> bkey s' b)) \<and>
     (dirt s' b \<longrightarrow> valid s' b) \<and> (busy s' b \<longrightarrow> valid s' b) \<and>
     (valid s' b \<longrightarrow> blk_ok (bio_env s) (bkey s' b)) \<and>
     (valid s' b \<and> \<not> dirt s' b \<and> \<not> busy s' b \<longrightarrow>
        clip BSIZE (b_data (bufs s' b)) = kdisk s (bkey s' b))"

lemma bio_env_kdisk:
  assumes "bio_env s' = bio_env s" and "writes (sdcard s') = writes (sdcard s)"
  shows "kdisk s' = kdisk s"
  using assms by (intro ext) (simp add: kdisk_def disk_def bio_env_def medium_def blk_sector_def)

lemma bio_change_bkey: "bio_change b s s' \<Longrightarrow> j \<noteq> b \<Longrightarrow> bkey s' j = bkey s j"
  by (simp add: bio_change_def bkey_def)

lemma bio_change_kdisk: "bio_change b s s' \<Longrightarrow> kdisk s' = kdisk s"
  by (rule bio_env_kdisk) (simp_all add: bio_change_def)

lemma bio_change_inv:
  assumes "bio_inv s" and "bio_change b s s'"
  shows "bio_inv s'"
proof -
  note c = assms(2) [unfolded bio_change_def]
  have "parts_disjoint s'"
    using assms(1) c by (simp add: bio_inv_def parts_disjoint_def bio_env_def)
  moreover have "i = j" if "i < NBUF" "j < NBUF" "bkey s' i = bkey s' j" "bkey s' i \<noteq> (0, 0)" for i j
    using that assms(1) c bio_change_bkey [OF assms(2)]
    by (cases "i = b"; cases "j = b") (auto simp: bio_inv_def)
  moreover have "(dirt s' i \<longrightarrow> valid s' i) \<and> (busy s' i \<longrightarrow> valid s' i) \<and>
        (valid s' i \<longrightarrow> blk_ok (bio_env s') (bkey s' i)) \<and>
        (valid s' i \<and> \<not> dirt s' i \<and> \<not> busy s' i \<longrightarrow>
           clip BSIZE (b_data (bufs s' i)) = kdisk s' (bkey s' i))" if "i < NBUF" for i
    using that assms(1) c bio_change_bkey [OF assms(2)] bio_change_kdisk [OF assms(2)]
    by (cases "i = b") (auto simp: bio_inv_def)
  ultimately show ?thesis using c unfolding bio_inv_def by blast
qed

lemma bio_change_lock:
  assumes "bio_change b s s'"
  shows "bio_lock s' = (bio_lock s)(b := if busy s' b then Some (bkey s' b) else None)"
  using assms bio_change_bkey [OF assms]
  by (auto simp: bio_lock_def bio_change_def fun_eq_iff)

lemma bio_change_view_self:
  assumes "bio_inv s" and "bio_change b s s'" and "valid s' b"
  shows "bio_view s' (bkey s' b) = clip BSIZE (b_data (bufs s' b))"
  using bio_view_valid [OF bio_change_inv [OF assms(1,2)]] assms(2,3)
  by (simp add: bio_change_def)

lemma bio_change_view_other:
  assumes "bio_inv s" and "bio_change b s s'" and "k \<noteq> bkey s' b" and "k \<noteq> bkey s b"
  shows "bio_view s' k = bio_view s k"
proof (cases "\<exists>i<NBUF. valid s i \<and> bkey s i = k")
  case True
  then obtain i where i: "i < NBUF" "valid s i" "bkey s i = k" by blast
  with assms(4) have "i \<noteq> b" by auto
  with i assms(2) have "valid s' i" "bkey s' i = k" "bufs s' i = bufs s i"
    by (auto simp: bio_change_def bkey_def)
  with i show ?thesis
    using bio_view_valid [OF bio_change_inv [OF assms(1,2)], of i] bio_view_valid [OF assms(1), of i]
    by simp
next
  case False
  then have "bio_view s k = kdisk s k" by (intro bio_view_disk) auto
  moreover have "bio_view s' k = kdisk s' k"
  proof (rule bio_view_disk)
    fix i assume "i < NBUF" and v: "valid s' i"
    show "bkey s' i \<noteq> k"
    proof (cases "i = b")
      case True with assms(3) show ?thesis by simp
    next
      case i: False
      then have "valid s i" using v assms(2) by (simp add: bio_change_def)
      with False \<open>i < NBUF\<close> i show ?thesis by (auto simp: bio_change_bkey [OF assms(2)])
    qed
  qed
  ultimately show ?thesis by (simp add: bio_change_kdisk [OF assms(2)])
qed

text \<open>A recycled buffer was clean: its old block is read from the card from now on.\<close>

lemma bio_change_view_old:
  assumes "bio_inv s" and "bio_change b s s'" and "bkey s' b \<noteq> bkey s b"
    and "\<not> dirt s b" and "\<not> busy s b"
  shows "bio_view s' (bkey s b) = bio_view s (bkey s b)"
proof -
  have b: "b < NBUF" using assms(2) by (simp add: bio_change_def)
  have old: "bio_view s (bkey s b) = kdisk s (bkey s b)"
  proof (cases "valid s b")
    case True
    then show ?thesis
      using bio_view_valid [OF assms(1) b] assms(1,4,5) b by (auto simp: bio_inv_def)
  next
    case False
    show ?thesis
    proof (rule bio_view_disk)
      fix i assume i: "i < NBUF" "valid s i"
      then have "bkey s i \<noteq> (0, 0)" using assms(1) by (auto simp: bio_inv_def blk_ok_def)
      then show "bkey s i \<noteq> bkey s b"
        using assms(1) i b False unfolding bio_inv_def by metis
    qed
  qed
  have "bio_view s' (bkey s b) = kdisk s' (bkey s b)"
  proof (rule bio_view_disk)
    fix i assume i: "i < NBUF" "valid s' i"
    show "bkey s' i \<noteq> bkey s b"
    proof (cases "i = b")
      case False
      then have "valid s i" "bkey s' i = bkey s i"
        using i assms(2) by (simp_all add: bio_change_def bkey_def)
      moreover then have "bkey s i \<noteq> (0, 0)"
        using assms(1) i by (auto simp: bio_inv_def blk_ok_def)
      ultimately show ?thesis using assms(1) i b False unfolding bio_inv_def by metis
    qed (use assms(3) in simp)
  qed
  with old show ?thesis by (simp add: bio_change_kdisk [OF assms(2)])
qed

lemma bio_change_dirty_same:
  assumes "bio_change b s s'" and "dirt s' b = dirt s b" and "bkey s' b = bkey s b \<or> \<not> dirt s b"
  shows "bio_dirty s' = bio_dirty s"
proof -
  have "dirt s' i = dirt s i \<and> (dirt s i \<longrightarrow> bkey s' i = bkey s i)" for i
    using assms by (cases "i = b") (auto simp: bio_change_def bkey_def)
  then show ?thesis unfolding bio_dirty_def by (intro image_cong) auto
qed

lemma bio_change_dirty_insert:
  assumes "bio_change b s s'" and "dirt s' b" and "bkey s' b = bkey s b"
  shows "bio_dirty s' = insert (bkey s b) (bio_dirty s)"
proof -
  have "b < NBUF" using assms(1) by (simp add: bio_change_def)
  have "{i. i < NBUF \<and> dirt s' i} = insert b {i. i < NBUF \<and> dirt s i}"
    using assms by (auto simp: bio_change_def)
  moreover have "bkey s' i = bkey s i" for i
    using assms bio_change_bkey [OF assms(1)] by (cases "i = b") auto
  ultimately show ?thesis by (simp add: bio_dirty_def fun_eq_iff)
qed

section \<open>The laws for the operations\<close>

lemma find_lru_key:
  assumes "bio_inv s"
  shows "find (\<lambda>b. b_dev (bufs s b) = fst k \<and> b_blockno (bufs s b) = snd k) (lru s) = Some b \<Longrightarrow>
           b < NBUF \<and> bkey s b = k"
    and "find (\<lambda>b. b_dev (bufs s b) = fst k \<and> b_blockno (bufs s b) = snd k) (lru s) = None \<Longrightarrow>
           \<forall>j<NBUF. bkey s j \<noteq> k"
proof -
  have lru: "set (lru s) = {..<NBUF}" using assms by (simp add: bio_inv_def)
  show "find (\<lambda>b. b_dev (bufs s b) = fst k \<and> b_blockno (bufs s b) = snd k) (lru s) = Some b \<Longrightarrow>
           b < NBUF \<and> bkey s b = k"
    by (drule find_SomeD) (simp add: lru bkey_def)
  show "find (\<lambda>b. b_dev (bufs s b) = fst k \<and> b_blockno (bufs s b) = snd k) (lru s) = None \<Longrightarrow>
           \<forall>j<NBUF. bkey s j \<noteq> k"
    by (simp add: find_None_iff lru bkey_def prod_eq_iff)
qed

lemma bio_recyclable:
  assumes "bio_inv s" and "card (bio_dirty s \<union> ran (bio_lock s)) < NBUF"
  obtains b where "find (\<lambda>b. b_flags (bufs s b) AND B_BUSY = 0 \<and> b_flags (bufs s b) AND B_DIRTY = 0)
      (rev (lru s)) = Some b" and "b < NBUF" and "\<not> busy s b" and "\<not> dirt s b"
proof (cases "find (\<lambda>b. b_flags (bufs s b) AND B_BUSY = 0 \<and> b_flags (bufs s b) AND B_DIRTY = 0)
      (rev (lru s))")
  case None
  have set: "set (lru s) = {..<NBUF}" using assms(1) by (simp add: bio_inv_def)
  have all: "busy s i \<or> dirt s i" if "i < NBUF" for i
    using None that unfolding find_None_iff set_rev set flag_test by auto
  have "inj_on (bkey s) {..<NBUF}"
  proof (rule inj_onI)
    fix i j assume ij: "i \<in> {..<NBUF}" "j \<in> {..<NBUF}" "bkey s i = bkey s j"
    then have "valid s i" using all [of i] assms(1) unfolding bio_inv_def by blast
    then have "bkey s i \<noteq> (0, 0)" using ij assms(1) unfolding bio_inv_def blk_ok_def by blast
    with ij assms(1) show "i = j" unfolding bio_inv_def by blast
  qed
  then have "card (bkey s ` {..<NBUF}) = NBUF" by (simp add: card_image)
  moreover have sub: "bkey s ` {..<NBUF} \<subseteq> bio_dirty s \<union> ran (bio_lock s)"
  proof clarsimp
    fix i assume i: "i < NBUF" "bkey s i \<notin> ran (bio_lock s)"
    then have "\<not> busy s i" using bio_lock_ran by blast
    with all i show "bkey s i \<in> bio_dirty s" by (auto simp: bio_dirty_def)
  qed
  moreover have fin: "finite (bio_dirty s \<union> ran (bio_lock s))"
  proof -
    have "ran (bio_lock s) \<subseteq> bkey s ` {..<NBUF}" by (force simp: bio_lock_def ran_def split: if_splits)
    then have "finite (ran (bio_lock s))" by (rule finite_subset) simp
    then show ?thesis by (simp add: bio_dirty_def)
  qed
  ultimately have "NBUF \<le> card (bio_dirty s \<union> ran (bio_lock s))"
    using card_mono [OF fin sub] by simp
  with assms(2) show ?thesis by simp
next
  case (Some b)
  then have "b \<in> set (lru s)" "\<not> busy s b" "\<not> dirt s b"
    by (auto dest!: find_SomeD simp: flag_test)
  with that Some assms(1) show ?thesis by (simp add: bio_inv_def)
qed

text \<open>A clean, unlocked buffer is given to a block and filled from the card.\<close>

lemma bio_load:
  assumes "bio_inv s" and "b < NBUF" and "\<not> busy s b" and "\<not> dirt s b"
    and "blk_ok (bio_env s) k" and "bkey s b = k \<and> \<not> valid s b \<or> (\<forall>j<NBUF. bkey s j \<noteq> k)"
    and "t = buf_upd b (\<lambda>B. B\<lparr>b_flags := f, b_dev := fst k, b_blockno := snd k\<rparr>) s"
    and "bit f 0" and "\<not> bit f (Suc 0)" and "\<not> bit f 2"
  shows "\<exists>s'. devrw b t = Inr s' \<and> bio_change b s s' \<and> bkey s' b = k \<and> busy s' b \<and> valid s' b \<and>
           \<not> dirt s' b \<and> clip BSIZE (b_data (bufs s' b)) = kdisk s k"
proof -
  have kt: "key_ok t (fst k) (snd k)"
    using assms(5) unfolding blk_ok_key_ok assms(7) by (simp add: key_ok_def blk_sector_def buf_upd_def)
  have d: "devrw b t = Inr (loaded b (fst k) (snd k) t)"
    using assms(1,10) kt by (intro devrw_read) (simp_all add: assms(7) buf_upd_def bio_inv_def flag_test)
  have dk: "disk t (fst k) (snd k) = kdisk s k"
    by (simp add: assms(7) kdisk_def disk_def buf_upd_def blk_sector_def)
  let ?s' = "loaded b (fst k) (snd k) t"
  have f: "b_flags (bufs ?s' b) = (f OR B_VALID) AND NOT B_DIRTY"
    and dt: "clip BSIZE (b_data (bufs ?s' b)) = kdisk s k" and key: "bkey ?s' b = k"
    by (simp_all add: loaded_def dk bkey_def) (simp_all add: assms(7) buf_upd_def seeked_def kdisk_def disk_def block_at_def)
  have bits: "busy ?s' b" "valid ?s' b" "\<not> dirt ?s' b"
    using assms(8) by (simp_all add: f bit_simps)
  have fr: "bufs ?s' j = bufs s j" if "j \<noteq> b" for j
    using that by (simp add: loaded_def seeked_def assms(7) buf_upd_def)
  have rest: "lru ?s' = lru s" "devque ?s' = devque s" "bio_env ?s' = bio_env s"
      "writes (sdcard ?s') = writes (sdcard s)"
    by (simp_all add: loaded_def seeked_def assms(7) buf_upd_def bio_env_def emmc_seek_def)
  have "distinct (lru s)" "set (lru s) = {..<NBUF}" "devque s = []"
    using assms(1) by (simp_all add: bio_inv_def)
  moreover have "k = bkey s b \<or> (\<forall>j<NBUF. bkey s j \<noteq> k)" using assms(6) by auto
  ultimately have "bio_change b s ?s'"
    unfolding bio_change_def rest key by (simp add: bits fr assms(2,5))
  with d dt key bits show ?thesis by blast
qed

lemma bio_load_laws:
  assumes "bio_inv s" and "bio_change b s s'" and "bkey s' b = k" and "busy s' b" and "valid s' b"
    and "\<not> dirt s' b" and "clip BSIZE (b_data (bufs s' b)) = kdisk s k"
    and "\<not> busy s b" and "\<not> dirt s b" and "bkey s b = k \<longrightarrow> \<not> valid s b"
  shows "bio_dirty s' = bio_dirty s" and "bio_view s' = bio_view s"
proof -
  show "bio_dirty s' = bio_dirty s"
    using assms(2,6,9) by (intro bio_change_dirty_same) auto
  have b: "b < NBUF" using assms(2) by (simp add: bio_change_def)
  have ok: "blk_ok (bio_env s) k" using assms(2,3,5) by (simp add: bio_change_def)
  show "bio_view s' = bio_view s"
  proof
    fix k'
    consider "k' = k" | "k' \<noteq> k" "k' = bkey s b" | "k' \<noteq> k" "k' \<noteq> bkey s b" by blast
    then show "bio_view s' k' = bio_view s k'"
    proof cases
      case 1
      have "bio_view s k = kdisk s k"
      proof (rule bio_view_disk)
        fix i assume i: "i < NBUF" "valid s i"
        then have nz: "bkey s i \<noteq> (0, 0)" using assms(1) by (auto simp: bio_inv_def blk_ok_def)
        show "bkey s i \<noteq> k"
        proof
          assume ik: "bkey s i = k"
          then have "bkey s b = k" using assms(2,3) i by (auto simp: bio_change_def)
          then have "i = b" using assms(1) i b ik nz by (auto simp: bio_inv_def)
          with i assms(10) \<open>bkey s b = k\<close> show False by simp
        qed
      qed
      with 1 show ?thesis using bio_change_view_self [OF assms(1,2,5)] assms(3,7) by simp
    next
      case 2
      with assms(1,2,3,8,9) show ?thesis using bio_change_view_old [of s b s'] by auto
    next
      case 3
      with assms(1,2,3) show ?thesis using bio_change_view_other [of s b s'] by auto
    qed
  qed
qed

lemma bio_bread:
  assumes "bio_inv s" and "blk_ok (bio_env s) k" and "k \<notin> ran (bio_lock s)"
    and "card (bio_dirty s \<union> ran (bio_lock s)) < NBUF"
  shows "\<exists>i s'. bread (fst k) (snd k) s = Inr (i, s') \<and> bio_change i s s' \<and> bkey s' i = k \<and>
           busy s' i \<and> valid s' i \<and> bio_dirty s' = bio_dirty s \<and> bio_view s' = bio_view s \<and> \<not> busy s i"
proof (cases "find (\<lambda>b. b_dev (bufs s b) = fst k \<and> b_blockno (bufs s b) = snd k) (lru s)")
  case None
  note new = find_lru_key(2) [OF assms(1) None]
  obtain b where b: "find (\<lambda>b. b_flags (bufs s b) AND B_BUSY = 0 \<and> b_flags (bufs s b) AND B_DIRTY = 0)
      (rev (lru s)) = Some b" "b < NBUF" "\<not> busy s b" "\<not> dirt s b"
    using bio_recyclable [OF assms(1,4)] by blast
  obtain s' where s': "devrw b (buf_upd b (\<lambda>B. B\<lparr>b_flags := B_BUSY, b_dev := fst k, b_blockno := snd k\<rparr>) s) =
        Inr s'" "bio_change b s s'" "bkey s' b = k" "busy s' b" "valid s' b"
      "\<not> dirt s' b" "clip BSIZE (b_data (bufs s' b)) = kdisk s k"
    using bio_load [OF assms(1) b(2-4) assms(2) _ refl, of B_BUSY] new by (auto simp: flag_bits)
  have "bread (fst k) (snd k) s = Inr (b, s')"
    using None b(1) s'(1) by (simp add: bread_def bget_def buf_upd_def flag_defs)
  moreover have "bkey s b = k \<longrightarrow> \<not> valid s b" using new b(2) by blast
  ultimately show ?thesis using s' b bio_load_laws [OF assms(1) s'(2-7) b(3,4)] by blast
next
  case (Some b)
  then have b: "b < NBUF" "bkey s b = k" using find_lru_key(1) [OF assms(1)] by auto
  then have nb: "\<not> busy s b" using assms(3) bio_lock_ran by blast
  let ?t = "buf_upd b (\<lambda>B. B\<lparr>b_flags := b_flags B OR B_BUSY\<rparr>) s"
  have g: "bget (fst k) (snd k) s = Inr (b, ?t)"
    using Some nb by (simp add: bget_def flag_test)
  show ?thesis
  proof (cases "valid s b")
    case False
    then have nd: "\<not> dirt s b" using assms(1) b by (auto simp: bio_inv_def)
    have t: "?t = buf_upd b (\<lambda>B. B\<lparr>b_flags := b_flags (bufs s b) OR B_BUSY, b_dev := fst k, b_blockno := snd k\<rparr>) s"
      using b(2) by (auto simp: buf_upd_def bkey_def)
    obtain s' where s': "devrw b ?t = Inr s'" "bio_change b s s'" "bkey s' b = k" "busy s' b" "valid s' b"
      "\<not> dirt s' b" "clip BSIZE (b_data (bufs s' b)) = kdisk s k"
      using bio_load [OF assms(1) b(1) nb nd assms(2) _ t] b(2) False nd by (auto simp: bit_simps)
    have "bread (fst k) (snd k) s = Inr (b, s')"
      using g False s'(1) by (simp add: bread_def buf_upd_def flag_test bit_simps)
    with False show ?thesis using s' nb bio_load_laws [OF assms(1) s'(2-7) nb nd] by blast
  next
    case True
    have c: "bio_change b s ?t"
      using assms(1,2) b True by (auto simp: bio_change_def bio_inv_def bio_env_def buf_upd_def bkey_def bit_simps)
    have k: "bkey ?t b = k" "busy ?t b" "valid ?t b" "dirt ?t b = dirt s b" "b_data (bufs ?t b) = b_data (bufs s b)"
      using b True by (auto simp: buf_upd_def bkey_def bit_simps)
    have "bread (fst k) (snd k) s = Inr (b, ?t)"
      using g k(3) by (simp add: bread_def flag_test)
    moreover have "bio_dirty ?t = bio_dirty s" using c k b by (intro bio_change_dirty_same) auto
    moreover have "bio_view ?t k' = bio_view s k'" for k'
      using bio_change_view_self [OF assms(1) c k(3)] bio_change_view_other [OF assms(1) c, of k']
        bio_view_valid [OF assms(1) b(1) True] b(2) k by (cases "k' = k") auto
    ultimately show ?thesis using c k nb by blast
  qed
qed

lemma bio_lockD: "bio_lock s i = Some k \<Longrightarrow> i < NBUF \<and> busy s i \<and> bkey s i = k"
  by (simp add: bio_lock_def split: if_splits)

lemma bio_lock_valid:
  assumes "bio_inv s" and "bio_lock s i = Some k"
  shows "i < NBUF" and "busy s i" and "bkey s i = k" and "valid s i" and "blk_ok (bio_env s) k"
  using assms bio_lockD [OF assms(2)] by (auto simp: bio_inv_def)

lemma bio_store_change:
  assumes "bio_inv s" and "bio_lock s i = Some k"
  shows "bio_change i s (buf_store i x s)"
  using bio_lock_valid [OF assms] assms(1)
  by (simp add: bio_change_def buf_store_def buf_upd_def bkey_def bio_env_def bio_inv_def)

lemma bio_dirty_change:
  assumes "bio_inv s" and "bio_lock s i = Some k"
  shows "bio_change i s (buf_dirty i s)"
  using bio_lock_valid [OF assms] assms(1)
  by (simp add: bio_change_def buf_dirty_def buf_upd_def bkey_def bio_env_def bio_inv_def bit_simps)

lemma bio_view_same_data:
  assumes "bio_inv s" and "bio_change i s s'" and "valid s i" and "valid s' i"
    and "bkey s' i = bkey s i" and "b_data (bufs s' i) = b_data (bufs s i)"
  shows "bio_view s' = bio_view s"
proof
  fix k
  have "i < NBUF" using assms(2) by (simp add: bio_change_def)
  then show "bio_view s' k = bio_view s k"
    using bio_change_view_self [OF assms(1,2,4)] bio_change_view_other [OF assms(1,2), of k]
      bio_view_valid [OF assms(1) _ assms(3)] assms(5,6)
    by (cases "k = bkey s i") auto
qed

lemma bio_brelse:
  assumes "bio_inv s" and "bio_lock s i = Some k" and "k \<in> bio_dirty s \<or> bio_view s k = kdisk s k"
  obtains s' where "brelse i s = Inr s'" and "bio_change i s s'" and "\<not> busy s' i"
    and "dirt s' i = dirt s i" and "valid s' i" and "bkey s' i = k" and "\<And>j. b_data (bufs s' j) = b_data (bufs s j)"
proof -
  note l = bio_lock_valid [OF assms(1,2)]
  let ?s' = "buf_upd i (\<lambda>B. B\<lparr>b_flags := b_flags B AND NOT B_BUSY\<rparr>) (s\<lparr>lru := remove1 i (lru s) @ [i]\<rparr>)"
  have f: "busy ?s' i = False" "dirt ?s' i = dirt s i" "valid ?s' i = valid s i"
    and k: "bkey ?s' i = k" and dt: "b_data (bufs ?s' j) = b_data (bufs s j)" for j
    using l by (simp_all add: buf_upd_def bit_simps bkey_def)
  have "distinct (lru ?s')" "set (lru ?s') = {..<NBUF}"
    using assms(1) l(1) by (auto simp: buf_upd_def bio_inv_def)
  moreover have "clip BSIZE (b_data (bufs ?s' i)) = kdisk s k" if "\<not> dirt s i"
  proof -
    have "k \<notin> bio_dirty s"
    proof
      assume "k \<in> bio_dirty s"
      then obtain j where "j < NBUF" "dirt s j" "bkey s j = k" by (auto simp: bio_dirty_def)
      then have "j = i" using assms(1) l by (auto simp: bio_inv_def blk_ok_def)
      with \<open>dirt s j\<close> that show False by simp
    qed
    with assms(3) show ?thesis using bio_view_valid [OF assms(1) l(1,4)] l(3) by (simp add: dt)
  qed
  ultimately have "bio_change i s ?s'"
    using l assms(1) unfolding bio_change_def f k
    by (auto simp: bio_inv_def bio_env_def buf_upd_def)
  moreover have "brelse i s = Inr ?s'" using l by (simp add: brelse_def flag_test)
  ultimately show ?thesis using that f k l dt by auto
qed

lemma bio_written:
  assumes "bio_inv s" and "bio_lock s i = Some k"
  shows "bwrite i s = Inr (written i (fst k) (snd k) (buf_dirty i s))"
proof -
  note l = bio_lock_valid [OF assms]
  have "key_ok (buf_dirty i s) (fst k) (snd k)"
    using l(5) unfolding blk_ok_key_ok by (simp add: key_ok_def blk_sector_def buf_dirty_def buf_upd_def)
  then have "devrw i (buf_dirty i s) = Inr (written i (fst k) (snd k) (buf_dirty i s))"
    using l assms(1)
    by (intro devrw_write)
      (auto simp: buf_dirty_def buf_upd_def bkey_def flag_test bit_simps bio_inv_def B_DIRTY_def)
  then show ?thesis using l by (simp add: bwrite_def flag_test buf_dirty_def)
qed

lemma bio_bwrite:
  assumes "bio_inv s" and "bio_lock s i = Some k" and "s' = written i (fst k) (snd k) (buf_dirty i s)"
  shows "bio_inv s'" and "bio_env s' = bio_env s" and "bio_lock s' = bio_lock s"
    and "bio_dirty s' = bio_dirty s - {k}" and "kdisk s' k = bio_view s k"
    and "\<And>k'. blk_ok (bio_env s) k' \<Longrightarrow> bio_view s' k' = bio_view s k'"
    and "\<And>k'. blk_ok (bio_env s) k' \<Longrightarrow> k' \<noteq> k \<Longrightarrow> kdisk s' k' = kdisk s k'"
    and "writes (sdcard s') = writes (sdcard s) @ sector_writes (key_sector (bio_env s) k) (bio_view s k) 8"
    and "\<And>j. b_data (bufs s' j) = b_data (bufs s j)"
proof -
  note l = bio_lock_valid [OF assms(1,2)]
  have fr: "bufs s' j = bufs s j" if "j \<noteq> i" for j
    using that by (simp add: assms(3) written_def buf_upd_def buf_dirty_def seeked_def)
  have i: "busy s' i" "valid s' i" "\<not> dirt s' i" "bkey s' i = k"
    using l by (simp_all add: assms(3) written_def buf_upd_def buf_dirty_def seeked_def bit_simps bkey_def)
  have keys: "bkey s' j = bkey s j" for j
    using fr l(3) i(4) by (cases "j = i") (auto simp: bkey_def)
  show dat: "b_data (bufs s' j) = b_data (bufs s j)" for j
    by (simp add: assms(3) written_def buf_upd_def buf_dirty_def seeked_def)
  show env: "bio_env s' = bio_env s"
    by (simp add: assms(3) written_def buf_upd_def buf_dirty_def seeked_def bio_env_def emmc_seek_def)
  have only: "j = i" if "j < NBUF" "bkey s j = k" for j
    using that l assms(1) by (auto simp: bio_inv_def blk_ok_def)
  have vk: "bio_view s k = clip BSIZE (b_data (bufs s i))"
    using bio_view_valid [OF assms(1) l(1,4)] l(3) by simp
  show "kdisk s' k = bio_view s k"
    using disk_written_same [of i "fst k" "snd k" "buf_dirty i s"]
    by (simp add: vk kdisk_def assms(3)) (simp add: buf_dirty_def buf_upd_def)
  show other: "kdisk s' k' = kdisk s k'" if "blk_ok (bio_env s) k'" "k' \<noteq> k" for k'
  proof -
    have same: "key_ok (buf_dirty i s) = key_ok s" "parts_disjoint (buf_dirty i s) = parts_disjoint s"
      "disk (buf_dirty i s) = disk s"
      by (simp_all add: fun_eq_iff key_ok_def parts_disjoint_def disk_def blk_sector_def buf_dirty_def buf_upd_def)
    have "parts_disjoint s" using assms(1) by (simp add: bio_inv_def)
    then show ?thesis
      using disk_written_other [of "buf_dirty i s" "fst k" "snd k" "fst k'" "snd k'" i] that l(5)
      by (simp add: kdisk_def assms(3) same blk_ok_key_ok prod_eq_iff)
  qed
  show "bio_lock s' = bio_lock s"
  proof
    fix j show "bio_lock s' j = bio_lock s j"
      using fr [of j] l(1,2) i(1) keys [of j] by (cases "j = i") (auto simp: bio_lock_def)
  qed
  show "bio_dirty s' = bio_dirty s - {k}"
  proof -
    have "dirt s' j \<longleftrightarrow> dirt s j \<and> j \<noteq> i" for j
      using fr [of j] i(3) by (cases "j = i") auto
    then have "bio_dirty s' = bkey s ` ({j. j < NBUF \<and> dirt s j} - {i})"
      by (auto simp: bio_dirty_def keys)
    also have "\<dots> = bkey s ` {j. j < NBUF \<and> dirt s j} - {k}"
      using only l(3) by blast
    finally show ?thesis by (simp add: bio_dirty_def)
  qed
  show inv: "bio_inv s'"
  proof -
    have "(dirt s' j \<longrightarrow> valid s' j) \<and> (busy s' j \<longrightarrow> valid s' j) \<and>
        (valid s' j \<longrightarrow> blk_ok (bio_env s') (bkey s' j)) \<and>
        (valid s' j \<and> \<not> dirt s' j \<and> \<not> busy s' j \<longrightarrow>
           clip BSIZE (b_data (bufs s' j)) = kdisk s' (bkey s' j))" if j: "j < NBUF" for j
    proof (cases "j = i")
      case True with i l(5) show ?thesis by (simp add: env)
    next
      case False
      then have "bkey s j \<noteq> k" using only j by blast
      then show ?thesis
        using assms(1) j fr [OF False] other [of "bkey s j"] by (auto simp: bio_inv_def keys env)
    qed
    moreover have "distinct (lru s')" "set (lru s') = {..<NBUF}" "devque s' = []" "parts_disjoint s'"
      using assms(1) by (simp_all add: bio_inv_def assms(3) buf_dirty_def buf_upd_def parts_disjoint_def)
    ultimately show ?thesis using assms(1) unfolding bio_inv_def keys by blast
  qed
  show "bio_view s' k' = bio_view s k'" if ok: "blk_ok (bio_env s) k'" for k'
  proof (cases "\<exists>j<NBUF. valid s j \<and> bkey s j = k'")
    case True
    then obtain j where j: "j < NBUF" "valid s j" "bkey s j = k'" by blast
    then have "valid s' j" using fr [of j] i(2) by (cases "j = i") auto
    then show ?thesis
      using bio_view_valid [OF inv j(1)] bio_view_valid [OF assms(1) j(1,2)] j(3) keys dat by simp
  next
    case False
    then have nk: "k' \<noteq> k" using l by blast
    have "bio_view s k' = kdisk s k'" using False by (intro bio_view_disk) blast
    moreover have "bio_view s' k' = kdisk s' k'"
    proof (rule bio_view_disk)
      fix j assume "j < NBUF" "valid s' j"
      then show "bkey s' j \<noteq> k'"
        using False fr [of j] l(3) nk unfolding keys by (cases "j = i") auto
    qed
    ultimately show ?thesis using other [OF ok nk] by simp
  qed
  show "writes (sdcard s') = writes (sdcard s) @ sector_writes (key_sector (bio_env s) k) (bio_view s k) 8"
    unfolding vk sector_writes_clip
    by (simp add: assms(3) written_def buf_upd_def buf_dirty_def seeked_def emmc_seek_def
        blk_sector_def key_sector_def bio_env_def)
qed

lemma bio_brelse_law:
  assumes "bio_inv s" and "bio_lock s i = Some k" and "k \<in> bio_dirty s \<or> bio_view s k = kdisk s k"
  shows "\<exists>s'. brelse i s = Inr s' \<and> bio_inv s' \<and> bio_env s' = bio_env s \<and>
           bio_lock s' = (bio_lock s)(i := None) \<and> bio_dirty s' = bio_dirty s \<and>
           bio_view s' = bio_view s \<and> kdisk s' = kdisk s \<and>
           writes (sdcard s') = writes (sdcard s) \<and> (\<lambda>j. b_data (bufs s' j)) = (\<lambda>j. b_data (bufs s j))"
proof -
  note l = bio_lock_valid [OF assms(1,2)]
  obtain s' where s': "brelse i s = Inr s'" "bio_change i s s'" "\<not> busy s' i" "dirt s' i = dirt s i"
      "valid s' i" "bkey s' i = k" "\<And>j. b_data (bufs s' j) = b_data (bufs s j)"
    using bio_brelse [OF assms] by blast
  have "bio_dirty s' = bio_dirty s" using s' l by (intro bio_change_dirty_same) auto
  moreover have "bio_view s' = bio_view s" using s' l by (intro bio_view_same_data [OF assms(1) s'(2)]) auto
  moreover have "bio_env s' = bio_env s" "writes (sdcard s') = writes (sdcard s)"
    using s'(2) by (simp_all add: bio_change_def)
  moreover have "bio_lock s' = (bio_lock s)(i := None)"
    using bio_change_lock [OF s'(2)] s'(3) by simp
  ultimately show ?thesis
    using s'(1,7) bio_change_inv [OF assms(1) s'(2)] bio_change_kdisk [OF s'(2)] by simp
qed

lemma bio_bread_law:
  assumes "bio_inv s" and "blk_ok (bio_env s) k" and "k \<notin> ran (bio_lock s)"
    and "card (bio_dirty s \<union> ran (bio_lock s)) < NBUF"
  shows "\<exists>i s'. bread (fst k) (snd k) s = Inr (i, s') \<and> bio_inv s' \<and> bio_env s' = bio_env s \<and>
           bio_lock s i = None \<and> bio_lock s' = (bio_lock s)(i \<mapsto> k) \<and> bio_dirty s' = bio_dirty s \<and>
           bio_view s' = bio_view s \<and> kdisk s' = kdisk s \<and> writes (sdcard s') = writes (sdcard s) \<and>
           (\<forall>j. bio_lock s j \<noteq> None \<longrightarrow> b_data (bufs s' j) = b_data (bufs s j))"
proof -
  obtain i s' where s': "bread (fst k) (snd k) s = Inr (i, s')" "bio_change i s s'" "bkey s' i = k"
      "busy s' i" "valid s' i" "bio_dirty s' = bio_dirty s" "bio_view s' = bio_view s" "\<not> busy s i"
    using bio_bread [OF assms] by blast
  have "bio_lock s i = None" using s'(8) by (simp add: bio_lock_def)
  moreover have "b_data (bufs s' j) = b_data (bufs s j)" if "bio_lock s j \<noteq> None" for j
    using that s'(2) calculation by (cases "j = i") (auto simp: bio_change_def)
  moreover have "bio_env s' = bio_env s" "writes (sdcard s') = writes (sdcard s)"
    using s'(2) by (simp_all add: bio_change_def)
  moreover have "bio_lock s' = (bio_lock s)(i \<mapsto> k)"
    using bio_change_lock [OF s'(2)] s'(3,4) by simp
  ultimately show ?thesis
    using s'(1,6,7) bio_change_inv [OF assms(1) s'(2)] bio_change_kdisk [OF s'(2)] by auto
qed

lemma bio_clean_agrees:
  assumes "bio_inv s" and "k \<notin> bio_dirty s" and "k \<notin> ran (bio_lock s)"
  shows "bio_view s k = kdisk s k"
proof (cases "\<exists>i<NBUF. valid s i \<and> bkey s i = k")
  case True
  then obtain i where i: "i < NBUF" "valid s i" "bkey s i = k" by blast
  then have "\<not> busy s i" "\<not> dirt s i"
    using assms(2,3) bio_lock_ran [of i s] by (auto simp: bio_dirty_def)
  with i show ?thesis using bio_view_valid [OF assms(1) i(1,2)] assms(1) by (auto simp: bio_inv_def)
next
  case False
  then show ?thesis by (intro bio_view_disk) blast
qed

interpretation bc: block_cache
  "bread :: u32 \<Rightarrow> u32 \<Rightarrow> 'a iost_scheme \<Rightarrow> _" bwrite brelse buf_store buf_dirty "\<lambda>s j. b_data (bufs s j)"
  bio_inv bio_env blk_ok key_sector bio_lock bio_dirty bio_view kdisk "\<lambda>s. writes (sdcard s)"
proof (unfold_locales, goal_cases)
  case (1 s) show ?case by (simp add: bio_dirty_def)
next
  case (2 s k) then show ?case by (intro bio_clean_agrees)
next
  case (3 s i k j)
  then show ?case using bio_lock_valid [of s i k] bio_lock_valid [of s j k]
    by (auto simp: bio_inv_def blk_ok_def)
next
  case (4 s i k) then show ?case by (rule bio_lock_valid)
next
  case (5 s i k) then show ?case using bio_lock_valid [of s i k] bio_view_valid [of s i] by auto
next
  case (6 s k) then show ?case by (intro bio_bread_law)
next
  case (7 s i k x)
  note c = bio_store_change [OF 7] and l = bio_lock_valid [OF 7]
  let ?s = "buf_store i x s"
  have b: "busy ?s i" "valid ?s i" "dirt ?s i = dirt s i" "bkey ?s i = k" "b_data (bufs ?s i) = x"
    using l by (simp_all add: buf_store_def buf_upd_def bkey_def)
  have "bio_dirty ?s = bio_dirty s" using c b l by (intro bio_change_dirty_same) auto
  moreover have "bio_view ?s = (bio_view s)(k := clip BSIZE x)"
  proof
    fix k' show "bio_view ?s k' = ((bio_view s)(k := clip BSIZE x)) k'"
      using bio_change_view_self [OF 7(1) c b(2)] bio_change_view_other [OF 7(1) c, of k'] b l
      by (cases "k' = k") auto
  qed
  moreover have "bio_lock ?s = bio_lock s"
    using bio_change_lock [OF c] b 7(2) by auto
  ultimately show ?case
    using bio_change_inv [OF 7(1) c] bio_change_kdisk [OF c] c
    by (auto simp: bio_change_def buf_store_def buf_upd_def fun_eq_iff)
next
  case (8 s i k)
  note c = bio_dirty_change [OF 8] and l = bio_lock_valid [OF 8]
  let ?s = "buf_dirty i s"
  have b: "busy ?s i" "valid ?s i" "dirt ?s i" "bkey ?s i = k" "b_data (bufs ?s j) = b_data (bufs s j)" for j
    using l by (simp_all add: buf_dirty_def buf_upd_def bkey_def bit_simps)
  have "bio_dirty ?s = insert k (bio_dirty s)"
    using bio_change_dirty_insert [OF c b(3)] b l by simp
  moreover have "bio_view ?s = bio_view s"
    using b l by (intro bio_view_same_data [OF 8(1) c]) auto
  moreover have "bio_lock ?s = bio_lock s"
    using bio_change_lock [OF c] b 8(2) by auto
  ultimately show ?case
    using bio_change_inv [OF 8(1) c] bio_change_kdisk [OF c] c b(5)
    by (auto simp: bio_change_def)
next
  case (9 s i k)
  note w = bio_bwrite [OF 9 refl]
  show ?case
    using bio_written [OF 9] w(1-5,8,9) w(6) [of "(_, _)"] w(7) [of "(_, _)"] by auto
next
  case (10 s i k) then show ?case by (intro bio_brelse_law)
qed

section \<open>Properties\<close>

text \<open>C6: As long as fewer than \<open>NBUF\<close> blocks are locked or dirty, \<open>bread\<close> of a block that nobody
  holds returns: a buffer locked for that block whose data is the block's current contents
  (cached or on the card). No other block's contents, dirty mark or lock changes, nothing is
  written, and the cache invariant holds again; recycling never loses an update.\<close>

theorem bread_correct:
  assumes "bio_inv s" and "blk_ok (bio_env s) k" and "k \<notin> ran (bio_lock s)"
    and "card (bio_dirty s \<union> ran (bio_lock s)) < NBUF"
  shows "\<exists>i s'. bread (fst k) (snd k) s = Inr (i, s') \<and> bio_inv s' \<and>
           clip BSIZE (b_data (bufs s' i)) = bio_view s k \<and>
           bio_lock s i = None \<and> bio_lock s' = (bio_lock s)(i \<mapsto> k) \<and> bio_view s' = bio_view s \<and>
           bio_dirty s' = bio_dirty s \<and> writes (sdcard s') = writes (sdcard s)"
proof -
  obtain i s' where s': "bread (fst k) (snd k) s = Inr (i, s')" "bio_inv s'" "bio_lock s i = None"
      "bio_lock s' = (bio_lock s)(i \<mapsto> k)" "bio_view s' = bio_view s" "bio_dirty s' = bio_dirty s"
      "writes (sdcard s') = writes (sdcard s)"
    using bc.bread_law [OF assms] by blast
  moreover have "bio_view s' k = clip BSIZE (b_data (bufs s' i))"
    using s'(4) by (intro bc.lock_view [OF s'(2)]) simp
  ultimately show ?thesis by auto
qed

text \<open>C24: \<open>bwrite\<close> of a locked buffer puts exactly its data on the card, at its block and nowhere
  else, and a following \<open>brelse\<close> unlocks it; afterwards the cache and the card agree on the block.\<close>

theorem bwrite_brelse_correct:
  assumes "bio_inv s" and "bio_lock s i = Some k"
  shows "\<exists>s1 s2. bwrite i s = Inr s1 \<and> brelse i s1 = Inr s2 \<and> bio_inv s2 \<and>
           kdisk s2 k = clip BSIZE (b_data (bufs s i)) \<and> bio_view s2 k = kdisk s2 k \<and>
           (\<forall>k'. blk_ok (bio_env s) k' \<and> k' \<noteq> k \<longrightarrow> kdisk s2 k' = kdisk s k' \<and> bio_view s2 k' = bio_view s k') \<and>
           bio_lock s2 = (bio_lock s)(i := None) \<and> k \<notin> bio_dirty s2"
proof -
  obtain s1 where s1: "bwrite i s = Inr s1" "bio_inv s1" "bio_env s1 = bio_env s" "bio_lock s1 = bio_lock s"
      "bio_dirty s1 = bio_dirty s - {k}" "kdisk s1 k = bio_view s k"
      "\<forall>k'. blk_ok (bio_env s) k' \<longrightarrow> bio_view s1 k' = bio_view s k'"
      "\<forall>k'. blk_ok (bio_env s) k' \<and> k' \<noteq> k \<longrightarrow> kdisk s1 k' = kdisk s k'"
    using bc.bwrite_law [OF assms] by blast
  have ok: "blk_ok (bio_env s) k" using assms by (rule bc.lock_ok)
  have v: "bio_view s k = clip BSIZE (b_data (bufs s i))" using assms by (rule bc.lock_view)
  have "bio_view s1 k = kdisk s1 k" using s1(6,7) ok by (cases k) simp
  moreover have "bio_lock s1 i = Some k" using s1(4) assms(2) by simp
  ultimately obtain s2 where "brelse i s1 = Inr s2" "bio_inv s2" "bio_lock s2 = (bio_lock s1)(i := None)"
      "bio_dirty s2 = bio_dirty s1" "bio_view s2 = bio_view s1" "kdisk s2 = kdisk s1"
    using bc.brelse_law [OF s1(2)] by blast
  then show ?thesis using s1 v ok \<open>bio_view s1 k = kdisk s1 k\<close> by auto
qed

text \<open>A buffer just released is the first one recycled: \<open>brelse\<close> puts it at the back of the
  list, and \<open>bget\<close> looks for a victim from the back, so a miss evicts the most recently used
  clean block.\<close>

lemma bget_recycles_most_recent:
  assumes "bio_lock s i = Some k" and "\<not> dirt s i"
    and "\<forall>j<NBUF. bkey s j \<noteq> (d, b)" and "set (lru s) = {..<NBUF}" and "i < NBUF"
  shows "\<exists>s1 s2. brelse i s = Inr s1 \<and> bget d b s1 = Inr (i, s2) \<and> bkey s2 i = (d, b)"
proof -
  let ?s1 = "buf_upd i (\<lambda>B. B\<lparr>b_flags := b_flags B AND NOT B_BUSY\<rparr>) (s\<lparr>lru := remove1 i (lru s) @ [i]\<rparr>)"
  have l: "busy s i" using assms(1) bio_lockD by blast
  then have 1: "brelse i s = Inr ?s1" by (simp add: brelse_def flag_test)
  have "bkey s j \<noteq> (d, b)" if "j \<in> set (lru ?s1)" for j
  proof -
    have "j \<in> set (lru s)" using that assms(4,5) set_remove1_subset [of i "lru s"] by (auto simp: buf_upd_def)
    then show ?thesis using assms(3,4) by blast
  qed
  then have "find (\<lambda>j. b_dev (bufs ?s1 j) = d \<and> b_blockno (bufs ?s1 j) = b) (lru ?s1) = None"
    by (auto simp: find_None_iff bkey_def buf_upd_def)
  moreover have "find (\<lambda>b. b_flags (bufs ?s1 b) AND B_BUSY = 0 \<and> b_flags (bufs ?s1 b) AND B_DIRTY = 0)
      (rev (lru ?s1)) = Some i"
    using assms(2) by (simp add: buf_upd_def flag_test bit_simps)
  ultimately have "bget d b ?s1 =
      Inr (i, buf_upd i (\<lambda>B. B\<lparr>b_flags := B_BUSY, b_dev := d, b_blockno := b\<rparr>) ?s1)"
    by (simp add: bget_def)
  with 1 show ?thesis by (auto simp: bkey_def buf_upd_def)
qed

section \<open>Concrete states\<close>

text \<open>
  An empty cache over a card whose second partition has 100 blocks, and the same cache with
  buffer \<open>3\<close> locked for block \<open>9\<close> of that partition.
\<close>

definition iost2 :: iost where
  "iost2 = iost0\<lparr>sb := (\<lambda>_. sb0)(1 := sb0\<lparr>sb_lba := 2048, sb_nsecs := 800\<rparr>)\<rparr>"

definition iost3 :: iost where
  "iost3 = buf_upd 3 (\<lambda>B. B\<lparr>b_flags := 3, b_dev := 1, b_blockno := 9, b_data := (\<lambda>_. 0)(5 := 77)\<rparr>) iost2"

lemma bit_3_u32: "bit (3 :: u32) n \<longleftrightarrow> n = 0 \<or> n = Suc 0"
proof -
  have "(3 :: u32) = B_BUSY OR B_VALID" by (simp add: flag_defs)
  then show ?thesis by (simp only: bit_or_iff flag_bits)
qed

lemma parts_disjoint_iost: "parts_disjoint iost2" "parts_disjoint iost3"
  by (auto simp: parts_disjoint_def iost2_def iost3_def iost0_def buf_upd_def sb0_def)

lemma bufs_iost:
  "bufs iost2 = (\<lambda>_. \<lparr>b_flags = 0, b_dev = 0, b_blockno = 0, b_data = \<lambda>_. 0\<rparr>)"
  "bufs iost3 = (bufs iost2)(3 := \<lparr>b_flags = 3, b_dev = 1, b_blockno = 9, b_data = (\<lambda>_. 0)(5 := 77)\<rparr>)"
  by (simp_all add: iost2_def iost3_def iost0_def buf_upd_def)

lemma lru_iost: "lru iost2 = [0..<NBUF]" "lru iost3 = [0..<NBUF]" "devque iost2 = []" "devque iost3 = []"
  by (simp_all add: iost2_def iost3_def iost0_def buf_upd_def)

lemma blk_ok_iost: "blk_ok (bio_env iost2) (1, 9)" "blk_ok (bio_env iost3) (1, 9)"
  by (simp_all add: blk_ok_def bio_env_def iost2_def iost3_def iost0_def buf_upd_def sb0_def size_defs)

lemma bio_inv_iost2: "bio_inv iost2"
  by (simp add: bio_inv_def lru_iost parts_disjoint_iost bkey_def bufs_iost atLeast_upt)

lemma bio_inv_iost3: "bio_inv iost3"
  using blk_ok_iost(2)
  by (simp add: bio_inv_def lru_iost parts_disjoint_iost bkey_def bufs_iost atLeast_upt bit_3_u32)

lemma bio_lock_iost: "bio_lock iost2 = (\<lambda>_. None)" "bio_lock iost3 = [3 \<mapsto> (1, 9)]" "bio_dirty iost2 = {}"
  by (auto simp: bio_lock_def bufs_iost bkey_def bit_3_u32 bio_dirty_def NBUF_def)

theorem bread_correct_witness:
  "\<exists>i s'. bread 1 9 iost2 = Inr (i, s') \<and> bio_inv s' \<and> bio_lock s' = [i \<mapsto> (1, 9)]"
  using bread_correct [of iost2 "(1, 9)"] bio_inv_iost2 blk_ok_iost
  by (auto simp: bio_lock_iost NBUF_def)

theorem bwrite_brelse_correct_witness:
  "\<exists>s1 s2. bwrite 3 iost3 = Inr s1 \<and> brelse 3 s1 = Inr s2 \<and>
     kdisk s2 (1, 9) = clip BSIZE ((\<lambda>_. 0)(5 := 77)) \<and> bio_lock s2 = (\<lambda>_. None)"
proof -
  obtain s1 s2 where "bwrite 3 iost3 = Inr s1" "brelse 3 s1 = Inr s2"
      "kdisk s2 (1, 9) = clip BSIZE (b_data (bufs iost3 3))"
      "bio_lock s2 = (bio_lock iost3)(3 := None)"
    using bwrite_brelse_correct [OF bio_inv_iost3, of 3 "(1, 9)"] by (auto simp: bio_lock_iost)
  then show ?thesis by (simp add: bufs_iost bio_lock_iost)
qed

lemma bget_recycles_most_recent_witness:
  "\<exists>s1 s2. brelse 3 iost3 = Inr s1 \<and> bget 1 10 s1 = Inr (3, s2) \<and> bkey s2 3 = (1, 10)"
  using bget_recycles_most_recent [of iost3 3 "(1, 9)" 1 10]
  by (simp add: bio_lock_iost bufs_iost bit_3_u32 bkey_def lru_iost atLeast_upt NBUF_def)

end
