(* ===== verification/Log.thy ===== *)
theory Log
  imports Bio
begin

text \<open>
  The redo log (\<open>kern/log.c\<close>), on the buffer cache of \<open>Bio\<close>. The array \<open>log[NLOG]\<close> is the field
  \<open>klog\<close>; the log of device \<open>d\<close> occupies the blocks \<open>log_start, \<dots>, log_start + log_size - 1\<close>, the
  header first. Crash safety is stated on the card's history of sector writes: whatever prefix of
  the writes of \<open>commit\<close> reaches the card, \<open>initlog\<close> at the next boot brings the home blocks into
  the state before the transaction or into the state after it.
\<close>

section \<open>State\<close>

definition NLOG :: nat where "NLOG = 3"
definition MAXOPBLOCKS :: int where "MAXOPBLOCKS = 42"
definition LOGSIZE :: nat where "LOGSIZE = 126"
definition LOGENABLED :: u32 where "LOGENABLED = 1"

record log =
  log_start :: int
  log_size :: int
  outstanding :: int
  committing :: bool
  log_dev :: u32
  log_flag :: u32
  lh_n :: int
  lh_block :: "nat \<Rightarrow> u32"

record logst = iost +
  klog :: "nat \<Rightarrow> log"

definition log_upd :: "nat \<Rightarrow> (log \<Rightarrow> log) \<Rightarrow> 'a logst_scheme \<Rightarrow> 'a logst_scheme" where
  "log_upd d f s = s\<lparr>klog := (klog s)(d := f (klog s d))\<rparr>"

section \<open>The disk side of the log\<close>

text \<open>The test that opens \<open>install_trans\<close>, \<open>read_head\<close>, \<open>write_head\<close>, \<open>write_log\<close> and \<open>commit\<close>.\<close>

definition log_on :: "'a logst_scheme \<Rightarrow> nat \<Rightarrow> bool" where
  "log_on s d \<longleftrightarrow> \<not> (d \<ge> NLOG \<or> log_flag (klog s d) AND LOGENABLED = 0)"

definition install_one :: "nat \<Rightarrow> nat \<Rightarrow> 'a logst_scheme \<Rightarrow> 'a logst_scheme kres" where
  "install_one d tail s =
     (let L = klog s d in
      kbind (bread (log_dev L) (word_of_int (log_start L + int tail + 1)) s) (\<lambda>(lbuf, s).
      if tail \<ge> LOGSIZE then Inl (Fault ''lh.block'') else
      kbind (bread (log_dev L) (lh_block L tail) s) (\<lambda>(dbuf, s).
      kbind (bwrite dbuf (buf_store dbuf
               (memcopy (b_data (bufs s dbuf)) 0 (b_data (bufs s lbuf)) 0 BSIZE) s)) (\<lambda>s.
      kbind (brelse lbuf s) (brelse dbuf)))))"

definition install_trans :: "nat \<Rightarrow> 'a logst_scheme \<Rightarrow> 'a logst_scheme kres" where
  "install_trans d s =
     (if \<not> log_on s d then Inr s
      else kfold (install_one d) [0..<nat (lh_n (klog s d))] s)"

definition read_head :: "nat \<Rightarrow> 'a logst_scheme \<Rightarrow> 'a logst_scheme kres" where
  "read_head d s =
     (if \<not> log_on s d then Inr s
      else
        kbind (bread (log_dev (klog s d)) (word_of_int (log_start (klog s d))) s) (\<lambda>(b, s).
        let lh = b_data (bufs s b);
            s = log_upd d (\<lambda>L. L\<lparr>lh_n := sint (get32 lh 0)\<rparr>) s in
        kbind (kfold (\<lambda>i s. if i \<ge> LOGSIZE then Inl (Fault ''lh.block'')
                            else Inr (log_upd d (\<lambda>L. L\<lparr>lh_block := (lh_block L)(i := get32 lh (4 + 4 * i))\<rparr>) s))
                 [0..<nat (lh_n (klog s d))] s)
          (brelse b)))"

definition head_bytes :: "log \<Rightarrow> bytes \<Rightarrow> bytes" where
  "head_bytes L m =
     fold (\<lambda>i m. put32 m (4 + 4 * i) (lh_block L i)) [0..<nat (lh_n L)]
       (put32 m 0 (word_of_int (lh_n L)))"

definition write_head :: "nat \<Rightarrow> 'a logst_scheme \<Rightarrow> 'a logst_scheme kres" where
  "write_head d s =
     (if \<not> log_on s d then Inr s
      else
        kbind (bread (log_dev (klog s d)) (word_of_int (log_start (klog s d))) s) (\<lambda>(b, s).
        if lh_n (klog s d) > int LOGSIZE then Inl (Fault ''lh.block'') else
        kbind (bwrite b (buf_store b (head_bytes (klog s d) (b_data (bufs s b))) s))
          (brelse b)))"

definition recover_one :: "nat \<Rightarrow> 'a logst_scheme \<Rightarrow> 'a logst_scheme kres" where
  "recover_one i s =
     kbind (read_head i s) (\<lambda>s.
     kbind (install_trans i s) (\<lambda>s.
     write_head i (log_upd i (\<lambda>L. L\<lparr>lh_n := 0\<rparr>) s)))"

definition recover_from_log :: "'a logst_scheme \<Rightarrow> 'a logst_scheme kres" where
  "recover_from_log s = kfold recover_one [0..<NLOG] s"

definition initlog :: "nat \<Rightarrow> 'a logst_scheme \<Rightarrow> 'a logst_scheme kres" where
  "initlog d s =
     (if 4 * (1 + LOGSIZE) \<ge> unat (sb_blocksize (sb s d)) then Inl (Panic ''initlog: too big logheader'')
      else if d \<ge> NLOG then Inl (Fault ''log[dev]'')
      else case fs_info (sb s d) of
             None \<Rightarrow> Inl (Fault ''fs_info'')
           | Some v6sb \<Rightarrow>
               recover_from_log (log_upd d (\<lambda>L. L\<lparr>log_start := sint (v6_logstart v6sb),
                 log_size := sint (v6_nlog v6sb), log_dev := of_nat d, log_flag := LOGENABLED\<rparr>) s))"

section \<open>Transactions\<close>

definition begin_one :: "nat \<Rightarrow> 'a logst_scheme \<Rightarrow> 'a logst_scheme kres" where
  "begin_one i s =
     (let L = klog s i in
      if log_flag L = 0 then Inr s
      else if committing L then Inl (Sleeps ''begin_op'')
      else if lh_n L + (outstanding L + 1) * MAXOPBLOCKS > int LOGSIZE then Inl (Sleeps ''begin_op'')
      else Inr (log_upd i (\<lambda>L. L\<lparr>outstanding := outstanding L + 1\<rparr>) s))"

definition begin_op :: "'a logst_scheme \<Rightarrow> 'a logst_scheme kres" where
  "begin_op s = kfold begin_one [0..<NLOG] s"

definition write_log_one :: "nat \<Rightarrow> nat \<Rightarrow> 'a logst_scheme \<Rightarrow> 'a logst_scheme kres" where
  "write_log_one d tail s =
     (let L = klog s d in
      kbind (bread (log_dev L) (word_of_int (log_start L + int tail + 1)) s) (\<lambda>(to, s).
      if tail \<ge> LOGSIZE then Inl (Fault ''lh.block'') else
      kbind (bread (log_dev L) (lh_block L tail) s) (\<lambda>(from, s).
      kbind (bwrite to (buf_store to
               (memcopy (b_data (bufs s to)) 0 (b_data (bufs s from)) 0 BSIZE) s)) (\<lambda>s.
      kbind (brelse from s) (brelse to)))))"

definition write_log :: "nat \<Rightarrow> 'a logst_scheme \<Rightarrow> 'a logst_scheme kres" where
  "write_log d s =
     (if \<not> log_on s d then Inr s
      else kfold (write_log_one d) [0..<nat (lh_n (klog s d))] s)"

definition commit :: "nat \<Rightarrow> 'a logst_scheme \<Rightarrow> 'a logst_scheme kres" where
  "commit d s =
     (if \<not> log_on s d then Inr s
      else if lh_n (klog s d) > 0 then
        kbind (write_log d s) (\<lambda>s.
        kbind (write_head d s) (\<lambda>s.
        kbind (install_trans d s) (\<lambda>s.
        write_head d (log_upd d (\<lambda>L. L\<lparr>lh_n := 0\<rparr>) s))))
      else Inr s)"

definition end_one :: "nat \<Rightarrow> 'a logst_scheme \<Rightarrow> 'a logst_scheme kres" where
  "end_one i s =
     (if log_flag (klog s i) = 0 then Inr s
      else
        let s = log_upd i (\<lambda>L. L\<lparr>outstanding := outstanding L - 1\<rparr>) s in
        if committing (klog s i) then Inl (Panic ''log committing'')
        else if outstanding (klog s i) = 0 then
          kbind (commit i (log_upd i (\<lambda>L. L\<lparr>committing := True\<rparr>) s)) (\<lambda>s.
          Inr (log_upd i (\<lambda>L. L\<lparr>committing := False\<rparr>) s))
        else Inr s)"

definition end_op :: "'a logst_scheme \<Rightarrow> 'a logst_scheme kres" where
  "end_op s = kfold end_one [0..<NLOG] s"

definition log_write :: "nat \<Rightarrow> 'a logst_scheme \<Rightarrow> 'a logst_scheme kres" where
  "log_write b s =
     (let d = unat (b_dev (bufs s b)); bno = b_blockno (bufs s b); L = klog s d in
      if d \<ge> NLOG \<or> log_flag L = 0 then Inr s
      else if lh_n L \<ge> int LOGSIZE \<or> lh_n L \<ge> log_size L - 1 then Inl (Panic ''too big a transaction'')
      else if outstanding L < 1 then Inl (Panic ''log_write outside of trans'')
      else
        let i = length (takeWhile (\<lambda>i. lh_block L i \<noteq> bno) [0..<nat (lh_n L)]) in
        Inr (buf_dirty b (log_upd d (\<lambda>L. L\<lparr>lh_block := (lh_block L)(i := bno),
               lh_n := if int i = lh_n L then lh_n L + 1 else lh_n L\<rparr>) s)))"

section \<open>What the operations leave alone\<close>

lemma klog_more: "iost.more s' = iost.more s \<Longrightarrow> klog s' = klog (s :: 'a logst_scheme)"
  by (cases s; cases s') simp

lemma log_upd_simps [simp]:
  "sdcard (log_upd d f s) = sdcard s" "bufs (log_upd d f s) = bufs s" "lru (log_upd d f s) = lru s"
  "devque (log_upd d f s) = devque s" "sb (log_upd d f s) = sb s"
  "klog (log_upd d f s) = (klog s)(d := f (klog s d))"
  by (simp_all add: log_upd_def)

lemma klog_io:
  fixes s :: "'a logst_scheme"
  shows "bread d b s = Inr (i, s') \<Longrightarrow> klog s' = klog s" and "bwrite j s = Inr s' \<Longrightarrow> klog s' = klog s"
    and "brelse j s = Inr s' \<Longrightarrow> klog s' = klog s" and "klog (buf_store j x s) = klog s"
    and "klog (buf_dirty j s) = klog s"
  by (auto intro!: klog_more dest: bread_more bwrite_more brelse_more simp: buf_store_def buf_dirty_def)

lemma kfold_preserves:
  "kfold f xs s = Inr s' \<Longrightarrow> (\<And>x s s'. f x s = Inr s' \<Longrightarrow> P s' = P s) \<Longrightarrow> P s' = P s"
proof (induction xs arbitrary: s)
  case (Cons x xs)
  from Cons.prems(1) obtain t where t: "f x s = Inr t" "kfold f xs t = Inr s'" by auto
  from Cons.IH [OF t(2) Cons.prems(2)] Cons.prems(2) [OF t(1)] show ?case by simp
qed simp

lemma klog_copy:
  "install_one d i s = Inr s' \<Longrightarrow> klog s' = klog s" "write_log_one d i s = Inr s' \<Longrightarrow> klog s' = klog s"
  by (auto simp: install_one_def write_log_one_def Let_def klog_io(4) split: if_splits dest!: klog_io(1-3))

lemma klog_loops:
  "install_trans d s = Inr s' \<Longrightarrow> klog s' = klog s" "write_log d s = Inr s' \<Longrightarrow> klog s' = klog s"
  "write_head d s = Inr s' \<Longrightarrow> klog s' = klog s"
  by (auto simp: install_trans_def write_log_def write_head_def klog_io(4) split: if_splits
      dest!: klog_io(1-3) dest: klog_copy kfold_preserves [where P = klog])

lemma klog_commit:
  "commit d s = Inr s' \<Longrightarrow> klog s' = (if log_on s d \<and> 0 < lh_n (klog s d)
     then (klog s)(d := (klog s d)\<lparr>lh_n := 0\<rparr>) else klog s)"
  by (auto simp: commit_def split: if_splits dest!: klog_loops)

section \<open>Admission of operations\<close>

text \<open>
  The log of one device under any interleaving of system calls. A configuration is the kernel
  state and, for every call between \<open>begin_op\<close> and \<open>end_op\<close>, the number of blocks it has added to
  the log so far. Steps: a call passes \<open>begin_op\<close>; the cache or another component works, which
  leaves the logs alone; a call that has not used up its \<open>MAXOPBLOCKS\<close> blocks calls \<open>log_write\<close>;
  a call passes \<open>end_op\<close>, committing if it is the last.
\<close>

inductive log_step ::
  "nat \<Rightarrow> 'a logst_scheme \<times> int list \<Rightarrow> 'a logst_scheme \<times> int list \<Rightarrow> bool" for d where
  step_begin: "begin_one d s = Inr s' \<Longrightarrow> log_step d (s, us) (s', us @ [0])"
| step_other: "klog s' = klog s \<Longrightarrow> log_step d (s, us) (s', us)"
| step_write: "i < length us \<Longrightarrow> us ! i < MAXOPBLOCKS \<Longrightarrow> b_dev (bufs s b) = of_nat d \<Longrightarrow>
    log_write b s = Inr s' \<Longrightarrow>
    log_step d (s, us) (s', us[i := us ! i + (lh_n (klog s' d) - lh_n (klog s d))])"
| step_end: "i < length us \<Longrightarrow> end_one d s = Inr s' \<Longrightarrow>
    log_step d (s, us) (s', take i us @ drop (Suc i) us)"

text \<open>Every call inside its budget has room: the blocks logged and the budgets left fit the log.\<close>

definition budget_inv :: "nat \<Rightarrow> 'a logst_scheme \<times> int list \<Rightarrow> bool" where
  "budget_inv d c \<longleftrightarrow> (case c of (s, us) \<Rightarrow>
     log_flag (klog s d) = LOGENABLED \<and> d < NLOG \<and> 0 \<le> lh_n (klog s d) \<and>
     outstanding (klog s d) = int (length us) \<and> (\<forall>u\<in>set us. 0 \<le> u \<and> u \<le> MAXOPBLOCKS) \<and>
     lh_n (klog s d) + (\<Sum>u\<leftarrow>us. MAXOPBLOCKS - u) \<le> int LOGSIZE)"

lemma sum_budget_le:
  "\<forall>u\<in>set us. (0::int) \<le> u \<Longrightarrow> (\<Sum>u\<leftarrow>us. MAXOPBLOCKS - u) \<le> int (length us) * MAXOPBLOCKS"
  by (induction us) (auto simp: algebra_simps)

lemma sum_budget_nonneg:
  "\<forall>u\<in>set us. u \<le> MAXOPBLOCKS \<Longrightarrow> 0 \<le> (\<Sum>u\<leftarrow>us. MAXOPBLOCKS - u)"
  by (induction us) auto

lemma sum_budget_split:
  "i < length us \<Longrightarrow> (\<Sum>u\<leftarrow>us. MAXOPBLOCKS - u) =
     (\<Sum>u\<leftarrow>take i us @ drop (Suc i) us. MAXOPBLOCKS - u) + (MAXOPBLOCKS - us ! i)"
proof -
  assume "i < length us"
  then have "us = take i us @ us ! i # drop (Suc i) us" by (rule id_take_nth_drop)
  then have "(\<Sum>u\<leftarrow>us. MAXOPBLOCKS - u) = (\<Sum>u\<leftarrow>take i us @ us ! i # drop (Suc i) us. MAXOPBLOCKS - u)"
    by (rule arg_cong)
  then show ?thesis by simp
qed

lemma log_write_count:
  assumes "log_write b s = Inr s'" and "b_dev (bufs s b) = of_nat d" and "d < NLOG"
    and "log_flag (klog s d) = LOGENABLED" and "0 \<le> lh_n (klog s d)"
  shows "lh_n (klog s' d) \<in> {lh_n (klog s d), lh_n (klog s d) + 1}" and "lh_n (klog s d) < int LOGSIZE"
    and "log_flag (klog s' d) = LOGENABLED" and "outstanding (klog s' d) = outstanding (klog s d)"
proof -
  have "unat (of_nat d :: u32) = d" using assms(3) by (simp add: NLOG_def unat_of_nat_u32)
  with assms show "lh_n (klog s' d) \<in> {lh_n (klog s d), lh_n (klog s d) + 1}" "lh_n (klog s d) < int LOGSIZE"
    "log_flag (klog s' d) = LOGENABLED" "outstanding (klog s' d) = outstanding (klog s d)"
    by (auto simp: log_write_def Let_def LOGENABLED_def klog_io(5) split: if_splits)
qed

lemma budget_inv_step:
  assumes "budget_inv d (s, us)" and "log_step d (s, us) c"
  shows "budget_inv d c"
  using assms(2)
proof cases
  case (step_begin s')
  then have 1: "c = (s', us @ [0])" "begin_one d s = Inr s'" by auto
  have g: "lh_n (klog s d) + (int (length us) + 1) * MAXOPBLOCKS \<le> int LOGSIZE"
    and k: "klog s' = (klog s)(d := (klog s d)\<lparr>outstanding := outstanding (klog s d) + 1\<rparr>)"
    using 1(2) assms(1)
    by (auto simp: begin_one_def Let_def budget_inv_def LOGENABLED_def split: if_splits)
  have "(\<Sum>u\<leftarrow>us. MAXOPBLOCKS - u) \<le> int (length us) * MAXOPBLOCKS"
    using assms(1) by (intro sum_budget_le) (auto simp: budget_inv_def)
  with g assms(1) show ?thesis
    by (auto simp: budget_inv_def 1(1) k algebra_simps) (simp_all add: MAXOPBLOCKS_def)
next
  case (step_other s')
  with assms(1) show ?thesis by (simp add: budget_inv_def)
next
  case (step_write i b s')
  then have 3: "c = (s', us[i := us ! i + (lh_n (klog s' d) - lh_n (klog s d))])" "i < length us"
      "us ! i < MAXOPBLOCKS" "b_dev (bufs s b) = of_nat d" "log_write b s = Inr s'" by auto
  let ?u = "us ! i + (lh_n (klog s' d) - lh_n (klog s d))"
  note c = log_write_count [OF 3(5,4)]
  have pre: "d < NLOG" "log_flag (klog s d) = LOGENABLED" "0 \<le> lh_n (klog s d)"
    using assms(1) by (simp_all add: budget_inv_def)
  note c = c [OF pre]
  have len: "i < length (us[i := ?u])" using 3(2) by simp
  have sum: "(\<Sum>u\<leftarrow>us[i := ?u]. MAXOPBLOCKS - u) =
      (\<Sum>u\<leftarrow>us. MAXOPBLOCKS - u) - (lh_n (klog s' d) - lh_n (klog s d))"
    using sum_budget_split [OF 3(2)] sum_budget_split [OF len] 3(2) by simp
  have "\<forall>u\<in>set (us[i := ?u]). 0 \<le> u \<and> u \<le> MAXOPBLOCKS"
    using assms(1) 3(2,3) c(1) set_update_subset_insert [of us i ?u]
    by (auto simp: budget_inv_def)
  then show ?thesis
    using assms(1) c sum pre unfolding 3(1) budget_inv_def by auto
next
  case (step_end i s')
  then have 4: "c = (s', take i us @ drop (Suc i) us)" "i < length us" "end_one d s = Inr s'" by auto
  let ?us = "take i us @ drop (Suc i) us"
  have us: "\<forall>u\<in>set ?us. 0 \<le> u \<and> u \<le> MAXOPBLOCKS"
    using assms(1) by (auto simp: budget_inv_def dest: in_set_takeD in_set_dropD)
  have n: "0 \<le> (\<Sum>u\<leftarrow>?us. MAXOPBLOCKS - u)" using us by (intro sum_budget_nonneg) auto
  have le: "(\<Sum>u\<leftarrow>?us. MAXOPBLOCKS - u) \<le> (\<Sum>u\<leftarrow>us. MAXOPBLOCKS - u)"
    using sum_budget_split [OF 4(2)] assms(1) nth_mem [OF 4(2)] by (auto simp: budget_inv_def)
  have len: "int (length ?us) = int (length us) - 1" using 4(2) by auto
  have k: "log_flag (klog s' d) = log_flag (klog s d)" "outstanding (klog s' d) = outstanding (klog s d) - 1"
    "0 \<le> lh_n (klog s' d)" "lh_n (klog s' d) \<le> lh_n (klog s d)"
    using 4(3) assms(1)
    by (auto simp: end_one_def Let_def budget_inv_def LOGENABLED_def split: if_splits dest!: klog_commit)
  show ?thesis
    using assms(1) us n le len k unfolding 4(1) budget_inv_def by auto
qed

lemma budget_inv_steps:
  assumes "(log_step d)\<^sup>*\<^sup>* c c'" and "budget_inv d c"
  shows "budget_inv d c'"
  using assms
proof (induction rule: rtranclp_induct)
  case (step c1 c2)
  then show ?case by (cases c1) (auto intro: budget_inv_step)
qed

section \<open>Properties\<close>

text \<open>C5: Admission control works. Under every interleaving of system calls, a call that has logged
  fewer than \<open>MAXOPBLOCKS\<close> blocks can log another one: with a log region of more than \<open>LOGSIZE\<close>
  blocks (header and data) \<open>log_write\<close> never panics, neither for lack of space nor for being
  outside a transaction.\<close>

theorem log_write_never_panics:
  fixes s0 s :: "'a logst_scheme"
  assumes "(log_step d)\<^sup>*\<^sup>* (s0, []) (s, us)" and "log_flag (klog s0 d) = LOGENABLED" and "d < NLOG"
    and "lh_n (klog s0 d) = 0" and "outstanding (klog s0 d) = 0"
    and "i < length us" and "us ! i < MAXOPBLOCKS"
    and "b_dev (bufs s b) = of_nat d" and "int LOGSIZE < log_size (klog s d)"
  shows "\<exists>s'. log_write b s = Inr s'"
proof -
  have "budget_inv d (s0, [])" using assms(2-5) by (simp add: budget_inv_def LOGSIZE_def)
  with assms(1) have inv: "budget_inv d (s, us)" by (rule budget_inv_steps)
  have "0 \<le> (\<Sum>u\<leftarrow>take i us @ drop (Suc i) us. MAXOPBLOCKS - u)"
    using inv by (intro sum_budget_nonneg) (auto simp: budget_inv_def dest: in_set_takeD in_set_dropD)
  then have "lh_n (klog s d) < int LOGSIZE"
    using inv assms(7) sum_budget_split [OF assms(6)] by (auto simp: budget_inv_def)
  moreover have "1 \<le> outstanding (klog s d)" using inv assms(6) by (simp add: budget_inv_def)
  moreover have "unat (of_nat d :: u32) = d" using assms(3) by (simp add: NLOG_def unat_of_nat_u32)
  ultimately show ?thesis using assms(8,9) by (auto simp: log_write_def Let_def)
qed

section \<open>A log region as \<open>mkfs\<close> lays it out\<close>

definition log0 :: log where
  "log0 = \<lparr>log_start = 0, log_size = 0, outstanding = 0, committing = False, log_dev = 0, log_flag = 0,
           lh_n = 0, lh_block = \<lambda>_. 0\<rparr>"

text \<open>Device \<open>1\<close> with an enabled, empty log of \<open>sz\<close> blocks from block \<open>2\<close> on, and an empty cache.\<close>

definition logst0 :: "int \<Rightarrow> logst" where
  "logst0 sz =
     \<lparr>sdcard = sdcard iost2, devque = [], bufs = (bufs iost2)(3 := \<lparr>b_flags = 0, b_dev = 1, b_blockno = 150, b_data = \<lambda>_. 0\<rparr>),
      lru = [0..<NBUF],
      sb = (\<lambda>_. sb0)(1 := sb0\<lparr>sb_lba := 2048, sb_nsecs := 1600, sb_blocksize := 4096,
        fs_info := Some \<lparr>v6_size = 200, v6_nblocks = 50, v6_ninodes = 32, v6_nlog = of_int sz, v6_logstart = 2,
                         v6_inodestart = 132, v6_bmapstart = 133\<rparr>\<rparr>),
      first_bno = 0, nblocks = 1, mbr = \<lambda>_. 0, ndev = 0,
      klog = (\<lambda>_. log0)(1 := log0\<lparr>log_start := 2, log_size := sz, log_dev := 1, log_flag := LOGENABLED\<rparr>)\<rparr>"

text \<open>The log region that \<open>mkfs\<close> lays out, with a cache in which every buffer holds another block.\<close>

definition log_cached :: logst where
  "log_cached = (logst0 (int LOGSIZE))
     \<lparr>bufs := (\<lambda>i. \<lparr>b_flags = B_VALID, b_dev = 1, b_blockno = 300 + of_nat i, b_data = (\<lambda>_. 0)\<rparr>)\<rparr>"

text \<open>A log holding the first \<open>n\<close> of them, with three calls under way.\<close>

definition filled :: "logst \<Rightarrow> nat \<Rightarrow> bool" where
  "filled s n \<longleftrightarrow> lh_n (klog s 1) = int n \<and> (\<forall>i<n. lh_block (klog s 1) i = 300 + of_nat i) \<and>
     log_flag (klog s 1) = LOGENABLED \<and> outstanding (klog s 1) = 3 \<and> log_size (klog s 1) = int LOGSIZE \<and>
     (\<forall>i. b_dev (bufs s i) = 1 \<and> b_blockno (bufs s i) = 300 + of_nat i)"

lemma filled_write:
  assumes "filled s n" and "n < 125"
  shows "\<exists>s'. log_write n s = Inr s' \<and> filled s' (Suc n)"
proof -
  have "takeWhile (\<lambda>i. lh_block (klog s 1) i \<noteq> 300 + of_nat n) [0..<n] = [0..<n]"
    using assms by (simp add: takeWhile_eq_all_conv filled_def of_nat_u32_eq_iff)
  from arg_cong [OF this, where f = length]
  have tw: "length (takeWhile (\<lambda>i. lh_block (klog s (Suc 0)) i \<noteq> 300 + of_nat n) [0..<n]) = n"
    by (simp only: length_upt One_nat_def minus_nat.diff_0)
  define t where "t = buf_dirty n (log_upd 1 (\<lambda>L. L\<lparr>lh_block := (lh_block L)(n := 300 + of_nat n), lh_n := int n + 1\<rparr>) s)"
  have w: "log_write n s = Inr t"
    using assms by (simp add: log_write_def t_def Let_def NLOG_def filled_def LOGENABLED_def LOGSIZE_def log_upd_def tw)
  have k: "klog t = (klog s)(1 := (klog s 1)\<lparr>lh_block := (lh_block (klog s 1))(n := 300 + of_nat n), lh_n := int n + 1\<rparr>)"
    by (simp add: t_def klog_io(5))
  have "b_dev (bufs t i) = 1 \<and> b_blockno (bufs t i) = 300 + of_nat i" for i
    using assms(1) by (simp add: t_def buf_dirty_def buf_upd_def log_upd_def filled_def)
  then have "filled t (Suc n)" using assms(1) unfolding filled_def k by (auto simp: less_Suc_eq)
  with w show ?thesis by blast
qed

lemma filled_writes: "filled s n \<Longrightarrow> n + m \<le> 125 \<Longrightarrow> \<exists>s'. kfold log_write [n..<n + m] s = Inr s' \<and> filled s' (n + m)"
proof (induction m arbitrary: n s)
  case (Suc m)
  then obtain t where t: "log_write n s = Inr t" "filled t (Suc n)" using filled_write [of s n] by auto
  have "[n..<n + Suc m] = n # [Suc n..<Suc n + m]" by (simp add: upt_conv_Cons)
  then show ?case using Suc.IH [OF t(2)] Suc.prems(2) t(1) by simp
qed simp

text \<open>
  That region (\<open>LOGSIZE\<close> blocks, the header included) is one short. Three calls are admitted by \<open>begin_op\<close>. They
  log 42, 42 and 41 blocks, which is within \<open>MAXOPBLOCKS\<close> each; when the third logs its last block, the kernel
  panics.
\<close>

lemma log_region_one_short:
  "\<exists>s. kbind (begin_op log_cached) (\<lambda>s. kbind (begin_op s) (\<lambda>s. kbind (begin_op s) (kfold log_write [0..<125]))) = Inr s \<and>
     125 < 3 * MAXOPBLOCKS \<and> log_write 125 s = Inl (Panic ''too big a transaction'')"
proof -
  let ?b = "log_upd 1 (\<lambda>L. L\<lparr>outstanding := outstanding L + 1\<rparr>) :: logst \<Rightarrow> logst"
  have n: "[0..<NLOG] = [0, 1, 2]" by (simp add: NLOG_def upt_rec)
  have b: "begin_op log_cached = Inr (?b log_cached)" "begin_op (?b log_cached) = Inr (?b (?b log_cached))"
    "begin_op (?b (?b log_cached)) = Inr (?b (?b (?b log_cached)))"
    by (simp_all add: begin_op_def n begin_one_def Let_def log_cached_def logst0_def LOGENABLED_def log0_def MAXOPBLOCKS_def
        LOGSIZE_def log_upd_def)
  have "filled (?b (?b (?b log_cached))) 0"
    by (simp add: filled_def log_cached_def logst0_def log0_def LOGSIZE_def LOGENABLED_def log_upd_def)
  then obtain s where s: "kfold log_write [0..<125] (?b (?b (?b log_cached))) = Inr s" "filled s 125"
    using filled_writes [of _ 0 125] by auto
  have "log_write 125 s = Inl (Panic ''too big a transaction'')"
    using s(2) by (simp add: log_write_def Let_def filled_def NLOG_def LOGENABLED_def LOGSIZE_def)
  then show ?thesis using s(1) b by (simp add: MAXOPBLOCKS_def)
qed

theorem log_write_never_panics_witness:
  "\<exists>s s'. (log_step 1)\<^sup>*\<^sup>* (logst0 130, []) (s, [0]) \<and> log_write 3 s = Inr s'"
proof -
  let ?s = "log_upd 1 (\<lambda>L. L\<lparr>outstanding := outstanding L + 1\<rparr>) (logst0 130)"
  have "begin_one 1 (logst0 130) = Inr ?s"
    by (simp add: begin_one_def Let_def logst0_def LOGENABLED_def log0_def MAXOPBLOCKS_def LOGSIZE_def)
  from step_begin [OF this, of "[]"] have r: "(log_step 1)\<^sup>*\<^sup>* (logst0 130, []) (?s, [0])" by auto
  have "\<exists>s'. log_write 3 ?s = Inr s'"
    by (rule log_write_never_panics [OF r, of 0])
      (simp_all add: logst0_def log0_def NLOG_def MAXOPBLOCKS_def LOGSIZE_def)
  with r show ?thesis by blast
qed

end
