(* ===== verification/Log_Crash.thy ===== *)
theory Log_Crash
  imports Log
begin

text \<open>
  Crash safety of the redo log. The states of the card are described by \<open>at_rest\<close> (no committed
  transaction) and \<open>committed\<close> (a transaction whose installation may be under way); \<open>trace\<close> says
  that a predicate holds after every single sector write of an operation. From these the file
  proves that \<open>commit\<close> is atomic and that recovery may itself be interrupted any number of times.
\<close>

section \<open>The log region and the state of the card\<close>

text \<open>
  \<open>lgeo L\<close> is where a log lies: device, first block, number of blocks. A home block is a block
  outside the log region.
\<close>

type_synonym lgeo = "u32 \<times> int \<times> int"

definition lgeo :: "log \<Rightarrow> lgeo" where
  "lgeo L = (log_dev L, log_start L, log_size L)"

definition logkey :: "lgeo \<Rightarrow> nat \<Rightarrow> key" where
  "logkey g i = (fst g, word_of_int (fst (snd g) + int i))"

definition log_geom :: "'a bio_env \<Rightarrow> lgeo \<Rightarrow> bool" where
  "log_geom e g \<longleftrightarrow> 0 \<le> fst (snd g) \<and> 1 \<le> snd (snd g) \<and> fst (snd g) + snd (snd g) \<le> 2 ^ 31 \<and>
     (\<forall>i. int i < snd (snd g) \<longrightarrow> blk_ok e (logkey g i))"

definition home_ok :: "'a bio_env \<Rightarrow> lgeo \<Rightarrow> key \<Rightarrow> bool" where
  "home_ok e g k \<longleftrightarrow> blk_ok e k \<and> (\<forall>i. int i < snd (snd g) \<longrightarrow> k \<noteq> logkey g i)"

definition blk :: "'a bio_env \<Rightarrow> (u32 \<Rightarrow> bytes) \<Rightarrow> key \<Rightarrow> bytes" where
  "blk e M k = block_at M (key_sector e k)"

definition head_n :: "'a bio_env \<Rightarrow> lgeo \<Rightarrow> (u32 \<Rightarrow> bytes) \<Rightarrow> int" where
  "head_n e g M = sint (get32 (blk e M (logkey g 0)) 0)"

definition head_block :: "'a bio_env \<Rightarrow> lgeo \<Rightarrow> (u32 \<Rightarrow> bytes) \<Rightarrow> nat \<Rightarrow> u32" where
  "head_block e g M i = get32 (blk e M (logkey g 0)) (4 + 4 * i)"

text \<open>The card with no committed transaction, and with one whose installation may be under way.\<close>

definition at_rest :: "'a bio_env \<Rightarrow> lgeo \<Rightarrow> (key \<Rightarrow> bytes) \<Rightarrow> (u32 \<Rightarrow> bytes) \<Rightarrow> bool" where
  "at_rest e g F M \<longleftrightarrow> head_n e g M = 0 \<and> (\<forall>k. home_ok e g k \<longrightarrow> blk e M k = F k)"

definition committed ::
  "'a bio_env \<Rightarrow> lgeo \<Rightarrow> nat \<Rightarrow> (nat \<Rightarrow> u32) \<Rightarrow> (key \<Rightarrow> bytes) \<Rightarrow> (u32 \<Rightarrow> bytes) \<Rightarrow> bool" where
  "committed e g n bs F M \<longleftrightarrow> head_n e g M = int n \<and>
     (\<forall>i<n. head_block e g M i = bs i \<and> blk e M (logkey g (Suc i)) = F (fst g, bs i)) \<and>
     (\<forall>k. home_ok e g k \<and> k \<notin> (\<lambda>i. (fst g, bs i)) ` {..<n} \<longrightarrow> blk e M k = F k)"

text \<open>The in-memory log of a transaction: distinct home blocks that fit the log region.\<close>

definition log_wf :: "'a bio_env \<Rightarrow> log \<Rightarrow> bool" where
  "log_wf e L \<longleftrightarrow> log_geom e (lgeo L) \<and> 0 \<le> lh_n L \<and> lh_n L \<le> int LOGSIZE \<and> lh_n L < log_size L \<and>
     (\<forall>i<nat (lh_n L). home_ok e (lgeo L) (log_dev L, lh_block L i)) \<and>
     inj_on (lh_block L) {..<nat (lh_n L)}"

definition logged :: "log \<Rightarrow> key set" where
  "logged L = (\<lambda>i. (log_dev L, lh_block L i)) ` {..<nat (lh_n L)}"

text \<open>Every state the card goes through from \<open>s\<close> to \<open>s'\<close>, sector by sector, satisfies \<open>P\<close>.\<close>

definition trace :: "((u32 \<Rightarrow> bytes) \<Rightarrow> bool) \<Rightarrow> 'a iost_scheme \<Rightarrow> 'a iost_scheme \<Rightarrow> bool" where
  "trace P s s' \<longleftrightarrow> base (sdcard s') = base (sdcard s) \<and>
     (\<exists>ws. writes (sdcard s') = writes (sdcard s) @ ws \<and>
        (\<forall>j\<le>length ws. P (replay (take j ws) (medium (sdcard s)))))"

section \<open>Lemmas\<close>

lemma trace_refl: "P (medium (sdcard s)) \<Longrightarrow> trace P s s"
  by (simp add: trace_def replay_def)

lemma trace_trans:
  assumes "trace P s s'" and "trace P s' s''"
  shows "trace P s s''"
proof -
  from assms obtain ws ws' where b: "base (sdcard s') = base (sdcard s)" "base (sdcard s'') = base (sdcard s)"
    and w: "writes (sdcard s') = writes (sdcard s) @ ws" "writes (sdcard s'') = writes (sdcard s') @ ws'"
    and p: "\<forall>j\<le>length ws. P (replay (take j ws) (medium (sdcard s)))"
           "\<forall>j\<le>length ws'. P (replay (take j ws') (medium (sdcard s')))"
    by (auto simp: trace_def)
  have m: "medium (sdcard s') = replay ws (medium (sdcard s))"
    by (simp add: medium_def b w replay_append)
  have "P (replay (take j (ws @ ws')) (medium (sdcard s)))" if "j \<le> length (ws @ ws')" for j
    using that p by (cases "j \<le> length ws") (auto simp: replay_append m)
  then show ?thesis using b w unfolding trace_def by (intro conjI exI [of _ "ws @ ws'"]) auto
qed

lemma trace_mono: "trace P s s' \<Longrightarrow> (\<And>M. P M \<Longrightarrow> Q M) \<Longrightarrow> trace Q s s'"
  by (fastforce simp: trace_def)

lemma trace_end:
  assumes "trace P s s'"
  shows "P (medium (sdcard s'))"
proof -
  from assms obtain ws where "base (sdcard s') = base (sdcard s)"
    "writes (sdcard s') = writes (sdcard s) @ ws" "\<forall>j\<le>length ws. P (replay (take j ws) (medium (sdcard s)))"
    by (auto simp: trace_def)
  then show ?thesis by (auto simp: medium_def replay_append dest: spec [of _ "length ws"])
qed

lemma trace_cut:
  assumes "trace P s s'" and "length (writes (sdcard s)) \<le> j" and "j \<le> length (writes (sdcard s'))"
  shows "P (medium (power_cut j (sdcard s')))"
proof -
  from assms obtain ws where w: "base (sdcard s') = base (sdcard s)"
    "writes (sdcard s') = writes (sdcard s) @ ws" "\<forall>j\<le>length ws. P (replay (take j ws) (medium (sdcard s)))"
    by (auto simp: trace_def)
  have "medium (power_cut j (sdcard s')) = replay (take (j - length (writes (sdcard s))) ws) (medium (sdcard s))"
    using assms(2) by (simp add: medium_def power_cut_def w replay_append)
  with w assms(3) show ?thesis by simp
qed

lemma length_sector_writes [simp]: "length (sector_writes sec v n) = n"
  by (simp add: sector_writes_def)

lemma trace_write:
  assumes "base (sdcard s') = base (sdcard s)"
    and "writes (sdcard s') = writes (sdcard s) @ sector_writes sec v 8"
    and "\<And>j. j \<le> 8 \<Longrightarrow> P (replay (take j (sector_writes sec v 8)) (medium (sdcard s)))"
  shows "trace P s s'"
  using assms by (auto simp: trace_def)

lemma take_sector_writes: "j \<le> n \<Longrightarrow> take j (sector_writes sec v n) = sector_writes sec v j"
  by (simp add: sector_writes_def take_map)

lemma logkey_eq_iff:
  assumes "log_geom e g" and "int i < snd (snd g)" and "int j < snd (snd g)"
  shows "logkey g i = logkey g j \<longleftrightarrow> i = j"
proof -
  have "i < 4294967296" "j < 4294967296"
    using assms by (auto simp: log_geom_def)
  then show ?thesis by (simp add: logkey_def of_nat_u32_eq_iff)
qed

lemma log_geom_ok: "log_geom e g \<Longrightarrow> int i < snd (snd g) \<Longrightarrow> blk_ok e (logkey g i)"
  by (simp add: log_geom_def)

lemma home_not_log: "home_ok e g k \<Longrightarrow> int i < snd (snd g) \<Longrightarrow> k \<noteq> logkey g i"
  by (simp add: home_ok_def)

lemma kdisk_blk: "kdisk s = blk (bio_env s) (medium (sdcard s))"
  by (simp add: fun_eq_iff kdisk_def disk_def blk_def blk_sector_def key_sector_def bio_env_def)

text \<open>A write that is cut off leaves every other block alone.\<close>

lemma blk_partial_other:
  assumes "bio_inv s" and "blk_ok (bio_env s) k" and "blk_ok (bio_env s) k'" and "k' \<noteq> k" and "j \<le> 8"
  shows "blk (bio_env s) (replay (take j (sector_writes (key_sector (bio_env s) k) v 8)) M) k' =
         blk (bio_env s) M k'"
proof -
  have key: "key_sector (bio_env s) k = blk_sector s (fst k) (snd k)" for k
    by (simp add: key_sector_def blk_sector_def bio_env_def)
  have "parts_disjoint s" using assms(1) by (simp add: bio_inv_def)
  then have "blk_sector s (fst k') (snd k') + of_nat m \<noteq> blk_sector s (fst k) (snd k) + of_nat m'"
    if "m < 8" "m' < 8" for m m'
    using assms(2-4) that by (intro sectors_disjoint) (auto simp: blk_ok_key_ok prod_eq_iff)
  then have "key_sector (bio_env s) k' + of_nat m \<notin>
      fst ` set (sector_writes (key_sector (bio_env s) k) v 8)" if "m < 8" for m
    using that unfolding fst_sector_writes key by auto
  then show ?thesis
    unfolding blk_def by (intro block_at_other) (meson image_mono set_take_subset subsetD)
qed

text \<open>The first sector of a block is written first, and then reads as written.\<close>

lemma blk_partial_first_sector:
  assumes "0 < j" and "j \<le> 8" and "a + n \<le> SD_BLOCK_SIZE"
  shows "get_le n (blk e (replay (take j (sector_writes (key_sector e k) v 8)) M) k) a = get_le n v a"
proof (rule get_le_cong)
  fix i assume "a \<le> i" and i: "i < a + n"
  with assms(3) have "i < SD_BLOCK_SIZE" by simp
  moreover have "replay (sector_writes (key_sector e k) v j) M (key_sector e k + of_nat 0) =
      clip SD_BLOCK_SIZE (\<lambda>i. v (SD_BLOCK_SIZE * 0 + i))"
    using assms(1,2) by (intro replay_sector_writes) auto
  ultimately show "blk e (replay (take j (sector_writes (key_sector e k) v 8)) M) k i = v i"
    using assms(2) by (simp add: blk_def block_at_def clip_apply take_sector_writes size_defs)
qed

lemma bio_env_log_upd [simp]:
  "blk_ok (bio_env (log_upd d f s)) = blk_ok (bio_env s)"
  "key_sector (bio_env (log_upd d f s)) = key_sector (bio_env s)"
  by (simp_all add: fun_eq_iff blk_ok_def key_sector_def bio_env_def)

lemma bio_log_upd [simp]:
  "bio_lock (log_upd d f s) = bio_lock s" "bio_dirty (log_upd d f s) = bio_dirty s"
  "bio_view (log_upd d f s) = bio_view s" "kdisk (log_upd d f s) = kdisk s"
  "bkey (log_upd d f s) = bkey s"
  by (simp_all add: fun_eq_iff bio_lock_def bio_dirty_def bio_view_def bkey_def kdisk_def disk_def
      blk_sector_def cong: option.case_cong)

lemma bio_inv_log_upd [simp]: "bio_inv (log_upd d f s) = bio_inv s"
  by (simp add: bio_inv_def parts_disjoint_def)

lemma log_env_log_upd [simp]:
  "home_ok (bio_env (log_upd d f s)) = home_ok (bio_env s)"
  "log_geom (bio_env (log_upd d f s)) = log_geom (bio_env s)"
  "blk (bio_env (log_upd d f s)) = blk (bio_env s)"
  by (simp_all add: fun_eq_iff home_ok_def log_geom_def blk_def)

lemma at_rest_log_upd [simp]:
  "at_rest (bio_env (log_upd d f s)) = at_rest (bio_env s)"
  "committed (bio_env (log_upd d f s)) = committed (bio_env s)"
  by (simp_all add: fun_eq_iff at_rest_def committed_def head_n_def head_block_def)

lemma klog_env: "bio_env s' = bio_env s \<Longrightarrow> klog s' = klog (s :: 'a logst_scheme)"
  by (cases s; cases s') (simp add: bio_env_def)

lemma more_log_upd:
  "bio_env s' = bio_env s \<Longrightarrow> bio_env (log_upd d f s') = bio_env (log_upd d f (s :: 'a logst_scheme))"
  by (cases s; cases s') (simp add: bio_env_def log_upd_def)

lemma base_env: "bio_env s' = bio_env s \<Longrightarrow> base (sdcard s') = base (sdcard s)"
  by (simp add: bio_env_def)

lemma get32_head_bytes:
  "get32 (head_bytes L m) 0 = word_of_int (lh_n L)"
  "i < nat (lh_n L) \<Longrightarrow> get32 (head_bytes L m) (4 + 4 * i) = lh_block L i"
proof -
  let ?h = "\<lambda>k. fold (\<lambda>i m. put32 m (4 + 4 * i) (lh_block L i)) [0..<k] (put32 m 0 (word_of_int (lh_n L)))"
  have "get32 (?h k) 0 = word_of_int (lh_n L)" for k
    by (induction k) (simp_all add: get_put_le_other)
  then show "get32 (head_bytes L m) 0 = word_of_int (lh_n L)" by (simp add: head_bytes_def)
  have "i < k \<Longrightarrow> get32 (?h k) (4 + 4 * i) = lh_block L i" for k
    by (induction k) (auto simp: less_Suc_eq)
  then show "i < nat (lh_n L) \<Longrightarrow> get32 (head_bytes L m) (4 + 4 * i) = lh_block L i"
    by (simp add: head_bytes_def)
qed

text \<open>Writing the header changes the header block only, and the header decides at its first sector.\<close>

lemma write_head_ok:
  fixes s :: "'a logst_scheme" and d :: nat
  defines "e \<equiv> bio_env s" and "L \<equiv> klog s d" and "g \<equiv> lgeo (klog s d)"
  assumes "log_on s d" and "bio_inv s" and "bio_lock s = (\<lambda>_. None)" and "log_geom e g"
    and "0 \<le> lh_n L" and "lh_n L \<le> int LOGSIZE" and "card (bio_dirty s) < NBUF" and "logkey g 0 \<notin> bio_dirty s"
  obtains s' v where "write_head d s = Inr s'" and "bio_inv s'" and "bio_env s' = e"
    and "bio_lock s' = (\<lambda>_. None)" and "bio_dirty s' = bio_dirty s"
    and "\<And>k. blk_ok e k \<Longrightarrow> k \<noteq> logkey g 0 \<Longrightarrow> bio_view s' k = bio_view s k \<and> kdisk s' k = kdisk s k"
    and "writes (sdcard s') = writes (sdcard s) @ sector_writes (key_sector e (logkey g 0)) v 8"
    and "sint (get32 v 0) = lh_n L" and "\<And>i. i < nat (lh_n L) \<Longrightarrow> get32 v (4 + 4 * i) = lh_block L i"
    and "kdisk s' (logkey g 0) = v"
proof -
  let ?k = "logkey g 0"
  have ok: "blk_ok e ?k" using assms(7) by (auto simp: log_geom_def)
  have k: "fst ?k = log_dev L" "snd ?k = word_of_int (log_start L)"
    by (simp_all add: logkey_def g_def lgeo_def L_def)
  obtain b s1 where 1: "bread (fst ?k) (snd ?k) s = Inr (b, s1)" "bio_inv s1" "bio_env s1 = e"
      "bio_lock s1 = [b \<mapsto> ?k]" "bio_dirty s1 = bio_dirty s" "bio_view s1 = bio_view s"
      "kdisk s1 = kdisk s" "writes (sdcard s1) = writes (sdcard s)"
    using bc.read_block [OF assms(5,6) ok [unfolded e_def] assms(10)] unfolding e_def by metis
  let ?x = "head_bytes L (b_data (bufs s1 b))"
  obtain s2 s3 where 2: "bwrite b (buf_store b ?x s1) = Inr s2" "brelse b s2 = Inr s3"
      "bio_inv s3" "bio_env s3 = e" "bio_lock s3 = (\<lambda>_. None)" "bio_dirty s3 = bio_dirty s1 - {?k}"
      "kdisk s3 ?k = clip BSIZE ?x"
      "\<And>k'. blk_ok e k' \<Longrightarrow> k' \<noteq> ?k \<Longrightarrow> bio_view s3 k' = bio_view s1 k' \<and> kdisk s3 k' = kdisk s1 k'"
      "writes (sdcard s3) = writes (sdcard s1) @ sector_writes (key_sector e ?k) (clip BSIZE ?x) 8"
    using bc.write_block [OF 1(2,4), of ?x] unfolding 1(3) by metis
  have L1: "klog s1 d = L" using klog_env [of s1 s] 1(3) by (simp add: e_def L_def)
  have wh: "write_head d s = Inr s3"
    using assms(4,9) 1(1) 2(1,2) unfolding k
    by (simp add: write_head_def L1 flip: L_def)
  have n: "sint (word_of_int (lh_n L) :: u32) = lh_n L"
    using assms(8,9) by (simp add: LOGSIZE_def signed_of_int signed_take_bit_int_eq_self_iff)
  show ?thesis
  proof (rule that [OF wh 2(3,4,5)])
    show "bio_dirty s3 = bio_dirty s" using 2(6) 1(5) assms(11) by auto
    show "bio_view s3 k = bio_view s k \<and> kdisk s3 k = kdisk s k" if "blk_ok e k" "k \<noteq> ?k" for k
      using 2(8) [OF that] 1(6,7) by simp
    show "writes (sdcard s3) = writes (sdcard s) @ sector_writes (key_sector e ?k) (clip BSIZE ?x) 8"
      using 2(9) 1(8) by simp
    show "sint (get32 (clip BSIZE ?x) 0) = lh_n L"
      by (simp add: get_le_clip size_defs get32_head_bytes n)
    show "get32 (clip BSIZE ?x) (4 + 4 * i) = lh_block L i" if "i < nat (lh_n L)" for i
    proof -
      have "4 + 4 * i + 4 \<le> BSIZE" using that assms(9) by (simp add: size_defs LOGSIZE_def)
      then show ?thesis using that by (simp only: get_le_clip get32_head_bytes)
    qed
    show "kdisk s3 ?k = clip BSIZE ?x" by (rule 2(7))
  qed
qed

text \<open>One block copied between the log and its home, in the two directions.\<close>

lemma write_log_one_ok:
  fixes s :: "'a logst_scheme" and d i :: nat
  defines "e \<equiv> bio_env s" and "L \<equiv> klog s d" and "g \<equiv> lgeo (klog s d)"
  defines "src \<equiv> (log_dev L, lh_block L i)" and "dst \<equiv> logkey g (Suc i)"
  assumes "bio_inv s" and "bio_lock s = (\<lambda>_. None)" and "blk_ok e src" and "blk_ok e dst"
    and "src \<noteq> dst" and "card (bio_dirty s) + 1 < NBUF" and "dst \<notin> bio_dirty s" and "i < LOGSIZE"
  obtains s' where "write_log_one d i s = Inr s'" and "bio_inv s'" and "bio_env s' = e"
    and "bio_lock s' = (\<lambda>_. None)" and "bio_dirty s' = bio_dirty s" and "kdisk s' dst = bio_view s src"
    and "\<And>k. blk_ok e k \<Longrightarrow> k \<noteq> dst \<Longrightarrow> bio_view s' k = bio_view s k \<and> kdisk s' k = kdisk s k"
    and "writes (sdcard s') = writes (sdcard s) @ sector_writes (key_sector e dst) (bio_view s src) 8"
proof -
  have dst: "fst dst = log_dev L" "snd dst = word_of_int (log_start L + int i + 1)"
    by (simp_all add: dst_def logkey_def g_def lgeo_def L_def algebra_simps)
  obtain it if' s1 s2 where 1: "bread (fst dst) (snd dst) s = Inr (it, s1)"
      "bread (fst src) (snd src) s1 = Inr (if', s2)" "it \<noteq> if'" "bio_inv s2" "bio_env s2 = e"
      "bio_lock s2 = [it \<mapsto> dst, if' \<mapsto> src]" "bio_dirty s2 = bio_dirty s" "bio_view s2 = bio_view s"
      "kdisk s2 = kdisk s" "writes (sdcard s2) = writes (sdcard s)"
    using bc.two_reads [OF assms(6,7) _ _ assms(10) [symmetric] assms(11)] assms(8,9) unfolding e_def by metis
  have lk: "bio_lock s2 = [if' \<mapsto> src, it \<mapsto> dst]" using 1(3,6) by (auto simp: fun_upd_twist)
  have cl: "src \<in> bio_dirty s2 \<or> bio_view s2 src = kdisk s2 src"
    using bc.clean_agrees [OF assms(6) assms(8) [unfolded e_def]] by (auto simp: 1 assms(7))
  obtain s3 where 3: "bwrite it (buf_store it (memcopy (b_data (bufs s2 it)) 0 (b_data (bufs s2 if')) 0 BSIZE) s2) = Inr s3"
      "bio_inv s3" "bio_env s3 = e" "bio_lock s3 = bio_lock s2" "bio_dirty s3 = bio_dirty s2 - {dst}"
      "kdisk s3 dst = bio_view s2 src"
      "\<And>k. blk_ok e k \<Longrightarrow> k \<noteq> dst \<Longrightarrow> bio_view s3 k = bio_view s2 k \<and> kdisk s3 k = kdisk s2 k"
      "writes (sdcard s3) = writes (sdcard s2) @ sector_writes (key_sector e dst) (bio_view s2 src) 8"
      "src \<in> bio_dirty s3 \<or> bio_view s3 src = kdisk s3 src" "dst \<in> bio_dirty s3 \<or> bio_view s3 dst = kdisk s3 dst"
    using bc.move_and_write [OF 1(4) lk 1(3) [symmetric] assms(10) cl] unfolding 1(5) by metis
  obtain s4 where 4: "kbind (brelse if' s3) (brelse it) = Inr s4" "bio_inv s4" "bio_env s4 = e"
      "bio_lock s4 = (\<lambda>_. None)" "bio_dirty s4 = bio_dirty s3" "bio_view s4 = bio_view s3"
      "kdisk s4 = kdisk s3" "writes (sdcard s4) = writes (sdcard s3)"
    using bc.two_releases [OF 3(2) _ 1(3) [symmetric] 3(9,10)] lk 3(3,4) by metis
  have "write_log_one d i s = Inr s4"
    using 1(1,2) 3(1) 4(1) assms(13) unfolding dst
    by (simp add: write_log_one_def src_def Let_def flip: L_def)
  then show ?thesis
    by (rule that) (use 1 3 4 assms(12) in auto)
qed

lemma install_one_ok:
  fixes s :: "'a logst_scheme" and d i :: nat
  defines "e \<equiv> bio_env s" and "L \<equiv> klog s d" and "g \<equiv> lgeo (klog s d)"
  defines "src \<equiv> logkey g (Suc i)" and "dst \<equiv> (log_dev L, lh_block L i)"
  assumes "bio_inv s" and "bio_lock s = (\<lambda>_. None)" and "blk_ok e src" and "blk_ok e dst"
    and "src \<noteq> dst" and "card (bio_dirty s) + 1 < NBUF" and "src \<notin> bio_dirty s" and "i < LOGSIZE"
  obtains s' where "install_one d i s = Inr s'" and "bio_inv s'" and "bio_env s' = e"
    and "bio_lock s' = (\<lambda>_. None)" and "bio_dirty s' = bio_dirty s - {dst}"
    and "kdisk s' dst = kdisk s src" and "bio_view s' dst = kdisk s src"
    and "\<And>k. blk_ok e k \<Longrightarrow> k \<noteq> dst \<Longrightarrow> bio_view s' k = bio_view s k \<and> kdisk s' k = kdisk s k"
    and "writes (sdcard s') = writes (sdcard s) @ sector_writes (key_sector e dst) (kdisk s src) 8"
proof -
  have src: "fst src = log_dev L" "snd src = word_of_int (log_start L + int i + 1)"
    by (simp_all add: src_def logkey_def g_def lgeo_def L_def algebra_simps)
  have vd: "bio_view s src = kdisk s src"
    using bc.clean_agrees [OF assms(6) assms(8) [unfolded e_def] assms(12)] by (simp add: assms(7))
  obtain il id s1 s2 where 1: "bread (fst src) (snd src) s = Inr (il, s1)"
      "bread (fst dst) (snd dst) s1 = Inr (id, s2)" "il \<noteq> id" "bio_inv s2" "bio_env s2 = e"
      "bio_lock s2 = [il \<mapsto> src, id \<mapsto> dst]" "bio_dirty s2 = bio_dirty s" "bio_view s2 = bio_view s"
      "kdisk s2 = kdisk s" "writes (sdcard s2) = writes (sdcard s)"
    using bc.two_reads [OF assms(6,7) _ _ assms(10,11)] assms(8,9) unfolding e_def by metis
  have cl: "src \<in> bio_dirty s2 \<or> bio_view s2 src = kdisk s2 src" using vd by (simp add: 1)
  obtain s3 where 3: "bwrite id (buf_store id (memcopy (b_data (bufs s2 id)) 0 (b_data (bufs s2 il)) 0 BSIZE) s2) = Inr s3"
      "bio_inv s3" "bio_env s3 = e" "bio_lock s3 = bio_lock s2" "bio_dirty s3 = bio_dirty s2 - {dst}"
      "bio_view s3 dst = bio_view s2 src" "kdisk s3 dst = bio_view s2 src"
      "\<And>k. blk_ok e k \<Longrightarrow> k \<noteq> dst \<Longrightarrow> bio_view s3 k = bio_view s2 k \<and> kdisk s3 k = kdisk s2 k"
      "writes (sdcard s3) = writes (sdcard s2) @ sector_writes (key_sector e dst) (bio_view s2 src) 8"
      "src \<in> bio_dirty s3 \<or> bio_view s3 src = kdisk s3 src" "dst \<in> bio_dirty s3 \<or> bio_view s3 dst = kdisk s3 dst"
    using bc.move_and_write [OF 1(4,6,3) assms(10) cl] unfolding 1(5) by metis
  obtain s4 where 4: "kbind (brelse il s3) (brelse id) = Inr s4" "bio_inv s4" "bio_env s4 = e"
      "bio_lock s4 = (\<lambda>_. None)" "bio_dirty s4 = bio_dirty s3" "bio_view s4 = bio_view s3"
      "kdisk s4 = kdisk s3" "writes (sdcard s4) = writes (sdcard s3)"
    using bc.two_releases [OF 3(2) _ 1(3) 3(10,11)] 1(6) 3(3,4) by metis
  have "install_one d i s = Inr s4"
    using 1(1,2) 3(1) 4(1) assms(13) unfolding src
    by (simp add: install_one_def dst_def Let_def flip: L_def)
  then show ?thesis
    by (rule that) (use 1 3 4 vd in auto)
qed

lemma at_rest_partial:
  assumes "bio_inv s" and "at_rest (bio_env s) g F M" and "log_geom (bio_env s) g"
    and "k = logkey g (Suc i)" and "int (Suc i) < snd (snd g)" and "j \<le> 8"
  shows "at_rest (bio_env s) g F (replay (take j (sector_writes (key_sector (bio_env s) k) v 8)) M)"
proof -
  have k: "blk_ok (bio_env s) k" using assms(3-5) by (simp add: log_geom_ok)
  have h: "blk_ok (bio_env s) (logkey g 0)" "logkey g 0 \<noteq> k"
    using assms(3-5) by (auto simp: log_geom_ok logkey_eq_iff)
  note other = blk_partial_other [OF assms(1) k _ _ assms(6)]
  have "k' \<noteq> k" if "home_ok (bio_env s) g k'" for k'
    using that assms(4,5) home_not_log by blast
  then show ?thesis
    using assms(2) other [OF h] unfolding at_rest_def head_n_def
    by (simp add: other home_ok_def)
qed

lemma log_wf_keys:
  assumes "log_wf e L" and "i < nat (lh_n L)"
  shows "blk_ok e (log_dev L, lh_block L i)" and "blk_ok e (logkey (lgeo L) (Suc i))"
    and "j < nat (lh_n L) \<Longrightarrow> (log_dev L, lh_block L i) \<noteq> logkey (lgeo L) (Suc j)"
    and "(log_dev L, lh_block L i) \<noteq> logkey (lgeo L) 0"
    and "i < LOGSIZE" and "int (Suc i) < snd (snd (lgeo L))" and "home_ok e (lgeo L) (log_dev L, lh_block L i)"
proof -
  have n: "lh_n L < log_size L" "log_geom e (lgeo L)"
    and h: "home_ok e (lgeo L) (log_dev L, lh_block L i)"
    using assms by (simp_all add: log_wf_def)
  have z: "snd (snd (lgeo L)) = log_size L" by (simp add: lgeo_def)
  show "blk_ok e (log_dev L, lh_block L i)" using h by (simp add: home_ok_def)
  show s: "int (Suc i) < snd (snd (lgeo L))" using assms(2) n(1) by (simp add: z)
  then show "blk_ok e (logkey (lgeo L) (Suc i))" using n(2) by (rule log_geom_ok [rotated])
  show "(log_dev L, lh_block L i) \<noteq> logkey (lgeo L) (Suc j)" if "j < nat (lh_n L)"
    using that n(1) by (intro home_not_log [OF h]) (simp add: z)
  show "(log_dev L, lh_block L i) \<noteq> logkey (lgeo L) 0"
    using assms(2) n(1) by (intro home_not_log [OF h]) (simp add: z)
  show "i < LOGSIZE" using assms unfolding log_wf_def by linarith
  show "home_ok e (lgeo L) (log_dev L, lh_block L i)" by (rule h)
qed

lemma write_log_ok:
  fixes s :: "'a logst_scheme" and d :: nat
  defines "e \<equiv> bio_env s" and "L \<equiv> klog s d" and "g \<equiv> lgeo (klog s d)"
  assumes "log_on s d" and "bio_inv s" and "bio_lock s = (\<lambda>_. None)" and "log_wf e L"
    and "\<And>i. int i < snd (snd g) \<Longrightarrow> logkey g i \<notin> bio_dirty s" and "card (bio_dirty s) + 1 < NBUF"
    and "at_rest e g F (medium (sdcard s))"
  obtains s' where "write_log d s = Inr s'" and "bio_inv s'" and "bio_env s' = e"
    and "bio_lock s' = (\<lambda>_. None)" and "bio_dirty s' = bio_dirty s"
    and "\<And>k. home_ok e g k \<Longrightarrow> bio_view s' k = bio_view s k \<and> kdisk s' k = kdisk s k"
    and "\<And>m. m < nat (lh_n L) \<Longrightarrow> kdisk s' (logkey g (Suc m)) = bio_view s (log_dev L, lh_block L m)"
    and "trace (at_rest e g F) s s'"
proof -
  define W where "W = (\<lambda>i (t :: 'a logst_scheme). bio_inv t \<and> bio_env t = e \<and> bio_lock t = (\<lambda>_. None) \<and>
      bio_dirty t = bio_dirty s \<and> (\<forall>k. home_ok e g k \<longrightarrow> bio_view t k = bio_view s k \<and> kdisk t k = kdisk s k) \<and>
      (\<forall>m<i. kdisk t (logkey g (Suc m)) = bio_view s (log_dev L, lh_block L m)) \<and>
      trace (at_rest e g F) s t)"
  have geom: "log_geom e g" using assms(7) by (simp add: log_wf_def g_def L_def)
  have "\<exists>t'. write_log_one d i t = Inr t' \<and> W (Suc i) t'" if i: "i < nat (lh_n L)" and W: "W i t" for i t
  proof -
    have gL: "lgeo L = g" by (simp add: g_def L_def)
    note keys = log_wf_keys [OF assms(7) i, unfolded gL]
    have et: "bio_env t = e" "klog t = klog s" using W klog_env [of t s] by (simp_all add: W_def e_def)
    have kt: "klog t d = L" by (simp add: et L_def)
    have pre: "bio_inv t" "bio_lock t = (\<lambda>_. None)" "card (bio_dirty t) + 1 < NBUF"
        "logkey g (Suc i) \<notin> bio_dirty t"
      using W assms(8) [OF keys(6)] assms(9) by (simp_all add: W_def)
    obtain t' where t': "write_log_one d i t = Inr t'" "bio_inv t'" "bio_env t' = e"
        "bio_lock t' = (\<lambda>_. None)" "bio_dirty t' = bio_dirty t"
        "kdisk t' (logkey g (Suc i)) = bio_view t (log_dev L, lh_block L i)"
        "\<And>k. blk_ok e k \<Longrightarrow> k \<noteq> logkey g (Suc i) \<Longrightarrow> bio_view t' k = bio_view t k \<and> kdisk t' k = kdisk t k"
        "writes (sdcard t') = writes (sdcard t) @
           sector_writes (key_sector e (logkey g (Suc i))) (bio_view t (log_dev L, lh_block L i)) 8"
      by (rule write_log_one_ok [of t d i, unfolded kt gL et(1),
            OF pre(1,2) keys(1,2) keys(3) [OF i] pre(3,4) keys(5)], rule that)
    have "trace (at_rest e g F) t t'"
    proof (rule trace_write [OF _ t'(8)])
      show "base (sdcard t') = base (sdcard t)" using t'(3) et by (intro base_env) simp
      fix j :: nat assume "j \<le> 8"
      have "at_rest e g F (medium (sdcard t))" using W trace_end unfolding W_def by blast
      then show "at_rest e g F (replay (take j (sector_writes (key_sector e (logkey g (Suc i)))
          (bio_view t (log_dev L, lh_block L i)) 8)) (medium (sdcard t)))"
        using at_rest_partial [of t, unfolded et(1), OF _ _ geom refl keys(6) \<open>j \<le> 8\<close>] W
        unfolding W_def by blast
    qed
    moreover have "trace (at_rest e g F) s t" using W by (simp add: W_def)
    moreover have "kdisk t' (logkey g (Suc m)) = bio_view s (log_dev L, lh_block L m)" if "m < Suc i" for m
    proof (cases "m = i")
      case True with t'(6) W keys(7) show ?thesis by (simp add: W_def)
    next
      case False
      with that have m: "m < i" by simp
      then have "blk_ok e (logkey g (Suc m))" "logkey g (Suc m) \<noteq> logkey g (Suc i)"
        using geom keys(6) by (auto simp: log_geom_ok logkey_eq_iff)
      with t'(7) W m show ?thesis by (simp add: W_def)
    qed
    moreover have "bio_view t' k = bio_view s k \<and> kdisk t' k = kdisk s k" if h: "home_ok e g k" for k
    proof -
      have "bio_view t k = bio_view s k \<and> kdisk t k = kdisk s k" using W h unfolding W_def by blast
      with t'(7) [of k] h home_not_log [OF h keys(6)] show ?thesis by (simp add: home_ok_def)
    qed
    ultimately show ?thesis
      using t'(1-5) W unfolding W_def by (blast intro: trace_trans)
  qed
  moreover have "W 0 s" using assms(5,6,10) by (simp add: W_def e_def trace_refl)
  ultimately obtain s' where "kfold (write_log_one d) [0..<nat (lh_n L)] s = Inr s'" "W (nat (lh_n L)) s'"
    using kfold_upt_invariant [of W s "nat (lh_n L)" "write_log_one d"] by blast
  then show ?thesis
    using assms(4) unfolding W_def by (intro that [of s']) (auto simp: write_log_def L_def)
qed

lemma committed_partial:
  assumes "bio_inv s" and "committed (bio_env s) g n bs F M" and "log_geom (bio_env s) g"
    and "int n < snd (snd g)" and "k \<in> (\<lambda>i. (fst g, bs i)) ` {..<n}" and "home_ok (bio_env s) g k" and "j \<le> 8"
  shows "committed (bio_env s) g n bs F (replay (take j (sector_writes (key_sector (bio_env s) k) v 8)) M)"
proof -
  have "blk_ok (bio_env s) k" using assms(6) by (simp add: home_ok_def)
  note other = blk_partial_other [OF assms(1) this _ _ assms(7)]
  have l: "blk (bio_env s) (replay (take j (sector_writes (key_sector (bio_env s) k) v 8)) M) (logkey g i) =
      blk (bio_env s) M (logkey g i)" if "i \<le> n" for i
    using that assms(3,4) home_not_log [OF assms(6), of i] by (intro other) (auto simp: log_geom_ok)
  have h: "blk (bio_env s) (replay (take j (sector_writes (key_sector (bio_env s) k) v 8)) M) k' =
      blk (bio_env s) M k'" if "home_ok (bio_env s) g k'" "k' \<notin> (\<lambda>i. (fst g, bs i)) ` {..<n}" for k'
    using that assms(5) by (intro other) (auto simp: home_ok_def)
  show ?thesis
    using assms(2) l [of 0] l [of "Suc _"] h unfolding committed_def head_n_def head_block_def by auto
qed

lemma install_trans_ok:
  fixes s :: "'a logst_scheme" and d :: nat
  defines "e \<equiv> bio_env s" and "L \<equiv> klog s d" and "g \<equiv> lgeo (klog s d)" and "n \<equiv> nat (lh_n (klog s d))"
  assumes "log_on s d" and "bio_inv s" and "bio_lock s = (\<lambda>_. None)" and "log_wf e L"
    and "\<And>i. int i < snd (snd g) \<Longrightarrow> logkey g i \<notin> bio_dirty s" and "card (bio_dirty s) + 1 < NBUF"
    and "committed e g n (lh_block L) F (medium (sdcard s))"
  obtains s' where "install_trans d s = Inr s'" and "bio_inv s'" and "bio_env s' = e"
    and "bio_lock s' = (\<lambda>_. None)" and "bio_dirty s' = bio_dirty s - logged L"
    and "\<And>k. home_ok e g k \<Longrightarrow> kdisk s' k = F k"
    and "trace (committed e g n (lh_block L) F) s s'"
proof -
  let ?home = "\<lambda>m. (log_dev L, lh_block L m)"
  let ?C = "committed e g n (lh_block L) F"
  define I where "I = (\<lambda>i (t :: 'a logst_scheme). bio_inv t \<and> bio_env t = e \<and> bio_lock t = (\<lambda>_. None) \<and>
      bio_dirty t = bio_dirty s - ?home ` {..<i} \<and> (\<forall>m<i. kdisk t (?home m) = F (?home m)) \<and> trace ?C s t)"
  have gL: "lgeo L = g" and dv: "fst g = log_dev L" and nL: "n = nat (lh_n L)"
    by (simp_all add: g_def L_def lgeo_def n_def)
  have geom: "log_geom e g" and nz: "int n < snd (snd g)" and inj: "inj_on (lh_block L) {..<n}"
    using assms(8) by (auto simp: log_wf_def gL nL) (auto simp: lgeo_def g_def L_def)
  have "\<exists>t'. install_one d i t = Inr t' \<and> I (Suc i) t'" if i: "i < n" and I: "I i t" for i t
  proof -
    note keys = log_wf_keys [OF assms(8) i [unfolded nL], unfolded gL]
    have et: "bio_env t = e" "klog t = klog s" using I klog_env [of t s] by (simp_all add: I_def e_def)
    have kt: "klog t d = L" by (simp add: et L_def)
    have ct: "?C (medium (sdcard t))" using I trace_end unfolding I_def by blast
    have pre: "bio_inv t" "bio_lock t = (\<lambda>_. None)" "card (bio_dirty t) + 1 < NBUF"
        "logkey g (Suc i) \<notin> bio_dirty t"
    proof -
      have "bio_dirty t \<subseteq> bio_dirty s" "finite (bio_dirty s)"
        using I bc.finite_dirty [OF assms(6)] by (auto simp: I_def)
      from card_mono [OF this(2,1)] assms(10) show "card (bio_dirty t) + 1 < NBUF" by simp
    qed (use I assms(9) [OF keys(6)] in \<open>auto simp: I_def\<close>)
    obtain t' where t': "install_one d i t = Inr t'" "bio_inv t'" "bio_env t' = e"
        "bio_lock t' = (\<lambda>_. None)" "bio_dirty t' = bio_dirty t - {?home i}"
        "kdisk t' (?home i) = kdisk t (logkey g (Suc i))"
        "\<And>k. blk_ok e k \<Longrightarrow> k \<noteq> ?home i \<Longrightarrow> bio_view t' k = bio_view t k \<and> kdisk t' k = kdisk t k"
        "writes (sdcard t') = writes (sdcard t) @
           sector_writes (key_sector e (?home i)) (kdisk t (logkey g (Suc i))) 8"
      by (rule install_one_ok [of t d i, unfolded kt gL et(1),
            OF pre(1,2) keys(2,1) keys(3) [OF i [unfolded nL], symmetric] pre(3,4) keys(5)], rule that)
    have "kdisk t' (?home i) = F (?home i)"
      using t'(6) ct i unfolding committed_def kdisk_blk et(1) dv by simp
    moreover have "kdisk t' (?home m) = F (?home m)" if "m < i" for m
    proof -
      have "lh_block L m \<noteq> lh_block L i" using inj i that by (auto simp: inj_on_def)
      then show ?thesis
        using t'(7) [of "?home m"] log_wf_keys(1) [OF assms(8), of m] I that i by (auto simp: I_def nL)
    qed
    moreover have "trace ?C t t'"
    proof (rule trace_write [OF _ t'(8)])
      show "base (sdcard t') = base (sdcard t)" using t'(3) et by (intro base_env) simp
      fix j :: nat assume "j \<le> 8"
      then show "?C (replay (take j (sector_writes (key_sector e (?home i))
          (kdisk t (logkey g (Suc i))) 8)) (medium (sdcard t)))"
        using committed_partial [of t, unfolded et(1), OF pre(1) ct geom nz _ keys(7)] i
        by (simp add: dv)
    qed
    ultimately show ?thesis
      using t'(1-5) I unfolding I_def by (auto simp: lessThan_Suc less_Suc_eq intro: trace_trans)
  qed
  moreover have "I 0 s" using assms(6,7,11) by (simp add: I_def e_def trace_refl)
  ultimately obtain s' where s': "kfold (install_one d) [0..<n] s = Inr s'" "I n s'"
    using kfold_upt_invariant [of I s n "install_one d"] by blast
  have c: "?C (medium (sdcard s'))" using s'(2) trace_end unfolding I_def by blast
  have e': "bio_env s' = e" using s'(2) by (simp add: I_def)
  show ?thesis
  proof (rule that [of s'])
    show "kdisk s' k = F k" if "home_ok e g k" for k
    proof (cases "k \<in> ?home ` {..<n}")
      case True
      then obtain m where "m < n" "k = ?home m" by auto
      with s'(2) show ?thesis by (simp add: I_def)
    next
      case False
      with c that show ?thesis unfolding committed_def kdisk_blk e' dv by blast
    qed
  qed (use s' assms(5) in \<open>auto simp: install_trans_def I_def n_def logged_def L_def\<close>)
qed

lemma sector_fits: "i < n \<Longrightarrow> n \<le> LOGSIZE \<Longrightarrow> 4 + 4 * i + 4 \<le> SD_BLOCK_SIZE"
  by (simp add: LOGSIZE_def size_defs)

text \<open>The commit point: with the log blocks in place, the header write commits at its first sector.\<close>

lemma header_commits:
  assumes "bio_inv s" and "log_geom (bio_env s) g" and "int n < snd (snd g)" and "n \<le> LOGSIZE"
    and "at_rest (bio_env s) g F M"
    and "\<And>i. i < n \<Longrightarrow> blk (bio_env s) M (logkey g (Suc i)) = F' (fst g, bs i)"
    and "\<And>k. home_ok (bio_env s) g k \<Longrightarrow> k \<notin> (\<lambda>i. (fst g, bs i)) ` {..<n} \<Longrightarrow> F k = F' k"
    and "sint (get32 v 0) = int n" and "\<And>i. i < n \<Longrightarrow> get32 v (4 + 4 * i) = bs i" and "j \<le> 8"
  shows "let M' = replay (take j (sector_writes (key_sector (bio_env s) (logkey g 0)) v 8)) M
         in at_rest (bio_env s) g F M' \<or> committed (bio_env s) g n bs F' M'"
proof (cases "j = 0")
  case True
  with assms(5) show ?thesis by (simp add: replay_def)
next
  case False
  let ?M = "replay (take j (sector_writes (key_sector (bio_env s) (logkey g 0)) v 8)) M"
  have z: "blk_ok (bio_env s) (logkey g 0)" using assms(2,3) by (simp add: log_geom_ok)
  note other = blk_partial_other [OF assms(1) z _ _ assms(10)]
  note first = blk_partial_first_sector [of j, OF _ assms(10)]
  have "head_n (bio_env s) g ?M = int n"
    using False assms(8) by (simp add: head_n_def first size_defs)
  moreover have "head_block (bio_env s) g ?M i = bs i" if "i < n" for i
    using False assms(9) [OF that]
    by (simp add: head_block_def first [OF _ sector_fits [OF that assms(4)]])
  moreover have "blk (bio_env s) ?M (logkey g (Suc i)) = F' (fst g, bs i)" if "i < n" for i
  proof -
    have "blk_ok (bio_env s) (logkey g (Suc i))" "logkey g (Suc i) \<noteq> logkey g 0"
      using that assms(2,3) by (auto simp: log_geom_ok logkey_eq_iff)
    with that assms(6) show ?thesis by (simp add: other)
  qed
  moreover have "blk (bio_env s) ?M k = F' k"
    if k: "home_ok (bio_env s) g k" "k \<notin> (\<lambda>i. (fst g, bs i)) ` {..<n}" for k
  proof -
    have "k \<noteq> logkey g 0" using home_not_log [OF k(1), of 0] assms(3) by simp
    with k have "blk (bio_env s) ?M k = blk (bio_env s) M k" by (intro other) (auto simp: home_ok_def)
    also have "\<dots> = F k" using assms(5) k(1) unfolding at_rest_def by blast
    also have "\<dots> = F' k" using k by (rule assms(7))
    finally show ?thesis .
  qed
  ultimately have "committed (bio_env s) g n bs F' ?M" unfolding committed_def by blast
  then show ?thesis by simp
qed

text \<open>Clearing the header ends the transaction, again at its first sector.\<close>

lemma header_clears:
  assumes "bio_inv s" and "log_geom (bio_env s) g" and "P M"
    and "\<And>k. home_ok (bio_env s) g k \<Longrightarrow> blk (bio_env s) M k = F k"
    and "sint (get32 v 0) = 0" and "j \<le> 8"
  shows "let M' = replay (take j (sector_writes (key_sector (bio_env s) (logkey g 0)) v 8)) M
         in P M' \<or> at_rest (bio_env s) g F M'"
proof (cases "j = 0")
  case True
  with assms(3) show ?thesis by (simp add: replay_def)
next
  case False
  let ?M = "replay (take j (sector_writes (key_sector (bio_env s) (logkey g 0)) v 8)) M"
  have sz: "int 0 < snd (snd g)" using assms(2) by (simp add: log_geom_def)
  then have z: "blk_ok (bio_env s) (logkey g 0)" using assms(2) by (rule log_geom_ok [rotated])
  have "head_n (bio_env s) g ?M = 0"
    using False assms(5,6) by (simp add: head_n_def blk_partial_first_sector size_defs)
  moreover have "blk (bio_env s) ?M k = F k" if k: "home_ok (bio_env s) g k" for k
    using blk_partial_other [OF assms(1) z, of k j v M] assms(4) [OF k] k home_not_log [OF k sz] assms(6)
    by (simp add: home_ok_def)
  ultimately show ?thesis by (simp add: at_rest_def)
qed

lemma log_wf_dirty:
  assumes "log_wf e L" and "bio_dirty s \<subseteq> logged L" and "int i < snd (snd (lgeo L))"
  shows "logkey (lgeo L) i \<notin> bio_dirty s"
proof
  assume "logkey (lgeo L) i \<in> bio_dirty s"
  with assms(2) have "logkey (lgeo L) i \<in> logged L" by blast
  then obtain m where m: "m < nat (lh_n L)" "logkey (lgeo L) i = (log_dev L, lh_block L m)"
    by (auto simp: logged_def)
  from home_not_log [OF log_wf_keys(7) [OF assms(1) m(1)] assms(3)] m(2) show False by simp
qed

text \<open>The last step of \<open>commit\<close> and of recovery: the in-memory count and the header are cleared.\<close>

lemma clear_head_ok:
  fixes s :: "'a logst_scheme" and d :: nat
  defines "e \<equiv> bio_env s" and "g \<equiv> lgeo (klog s d)"
  assumes "log_on s d" and "bio_inv s" and "bio_lock s = (\<lambda>_. None)" and "log_geom e g"
    and "bio_dirty s = {}" and "\<And>k. home_ok e g k \<Longrightarrow> kdisk s k = F k" and "P (medium (sdcard s))"
  obtains s' where "write_head d (log_upd d (\<lambda>L. L\<lparr>lh_n := 0\<rparr>) s) = Inr s'" and "bio_inv s'"
    and "klog s' = (klog s)(d := (klog s d)\<lparr>lh_n := 0\<rparr>)" and "blk_ok (bio_env s') = blk_ok e"
    and "key_sector (bio_env s') = key_sector e" and "sb s' = sb s" and "bio_lock s' = (\<lambda>_. None)"
    and "bio_dirty s' = {}" and "\<And>k. home_ok e g k \<Longrightarrow> kdisk s' k = F k \<and> bio_view s' k = F k"
    and "trace (\<lambda>M. P M \<or> at_rest e g F M) s s'" and "at_rest e g F (medium (sdcard s'))"
proof -
  let ?t = "log_upd d (\<lambda>L. L\<lparr>lh_n := 0\<rparr>) s"
  have on: "log_on ?t d" using assms(3) by (simp add: log_on_def)
  have gt: "lgeo (klog ?t d) = g" by (simp add: g_def lgeo_def)
  obtain s' v where s': "write_head d ?t = Inr s'" "bio_inv s'" "bio_env s' = bio_env ?t"
      "bio_lock s' = (\<lambda>_. None)" "bio_dirty s' = {}"
      "\<And>k. blk_ok e k \<Longrightarrow> k \<noteq> logkey g 0 \<Longrightarrow> bio_view s' k = bio_view s k \<and> kdisk s' k = kdisk s k"
      "writes (sdcard s') = writes (sdcard s) @ sector_writes (key_sector e (logkey g 0)) v 8"
      "sint (get32 v 0) = 0" "kdisk s' (logkey g 0) = v"
    by (rule write_head_ok [of ?t d, unfolded gt])
      (use on assms(4-7) in \<open>auto simp: NBUF_def LOGSIZE_def e_def\<close>)
  have sz: "int 0 < snd (snd g)" using assms(6) by (simp add: log_geom_def)
  have k': "kdisk s' k = F k \<and> bio_view s' k = F k" if k: "home_ok e g k" for k
  proof -
    have ok: "blk_ok e k" using k by (simp add: home_ok_def)
    then have "bio_view s k = kdisk s k"
      using bc.clean_agrees [OF assms(4), of k] assms(5,7) by (simp add: e_def)
    with s'(6) [OF ok home_not_log [OF k sz]] assms(8) [OF k] show ?thesis by simp
  qed
  have e': "blk (bio_env s') = blk e" "at_rest (bio_env s') = at_rest e"
    by (simp_all add: s'(3) e_def)
  show ?thesis
  proof (rule that [OF s'(1,2)])
    show "klog s' = (klog s)(d := (klog s d)\<lparr>lh_n := 0\<rparr>)"
      using klog_env [OF s'(3)] by simp
    show "blk_ok (bio_env s') = blk_ok e" "key_sector (bio_env s') = key_sector e"
      by (simp_all add: s'(3) e_def)
    show "sb s' = sb s" using s'(3) by (simp add: bio_env_def)
    show "trace (\<lambda>M. P M \<or> at_rest e g F M) s s'"
    proof (rule trace_write [OF _ s'(7)])
      show "base (sdcard s') = base (sdcard s)" using base_env [OF s'(3)] by simp
      fix j :: nat assume "j \<le> 8"
      then show "P (replay (take j (sector_writes (key_sector e (logkey g 0)) v 8)) (medium (sdcard s))) \<or>
          at_rest e g F (replay (take j (sector_writes (key_sector e (logkey g 0)) v 8)) (medium (sdcard s)))"
        using header_clears [of s g P "medium (sdcard s)" F v j] assms(4,6,8,9) s'(8)
        by (simp add: e_def kdisk_blk Let_def)
    qed
    have "head_n e g (medium (sdcard s')) = 0"
      using s'(8,9) by (simp add: head_n_def kdisk_blk e')
    then show "at_rest e g F (medium (sdcard s'))"
      using k' unfolding at_rest_def kdisk_blk e' by blast
  qed (use s' k' in auto)
qed

text \<open>
  A transaction ready to commit: the log of the device is enabled and well formed, no buffer is
  locked, exactly the logged blocks are dirty, two buffers are left for the copying, and the
  header on the card is clear.
\<close>

definition commit_ready :: "'a logst_scheme \<Rightarrow> nat \<Rightarrow> bool" where
  "commit_ready s d \<longleftrightarrow> log_on s d \<and> bio_inv s \<and> bio_lock s = (\<lambda>_. None) \<and>
     log_wf (bio_env s) (klog s d) \<and> bio_dirty s = logged (klog s d) \<and>
     lh_n (klog s d) + 1 < int NBUF \<and>
     head_n (bio_env s) (lgeo (klog s d)) (medium (sdcard s)) = 0"

lemma commit_ready_pre:
  assumes "commit_ready s d"
  shows "log_on s d" and "bio_inv s" and "bio_lock s = (\<lambda>_. None)" and "log_wf (bio_env s) (klog s d)"
    and "bio_dirty s = logged (klog s d)" and "card (bio_dirty s) + 1 < NBUF"
    and "\<And>i. int i < snd (snd (lgeo (klog s d))) \<Longrightarrow> logkey (lgeo (klog s d)) i \<notin> bio_dirty s"
    and "at_rest (bio_env s) (lgeo (klog s d)) (kdisk s) (medium (sdcard s))"
    and "log_geom (bio_env s) (lgeo (klog s d))" and "0 \<le> lh_n (klog s d)" and "lh_n (klog s d) \<le> int LOGSIZE"
proof -
  let ?L = "klog s d"
  show 1: "log_on s d" "bio_inv s" "bio_lock s = (\<lambda>_. None)" "log_wf (bio_env s) ?L" "bio_dirty s = logged ?L"
    using assms by (simp_all add: commit_ready_def)
  show "log_geom (bio_env s) (lgeo ?L)" "0 \<le> lh_n ?L" "lh_n ?L \<le> int LOGSIZE"
    using 1(4) by (simp_all add: log_wf_def)
  have "card (logged ?L) \<le> nat (lh_n ?L)"
    unfolding logged_def by (metis card_image_le card_lessThan finite_lessThan)
  then show "card (bio_dirty s) + 1 < NBUF"
    using assms \<open>0 \<le> lh_n ?L\<close> unfolding commit_ready_def 1(5) by linarith
  show "logkey (lgeo ?L) i \<notin> bio_dirty s" if "int i < snd (snd (lgeo ?L))" for i
    using log_wf_dirty [OF 1(4) _ that] 1(5) by blast
  show "at_rest (bio_env s) (lgeo ?L) (kdisk s) (medium (sdcard s))"
    using assms by (simp add: at_rest_def commit_ready_def kdisk_blk)
qed

lemma commit_ok:
  fixes s :: "'a logst_scheme" and d :: nat
  defines "e \<equiv> bio_env s" and "L \<equiv> klog s d" and "g \<equiv> lgeo (klog s d)"
  assumes "commit_ready s d" and "0 < lh_n L"
  obtains s' where "commit d s = Inr s'" and "bio_inv s'" and "klog s' = (klog s)(d := L\<lparr>lh_n := 0\<rparr>)"
    and "blk_ok (bio_env s') = blk_ok e" and "key_sector (bio_env s') = key_sector e" and "sb s' = sb s"
    and "bio_lock s' = (\<lambda>_. None)" and "bio_dirty s' = {}"
    and "\<And>k. home_ok e g k \<Longrightarrow> kdisk s' k = bio_view s k \<and> bio_view s' k = bio_view s k"
    and "trace (\<lambda>M. at_rest e g (kdisk s) M \<or> committed e g (nat (lh_n L)) (lh_block L) (bio_view s) M \<or>
           at_rest e g (bio_view s) M) s s'"
    and "at_rest e g (bio_view s) (medium (sdcard s'))"
proof -
  let ?n = "nat (lh_n L)"
  let ?R = "at_rest e g (kdisk s)" and ?C = "committed e g ?n (lh_block L) (bio_view s)"
  note pre = commit_ready_pre [OF assms(4), folded e_def g_def, folded L_def]
  have dv: "fst g = log_dev L" by (simp add: g_def L_def lgeo_def)
  obtain s1 where 1: "write_log d s = Inr s1" "bio_inv s1" "bio_env s1 = e" "bio_lock s1 = (\<lambda>_. None)"
      "bio_dirty s1 = bio_dirty s"
      "\<And>k. home_ok e g k \<Longrightarrow> bio_view s1 k = bio_view s k \<and> kdisk s1 k = kdisk s k"
      "\<And>m. m < ?n \<Longrightarrow> kdisk s1 (logkey g (Suc m)) = bio_view s (log_dev L, lh_block L m)" "trace ?R s s1"
    by (rule write_log_ok [of s d, folded e_def g_def, folded L_def, OF pre(1-4,7,6,8)], assumption, rule that)
  have k1: "klog s1 = klog s" using klog_env [of s1 s] 1(3) by (simp add: e_def)
  have on1: "log_on s1 d" using pre(1) by (simp add: log_on_def k1)
  have z: "int 0 < snd (snd g)" using pre(9) by (simp add: log_geom_def)
  obtain s2 v where 2: "write_head d s1 = Inr s2" "bio_inv s2" "bio_env s2 = e"
      "bio_lock s2 = (\<lambda>_. None)" "bio_dirty s2 = bio_dirty s"
      "\<And>k. blk_ok e k \<Longrightarrow> k \<noteq> logkey g 0 \<Longrightarrow> bio_view s2 k = bio_view s1 k \<and> kdisk s2 k = kdisk s1 k"
      "writes (sdcard s2) = writes (sdcard s1) @ sector_writes (key_sector e (logkey g 0)) v 8"
      "sint (get32 v 0) = lh_n L" "\<And>i. i < ?n \<Longrightarrow> get32 v (4 + 4 * i) = lh_block L i" "kdisk s2 (logkey g 0) = v"
    by (rule write_head_ok [of s1 d, unfolded k1 1(3), folded g_def, folded L_def, OF on1 1(2,4) pre(9-11)])
      (use 1(5) pre(6) pre(7) [OF z] in auto)
  have n: "int ?n < snd (snd g)" "?n \<le> LOGSIZE" "sint (get32 v 0) = int ?n"
    using pre(4,10,11) 2(8) by (auto simp: log_wf_def) (auto simp: g_def L_def lgeo_def)
  have clean: "kdisk s k = bio_view s k"
    if "home_ok e g k" "k \<notin> (\<lambda>i. (fst g, lh_block L i)) ` {..<?n}" for k
    using that bc.clean_agrees [OF pre(2), of k] pre(3,5)
    by (simp add: e_def home_ok_def logged_def dv)
  have hc: "?R (replay (take j (sector_writes (key_sector e (logkey g 0)) v 8)) (medium (sdcard s1))) \<or>
      ?C (replay (take j (sector_writes (key_sector e (logkey g 0)) v 8)) (medium (sdcard s1)))"
    if "j \<le> 8" for j
    using header_commits [of s1 g ?n "kdisk s" "medium (sdcard s1)" "bio_view s" "lh_block L" v j]
      1(2,3,7) pre(9) n trace_end [OF 1(8)] clean 2(9) that
    by (simp add: Let_def kdisk_blk dv)
  have t12: "trace (\<lambda>M. ?R M \<or> ?C M) s1 s2"
    using 2(3,7) 1(3) hc by (intro trace_write) (auto intro!: base_env)
  have "head_n e g (medium (sdcard s2)) = lh_n L"
    using 2(8,10) by (simp add: head_n_def kdisk_blk 2(3))
  then have c2: "?C (medium (sdcard s2))"
    using trace_end [OF t12] assms(5) by (auto simp: at_rest_def)
  have k2: "klog s2 = klog s" using klog_env [of s2 s] 2(3) by (simp add: e_def)
  have on2: "log_on s2 d" using pre(1) by (simp add: log_on_def k2)
  obtain s3 where 3: "install_trans d s2 = Inr s3" "bio_inv s3" "bio_env s3 = e" "bio_lock s3 = (\<lambda>_. None)"
      "bio_dirty s3 = bio_dirty s - logged L" "\<And>k. home_ok e g k \<Longrightarrow> kdisk s3 k = bio_view s k" "trace ?C s2 s3"
    using install_trans_ok [of s2 d "bio_view s", unfolded k2 2(3,5), folded g_def, folded L_def,
        OF on2 2(2,4) pre(4,7,6) c2] by blast
  have k3: "klog s3 = klog s" using klog_env [of s3 s] 3(3) by (simp add: e_def)
  have on3: "log_on s3 d" using pre(1) by (simp add: log_on_def k3)
  have d3: "bio_dirty s3 = {}" using 3(5) pre(5) by simp
  obtain s4 where 4: "write_head d (log_upd d (\<lambda>L. L\<lparr>lh_n := 0\<rparr>) s3) = Inr s4" "bio_inv s4"
      "klog s4 = (klog s)(d := L\<lparr>lh_n := 0\<rparr>)" "blk_ok (bio_env s4) = blk_ok e"
      "key_sector (bio_env s4) = key_sector e" "sb s4 = sb s3" "bio_lock s4 = (\<lambda>_. None)" "bio_dirty s4 = {}"
      "\<And>k. home_ok e g k \<Longrightarrow> kdisk s4 k = bio_view s k \<and> bio_view s4 k = bio_view s k"
      "trace (\<lambda>M. ?C M \<or> at_rest e g (bio_view s) M) s3 s4" "at_rest e g (bio_view s) (medium (sdcard s4))"
    by (rule clear_head_ok [of s3 d "bio_view s" ?C, unfolded k3 3(3), folded g_def, folded L_def,
        OF on3 3(2,4) pre(9) d3 3(6) trace_end [OF 3(7)]], assumption, rule that)
  let ?T = "\<lambda>M. ?R M \<or> ?C M \<or> at_rest e g (bio_view s) M"
  have "trace ?T s s1" "trace ?T s1 s2" "trace ?T s2 s3" "trace ?T s3 s4"
    using 1(8) t12 3(7) 4(10) by (auto elim!: trace_mono)
  then have "trace ?T s s4" by (blast intro: trace_trans)
  moreover have "commit d s = Inr s4"
    using 1(1) 2(1) 3(1) 4(1) pre(1) assms(5) by (simp add: commit_def L_def)
  moreover have "sb s4 = sb s" using 4(6) 3(3) by (simp add: e_def bio_env_def)
  ultimately show ?thesis using that 4 by blast
qed

text \<open>\<open>log_write\<close> as one change of the log and one mark of the buffer.\<close>

lemma log_write_ok:
  fixes s :: "'a logst_scheme"
  assumes "log_flag (klog s d) = LOGENABLED" and "d < NLOG" and "bio_inv s"
    and "bio_lock s b = Some (of_nat d, bno)" and "log_dev (klog s d) = of_nat d"
    and "log_wf (bio_env s) (klog s d)" and "bio_dirty s = logged (klog s d)"
    and "home_ok (bio_env s) (lgeo (klog s d)) (of_nat d, bno)"
    and "1 \<le> outstanding (klog s d)" and "lh_n (klog s d) < int LOGSIZE"
    and "lh_n (klog s d) < log_size (klog s d) - 1"
  obtains L' where "log_write b s = Inr (buf_dirty b (log_upd d (\<lambda>_. L') s))"
    and "log_wf (bio_env s) L'" and "logged L' = insert (of_nat d, bno) (logged (klog s d))"
    and "lgeo L' = lgeo (klog s d)" and "log_dev L' = of_nat d" and "log_flag L' = log_flag (klog s d)"
    and "outstanding L' = outstanding (klog s d)" and "lh_n L' \<le> lh_n (klog s d) + 1"
    and "log_size L' = log_size (klog s d)"
proof -
  let ?L = "klog s d" and ?g = "lgeo (klog s d)"
  define n where "n = nat (lh_n ?L)"
  define i where "i = length (takeWhile (\<lambda>i. lh_block ?L i \<noteq> bno) [0..<n])"
  define L' where "L' = ?L\<lparr>lh_block := (lh_block ?L)(i := bno), lh_n := if int i = lh_n ?L then lh_n ?L + 1 else lh_n ?L\<rparr>"
  note ix = takeWhile_index [where f = "lh_block ?L" and x = bno and n = n, folded i_def]
  have nn: "lh_n ?L = int n" using assms(6) by (simp add: n_def log_wf_def)
  have key: "b_dev (bufs s b) = of_nat d" "b_blockno (bufs s b) = bno"
    using bio_lockD [OF assms(4)] by (auto simp: bkey_def)
  have up: "log_upd d (\<lambda>L. L\<lparr>lh_block := (lh_block L)(i := bno), lh_n := if int i = lh_n L then lh_n L + 1 else lh_n L\<rparr>) s =
      log_upd d (\<lambda>_. L') s"
    by (simp add: log_upd_def L'_def)
  have w: "log_write b s = Inr (buf_dirty b (log_upd d (\<lambda>_. L') s))"
    unfolding up [symmetric]
    using assms(1,2,9-11) unfolding log_write_def key
    by (simp add: Let_def NLOG_def unat_of_nat_u32 LOGENABLED_def flip: n_def, simp add: i_def)
  have cs: "lh_block L' = lh_block ?L \<and> nat (lh_n L') = n \<and> bno \<in> lh_block ?L ` {..<n} \<or>
      nat (lh_n L') = Suc n \<and> (\<forall>j<n. lh_block L' j = lh_block ?L j) \<and> lh_block L' n = bno \<and>
      bno \<notin> lh_block ?L ` {..<n}"
  proof (cases "i < n")
    case True
    then show ?thesis using ix(2) by (auto simp: L'_def fun_eq_iff nn)
  next
    case False
    then have "i = n" using ix(1) by simp
    then show ?thesis using ix(3) by (auto simp: L'_def nn)
  qed
  then have blocks: "lh_block L' ` {..<nat (lh_n L')} = insert bno (lh_block ?L ` {..<n})"
    by (elim disjE) (auto simp: lessThan_Suc)
  have ag: "\<And>j. j < n \<Longrightarrow> lh_block L' j = lh_block ?L j" using cs by auto
  have "inj_on (lh_block L') {..<n} = inj_on (lh_block ?L) {..<n}" "lh_block L' ` {..<n} = lh_block ?L ` {..<n}"
    using ag by (auto intro!: inj_on_cong image_cong)
  then have inj: "inj_on (lh_block L') {..<nat (lh_n L')}"
    using cs assms(6) unfolding log_wf_def nn nat_int
    by (elim disjE) (simp_all add: lessThan_Suc)
  have n': "0 \<le> lh_n L'" "lh_n L' \<le> lh_n ?L + 1" by (simp_all add: L'_def nn)
  have g': "lgeo L' = ?g" "log_dev L' = of_nat d" "log_size L' = log_size ?L"
    using assms(5) by (simp_all add: L'_def lgeo_def)
  have home: "home_ok (bio_env s) ?g (of_nat d, lh_block L' j)" if "j < nat (lh_n L')" for j
  proof -
    have "lh_block L' j \<in> insert bno (lh_block ?L ` {..<n})" using that blocks by blast
    then show ?thesis using assms(5,6,8) by (auto simp: log_wf_def nn)
  qed
  have wf: "log_wf (bio_env s) L'"
    using assms(6,10,11) n' inj home unfolding log_wf_def g' by auto
  have lg: "logged L' = insert (of_nat d, bno) (logged ?L)"
    using arg_cong [OF blocks, of "\<lambda>B. Pair (of_nat d :: u32) ` B"] g'(2) assms(5)
    unfolding logged_def nn nat_int by (simp add: image_image)
  have "log_flag L' = log_flag ?L" "outstanding L' = outstanding ?L" by (simp_all add: L'_def)
  then show ?thesis using that w wf lg g' n'(2) by blast
qed

section \<open>Recovery\<close>

text \<open>
  \<open>recoverable e g F M\<close>: the card \<open>M\<close> stands for the file system contents \<open>F\<close>, either because no
  transaction is committed and the home blocks hold \<open>F\<close>, or because installing the committed
  transaction yields \<open>F\<close>.
\<close>

definition recoverable :: "'a bio_env \<Rightarrow> lgeo \<Rightarrow> (key \<Rightarrow> bytes) \<Rightarrow> (u32 \<Rightarrow> bytes) \<Rightarrow> bool" where
  "recoverable e g F M \<longleftrightarrow> (\<exists>n bs. n \<le> LOGSIZE \<and> int n < snd (snd g) \<and>
     (\<forall>i<n. home_ok e g (fst g, bs i)) \<and> inj_on bs {..<n} \<and> committed e g n bs F M)"

lemma at_rest_recoverable: "log_geom e g \<Longrightarrow> at_rest e g F M \<Longrightarrow> recoverable e g F M"
  unfolding recoverable_def
  by (rule exI [of _ 0]) (auto simp: at_rest_def committed_def log_geom_def)

lemma committed_recoverable:
  "log_wf e L \<Longrightarrow> committed e (lgeo L) (nat (lh_n L)) (lh_block L) F M \<Longrightarrow> recoverable e (lgeo L) F M"
  unfolding recoverable_def log_wf_def
  by (rule exI [of _ "nat (lh_n L)"], rule exI [of _ "lh_block L"]) (auto simp: lgeo_def)

lemma committed_cong:
  assumes "\<And>i. i < n \<Longrightarrow> bs i = bs' i"
  shows "committed e g n bs F = committed e g n bs' F"
proof -
  have "(\<lambda>i. (fst g, bs i)) ` {..<n} = (\<lambda>i. (fst g, bs' i)) ` {..<n}"
    using assms by (intro image_cong) auto
  with assms show ?thesis by (simp add: fun_eq_iff committed_def cong: conj_cong)
qed

lemma read_head_loop:
  assumes "n \<le> LOGSIZE"
  shows "kfold (\<lambda>i s. if i \<ge> LOGSIZE then Inl (Fault ''lh.block'')
      else Inr (log_upd d (\<lambda>L. L\<lparr>lh_block := (lh_block L)(i := get32 lh (4 + 4 * i))\<rparr>) s)) [0..<n] s =
    Inr (log_upd d (\<lambda>L. L\<lparr>lh_block := (\<lambda>i. if i < n then get32 lh (4 + 4 * i) else lh_block L i)\<rparr>) s)"
  using assms
proof (induction n)
  case (Suc n)
  then show ?case
    by (simp add: kfold_append log_upd_def)
      (auto simp: fun_eq_iff intro!: arg_cong [where f = "\<lambda>f. klog_update f _"] log.fold_congs)
qed (simp add: log_upd_def)

lemma read_head_ok:
  fixes s :: "'a logst_scheme" and d :: nat
  defines "e \<equiv> bio_env s" and "g \<equiv> lgeo (klog s d)"
  assumes "log_on s d" and "bio_inv s" and "bio_lock s = (\<lambda>_. None)" and "log_geom e g"
    and "bio_dirty s = {}" and "head_n e g (medium (sdcard s)) = int n" and "n \<le> LOGSIZE"
  obtains t f where "read_head d s = Inr t" and "bio_inv t" and "bio_env t = bio_env (log_upd d f s)"
    and "bio_lock t = (\<lambda>_. None)" and "bio_dirty t = {}" and "medium (sdcard t) = medium (sdcard s)"
    and "writes (sdcard t) = writes (sdcard s)"
    and "\<And>L. lh_n (f L) = int n" and "\<And>L. lgeo (f L) = lgeo L" and "\<And>L. log_flag (f L) = log_flag L"
    and "\<And>L i. i < n \<Longrightarrow> lh_block (f L) i = head_block e g (medium (sdcard s)) i"
    and "\<And>L. f L = L\<lparr>lh_n := lh_n (f L), lh_block := lh_block (f L)\<rparr>"
proof -
  let ?k = "logkey g 0"
  have ok: "blk_ok e ?k" using assms(6) by (auto simp: log_geom_def)
  have k: "fst ?k = log_dev (klog s d)" "snd ?k = word_of_int (log_start (klog s d))"
    by (simp_all add: logkey_def g_def lgeo_def)
  have cd: "card (bio_dirty s) < NBUF" using assms(7) by (simp add: NBUF_def)
  obtain b s1 where 1: "bread (fst ?k) (snd ?k) s = Inr (b, s1)" "bio_inv s1" "bio_env s1 = e"
      "bio_lock s1 = [b \<mapsto> ?k]" "bio_dirty s1 = {}" "bio_view s1 = bio_view s" "kdisk s1 = kdisk s"
      "writes (sdcard s1) = writes (sdcard s)" "clip BSIZE (b_data (bufs s1 b)) = bio_view s ?k"
      "?k \<in> bio_dirty s1 \<or> bio_view s1 ?k = kdisk s1 ?k"
    using bc.read_block [OF assms(4,5) ok [unfolded e_def] cd] assms(7) unfolding e_def by metis
  have vk: "clip BSIZE (b_data (bufs s1 b)) = blk e (medium (sdcard s)) ?k"
    using 1(5,6,7,9,10) by (simp add: kdisk_blk e_def)
  have hb: "get32 (b_data (bufs s1 b)) (4 + 4 * i) = head_block e g (medium (sdcard s)) i" if "i < n" for i
  proof -
    have "4 + 4 * i + 4 \<le> BSIZE" using that assms(9) by (simp add: LOGSIZE_def size_defs)
    then show ?thesis by (simp add: head_block_def get_le_clip flip: vk)
  qed
  have hn: "sint (get32 (b_data (bufs s1 b)) 0) = int n"
    using assms(8) by (simp add: head_n_def get_le_clip size_defs flip: vk)
  let ?f = "\<lambda>L. L\<lparr>lh_n := int n, lh_block := (\<lambda>i. if i < n then get32 (b_data (bufs s1 b)) (4 + 4 * i) else lh_block L i)\<rparr>"
  let ?u = "log_upd d ?f s1"
  have u: "bio_inv ?u" "bio_lock ?u = [b \<mapsto> ?k]" "?k \<in> bio_dirty ?u \<or> bio_view ?u ?k = kdisk ?u ?k"
    using 1 by simp_all
  obtain t where t: "brelse b ?u = Inr t" "bio_inv t" "bio_env t = bio_env ?u" "bio_lock t = (\<lambda>_. None)"
      "bio_dirty t = bio_dirty ?u" "kdisk t = kdisk ?u" "writes (sdcard t) = writes (sdcard ?u)"
    by (rule bc.release_block [OF u], rule that)
  have eq: "log_upd d (\<lambda>L. L\<lparr>lh_block := (\<lambda>i. if i < n then get32 lh (4 + 4 * i) else lh_block L i)\<rparr>)
      (log_upd d (\<lambda>L. L\<lparr>lh_n := int n\<rparr>) s1) =
      log_upd d (\<lambda>L. L\<lparr>lh_n := int n, lh_block := (\<lambda>i. if i < n then get32 lh (4 + 4 * i) else lh_block L i)\<rparr>) s1" for lh
    by (simp add: log_upd_def cong: if_cong)
  have "read_head d s = Inr t"
    using assms(3,9) 1(1) t(1) unfolding k
    by (simp add: read_head_def hn Let_def read_head_loop eq)
  then show ?thesis
  proof (rule that [OF _ t(2) _ t(4), of ?f])
    show "bio_env t = bio_env (log_upd d ?f s)"
      using t(3) more_log_upd [of s1 s] 1(3) unfolding e_def by simp
    show "medium (sdcard t) = medium (sdcard s)"
      using t(7) 1(8) base_env [OF t(3)] base_env [of s1 s] 1(3) by (simp add: medium_def e_def)
  qed (use t 1 hb in \<open>auto simp: lgeo_def\<close>)
qed

lemma trace_same:
  "P (medium (sdcard s)) \<Longrightarrow> base (sdcard s') = base (sdcard s) \<Longrightarrow> writes (sdcard s') = writes (sdcard s) \<Longrightarrow>
   trace P s s'"
  by (auto simp: trace_def replay_def)

lemma recoverable_log_upd [simp]: "recoverable (bio_env (log_upd d f s)) = recoverable (bio_env s)"
  by (simp add: fun_eq_iff recoverable_def)

lemma recover_one_ok:
  fixes s :: "'a logst_scheme" and d :: nat
  defines "e \<equiv> bio_env s" and "g \<equiv> lgeo (klog s d)"
  assumes "log_on s d" and "bio_inv s" and "bio_lock s = (\<lambda>_. None)" and "log_geom e g"
    and "bio_dirty s = {}" and "recoverable e g F (medium (sdcard s))"
  obtains s' f where "recover_one d s = Inr s'" and "bio_inv s'" and "klog s' = (klog s)(d := f (klog s d))"
    and "\<And>L. f L = L\<lparr>lh_n := 0, lh_block := lh_block (f L)\<rparr>"
    and "blk_ok (bio_env s') = blk_ok e" and "key_sector (bio_env s') = key_sector e" and "sb s' = sb s"
    and "bio_lock s' = (\<lambda>_. None)" and "bio_dirty s' = {}"
    and "\<And>k. home_ok e g k \<Longrightarrow> kdisk s' k = F k \<and> bio_view s' k = F k"
    and "trace (recoverable e g F) s s'" and "at_rest e g F (medium (sdcard s'))"
proof -
  obtain n bs where c: "n \<le> LOGSIZE" "int n < snd (snd g)" "\<forall>i<n. home_ok e g (fst g, bs i)"
      "inj_on bs {..<n}" "committed e g n bs F (medium (sdcard s))"
    using assms(8) unfolding recoverable_def by blast
  have hn: "head_n e g (medium (sdcard s)) = int n" using c(5) by (simp add: committed_def)
  obtain t f where t: "read_head d s = Inr t" "bio_inv t" "bio_env t = bio_env (log_upd d f s)"
      "bio_lock t = (\<lambda>_. None)" "bio_dirty t = {}" "medium (sdcard t) = medium (sdcard s)"
      "writes (sdcard t) = writes (sdcard s)" and f: "\<And>L. lh_n (f L) = int n" "\<And>L. lgeo (f L) = lgeo L"
      "\<And>L. log_flag (f L) = log_flag L" "\<And>L i. i < n \<Longrightarrow> lh_block (f L) i = head_block e g (medium (sdcard s)) i"
      "\<And>L. f L = L\<lparr>lh_n := lh_n (f L), lh_block := lh_block (f L)\<rparr>"
    by (rule read_head_ok [of s d n, folded e_def g_def, OF assms(3-7) hn c(1)], rule that)
  have kt: "klog t = (klog s)(d := f (klog s d))" using klog_env [OF t(3)] by simp
  let ?L = "f (klog s d)"
  have ktd: "klog t d = ?L" and gL: "lgeo ?L = g" by (simp_all add: kt f(2) g_def)
  have dv: "fst g = log_dev ?L" "snd (snd g) = log_size ?L" using gL by (auto simp: lgeo_def)
  have et: "home_ok (bio_env t) = home_ok e" "log_geom (bio_env t) = log_geom e"
      "committed (bio_env t) = committed e" "blk_ok (bio_env t) = blk_ok e"
      "key_sector (bio_env t) = key_sector e" "at_rest (bio_env t) = at_rest e"
      "recoverable (bio_env t) = recoverable e"
    by (simp_all add: t(3) e_def)
  have bs: "lh_block ?L i = bs i" if "i < n" for i
    using c(5) f(4) that by (simp add: committed_def)
  have "inj_on (lh_block ?L) {..<n}" using c(4) bs by (auto simp: inj_on_def)
  then have wf: "log_wf (bio_env t) ?L"
    using c bs assms(6) by (auto simp: log_wf_def f(1) et gL dv)
  have on: "log_on t d" using assms(3) by (simp add: log_on_def kt f(3))
  have nd: "logkey g i \<notin> bio_dirty t" "card (bio_dirty t) + 1 < NBUF" for i
    by (simp_all add: t(5) NBUF_def)
  have cm: "committed e g n (lh_block ?L) F (medium (sdcard t))"
    using c(5) committed_cong [of n "lh_block ?L" bs e g F] bs by (simp add: t(6))
  obtain u where u: "install_trans d t = Inr u" "bio_inv u" "bio_env u = bio_env t" "bio_lock u = (\<lambda>_. None)"
      "bio_dirty u = {}" "\<And>k. home_ok e g k \<Longrightarrow> kdisk u k = F k" "trace (committed e g n (lh_block ?L) F) t u"
    using install_trans_ok [of t d F, unfolded ktd gL f(1) et nat_int t(5) empty_Diff,
        OF on t(2,4) wf [unfolded et] nd [unfolded t(5)] cm] by blast
  have ku: "klog u = klog t" using u(3) by (rule klog_env)
  have onu: "log_on u d" using on by (simp add: log_on_def ku)
  obtain s' where s': "write_head d (log_upd d (\<lambda>L. L\<lparr>lh_n := 0\<rparr>) u) = Inr s'" "bio_inv s'"
      "klog s' = (klog t)(d := ?L\<lparr>lh_n := 0\<rparr>)" "blk_ok (bio_env s') = blk_ok e"
      "key_sector (bio_env s') = key_sector e" "sb s' = sb u" "bio_lock s' = (\<lambda>_. None)" "bio_dirty s' = {}"
      "\<And>k. home_ok e g k \<Longrightarrow> kdisk s' k = F k \<and> bio_view s' k = F k"
      "trace (\<lambda>M. committed e g n (lh_block ?L) F M \<or> at_rest e g F M) u s'" "at_rest e g F (medium (sdcard s'))"
    by (rule clear_head_ok [of u d F "committed e g n (lh_block ?L) F", unfolded ku ktd gL u(3) et,
        OF onu u(2,4) assms(6) u(5,6) trace_end [OF u(7)]], assumption, rule that)
  have rc: "recoverable e g F M" if "committed e g n (lh_block ?L) F M" for M
    using committed_recoverable [OF wf] that by (simp add: f(1) gL et)
  have ra: "recoverable e g F M" if "at_rest e g F M" for M
    using at_rest_recoverable [OF assms(6) that] .
  have "trace (recoverable e g F) s t"
    using assms(8) t(7) base_env [OF t(3)] by (intro trace_same) simp_all
  moreover have "trace (recoverable e g F) t u" using u(7) rc by (rule trace_mono)
  moreover have "trace (recoverable e g F) u s'" using s'(10) rc ra by (auto elim!: trace_mono)
  ultimately have tr: "trace (recoverable e g F) s s'" by (blast intro: trace_trans)
  have rec: "recover_one d s = Inr s'" using t(1) u(1) s'(1) by (simp add: recover_one_def)
  have kl: "klog s' = (klog s)(d := (\<lambda>L. (f L)\<lparr>lh_n := 0\<rparr>) (klog s d))" using s'(3) kt by simp
  have fe: "(\<lambda>L. (f L)\<lparr>lh_n := 0\<rparr>) L = L\<lparr>lh_n := 0, lh_block := lh_block ((\<lambda>L. (f L)\<lparr>lh_n := 0\<rparr>) L)\<rparr>" for L
    using arg_cong [OF f(5) [of L], where f = "lh_n_update (\<lambda>_. 0)"] by simp
  have sb: "sb s' = sb s" using s'(6) u(3) t(3) by (simp add: bio_env_def)
  show ?thesis by (rule that [OF rec s'(2) kl fe s'(4,5) sb s'(7-9) tr s'(11)])
qed

lemma recover_one_off:
  "\<not> log_on s i \<Longrightarrow> recover_one i s = Inr (log_upd i (\<lambda>L. L\<lparr>lh_n := 0\<rparr>) s)"
  by (simp add: recover_one_def read_head_def install_trans_def write_head_def log_on_def)

lemma recover_off:
  assumes "\<And>i. i \<in> set xs \<Longrightarrow> \<not> log_on s i"
  shows "\<exists>s'. kfold recover_one xs s = Inr s' \<and> bio_inv s' = bio_inv s \<and> bio_lock s' = bio_lock s \<and>
    bio_dirty s' = bio_dirty s \<and> bio_view s' = bio_view s \<and> kdisk s' = kdisk s \<and> sdcard s' = sdcard s \<and>
    blk_ok (bio_env s') = blk_ok (bio_env s) \<and> key_sector (bio_env s') = key_sector (bio_env s) \<and>
    sb s' = sb s \<and> (\<forall>j. j \<notin> set xs \<longrightarrow> klog s' j = klog s j) \<and>
    (\<forall>j. log_flag (klog s' j) = log_flag (klog s j))"
  using assms
proof (induction xs arbitrary: s)
  case (Cons i xs)
  let ?t = "log_upd i (\<lambda>L. L\<lparr>lh_n := 0\<rparr>) s"
  have off: "\<not> log_on ?t j" if "j \<in> set xs" for j
    using Cons.prems [of j] that by (auto simp: log_on_def)
  have "recover_one i s = Inr ?t" using Cons.prems by (simp add: recover_one_off)
  with Cons.IH [of ?t, OF off] show ?case by (auto simp: fun_upd_apply)
qed simp

lemma env_same:
  assumes "blk_ok e' = blk_ok e" and "key_sector e' = key_sector e"
  shows "home_ok e' = home_ok e" and "log_geom e' = log_geom e" and "at_rest e' = at_rest e"
    and "committed e' = committed e" and "recoverable e' = recoverable e"
proof -
  show h: "home_ok e' = home_ok e" "log_geom e' = log_geom e"
    by (intro ext, simp add: home_ok_def log_geom_def assms(1))+
  show a: "at_rest e' = at_rest e" "committed e' = committed e"
    by (intro ext, simp add: at_rest_def committed_def head_n_def head_block_def blk_def h assms(2))+
  show "recoverable e' = recoverable e"
    by (intro ext) (simp add: recoverable_def h a)
qed

text \<open>The superblock describes the log region \<open>g\<close> of device \<open>d\<close>.\<close>

definition boot_ok :: "'a logst_scheme \<Rightarrow> nat \<Rightarrow> lgeo \<Rightarrow> bool" where
  "boot_ok s d g \<longleftrightarrow> d < NLOG \<and> 4 * (1 + LOGSIZE) < unat (sb_blocksize (sb s d)) \<and>
     (case fs_info (sb s d) of None \<Rightarrow> False
      | Some v \<Rightarrow> g = (of_nat d, sint (v6_logstart v), sint (v6_nlog v)))"

lemma initlog_ok:
  fixes s :: "'a logst_scheme"
  assumes "boot_ok s d g" and "bio_inv s" and "bio_lock s = (\<lambda>_. None)" and "bio_dirty s = {}"
    and "\<And>i. log_flag (klog s i) = 0" and "log_geom (bio_env s) g"
    and "recoverable (bio_env s) g F (medium (sdcard s))"
  obtains s' where "initlog d s = Inr s'" and "bio_inv s'" and "bio_lock s' = (\<lambda>_. None)" and "bio_dirty s' = {}"
    and "blk_ok (bio_env s') = blk_ok (bio_env s)" and "key_sector (bio_env s') = key_sector (bio_env s)"
    and "sb s' = sb s" and "\<And>k. home_ok (bio_env s) g k \<Longrightarrow> kdisk s' k = F k \<and> bio_view s' k = F k"
    and "trace (recoverable (bio_env s) g F) s s'" and "at_rest (bio_env s) g F (medium (sdcard s'))"
    and "log_on s' d" and "lgeo (klog s' d) = g" and "lh_n (klog s' d) = 0"
proof -
  obtain v where v: "fs_info (sb s d) = Some v" and g: "g = (of_nat d, sint (v6_logstart v), sint (v6_nlog v))"
    and d: "d < NLOG" and bs: "4 * (1 + LOGSIZE) < unat (sb_blocksize (sb s d))"
    using assms(1) by (auto simp: boot_ok_def split: option.splits)
  define c where "c = (\<lambda>L. L\<lparr>log_start := sint (v6_logstart v), log_size := sint (v6_nlog v),
      log_dev := of_nat d, log_flag := LOGENABLED\<rparr> :: log)"
  let ?s = "log_upd d c s"
  have init: "initlog d s = kfold recover_one [0..<NLOG] ?s"
    using v d bs by (simp add: initlog_def recover_from_log_def c_def)
  have split: "[0..<NLOG] = [0..<d] @ d # [Suc d..<NLOG]"
    using d upt_add_eq_append [of 0 d "NLOG - d"] by (simp add: upt_conv_Cons)
  have off: "\<not> log_on ?s i" if "i \<noteq> d" for i using that assms(5) by (simp add: log_on_def)
  obtain t where t: "kfold recover_one [0..<d] ?s = Inr t" "bio_inv t" "bio_lock t = (\<lambda>_. None)"
      "bio_dirty t = {}" "sdcard t = sdcard s" "blk_ok (bio_env t) = blk_ok (bio_env s)"
      "key_sector (bio_env t) = key_sector (bio_env s)" "sb t = sb s"
      "\<forall>j. j \<notin> set [0..<d] \<longrightarrow> klog t j = klog ?s j" "\<forall>j. log_flag (klog t j) = log_flag (klog ?s j)"
    using recover_off [of "[0..<d]" ?s] off assms(2-4) by auto
  note et = env_same [OF t(6,7)]
  have kt: "klog t d = c (klog s d)" using t(9) by simp
  have gt: "lgeo (klog t d) = g" by (simp add: kt c_def lgeo_def g)
  have on: "log_on t d" using d by (simp add: log_on_def kt c_def LOGENABLED_def)
  obtain u f where u: "recover_one d t = Inr u" "bio_inv u" "klog u = (klog t)(d := f (klog t d))"
      "\<And>L. f L = L\<lparr>lh_n := 0, lh_block := lh_block (f L)\<rparr>"
      "blk_ok (bio_env u) = blk_ok (bio_env t)" "key_sector (bio_env u) = key_sector (bio_env t)"
      "sb u = sb t" "bio_lock u = (\<lambda>_. None)" "bio_dirty u = {}"
      "\<And>k. home_ok (bio_env t) g k \<Longrightarrow> kdisk u k = F k \<and> bio_view u k = F k"
      "trace (recoverable (bio_env t) g F) t u" "at_rest (bio_env t) g F (medium (sdcard u))"
    by (rule recover_one_ok [of t d F, unfolded gt, OF on t(2,3) _ t(4)])
      (use assms(6,7) in \<open>auto simp: et t(5)\<close>)
  have fu: "lgeo (f L) = lgeo L \<and> log_flag (f L) = log_flag L \<and> lh_n (f L) = 0" for L
    by (subst (1 2 3) u(4)) (simp add: lgeo_def)
  have "\<not> log_on u i" if "i \<noteq> d" for i
    using that t(10) off by (simp add: log_on_def u(3))
  then obtain s' where s': "kfold recover_one [Suc d..<NLOG] u = Inr s'" "bio_inv s'" "bio_lock s' = (\<lambda>_. None)"
      "bio_dirty s' = {}" "bio_view s' = bio_view u" "kdisk s' = kdisk u" "sdcard s' = sdcard u"
      "blk_ok (bio_env s') = blk_ok (bio_env u)" "key_sector (bio_env s') = key_sector (bio_env u)" "sb s' = sb u"
      "\<forall>j. j \<notin> set [Suc d..<NLOG] \<longrightarrow> klog s' j = klog u j"
    using recover_off [of "[Suc d..<NLOG]" u] u(2,8,9) by auto
  have ks: "klog s' d = f (klog t d)" using s'(11) by (simp add: u(3))
  have tr: "trace (recoverable (bio_env s) g F) s s'"
    using u(11) by (simp add: trace_def t(5) s'(7) et)
  have "initlog d s = Inr s'" by (simp add: init split kfold_append t(1) u(1) s'(1))
  then show ?thesis
    by (rule that [OF _ s'(2-4) _ _ _ _ tr])
      (use s' u t gt on fu d in \<open>auto simp: et ks log_on_def\<close>)
qed

section \<open>Crash safety\<close>

text \<open>
  The kernel after a power failure that let the first \<open>j\<close> sector writes reach the card: memory is
  lost, the buffer cache and the logs start as \<open>binit\<close> and the zeroed \<open>log\<close> array leave them, and
  the superblocks are those of the card's partitions.
\<close>

definition reboot :: "nat \<Rightarrow> 'a logst_scheme \<Rightarrow> 'a logst_scheme" where
  "reboot j s = s\<lparr>sdcard := power_cut j (sdcard s), devque := [],
     bufs := \<lambda>_. \<lparr>b_flags = 0, b_dev = 0, b_blockno = 0, b_data = \<lambda>_. 0\<rparr>, lru := [0..<NBUF],
     klog := \<lambda>_. log0\<rparr>"

lemma reboot_ok:
  assumes "bio_inv s"
  shows "bio_inv (reboot j s)" and "bio_lock (reboot j s) = (\<lambda>_. None)" and "bio_dirty (reboot j s) = {}"
    and "log_flag (klog (reboot j s) i) = 0" and "blk_ok (bio_env (reboot j s)) = blk_ok (bio_env s)"
    and "key_sector (bio_env (reboot j s)) = key_sector (bio_env s)" and "sb (reboot j s) = sb s"
    and "sdcard (reboot j s) = power_cut j (sdcard s)"
proof -
  have "parts_disjoint s" using assms by (simp add: bio_inv_def)
  then show "bio_inv (reboot j s)"
    by (simp add: bio_inv_def parts_disjoint_def reboot_def bkey_def atLeast_upt)
  show "blk_ok (bio_env (reboot j s)) = blk_ok (bio_env s)"
    "key_sector (bio_env (reboot j s)) = key_sector (bio_env s)"
    by (simp_all add: fun_eq_iff blk_ok_def key_sector_def bio_env_def reboot_def power_cut_def)
qed (simp_all add: reboot_def bio_lock_def bio_dirty_def log0_def fun_eq_iff)

lemma initlog_reboot:
  fixes s :: "'a logst_scheme"
  assumes "boot_ok s d g" and "bio_inv s" and "log_geom (bio_env s) g"
    and "recoverable (bio_env s) g F (medium (power_cut j (sdcard s)))"
  obtains t where "initlog d (reboot j s) = Inr t" and "bio_inv t"
    and "\<And>k. home_ok (bio_env s) g k \<Longrightarrow> kdisk t k = F k \<and> bio_view t k = F k"
    and "at_rest (bio_env s) g F (medium (sdcard t))"
proof -
  note r = reboot_ok [OF assms(2), of j]
  note es = env_same [OF r(5,6)]
  have b: "boot_ok (reboot j s) d g" using assms(1) by (simp add: boot_ok_def r(7))
  have rc: "recoverable (bio_env (reboot j s)) g F (medium (sdcard (reboot j s)))"
    using assms(4) by (simp add: r(8) es)
  have lg: "log_geom (bio_env (reboot j s)) g" using assms(3) by (simp add: es)
  from initlog_ok [OF b r(1-3,4) lg rc, unfolded es] that show ?thesis by blast
qed

text \<open>C13: \<open>log_write\<close> of a locked buffer records its block exactly once: a block that is already
  in the log is absorbed, a new one is appended. The log stays well formed, the dirty buffers
  remain exactly the logged blocks, and nothing is written to the card.\<close>

theorem log_write_correct:
  fixes s :: "'a logst_scheme"
  assumes "log_flag (klog s d) = LOGENABLED" and "d < NLOG" and "bio_inv s"
    and "bio_lock s b = Some (of_nat d, bno)" and "log_dev (klog s d) = of_nat d"
    and "log_wf (bio_env s) (klog s d)" and "bio_dirty s = logged (klog s d)"
    and "home_ok (bio_env s) (lgeo (klog s d)) (of_nat d, bno)"
    and "1 \<le> outstanding (klog s d)" and "lh_n (klog s d) < int LOGSIZE"
    and "lh_n (klog s d) < log_size (klog s d) - 1"
  shows "\<exists>s'. log_write b s = Inr s' \<and> bio_inv s' \<and> log_wf (bio_env s') (klog s' d) \<and>
           logged (klog s' d) = insert (of_nat d, bno) (logged (klog s d)) \<and>
           bio_dirty s' = logged (klog s' d) \<and> bio_view s' = bio_view s \<and> kdisk s' = kdisk s \<and>
           bio_lock s' = bio_lock s \<and> writes (sdcard s') = writes (sdcard s)"
proof (rule log_write_ok [OF assms])
  fix L'
  let ?t = "log_upd d (\<lambda>_. L') s"
  let ?s = "buf_dirty b ?t"
  assume w: "log_write b s = Inr ?s" and wf: "log_wf (bio_env s) L'"
    and lg: "logged L' = insert (of_nat d, bno) (logged (klog s d))"
  have inv: "bio_inv ?t" and lk: "bio_lock ?t b = Some (of_nat d, bno)" using assms(3,4) by simp_all
  note p = bc.pin_law [OF inv lk]
  have k': "klog ?s d = L'" by (simp add: klog_io(5))
  have "bio_env ?s = bio_env ?t" using p by blast
  then have "log_wf (bio_env ?s) = log_wf (bio_env s)" by (simp add: fun_eq_iff log_wf_def)
  then show ?thesis using w p wf lg assms(7) by (auto simp: k')
qed

text \<open>C1: Commit is atomic across a power failure. Let a transaction be ready to commit and the
  power fail after any number of sector writes of \<open>commit\<close>, in the middle of a block included:
  the recovery at the next boot (\<open>initlog\<close>) succeeds and every home block holds what it held on
  the card before the transaction, or every home block holds what the transaction wrote; with all
  writes done it is the latter.\<close>

theorem commit_crash_safe:
  fixes s :: "'a logst_scheme"
  assumes "commit_ready s d" and "0 < lh_n (klog s d)" and "boot_ok s d (lgeo (klog s d))"
  shows "\<exists>s'. commit d s = Inr s' \<and>
     (\<forall>k. home_ok (bio_env s) (lgeo (klog s d)) k \<longrightarrow> kdisk s' k = bio_view s k \<and> bio_view s' k = bio_view s k) \<and>
     (\<forall>j. length (writes (sdcard s)) \<le> j \<and> j \<le> length (writes (sdcard s')) \<longrightarrow>
        (\<exists>t. initlog d (reboot j s') = Inr t \<and>
           ((\<forall>k. home_ok (bio_env s) (lgeo (klog s d)) k \<longrightarrow> kdisk t k = kdisk s k) \<or>
            (\<forall>k. home_ok (bio_env s) (lgeo (klog s d)) k \<longrightarrow> kdisk t k = bio_view s k))))"
proof -
  let ?g = "lgeo (klog s d)" and ?e = "bio_env s"
  note pre = commit_ready_pre [OF assms(1)]
  obtain s' where s': "commit d s = Inr s'" "bio_inv s'" "blk_ok (bio_env s') = blk_ok ?e"
      "key_sector (bio_env s') = key_sector ?e" "sb s' = sb s"
      "\<And>k. home_ok ?e ?g k \<Longrightarrow> kdisk s' k = bio_view s k \<and> bio_view s' k = bio_view s k"
      "trace (\<lambda>M. at_rest ?e ?g (kdisk s) M \<or>
         committed ?e ?g (nat (lh_n (klog s d))) (lh_block (klog s d)) (bio_view s) M \<or>
         at_rest ?e ?g (bio_view s) M) s s'"
    by (rule commit_ok [OF assms(1,2)], rule that)
  note es = env_same [OF s'(3,4)]
  have b: "boot_ok s' d ?g" using assms(3) by (simp add: boot_ok_def s'(5))
  have "\<exists>t. initlog d (reboot j s') = Inr t \<and>
      ((\<forall>k. home_ok ?e ?g k \<longrightarrow> kdisk t k = kdisk s k) \<or> (\<forall>k. home_ok ?e ?g k \<longrightarrow> kdisk t k = bio_view s k))"
    if "length (writes (sdcard s)) \<le> j" "j \<le> length (writes (sdcard s'))" for j
  proof -
    let ?M = "medium (power_cut j (sdcard s'))"
    note r = at_rest_recoverable [OF pre(9), of "kdisk s" ?M]
      at_rest_recoverable [OF pre(9), of "bio_view s" ?M] committed_recoverable [OF pre(4), of "bio_view s" ?M]
    have "recoverable ?e ?g (kdisk s) ?M \<or> recoverable ?e ?g (bio_view s) ?M"
      using trace_cut [OF s'(7) that] by (elim disjE) (simp_all add: r)
    then obtain F where F: "F = kdisk s \<or> F = bio_view s"
      and r: "recoverable (bio_env s') ?g F (medium (power_cut j (sdcard s')))"
      unfolding es by blast
    have lg: "log_geom (bio_env s') ?g" using pre(9) by (simp add: es)
    obtain t where t: "initlog d (reboot j s') = Inr t" "bio_inv t"
        "\<And>k. home_ok ?e ?g k \<Longrightarrow> kdisk t k = F k \<and> bio_view t k = F k"
        "at_rest ?e ?g F (medium (sdcard t))"
      by (rule initlog_reboot [OF b s'(2) lg r, unfolded es], rule that)
    show ?thesis
      by (rule exI [of _ t], rule conjI [OF t(1)], rule disjE [OF F]) (use t(3) in blast)+
  qed
  with s' show ?thesis by blast
qed

text \<open>C2: Recovery itself survives power failures. From a card that stands for the contents \<open>F\<close>
  (no transaction, or one committed and installed in part), \<open>initlog\<close> succeeds, brings every home
  block to \<open>F\<close> and clears the log; and after a power failure at any sector write of the recovery
  the card still stands for \<open>F\<close>, so that the next \<open>initlog\<close> brings the home blocks to \<open>F\<close>.\<close>

theorem recovery_crash_safe:
  fixes s :: "'a logst_scheme"
  assumes "boot_ok s d g" and "bio_inv s" and "bio_lock s = (\<lambda>_. None)" and "bio_dirty s = {}"
    and "\<forall>i. log_flag (klog s i) = 0" and "log_geom (bio_env s) g"
    and "recoverable (bio_env s) g F (medium (sdcard s))"
  shows "\<exists>s'. initlog d s = Inr s' \<and> head_n (bio_env s) g (medium (sdcard s')) = 0 \<and>
     (\<forall>k. home_ok (bio_env s) g k \<longrightarrow> kdisk s' k = F k) \<and>
     (\<forall>j. length (writes (sdcard s)) \<le> j \<and> j \<le> length (writes (sdcard s')) \<longrightarrow>
        (\<exists>t. initlog d (reboot j s') = Inr t \<and> (\<forall>k. home_ok (bio_env s) g k \<longrightarrow> kdisk t k = F k)))"
proof -
  obtain s' where s': "initlog d s = Inr s'" "bio_inv s'" "blk_ok (bio_env s') = blk_ok (bio_env s)"
      "key_sector (bio_env s') = key_sector (bio_env s)" "sb s' = sb s"
      "\<And>k. home_ok (bio_env s) g k \<Longrightarrow> kdisk s' k = F k \<and> bio_view s' k = F k"
      "trace (recoverable (bio_env s) g F) s s'" "at_rest (bio_env s) g F (medium (sdcard s'))"
    by (rule initlog_ok [OF assms(1-4) assms(5) [rule_format] assms(6,7)], rule that)
  note es = env_same [OF s'(3,4)]
  have b: "boot_ok s' d g" using assms(1) by (simp add: boot_ok_def s'(5))
  have "\<exists>t. initlog d (reboot j s') = Inr t \<and> (\<forall>k. home_ok (bio_env s) g k \<longrightarrow> kdisk t k = F k)"
    if "length (writes (sdcard s)) \<le> j" "j \<le> length (writes (sdcard s'))" for j
  proof -
    note cut = trace_cut [OF s'(7) that]
    obtain t where t: "initlog d (reboot j s') = Inr t"
        "\<And>k. home_ok (bio_env s) g k \<Longrightarrow> kdisk t k = F k \<and> bio_view t k = F k"
      by (rule initlog_reboot [OF b s'(2), of F j, unfolded es, OF assms(6) cut], rule that)
    then show ?thesis by blast
  qed
  moreover have "head_n (bio_env s) g (medium (sdcard s')) = 0" using s'(8) by (simp add: at_rest_def)
  ultimately show ?thesis using s'(1,6) by blast
qed

section \<open>Concrete states\<close>

text \<open>
  A device with 200 blocks and a log of 130 blocks from block \<open>2\<close> on; buffer \<open>3\<close> holds block \<open>150\<close>,
  locked (\<open>logst1\<close>) or dirty and logged (\<open>logst2\<close>).
\<close>

definition logst1 :: logst where
  "logst1 = log_upd 1 (\<lambda>L. L\<lparr>outstanding := 1\<rparr>)
     (buf_upd 3 (\<lambda>B. B\<lparr>b_flags := B_BUSY OR B_VALID, b_data := (\<lambda>_. 0)(5 := 77)\<rparr>) (logst0 130))"

definition logst2 :: logst where
  "logst2 = log_upd 1 (\<lambda>L. L\<lparr>lh_n := 1, lh_block := (\<lambda>_. 150)\<rparr>)
     (buf_upd 3 (\<lambda>B. B\<lparr>b_flags := B_VALID OR B_DIRTY, b_data := (\<lambda>_. 0)(5 := 77)\<rparr>) (logst0 130))"

abbreviation wgeo :: lgeo where "wgeo \<equiv> (1, 2, 130)"

lemma env_logst:
  "blk_ok (bio_env (logst0 130)) (1, w) \<longleftrightarrow> unat w < 200"
  "bio_env (buf_upd i f s) = bio_env s"
  "blk_ok (bio_env logst1) = blk_ok (bio_env (logst0 130))" "blk_ok (bio_env logst2) = blk_ok (bio_env (logst0 130))"
  by (auto simp: blk_ok_def bio_env_def logst0_def logst1_def logst2_def buf_upd_def sb0_def size_defs
      iost2_def iost0_def fun_eq_iff key_sector_def)

lemma logkey_wgeo: "i < 130 \<Longrightarrow> logkey wgeo i = (1, of_nat (2 + i))" 
  by (simp add: logkey_def)

lemma geom_logst: "log_geom (bio_env (logst0 130)) wgeo"
proof -
  have "blk_ok (bio_env (logst0 130)) (logkey wgeo i)" if "i < 130" for i
  proof -
    have "unat (of_nat (2 + i) :: u32) = 2 + i" using that by (intro unat_of_nat_u32) simp
    with that show ?thesis unfolding logkey_wgeo [OF that] env_logst(1) by simp
  qed
  then show ?thesis by (simp add: log_geom_def)
qed

lemma home_logst: "home_ok (bio_env (logst0 130)) wgeo (1, 150)"
proof -
  have "(150 :: u32) \<noteq> of_nat (2 + i)" if "i < 130" for i
    using that of_nat_u32_eq_iff [of 150 "2 + i"] by simp
  then show ?thesis by (auto simp: home_ok_def env_logst logkey_wgeo simp del: of_nat_add)
qed

lemma bufs_logst:
  "bufs logst1 = (bufs iost2)(3 := \<lparr>b_flags = B_BUSY OR B_VALID, b_dev = 1, b_blockno = 150, b_data = (\<lambda>_. 0)(5 := 77)\<rparr>)"
  "bufs logst2 = (bufs iost2)(3 := \<lparr>b_flags = B_VALID OR B_DIRTY, b_dev = 1, b_blockno = 150, b_data = (\<lambda>_. 0)(5 := 77)\<rparr>)"
  "bufs (logst0 130) = (bufs iost2)(3 := \<lparr>b_flags = 0, b_dev = 1, b_blockno = 150, b_data = (\<lambda>_. 0)\<rparr>)"
  by (simp_all add: logst1_def logst2_def logst0_def buf_upd_def)

lemma rest_logst:
  "lru logst1 = [0..<NBUF]" "lru logst2 = [0..<NBUF]" "lru (logst0 130) = [0..<NBUF]"
  "devque logst1 = []" "devque logst2 = []" "devque (logst0 130) = []"
  "parts_disjoint logst1" "parts_disjoint logst2" "parts_disjoint (logst0 130)"
  by (auto simp: logst1_def logst2_def logst0_def buf_upd_def parts_disjoint_def sb0_def)

lemma bio_inv_logst: "bio_inv logst1" "bio_inv logst2" "bio_inv (logst0 130)"
  using env_logst(1) [of 150]
  by (simp_all add: bio_inv_def rest_logst bkey_def bufs_logst bufs_iost atLeast_upt bit_simps env_logst)

lemma bio_logst:
  "bio_lock logst1 = [3 \<mapsto> (1, 150)]" "bio_lock logst2 = (\<lambda>_. None)" "bio_lock (logst0 130) = (\<lambda>_. None)"
  "bio_dirty logst1 = {}" "bio_dirty logst2 = {(1, 150)}" "bio_dirty (logst0 130) = {}"
  by (auto simp: bio_lock_def bio_dirty_def bufs_logst bufs_iost bkey_def bit_simps NBUF_def fun_eq_iff)

lemma klog_logst:
  "klog logst1 (Suc 0) = log0\<lparr>log_start := 2, log_size := 130, log_dev := 1, log_flag := LOGENABLED, outstanding := 1\<rparr>"
  "klog logst2 (Suc 0) = log0\<lparr>log_start := 2, log_size := 130, log_dev := 1, log_flag := LOGENABLED, lh_n := 1,
     lh_block := (\<lambda>_. 150)\<rparr>"
  by (simp_all add: logst1_def logst2_def logst0_def buf_upd_def log0_def)

lemma lgeo_logst: "lgeo (klog logst1 (Suc 0)) = wgeo" "lgeo (klog logst2 (Suc 0)) = wgeo"
  by (simp_all add: klog_logst lgeo_def)

lemma env_logst_all:
  "home_ok (bio_env logst1) = home_ok (bio_env (logst0 130))" "home_ok (bio_env logst2) = home_ok (bio_env (logst0 130))"
  "log_geom (bio_env logst1) = log_geom (bio_env (logst0 130))" "log_geom (bio_env logst2) = log_geom (bio_env (logst0 130))"
  by (simp_all add: logst1_def logst2_def env_logst(2))

lemma blk_zero: "blk e (\<lambda>_ _. 0) k = (\<lambda>_. 0)"
  by (simp add: blk_def block_at_def clip_def fun_eq_iff)

lemma medium_logst: "medium (sdcard logst2) = (\<lambda>_ _. 0)" "medium (sdcard (logst0 130)) = (\<lambda>_ _. 0)"
  by (simp_all add: logst2_def logst0_def buf_upd_def iost2_def iost0_def medium_def replay_def)

lemma boot_logst: "boot_ok (logst0 130) 1 wgeo" "boot_ok logst2 (Suc 0) wgeo"
  by (simp_all add: boot_ok_def logst2_def logst0_def buf_upd_def NLOG_def LOGSIZE_def sb0_def)

theorem log_write_correct_witness:
  "\<exists>s'. log_write 3 logst1 = Inr s' \<and> logged (klog s' 1) = {(1, 150)} \<and> bio_dirty s' = {(1, 150)}"
proof -
  have e: "logged (klog logst1 (Suc 0)) = {}" by (simp add: logged_def klog_logst log0_def)
  have "\<exists>s'. log_write 3 logst1 = Inr s' \<and> bio_inv s' \<and> log_wf (bio_env s') (klog s' (Suc 0)) \<and>
      logged (klog s' (Suc 0)) = insert (of_nat (Suc 0), 150) (logged (klog logst1 (Suc 0))) \<and>
      bio_dirty s' = logged (klog s' (Suc 0)) \<and> bio_view s' = bio_view logst1 \<and> kdisk s' = kdisk logst1 \<and>
      bio_lock s' = bio_lock logst1 \<and> writes (sdcard s') = writes (sdcard logst1)"
  proof (rule log_write_correct)
    show "log_wf (bio_env logst1) (klog logst1 (Suc 0))"
      unfolding log_wf_def lgeo_logst env_logst_all using geom_logst by (simp add: klog_logst log0_def)
    show "home_ok (bio_env logst1) (lgeo (klog logst1 (Suc 0))) (of_nat (Suc 0), 150)"
      unfolding lgeo_logst env_logst_all using home_logst by simp
  qed (simp_all add: klog_logst NLOG_def bio_inv_logst bio_logst logged_def log0_def LOGSIZE_def)
  then show ?thesis by (auto simp: e)
qed

lemma commit_ready_logst2: "commit_ready logst2 (Suc 0)"
proof -
  have "log_wf (bio_env logst2) (klog logst2 (Suc 0))"
    unfolding log_wf_def lgeo_logst env_logst_all
    using geom_logst home_logst by (simp add: klog_logst log0_def LOGSIZE_def inj_on_def)
  moreover have "bio_dirty logst2 = logged (klog logst2 (Suc 0))"
    by (auto simp: bio_logst logged_def klog_logst log0_def)
  ultimately show ?thesis
    unfolding commit_ready_def lgeo_logst
    by (simp add: log_on_def NLOG_def klog_logst LOGENABLED_def bio_inv_logst bio_logst log0_def NBUF_def
        head_n_def blk_zero medium_logst)
qed

theorem commit_crash_safe_witness:
  "\<exists>s' t. commit 1 logst2 = Inr s' \<and> kdisk s' (1, 150) = bio_view logst2 (1, 150) \<and>
     initlog 1 (reboot 0 s') = Inr t \<and>
     (kdisk t (1, 150) = kdisk logst2 (1, 150) \<or> kdisk t (1, 150) = bio_view logst2 (1, 150))"
proof -
  have w: "writes (sdcard logst2) = []" by (simp add: logst2_def logst0_def buf_upd_def iost2_def iost0_def)
  have n: "0 < lh_n (klog logst2 (Suc 0))" by (simp only: klog_logst) simp
  have b: "boot_ok logst2 (Suc 0) (lgeo (klog logst2 (Suc 0)))" unfolding lgeo_logst by (rule boot_logst)
  have h: "home_ok (bio_env logst2) (lgeo (klog logst2 (Suc 0))) (1, 150)"
    unfolding lgeo_logst env_logst_all by (rule home_logst)
  from commit_crash_safe [OF commit_ready_logst2 n b] obtain s' where c: "commit (Suc 0) logst2 = Inr s'"
    and k: "\<forall>k. home_ok (bio_env logst2) (lgeo (klog logst2 (Suc 0))) k \<longrightarrow>
      kdisk s' k = bio_view logst2 k \<and> bio_view s' k = bio_view logst2 k"
    and j: "\<forall>j. length (writes (sdcard logst2)) \<le> j \<and> j \<le> length (writes (sdcard s')) \<longrightarrow>
      (\<exists>t. initlog (Suc 0) (reboot j s') = Inr t \<and>
        ((\<forall>k. home_ok (bio_env logst2) (lgeo (klog logst2 (Suc 0))) k \<longrightarrow> kdisk t k = kdisk logst2 k) \<or>
         (\<forall>k. home_ok (bio_env logst2) (lgeo (klog logst2 (Suc 0))) k \<longrightarrow> kdisk t k = bio_view logst2 k)))"
    by (elim exE conjE)
  from j [rule_format, of 0] w obtain t where t: "initlog (Suc 0) (reboot 0 s') = Inr t"
    "kdisk t (1, 150) = kdisk logst2 (1, 150) \<or> kdisk t (1, 150) = bio_view logst2 (1, 150)"
    using h by auto
  show ?thesis
    using c k [rule_format, OF h] t by (intro exI [of _ s'] exI [of _ t]) simp
qed

theorem recovery_crash_safe_witness:
  "\<exists>s' t. initlog 1 (reboot 0 (logst0 130)) = Inr s' \<and> initlog 1 (reboot 0 s') = Inr t \<and>
     kdisk t (1, 150) = (\<lambda>_. 0)"
proof -
  let ?s = "reboot 0 (logst0 130)"
  note r = reboot_ok [OF bio_inv_logst(3), of 0]
  note e = env_same [OF r(5,6)]
  have m: "medium (sdcard ?s) = (\<lambda>_ _. 0)" and w: "writes (sdcard ?s) = []"
    unfolding r(8) by (simp_all add: power_cut_def medium_def replay_def logst0_def iost2_def iost0_def)
  have b: "boot_ok ?s 1 wgeo" using boot_logst(1) by (simp add: boot_ok_def r(7))
  have "at_rest (bio_env (logst0 130)) wgeo (\<lambda>_ _. 0) (\<lambda>_ _. 0)"
    by (simp add: at_rest_def head_n_def blk_zero)
  then have "recoverable (bio_env ?s) wgeo (\<lambda>_ _. 0) (medium (sdcard ?s))"
    unfolding e m by (intro at_rest_recoverable geom_logst)
  from recovery_crash_safe [OF b r(1-3) _ _ this] geom_logst r(4)
  obtain s' where c: "initlog 1 ?s = Inr s'"
    and j: "\<forall>j. length (writes (sdcard ?s)) \<le> j \<and> j \<le> length (writes (sdcard s')) \<longrightarrow>
      (\<exists>t. initlog 1 (reboot j s') = Inr t \<and> (\<forall>k. home_ok (bio_env (logst0 130)) wgeo k \<longrightarrow> kdisk t k = (\<lambda>_. 0)))"
    unfolding e by blast
  from j [rule_format, of 0] w c home_logst show ?thesis by auto
qed

end
