(* ===== verification/Bits.thy ===== *)
theory Bits
  imports K_Prelude
begin

text \<open>
  The bit searches of \<open>inc/find_bits.h\<close> and \<open>kern/find_bits.c\<close>. Words keep their width; the counts
  \<open>num\<close> and \<open>r\<close>, which stay between 0 and 1024, are naturals. The searches by binary splitting are
  related to the lowest and the highest set bit of the word.
\<close>

section \<open>Operations\<close>

definition BITS_PER_LONG :: nat where "BITS_PER_LONG = 64"

definition BIT_MASK :: "nat \<Rightarrow> u64" where "BIT_MASK nr = push_bit (nr mod BITS_PER_LONG) 1"

definition BIT_WORD :: "nat \<Rightarrow> nat" where "BIT_WORD nr = nr div BITS_PER_LONG"

definition ffs :: "u64 \<Rightarrow> nat" where
  "ffs word = (
    let (num, word) = (if word AND 0xffffffff = 0 then (32, drop_bit 32 word) else (0, word));
        (num, word) = (if word AND 0xffff = 0 then (num * 16, drop_bit 16 word) else (num, word));
        (num, word) = (if word AND 0xff = 0 then (num + 8, drop_bit 6 word) else (num, word));
        (num, word) = (if word AND 0xf = 0 then (num + 4, drop_bit 4 word) else (num, word));
        (num, word) = (if word AND 0x3 = 0 then (num + 2, drop_bit 2 word) else (num, word))
    in if word AND 0x1 = 0 then num + 1 else num)"

definition ffz :: "u64 \<Rightarrow> nat" where "ffz x = ffs (NOT x)"

definition fls :: "u32 \<Rightarrow> nat" where
  "fls x = (
    if x = 0 then 0 else
    let (r, x) = (if x AND 0xffff0000 = 0 then (32 - 16, push_bit 16 x) else (32, x));
        (r, x) = (if x AND 0xff000000 = 0 then (r - 8, push_bit 8 x) else (r, x));
        (r, x) = (if x AND 0xf0000000 = 0 then (r - 4, push_bit 4 x) else (r, x));
        (r, x) = (if x AND 0xc0000000 = 0 then (r - 2, push_bit 2 x) else (r, x));
        (r, x) = (if x AND 0x80000000 = 0 then (r - 1, push_bit 1 x) else (r, x))
    in r)"

definition fls_long :: "u64 \<Rightarrow> nat" where
  "fls_long word = (
    let num = BITS_PER_LONG - 1;
        (num, word) = (if word AND push_bit 32 (- 1) = 0 then (num - 32, push_bit 32 word) else (num, word));
        (num, word) = (if word AND push_bit (BITS_PER_LONG - 16) (- 1) = 0 then (num - 16, push_bit 16 word) else (num, word));
        (num, word) = (if word AND push_bit (BITS_PER_LONG - 8) (- 1) = 0 then (num - 8, push_bit 8 word) else (num, word));
        (num, word) = (if word AND push_bit (BITS_PER_LONG - 4) (- 1) = 0 then (num - 4, push_bit 4 word) else (num, word));
        (num, word) = (if word AND push_bit (BITS_PER_LONG - 2) (- 1) = 0 then (num - 2, push_bit 2 word) else (num, word))
    in if word AND push_bit (BITS_PER_LONG - 1) (- 1) = 0 then num - 1 else num)"

definition fls64 :: "u64 \<Rightarrow> nat" where
  "fls64 x = (if x = 0 then 0 else fls_long x + 1)"

text \<open>A bit array is the function from word indices to words; the flag is the old bit.\<close>

definition test_and_set_bit :: "nat \<Rightarrow> (nat \<Rightarrow> u64) \<Rightarrow> bool \<times> (nat \<Rightarrow> u64)" where
  "test_and_set_bit nr addr = (
    let mask = BIT_MASK nr; p = BIT_WORD nr; old = addr p
    in (old AND mask \<noteq> 0, addr(p := old OR mask)))"

definition test_and_clear_bit :: "nat \<Rightarrow> (nat \<Rightarrow> u64) \<Rightarrow> bool \<times> (nat \<Rightarrow> u64)" where
  "test_and_clear_bit nr addr = (
    let mask = BIT_MASK nr; p = BIT_WORD nr; old = addr p
    in (old AND mask \<noteq> 0, addr(p := old AND NOT mask)))"

definition test_bit :: "nat \<Rightarrow> (nat \<Rightarrow> u64) \<Rightarrow> bool" where
  "test_bit nr addr = (1 AND drop_bit (nr mod BITS_PER_LONG) (addr (BIT_WORD nr)) \<noteq> 0)"

text \<open>
  \<open>find_next_zero_bit\<close>: the labels \<open>found_first\<close> and \<open>found_middle\<close> are functions of the values the
  jumps reach them with, the \<open>while\<close> loop is \<open>scan_words\<close>. No subtraction of the sizes wraps, since
  each follows a comparison, so they are naturals.
\<close>

definition found_first :: "nat \<Rightarrow> nat \<Rightarrow> u64 \<Rightarrow> nat" where
  "found_first result size' tmp = (
    let tmp = tmp OR push_bit size' (- 1)
    in if tmp = - 1 then result + size' else result + ffz tmp)"

function scan_words :: "(nat \<Rightarrow> u64) \<Rightarrow> nat \<Rightarrow> nat \<Rightarrow> nat \<Rightarrow> nat" where
  "scan_words addr p result size' = (
    if BITS_PER_LONG \<le> size' then
      if NOT (addr p) \<noteq> 0 then result + ffz (addr p)
      else scan_words addr (Suc p) (result + BITS_PER_LONG) (size' - BITS_PER_LONG)
    else if size' = 0 then result
    else found_first result size' (addr p))"
  by pat_completeness auto

termination
  by (relation "measure (\<lambda>(addr, p, result, size'). size')") (auto simp: BITS_PER_LONG_def)

definition find_next_zero_bit :: "(nat \<Rightarrow> u64) \<Rightarrow> nat \<Rightarrow> nat \<Rightarrow> nat" where
  "find_next_zero_bit addr size' offset = (
    let p = BIT_WORD offset; result = offset - offset mod BITS_PER_LONG
    in if size' \<le> offset then size'
       else let size' = size' - result; offset = offset mod BITS_PER_LONG
         in if offset \<noteq> 0 then
              let tmp = addr p OR drop_bit (BITS_PER_LONG - offset) (- 1)
              in if size' < BITS_PER_LONG then found_first result size' tmp
                 else if NOT tmp \<noteq> 0 then result + ffz tmp
                 else scan_words addr (Suc p) (result + BITS_PER_LONG) (size' - BITS_PER_LONG)
            else scan_words addr p result size')"

section \<open>Lowest and highest set bit\<close>

definition low_bit :: "'a::len word \<Rightarrow> nat \<Rightarrow> bool" where
  "low_bit w p \<longleftrightarrow> bit w p \<and> (\<forall>i<p. \<not> bit w i)"

definition high_bit :: "'a::len word \<Rightarrow> nat \<Rightarrow> bool" where
  "high_bit w p \<longleftrightarrow> bit w p \<and> (\<forall>i>p. \<not> bit w i)"

lemma low_bit_exists: "w \<noteq> 0 \<Longrightarrow> \<exists>p. low_bit w p"
  using exists_least_iff [of "bit w"] by (auto simp: low_bit_def bit_eq_iff)

lemma low_bit_unique: "low_bit w p \<Longrightarrow> low_bit w q \<Longrightarrow> p = q"
  unfolding low_bit_def by (metis linorder_neqE_nat)

lemma low_bit_mask: "low_bit w p \<Longrightarrow> w AND mask k = 0 \<longleftrightarrow> k \<le> p"
  by (auto simp: low_bit_def bit_eq_iff bit_simps not_le) (meson bit_imp_le_length not_le less_le_trans)+

lemma low_bit_drop: "low_bit w p \<Longrightarrow> k \<le> p \<Longrightarrow> low_bit (drop_bit k w) (p - k)"
  by (auto simp: low_bit_def bit_simps)

lemmas mask_numerals =
  mask_eq_exp_minus_1 [of 32, where ?'a = u64, simplified]
  mask_eq_exp_minus_1 [of 16, where ?'a = u64, simplified]
  mask_eq_exp_minus_1 [of 8, where ?'a = u64, simplified]
  mask_eq_exp_minus_1 [of 4, where ?'a = u64, simplified]
  mask_eq_exp_minus_1 [of 2, where ?'a = u64, simplified]
  mask_eq_exp_minus_1 [of 1, where ?'a = u64, simplified]

lemma low_bit_tests:
  fixes w :: u64
  assumes "low_bit w p"
  shows "w AND 0xffffffff = 0 \<longleftrightarrow> 32 \<le> p" "w AND 0xffff = 0 \<longleftrightarrow> 16 \<le> p" "w AND 0xff = 0 \<longleftrightarrow> 8 \<le> p"
    "w AND 0xf = 0 \<longleftrightarrow> 4 \<le> p" "w AND 0x3 = 0 \<longleftrightarrow> 2 \<le> p" "w AND 1 = 0 \<longleftrightarrow> 1 \<le> p"
  using low_bit_mask [OF assms, of 32] low_bit_mask [OF assms, of 16] low_bit_mask [OF assms, of 8]
    low_bit_mask [OF assms, of 4] low_bit_mask [OF assms, of 2] low_bit_mask [OF assms, of 1]
  by (simp_all only: mask_numerals mask_Suc_0 One_nat_def)

text \<open>The result of \<^const>\<open>ffs\<close> as a function of the position of the lowest set bit.\<close>

definition ffs_pos :: "nat \<Rightarrow> nat" where
  "ffs_pos p = (
    let (num, p) = (if 32 \<le> p then (32, p - 32) else (0, p));
        (num, p) = (if 16 \<le> p then (num * 16, p - 16) else (num, p));
        (num, p) = (if 8 \<le> p then (num + 8, p - 6) else (num, p));
        (num, p) = (if 4 \<le> p then (num + 4, p - 4) else (num, p));
        (num, p) = (if 2 \<le> p then (num + 2, p - 2) else (num, p))
    in if 1 \<le> p then num + 1 else num)"

lemma if_pair: "(if c then (a, b) else (a', b')) = (if c then a else a', if c then b else b')"
  by simp

lemma low_bit_step:
  "low_bit w p \<Longrightarrow> j \<le> k \<Longrightarrow> low_bit (if k \<le> p then drop_bit j w else w) (if k \<le> p then p - j else p)"
  by (simp add: low_bit_drop)

lemma ffs_low_bit:
  assumes "low_bit w p"
  shows "ffs w = ffs_pos p"
proof -
  note l1 = low_bit_step [OF assms order_refl, of 32]
  note l2 = low_bit_step [OF l1 order_refl, of 16]
  note l3 = low_bit_step [OF l2, of 6 8, simplified]
  note l4 = low_bit_step [OF l3 order_refl, of 4]
  note l5 = low_bit_step [OF l4 order_refl, of 2]
  show ?thesis
    unfolding ffs_def ffs_pos_def Let_def if_pair case_prod_conv
      low_bit_tests(1) [OF assms] low_bit_tests(2) [OF l1] low_bit_tests(3) [OF l2]
      low_bit_tests(4) [OF l3] low_bit_tests(5) [OF l4] low_bit_tests(6) [OF l5] ..
qed

lemma below_8: "(q :: nat) < 8 \<longleftrightarrow> q \<in> {0, 1, 2, 3, 4, 5, 6, 7}"
  by auto

lemma octal_digits:
  fixes p :: nat
  assumes "p < 64"
  obtains a b where "p = 8 * a + b" and "a \<in> {0, 1, 2, 3, 4, 5, 6, 7}" and "b \<in> {0, 1, 2, 3, 4, 5, 6, 7}"
proof (rule that)
  show "p = 8 * (p div 8) + p mod 8" by simp
  show "p div 8 \<in> {0, 1, 2, 3, 4, 5, 6, 7}" "p mod 8 \<in> {0, 1, 2, 3, 4, 5, 6, 7}"
    unfolding below_8 [symmetric] using assms by (simp_all add: less_mult_imp_div_less)
qed

lemma ffs_pos_table:
  assumes "p < 64"
  shows "(ffs_pos p = p) = (p < 8 \<or> p = 15 \<or> 32 \<le> p \<and> p < 40 \<or> p = 47)"
  by (rule octal_digits [OF assms], hypsubst, elim insertE emptyE; hypsubst; code_simp)

lemma high_bit_mask:
  fixes w :: "'a::len word"
  assumes "high_bit w p"
  shows "w AND push_bit k (- 1) = 0 \<longleftrightarrow> p < k"
proof
  assume "w AND push_bit k (- 1) = 0"
  then have "\<not> bit (w AND push_bit k (- 1)) p" by simp
  moreover have "bit w p" using assms by (simp add: high_bit_def)
  moreover from this have "p < LENGTH('a)" by (rule bit_imp_le_length)
  ultimately show "p < k" by (simp add: bit_simps)
next
  assume "p < k"
  then show "w AND push_bit k (- 1) = 0"
    using assms by (simp add: high_bit_def bit_eq_iff bit_simps) (meson less_le_trans not_le)
qed

lemma high_bit_push:
  "high_bit (w :: 'a::len word) p \<Longrightarrow> p + k < LENGTH('a) \<Longrightarrow> high_bit (push_bit k w) (p + k)"
  by (simp add: high_bit_def bit_simps)

lemma high_bit_less: "high_bit (w :: 'a::len word) p \<Longrightarrow> p < LENGTH('a)"
  unfolding high_bit_def by (blast dest: bit_imp_le_length)

lemma high_bit_exists:
  fixes w :: "'a::len word"
  assumes "w \<noteq> 0"
  shows "\<exists>p. high_bit w p"
proof -
  obtain q where q: "bit w q" using assms by (auto simp: bit_eq_iff)
  have le: "i \<le> LENGTH('a)" if "bit w i" for i
    using bit_imp_le_length [OF that] by simp
  have "bit w (GREATEST p. bit w p)" by (rule GreatestI_nat [where P = "bit w", OF q le])
  moreover have "i \<le> (GREATEST p. bit w p)" if "bit w i" for i by (rule Greatest_le_nat [where P = "bit w", OF that le])
  ultimately show ?thesis unfolding high_bit_def by (metis not_le)
qed

text \<open>One split of the search for the highest bit: the word keeps its highest bit, moved up.\<close>

lemma high_bit_step:
  fixes w :: "'a::len word"
  assumes "high_bit w p" and "n = LENGTH('a)"
  shows "high_bit (if p < n - k then push_bit k w else w) (if p < n - k then p + k else p)"
  using assms by (simp add: high_bit_push)

text \<open>
  The results as functions of the position of the highest set bit in a word of \<open>n\<close> bits: each
  split subtracts its width from the count and adds it to the position.
\<close>

definition fls_pos :: "nat \<Rightarrow> nat \<Rightarrow> nat \<Rightarrow> nat \<times> nat \<Rightarrow> nat \<times> nat" where
  "fls_pos n k m = (\<lambda>(num, p). if p < n - k then (num - m, p + k) else (num, p))"

lemma fls_pos_64:
  assumes "p < 64"
  shows "(let (num, q) = fls_pos 64 2 2 (fls_pos 64 4 4 (fls_pos 64 8 8 (fls_pos 64 16 16 (fls_pos 64 32 32 (64 - 1, p)))))
     in if q < 64 - 1 then num - 1 else num) = p"
  by (rule octal_digits [OF assms], hypsubst, elim insertE emptyE; hypsubst; code_simp)

lemma fls_pos_32:
  assumes "p < 32"
  shows "fst (fls_pos 32 1 1 (fls_pos 32 2 2 (fls_pos 32 4 4 (fls_pos 32 8 8 (fls_pos 32 16 16 (32, p)))))) = p + 1"
proof -
  have "p < 64 \<Longrightarrow> p < 32 \<longrightarrow> ?thesis"
    by (rule octal_digits [of p], assumption, hypsubst, elim insertE emptyE; hypsubst; code_simp)
  then show ?thesis using assms by simp
qed

lemma fls_long_high_bit:
  assumes w: "high_bit w p"
  shows "fls_long w = p"
proof -
  have n: "64 = LENGTH(64)" by simp
  have m1: "w AND push_bit 32 (- 1) = 0 \<longleftrightarrow> p < 64 - 32" using high_bit_mask [OF w, of 32] by simp
  note l1 = high_bit_step [OF w n, of 32]
  note l2 = high_bit_step [OF l1 n, of 16]
  note l3 = high_bit_step [OF l2 n, of 8]
  note l4 = high_bit_step [OF l3 n, of 4]
  note l5 = high_bit_step [OF l4 n, of 2]
  have "p < 64" using high_bit_less [OF w] by simp
  then show ?thesis
    using fls_pos_64 [of p]
    unfolding fls_long_def fls_pos_def Let_def if_pair case_prod_conv BITS_PER_LONG_def m1
      high_bit_mask [OF l1] high_bit_mask [OF l2] high_bit_mask [OF l3] high_bit_mask [OF l4] high_bit_mask [OF l5]
    by (simp only:) 
qed

lemma fls_high_bit:
  assumes w: "high_bit w p"
  shows "fls w = p + 1"
proof -
  have n: "32 = LENGTH(32)" by simp
  have m: "0xffff0000 = (push_bit (32 - 16) (- 1) :: u32)" "0xff000000 = (push_bit (32 - 8) (- 1) :: u32)"
    "0xf0000000 = (push_bit (32 - 4) (- 1) :: u32)" "0xc0000000 = (push_bit (32 - 2) (- 1) :: u32)"
    "0x80000000 = (push_bit (32 - 1) (- 1) :: u32)"
    by (simp_all add: push_bit_eq_mult)
  note l1 = high_bit_step [OF w n, of 16]
  note l2 = high_bit_step [OF l1 n, of 8]
  note l3 = high_bit_step [OF l2 n, of 4]
  note l4 = high_bit_step [OF l3 n, of 2]
  have "p < 32" "(w = 0) = False" using high_bit_less [OF w] w by (auto simp: high_bit_def)
  then show ?thesis
    using fls_pos_32 [of p]
    unfolding fls_def fls_pos_def Let_def if_pair case_prod_conv m fst_conv
      high_bit_mask [OF w] high_bit_mask [OF l1] high_bit_mask [OF l2] high_bit_mask [OF l3] high_bit_mask [OF l4]
    by (simp only: if_False)
qed

section \<open>Bit arrays\<close>

definition abit :: "(nat \<Rightarrow> u64) \<Rightarrow> nat \<Rightarrow> bool" where
  "abit addr i = bit (addr (i div 64)) (i mod 64)"

lemma bit_eq_by_word: "i = j \<longleftrightarrow> i div 64 = j div 64 \<and> i mod 64 = j mod (64 :: nat)"
  by (metis div_mult_mod_eq)

lemma test_bit_abit: "test_bit nr addr = abit addr nr"
  by (simp add: test_bit_def abit_def BIT_WORD_def BITS_PER_LONG_def one_and_eq bit_iff_odd_drop_bit
      flip: even_drop_bit_iff_not_bit) (simp add: odd_iff_mod_2_eq_one)

lemma and_BIT_MASK: "old AND BIT_MASK nr \<noteq> 0 \<longleftrightarrow> bit old (nr mod 64)"
  by (simp add: BIT_MASK_def BITS_PER_LONG_def push_bit_of_1 and_exp_eq_0_iff_not_bit)

lemma bit_BIT_MASK: "bit (BIT_MASK nr) j \<longleftrightarrow> j = nr mod 64"
  by (auto simp: BIT_MASK_def BITS_PER_LONG_def bit_simps)

lemma test_and_set_bit_abit:
  "fst (test_and_set_bit nr addr) = abit addr nr"
  "abit (snd (test_and_set_bit nr addr)) i \<longleftrightarrow> i = nr \<or> abit addr i"
  by (auto simp: test_and_set_bit_def Let_def and_BIT_MASK bit_BIT_MASK abit_def BIT_WORD_def
      BITS_PER_LONG_def bit_or_iff bit_eq_by_word [of i nr])

lemma test_and_clear_bit_abit:
  "fst (test_and_clear_bit nr addr) = abit addr nr"
  "abit (snd (test_and_clear_bit nr addr)) i \<longleftrightarrow> i \<noteq> nr \<and> abit addr i"
  by (auto simp: test_and_clear_bit_def Let_def and_BIT_MASK bit_BIT_MASK abit_def BIT_WORD_def
      BITS_PER_LONG_def bit_and_iff bit_not_iff bit_eq_by_word [of i nr])

section \<open>Searching a bit array\<close>

text \<open>The bits from \<open>a\<close> up to \<open>b\<close> are all set; \<open>z\<close> is the first zero bit at or after \<open>a\<close>.\<close>

definition all_set :: "(nat \<Rightarrow> u64) \<Rightarrow> nat \<Rightarrow> nat \<Rightarrow> bool" where
  "all_set addr a b \<longleftrightarrow> (\<forall>i. a \<le> i \<and> i < b \<longrightarrow> abit addr i)"

definition first_zero :: "(nat \<Rightarrow> u64) \<Rightarrow> nat \<Rightarrow> nat \<Rightarrow> bool" where
  "first_zero addr a z \<longleftrightarrow> a \<le> z \<and> \<not> abit addr z \<and> all_set addr a z"

lemma ffz_low_bit: "low_bit (NOT w) q \<Longrightarrow> ffz w = ffs_pos q"
  by (simp add: ffz_def ffs_low_bit)

lemma abit_in_word: "q < 64 \<Longrightarrow> abit addr (64 * p + q) = bit (addr p) q"
  by (simp add: abit_def)

lemma not_all_ones: "(NOT (w :: u64) = 0) = (\<forall>q<64. bit w q)"
  by (auto simp: bit_eq_iff bit_not_iff)

lemma minus1_iff: "(w :: u64) = - 1 \<longleftrightarrow> (\<forall>q<64. bit w q)"
  by (auto simp: bit_eq_iff)

lemma found_first_none:
  assumes "n < 64" and "\<And>q. q < n \<Longrightarrow> bit tmp q"
  shows "found_first r n tmp = r + n"
proof -
  have "tmp OR push_bit n (- 1) = - 1"
    using assms unfolding minus1_iff by (auto simp: bit_simps)
  then show ?thesis by (simp add: found_first_def)
qed

lemma found_first_some:
  assumes "n < 64" and "q < n" and "\<not> bit tmp q" and "\<And>i. i < q \<Longrightarrow> bit tmp i"
  shows "found_first r n tmp = r + ffs_pos q"
proof -
  have "low_bit (NOT (tmp OR push_bit n (- 1))) q"
    using assms by (simp add: low_bit_def bit_simps)
  moreover have "tmp OR push_bit n (- 1) \<noteq> - 1"
    using assms unfolding minus1_iff by (auto simp: bit_simps intro!: exI [of _ q])
  ultimately show ?thesis by (simp add: found_first_def ffz_low_bit)
qed

lemma low_bit_NOT:
  fixes w :: u64
  assumes "\<not> bit w q" and "q < 64" and "\<And>i. i < q \<Longrightarrow> bit w i"
  shows "low_bit (NOT w) q" and "NOT w \<noteq> 0"
  using assms by (auto simp: low_bit_def not_all_ones bit_not_iff)

declare scan_words.simps [simp del]

lemma scan_words_unfold:
  "scan_words addr p (64 * p) (S - 64 * p) = (
     if 64 * p + 64 \<le> S then
       if NOT (addr p) \<noteq> 0 then 64 * p + ffz (addr p)
       else scan_words addr (Suc p) (64 * Suc p) (S - 64 * Suc p)
     else if S \<le> 64 * p then 64 * p
     else found_first (64 * p) (S - 64 * p) (addr p))"
proof -
  have "64 \<le> S - 64 * p \<longleftrightarrow> 64 * p + 64 \<le> S" by linarith
  then show ?thesis
    by (subst scan_words.simps) (simp add: BITS_PER_LONG_def add.commute [of 64 "64 * p"])
qed

lemma scan_words_none:
  "64 * p \<le> S \<Longrightarrow> all_set addr (64 * p) S \<Longrightarrow> scan_words addr p (64 * p) (S - 64 * p) = S"
proof (induction "S - 64 * p" arbitrary: p rule: less_induct)
  case less
  have bits: "bit (addr p) q" if "q < 64" "64 * p + q < S" for q
    using less.prems(2) abit_in_word [OF that(1), of addr p] that(2) by (simp add: all_set_def)
  consider "64 * Suc p \<le> S" | "S < 64 * Suc p" "64 * p < S" | "S = 64 * p" using less.prems by fastforce
  then show ?case
  proof cases
    case 1
    then have "NOT (addr p) = 0" by (simp add: not_all_ones bits)
    moreover have "scan_words addr (Suc p) (64 * Suc p) (S - 64 * Suc p) = S"
      using 1 less.prems by (intro less.hyps) (auto simp: all_set_def)
    ultimately show ?thesis using 1 by (simp add: scan_words_unfold [of addr p])
  qed (subst scan_words_unfold, simp add: found_first_none bits)+
qed

lemma scan_words_some:
  "first_zero addr (64 * p) z \<Longrightarrow> z < S \<Longrightarrow>
     scan_words addr p (64 * p) (S - 64 * p) = 64 * (z div 64) + ffs_pos (z mod 64)"
proof (induction "S - 64 * p" arbitrary: p rule: less_induct)
  case less
  have le: "64 * p \<le> z" and z: "\<not> abit addr z" using less.prems by (simp_all add: first_zero_def)
  have bits: "bit (addr p) q" if "q < 64" "64 * p + q < z" for q
    using less.prems(1) abit_in_word [OF that(1), of addr p] that(2) by (simp add: first_zero_def all_set_def)
  show ?case
  proof (cases "64 * Suc p \<le> z")
    case True
    then have "NOT (addr p) = 0" by (simp add: not_all_ones bits)
    moreover have "scan_words addr (Suc p) (64 * Suc p) (S - 64 * Suc p) = 64 * (z div 64) + ffs_pos (z mod 64)"
      using True less.prems by (intro less.hyps) (auto simp: first_zero_def all_set_def)
    ultimately show ?thesis using True less.prems(2) by (simp add: scan_words_unfold [of addr p])
  next
    case False
    define q where "q = z - 64 * p"
    have q: "q < 64" "z = 64 * p + q" using False le by (auto simp: q_def)
    then have nb: "\<not> bit (addr p) q" using z by (simp add: abit_in_word)
    have low: "bit (addr p) i" if "i < q" for i using bits [of i] that q by simp
    show ?thesis
      using less.prems(2) q nb low low_bit_NOT [OF nb q(1) low]
      by (simp add: scan_words_unfold [of addr p] ffz_low_bit found_first_some)
  qed
qed

text \<open>
  The first word, when the search starts inside it: the bits below \<open>offset\<close> count as set.
\<close>

lemma bit_first_word:
  "k < 64 \<Longrightarrow> k \<noteq> 0 \<Longrightarrow> q < 64 \<Longrightarrow> bit (w OR mask k :: u64) q \<longleftrightarrow> bit w q \<or> q < k"
  by (auto simp: bit_simps)

lemma find_next_zero_bit_unfold:
  assumes "k < 64"
  shows "find_next_zero_bit addr S (64 * p + k) = (
    if S \<le> 64 * p + k then S
    else if k = 0 then scan_words addr p (64 * p) (S - 64 * p)
    else let tmp = addr p OR mask k
      in if S - 64 * p < 64 then found_first (64 * p) (S - 64 * p) tmp
         else if NOT tmp \<noteq> 0 then 64 * p + ffz tmp
         else scan_words addr (Suc p) (64 * Suc p) (S - 64 * Suc p))"
  using assms
  by (simp add: find_next_zero_bit_def Let_def BIT_WORD_def BITS_PER_LONG_def add.commute [of 64 "64 * p"])

lemma find_next_zero_bit_none:
  assumes "offset < S" and "all_set addr offset S"
  shows "find_next_zero_bit addr S offset = S"
proof -
  define p k where "p = offset div 64" and "k = offset mod 64"
  have o: "offset = 64 * p + k" and k: "k < 64" by (simp_all add: p_def k_def)
  have bits: "bit (addr p) q" if "q < 64" "k \<le> q" "64 * p + q < S" for q
    using assms(2) abit_in_word [OF that(1), of addr p] that(2,3) o by (simp add: all_set_def)
  have full: "NOT (addr p OR mask k) = 0" if "64 * Suc p \<le> S" "k \<noteq> 0"
    unfolding not_all_ones using that k by (auto simp: bit_first_word not_le intro: bits)
  have ff: "found_first (64 * p) (S - 64 * p) (addr p OR mask k) = S"
    if "S < 64 * Suc p" "k \<noteq> 0"
    using that k o assms(1) by (subst found_first_none) (auto simp: bit_first_word not_le intro!: bits)
  have "scan_words addr p (64 * p) (S - 64 * p) = S" if "k = 0"
    using that assms o by (intro scan_words_none) simp_all
  moreover have "scan_words addr (Suc p) (64 * Suc p) (S - 64 * Suc p) = S" if "64 * Suc p \<le> S"
    using that assms(2) o k by (intro scan_words_none) (auto simp: all_set_def)
  ultimately show ?thesis
    unfolding o find_next_zero_bit_unfold [OF k] using full ff o by (auto simp: Let_def)
qed

lemma find_next_zero_bit_some:
  assumes z: "first_zero addr offset z" and S: "z < S"
  shows "find_next_zero_bit addr S offset = 64 * (z div 64) + ffs_pos (z mod 64)" (is "_ = ?r")
proof -
  define p k where "p = offset div 64" and "k = offset mod 64"
  have o: "offset = 64 * p + k" and k: "k < 64" by (simp_all add: p_def k_def)
  have le: "offset \<le> z" and nz: "\<not> abit addr z" and set: "all_set addr offset z"
    using z by (simp_all add: first_zero_def)
  let ?tmp = "addr p OR mask k"
  have bits: "bit (addr p) q" if "q < 64" "k \<le> q" "64 * p + q < z" for q
    using set abit_in_word [OF that(1), of addr p] that(2,3) o by (simp add: all_set_def)
  have scan0: "scan_words addr p (64 * p) (S - 64 * p) = ?r" if "k = 0"
    using that z S o by (intro scan_words_some) simp_all
  show ?thesis
  proof (cases "64 * Suc p \<le> z")
    case True
    then have "NOT ?tmp = 0" if "k \<noteq> 0"
      unfolding not_all_ones using that k by (auto simp: bit_first_word not_le intro!: bits)
    moreover have "scan_words addr (Suc p) (64 * Suc p) (S - 64 * Suc p) = ?r"
      using True z S o k by (intro scan_words_some) (auto simp: first_zero_def all_set_def)
    ultimately show ?thesis
      unfolding o find_next_zero_bit_unfold [OF k] using True S scan0 k by (auto simp: Let_def)
  next
    case False
    define q where "q = z - 64 * p"
    have q: "q < 64" "z = 64 * p + q" "k \<le> q" using False le o by (auto simp: q_def)
    have r: "?r = 64 * p + ffs_pos q" using q by simp
    have nb: "\<not> bit ?tmp q" and low: "\<And>i. i < q \<Longrightarrow> bit ?tmp i" if "k \<noteq> 0"
      using that nz q k bits by (auto simp: bit_first_word abit_in_word not_le)
    note lz = low_bit_NOT [OF nb q(1) low]
    have ff: "found_first (64 * p) (S - 64 * p) ?tmp = ?r" if "k \<noteq> 0" "S - 64 * p < 64"
      unfolding r by (rule found_first_some [OF that(2) _ nb low]) (use q S that in auto)
    show ?thesis
      unfolding o find_next_zero_bit_unfold [OF k] Let_def
      using q S scan0 r ff lz(2) ffz_low_bit [OF lz(1)] by (cases "k = 0") simp_all
  qed
qed

section \<open>Properties\<close>

text \<open>\<open>find_next_zero_bit\<close> returns the size when every bit of the range is set; when there is a zero
  bit, it returns the first one exactly when that bit lies in one of the positions 0 to 7, 15, 32
  to 39 and 47 of its 64-bit word. For the other positions the splitting of \<open>__ffs\<close> (which
  multiplies where it should add, and shifts by 6 instead of 8) gives another bit number.\<close>

lemma find_next_zero_bit_positions:
  assumes "offset < size'"
  shows "(all_set addr offset size' \<longrightarrow> find_next_zero_bit addr size' offset = size') \<and>
    (first_zero addr offset z \<and> z < size' \<longrightarrow>
      (find_next_zero_bit addr size' offset = z) =
      (z mod 64 < 8 \<or> z mod 64 = 15 \<or> 32 \<le> z mod 64 \<and> z mod 64 < 40 \<or> z mod 64 = 47))"
proof (intro conjI impI)
  show "find_next_zero_bit addr size' offset = size'" if "all_set addr offset size'"
    by (rule find_next_zero_bit_none [OF assms that])
next
  assume "first_zero addr offset z \<and> z < size'"
  then have "find_next_zero_bit addr size' offset = 64 * (z div 64) + ffs_pos (z mod 64)"
    by (blast intro: find_next_zero_bit_some)
  moreover have "z = 64 * (z div 64) + z mod 64" by simp
  ultimately have "find_next_zero_bit addr size' offset = z \<longleftrightarrow> ffs_pos (z mod 64) = z mod 64"
    by (metis add_left_cancel)
  then show "(find_next_zero_bit addr size' offset = z) =
      (z mod 64 < 8 \<or> z mod 64 = 15 \<or> 32 \<le> z mod 64 \<and> z mod 64 < 40 \<or> z mod 64 = 47)"
    by (simp add: ffs_pos_table)
qed

text \<open>In a group whose blocks 0 to 7 are taken, the block 8 is free and block 10 is returned.\<close>

lemma find_next_zero_bit_positions_witness:
  "find_next_zero_bit (\<lambda>_. 0xff) 64 0 \<noteq> 8 \<and> find_next_zero_bit (\<lambda>_. 0xff) 64 0 = 10 \<and>
   find_next_zero_bit (\<lambda>_. - 1) 64 0 = 64"
proof -
  have z: "first_zero (\<lambda>_. 0xff) 0 8"
    by (auto simp: first_zero_def all_set_def abit_def below_8)
  have s: "all_set (\<lambda>_. - 1) 0 64" by (simp add: all_set_def abit_def)
  have "find_next_zero_bit (\<lambda>_. 0xff) 64 0 = 10"
    using find_next_zero_bit_some [OF z, of 64] by (simp add: ffs_pos_def)
  then show ?thesis
    using z s find_next_zero_bit_positions [of 0 64 "\<lambda>_. 0xff" 8]
      find_next_zero_bit_positions [of 0 64 "\<lambda>_. - 1" 0] by simp
qed

lemma bit_nat_le: "bit (n :: nat) p \<Longrightarrow> 2 ^ p \<le> n"
  by (metis bit_take_bit_iff less_irrefl not_le take_bit_nat_eq_self)

lemma high_bit_bounds:
  fixes w :: "'a::len word"
  assumes "high_bit w p"
  shows "2 ^ p \<le> unat w" and "unat w < 2 ^ (p + 1)"
proof -
  have "bit (unat w) p" and "take_bit (p + 1) (unat w) = unat w"
    using assms by (auto simp: high_bit_def bit_eq_iff bit_simps less_Suc_eq_le not_less [symmetric])
  then show "2 ^ p \<le> unat w" and "unat w < 2 ^ (p + 1)"
    by (auto simp: bit_nat_le take_bit_nat_eq_self_iff)
qed

text \<open>The searches for the highest set bit compute the binary length: for every word,
  \<open>fls\<close> and \<open>fls64\<close> give the least \<open>n\<close> with \<open>x < 2 ^ n\<close>, including \<open>0\<close> for the zero word.\<close>

lemma fls_binary_length:
  "(unat (x :: u32) < 2 ^ n \<longleftrightarrow> fls x \<le> n) \<and> (unat (y :: u64) < 2 ^ n \<longleftrightarrow> fls64 y \<le> n)"
proof -
  have *: "k < 2 ^ n \<longleftrightarrow> p + 1 \<le> n" if "2 ^ p \<le> k" "k < 2 ^ (p + 1)" for k p :: nat
  proof
    assume "k < 2 ^ n"
    with that(1) have "(2 :: nat) ^ p < 2 ^ n" by linarith
    then show "p + 1 \<le> n" by simp
  next
    assume "p + 1 \<le> n"
    then have "(2 :: nat) ^ (p + 1) \<le> 2 ^ n" by (rule power_increasing) simp
    with that(2) show "k < 2 ^ n" by linarith
  qed
  have 1: "unat x < 2 ^ n \<longleftrightarrow> fls x \<le> n" if "high_bit x p" for p
    using * [OF high_bit_bounds [OF that]] by (simp add: fls_high_bit [OF that])
  have 2: "unat y < 2 ^ n \<longleftrightarrow> fls64 y \<le> n" if "high_bit y p" for p
  proof -
    have "y \<noteq> 0" using that by (auto simp: high_bit_def)
    then show ?thesis
      using * [OF high_bit_bounds [OF that]] by (simp add: fls64_def fls_long_high_bit [OF that])
  qed
  have "unat x < 2 ^ n \<longleftrightarrow> fls x \<le> n"
  proof (cases "x = 0")
    case False
    then show ?thesis using high_bit_exists 1 by blast
  qed (simp add: fls_def)
  moreover have "unat y < 2 ^ n \<longleftrightarrow> fls64 y \<le> n"
  proof (cases "y = 0")
    case False
    then show ?thesis using high_bit_exists 2 by blast
  qed (simp add: fls64_def)
  ultimately show ?thesis ..
qed

end
