(* ===== verification/Cstring.thy ===== *)
theory Cstring
  imports Bytes
begin

text \<open>
  The memory and string functions of \<open>inc/string.h\<close>, on one memory: a pointer is an offset into
  it, so that source and destination may overlap. A length of type \<open>ssize_t\<close> is an integer, since
  the loops \<open>while (n-- > 0)\<close> treat a negative one as zero; \<open>char\<close> is unsigned on AArch64. The
  loops that look for the terminating NUL run as long as there is none: they are partial functions
  whose value is \<open>None\<close> when they do not return.
\<close>

section \<open>Operations\<close>

primrec memset :: "nat \<Rightarrow> bytes \<Rightarrow> nat \<Rightarrow> int \<Rightarrow> bytes" where
  "memset 0 m l c = m"
| "memset (Suc n) m l c = memset n (m(l := of_int c)) (Suc l) c"

primrec copy_backward :: "nat \<Rightarrow> bytes \<Rightarrow> nat \<Rightarrow> nat \<Rightarrow> bytes" where
  "copy_backward 0 m d s = m"
| "copy_backward (Suc n) m d s = copy_backward n (m(d - 1 := m (s - 1))) (d - 1) (s - 1)"

primrec copy_forward :: "nat \<Rightarrow> bytes \<Rightarrow> nat \<Rightarrow> nat \<Rightarrow> bytes" where
  "copy_forward 0 m d s = m"
| "copy_forward (Suc n) m d s = copy_forward n (m(d := m s)) (Suc d) (Suc s)"

definition memmove :: "bytes \<Rightarrow> nat \<Rightarrow> nat \<Rightarrow> int \<Rightarrow> bytes" where
  "memmove m d s n = (
    if s < d \<and> int s + n > int d then copy_backward (nat n) m (d + nat n) (s + nat n)
    else copy_forward (nat n) m d s)"

primrec memcmp_loop :: "nat \<Rightarrow> bytes \<Rightarrow> nat \<Rightarrow> nat \<Rightarrow> int" where
  "memcmp_loop 0 m s1 s2 = 0"
| "memcmp_loop (Suc n) m s1 s2 =
    (if m s1 \<noteq> m s2 then uint (m s1) - uint (m s2) else memcmp_loop n m (Suc s1) (Suc s2))"

definition memcmp :: "bytes \<Rightarrow> nat \<Rightarrow> nat \<Rightarrow> int \<Rightarrow> int" where
  "memcmp m v1 v2 n = memcmp_loop (nat n) m v1 v2"

function strncmp :: "bytes \<Rightarrow> nat \<Rightarrow> nat \<Rightarrow> int \<Rightarrow> int" where
  "strncmp m p q n = (
    if n > 0 \<and> m p \<noteq> 0 \<and> m p = m q then strncmp m (Suc p) (Suc q) (n - 1)
    else if n = 0 then 0
    else uint (m p) - uint (m q))"
  by pat_completeness auto

termination
  by (relation "measure (\<lambda>(m, p, q, n). nat n)") auto

text \<open>\<open>strncpy\<close>: the first loop copies up to and including the NUL, the second one pads.\<close>

primrec pad_nul :: "nat \<Rightarrow> bytes \<Rightarrow> nat \<Rightarrow> bytes" where
  "pad_nul 0 m s = m"
| "pad_nul (Suc n) m s = pad_nul n (m(s := 0)) (Suc s)"

primrec strncpy_loop :: "nat \<Rightarrow> bytes \<Rightarrow> nat \<Rightarrow> nat \<Rightarrow> bytes" where
  "strncpy_loop 0 m s t = m"
| "strncpy_loop (Suc n) m s t = (
    let c = m t; m = m(s := c)
    in if c \<noteq> 0 then strncpy_loop n m (Suc s) (Suc t) else pad_nul n m (Suc s))"

definition strncpy :: "bytes \<Rightarrow> nat \<Rightarrow> nat \<Rightarrow> int \<Rightarrow> bytes" where
  "strncpy m s t n = strncpy_loop (nat n) m s t"

text \<open>\<open>safestrcpy\<close>: the loop ends on \<open>--n > 0\<close> or behind the NUL it copied; then \<open>*s = 0\<close>.\<close>

primrec safestrcpy_loop :: "nat \<Rightarrow> bytes \<Rightarrow> nat \<Rightarrow> nat \<Rightarrow> bytes" where
  "safestrcpy_loop 0 m s t = m(s := 0)"
| "safestrcpy_loop (Suc n) m s t = (
    let c = m t; m = m(s := c)
    in if c \<noteq> 0 then safestrcpy_loop n m (Suc s) (Suc t) else m(Suc s := 0))"

definition safestrcpy :: "bytes \<Rightarrow> nat \<Rightarrow> nat \<Rightarrow> int \<Rightarrow> bytes" where
  "safestrcpy m s t n = (if n \<le> 0 then m else safestrcpy_loop (nat (n - 1)) m s t)"

partial_function (option) strlen_from :: "bytes \<Rightarrow> nat \<Rightarrow> nat \<Rightarrow> nat option" where
  "strlen_from m s n = (if m (s + n) \<noteq> 0 then strlen_from m s (Suc n) else Some n)"

definition strlen :: "bytes \<Rightarrow> nat \<Rightarrow> nat option" where
  "strlen m s = strlen_from m s 0"

text \<open>
  \<open>strrchr\<close> reads the byte before the string when it reaches the start; the pointer \<open>s\<close> is
  positive, so that there is such a byte.
\<close>

fun strrchr_loop :: "bytes \<Rightarrow> nat \<Rightarrow> u8 \<Rightarrow> nat \<Rightarrow> nat option" where
  "strrchr_loop m s c p = (
    if m p \<noteq> 0 \<and> p \<ge> s then
      if m p = c then Some p
      else case p of 0 \<Rightarrow> None | Suc p' \<Rightarrow> strrchr_loop m s c p'
    else None)"

definition strrchr :: "bytes \<Rightarrow> nat \<Rightarrow> u8 \<Rightarrow> nat option option" where
  "strrchr m s c = map_option (\<lambda>n. strrchr_loop m s c (s + n - 1)) (strlen m s)"

partial_function (option) strcmp :: "bytes \<Rightarrow> nat \<Rightarrow> nat \<Rightarrow> int option" where
  "strcmp m p q = (
    if m p \<noteq> 0 \<and> m p = m q then strcmp m (Suc p) (Suc q)
    else Some (uint (m p) - uint (m q)))"

primrec memscan :: "nat \<Rightarrow> bytes \<Rightarrow> nat \<Rightarrow> int \<Rightarrow> nat" where
  "memscan 0 m a c = a"
| "memscan (Suc n) m a c = (if uint (m a) = c then a else memscan n m (Suc a) c)"

section \<open>Copying\<close>

lemma memset_bytes: "memset n m l c = memset_bytes m l (of_int c) n"
  by (induction n arbitrary: m l) (auto simp: memset_bytes_def fun_eq_iff)

lemma copy_forward_memcopy:
  "d \<le> s \<or> s + n \<le> d \<Longrightarrow> copy_forward n m d s = memcopy m d m s n"
proof (induction n arbitrary: m d s)
  case (Suc n)
  then have "copy_forward n (m(d := m s)) (Suc d) (Suc s) = memcopy (m(d := m s)) (Suc d) (m(d := m s)) (Suc s) n"
    by (intro Suc.IH) auto
  then show ?case using Suc.prems by (auto simp: memcopy_def fun_eq_iff Suc_diff_Suc)
qed (auto simp: memcopy_def fun_eq_iff)

lemma copy_backward_memcopy:
  "s \<le> d \<Longrightarrow> copy_backward n m (d + n) (s + n) = memcopy m d m s n"
proof (induction n arbitrary: m)
  case (Suc n)
  then have "copy_backward n (m(d + n := m (s + n))) (d + n) (s + n)
      = memcopy (m(d + n := m (s + n))) d (m(d + n := m (s + n))) s n"
    by (intro Suc.IH) auto
  then show ?case using Suc.prems by (auto simp: memcopy_def fun_eq_iff less_Suc_eq)
qed (auto simp: memcopy_def fun_eq_iff)

lemma memmove_memcopy: "memmove m d s n = memcopy m d m s (nat n)"
proof (cases "s < d \<and> int s + n > int d")
  case True
  then show ?thesis by (simp add: memmove_def copy_backward_memcopy)
next
  case False
  then have "d \<le> s \<or> s + nat n \<le> d" by linarith
  then show ?thesis using False by (auto simp: memmove_def copy_forward_memcopy)
qed

section \<open>Strings\<close>

definition cstr :: "bytes \<Rightarrow> nat \<Rightarrow> nat \<Rightarrow> bool" where
  "cstr m s k \<longleftrightarrow> m (s + k) = 0 \<and> (\<forall>i<k. m (s + i) \<noteq> 0)"

lemma cstr_0: "cstr m s 0 \<longleftrightarrow> m s = 0"
  by (simp add: cstr_def)

lemma cstr_Suc: "cstr m s (Suc k) \<longleftrightarrow> m s \<noteq> 0 \<and> cstr m (Suc s) k"
  by (auto simp: cstr_def less_Suc_eq_0_disj)

lemma strlen_from_cstr:
  "cstr m s k \<Longrightarrow> n \<le> k \<Longrightarrow> strlen_from m s n = Some k"
proof (induction "k - n" arbitrary: n)
  case 0
  then show ?case by (subst strlen_from.simps) (simp add: cstr_def)
next
  case (Suc d)
  then have "strlen_from m s (Suc n) = Some k" by simp
  then show ?case using Suc by (subst strlen_from.simps) (simp add: cstr_def)
qed

lemma strlen_cstr: "cstr m s k \<Longrightarrow> strlen m s = Some k"
  by (simp add: strlen_def strlen_from_cstr)

lemma strcmp_cstr:
  "cstr m p j \<Longrightarrow> cstr m q k \<Longrightarrow>
     \<exists>r. strcmp m p q = Some r \<and> (r = 0 \<longleftrightarrow> j = k \<and> (\<forall>i<j. m (p + i) = m (q + i)))"
proof (induction j arbitrary: p q k)
  case 0
  then show ?case by (cases k) (auto simp: cstr_0 cstr_Suc strcmp.simps [of m p q] uint_0_iff)
next
  case (Suc j)
  show ?case
  proof (cases "m p = m q")
    case True
    then obtain k' where k: "k = Suc k'" using Suc.prems by (cases k) (auto simp: cstr_0 cstr_Suc)
    have "\<exists>r. strcmp m (Suc p) (Suc q) = Some r \<and> (r = 0 \<longleftrightarrow> j = k' \<and> (\<forall>i<j. m (Suc p + i) = m (Suc q + i)))"
      using Suc.prems k by (intro Suc.IH) (simp_all add: cstr_Suc)
    then show ?thesis
      using True Suc.prems k by (auto simp: cstr_Suc strcmp.simps [of m p q] All_less_Suc2)
  next
    case False
    then show ?thesis
      using Suc.prems by (auto simp: cstr_Suc strcmp.simps [of m p q] word_uint_eq_iff intro: exI [of _ 0])
  qed
qed

declare strncmp.simps [simp del]

text \<open>\<open>strncmp\<close> of two names: they agree in their first \<open>n\<close> bytes or up to a common NUL.\<close>

definition same_name :: "nat \<Rightarrow> bytes \<Rightarrow> nat \<Rightarrow> nat \<Rightarrow> bool" where
  "same_name n m p q \<longleftrightarrow> (\<forall>i<n. (\<forall>j<i. m (p + j) \<noteq> 0) \<longrightarrow> m (p + i) = m (q + i))"

lemma same_name_Suc:
  "same_name (Suc n) m p q \<longleftrightarrow> m p = m q \<and> (m p \<noteq> 0 \<longrightarrow> same_name n m (Suc p) (Suc q))"
  by (simp add: same_name_def All_less_Suc2) blast

lemma strncmp_same_name: "strncmp m p q (int n) = 0 \<longleftrightarrow> same_name n m p q"
proof (induction n arbitrary: p q)
  case 0
  then show ?case by (simp add: strncmp.simps same_name_def)
next
  case (Suc n)
  have "strncmp m p q (int (Suc n)) = (if m p \<noteq> 0 \<and> m p = m q then strncmp m (Suc p) (Suc q) (int n)
      else uint (m p) - uint (m q))"
    by (subst strncmp.simps) simp
  then show ?case using Suc.IH by (simp add: same_name_Suc word_uint_eq_iff)
qed

lemma safestrcpy_loop_frame:
  "i < s \<or> s + n < i \<Longrightarrow> safestrcpy_loop n m s t i = m i"
  by (induction n arbitrary: m s t) (auto simp: Let_def)

lemma safestrcpy_loop_cstr:
  assumes "s + n < t \<or> t + k < s" and "cstr m t k"
  shows "cstr (safestrcpy_loop n m s t) s (min k n) \<and>
     (\<forall>i<min k n. safestrcpy_loop n m s t (s + i) = m (t + i))"
  using assms
proof (induction n arbitrary: m s t k)
  case 0
  then show ?case by (simp add: cstr_def)
next
  case (Suc n)
  show ?case
  proof (cases k)
    case 0
    then show ?thesis using Suc.prems by (simp add: cstr_def Let_def)
  next
    case (Suc k')
    let ?m = "m(s := m t)"
    have c: "m t \<noteq> 0" "cstr m (Suc t) k'" using Suc.prems Suc by (simp_all add: cstr_Suc)
    then have c': "cstr ?m (Suc t) k'" using Suc.prems Suc by (auto simp: cstr_def)
    have IH: "cstr (safestrcpy_loop n ?m (Suc s) (Suc t)) (Suc s) (min k' n) \<and>
        (\<forall>i<min k' n. safestrcpy_loop n ?m (Suc s) (Suc t) (Suc s + i) = ?m (Suc t + i))"
      by (rule Suc.IH [OF _ c']) (use Suc.prems Suc in auto)
    moreover have "safestrcpy_loop n ?m (Suc s) (Suc t) s = m t" by (simp add: safestrcpy_loop_frame)
    moreover have "?m (Suc t + i) = m (Suc t + i)" if "i < k'" for i using Suc.prems Suc that by auto
    ultimately show ?thesis
      using c Suc by (auto simp: cstr_Suc Let_def less_Suc_eq_0_disj)
  qed
qed

section \<open>Properties\<close>

text \<open>C28: For every source, destination and length, overlapping or not, \<open>memmove\<close> leaves in the
  destination the bytes the source had before the call, and every other byte unchanged; a negative
  length copies nothing.\<close>

theorem memmove_correct:
  "memmove m d s n (d + i) = (if int i < n then m (s + i) else m (d + i)) \<and>
   (a < d \<or> int d + n \<le> int a \<longrightarrow> memmove m d s n a = m a)"
  by (auto simp: memmove_memcopy memcopy_def)

theorem memmove_correct_witness:
  "memmove ((\<lambda>_. 0)(1 := 7, 2 := 8, 3 := 9)) 2 1 3 4 = 9 \<and>
   memmove ((\<lambda>_. 0)(1 := 7, 2 := 8, 3 := 9)) 2 1 3 1 = 7"
  using memmove_correct [of "(\<lambda>_. 0)(1 := 7, 2 := 8, 3 := 9)" 2 1 3 2]
    memmove_correct [of "(\<lambda>_. 0)(1 := 7, 2 := 8, 3 := 9)" 2 1 3 0 1] by simp

text \<open>\<open>safestrcpy\<close> of a string into a buffer of \<open>n > 0\<close> bytes that does not overlap it leaves a
  terminated string there, the longest prefix of the source that fits, and writes nothing outside
  the buffer.\<close>

lemma safestrcpy_correct:
  assumes "n > 0" and "int s + n \<le> int t \<or> t + k < s" and "cstr m t k"
  shows "strlen (safestrcpy m s t n) s = Some (min k (nat n - 1)) \<and>
    (\<forall>i<min k (nat n - 1). safestrcpy m s t n (s + i) = m (t + i)) \<and>
    (\<forall>i. i < s \<or> int s + n \<le> int i \<longrightarrow> safestrcpy m s t n i = m i)"
proof -
  have e: "safestrcpy m s t n = safestrcpy_loop (nat n - 1) m s t"
    using assms(1) by (simp add: safestrcpy_def nat_diff_distrib)
  have "s + (nat n - 1) < t \<or> t + k < s" using assms(1,2) by linarith
  from safestrcpy_loop_cstr [OF this assms(3)] show ?thesis
    unfolding e using assms(1) by (auto simp: strlen_cstr intro!: safestrcpy_loop_frame)
qed

lemma safestrcpy_example:
  "strlen (safestrcpy ((\<lambda>_. 0)(20 := 97, 21 := 98, 22 := 99)) 4 20 3) 4 = Some 2 \<and>
   strlen (safestrcpy ((\<lambda>_. 0)(20 := 97, 21 := 98, 22 := 99)) 4 20 9) 4 = Some 3"
proof -
  have c: "cstr ((\<lambda>_. 0)(20 := 97, 21 := 98, 22 := 99)) 20 3"
    by (simp add: numeral_3_eq_3 cstr_Suc cstr_0)
  show ?thesis
    using safestrcpy_correct [OF _ _ c, of 3 4] safestrcpy_correct [OF _ _ c, of 9 4] by simp
qed

end
