(* ===== verification/Ring.thy ===== *)
theory Ring
  imports K_Prelude
begin

text \<open>
  Ring buffers with free-running counters, as pipes and the console use them: a read and a write
  counter of machine width that wrap, and an array of \<open>N\<close> cells indexed by the counter modulo \<open>N\<close>,
  where \<open>N\<close> divides the range of the counter. The cells between the counters are a queue.
\<close>

definition ring_len :: "'a::len word \<Rightarrow> 'a word \<Rightarrow> nat" where
  "ring_len r w = unat (w - r)"

definition ring_list :: "nat \<Rightarrow> (nat \<Rightarrow> 'b) \<Rightarrow> 'a::len word \<Rightarrow> 'a word \<Rightarrow> 'b list" where
  "ring_list N d r w = map (\<lambda>k. d ((unat r + k) mod N)) [0..<ring_len r w]"

lemma length_ring_list [simp]: "length (ring_list N d r w) = ring_len r w"
  by (simp add: ring_list_def)

lemma ring_len_0: "ring_len r w = 0 \<longleftrightarrow> r = w"
  by (auto simp: ring_len_def unat_eq_0)

lemma ring_list_Nil: "ring_list N d r w = [] \<longleftrightarrow> r = w"
  by (metis length_0_conv length_ring_list ring_len_0)

lemma unat_plus_mod:
  fixes r :: "'a::len word"
  assumes "N dvd 2 ^ LENGTH('a)"
  shows "unat (r + x) mod N = (unat r + unat x) mod N"
  using assms by (simp add: unat_word_ariths mod_mod_cancel)

lemma ring_index:
  fixes r :: "'a::len word"
  assumes "N dvd 2 ^ LENGTH('a)"
  shows "unat w mod N = (unat r + ring_len r w) mod N"
  using unat_plus_mod [OF assms, of r "w - r"] by (simp add: ring_len_def)

lemma mod_neq_window:
  assumes "(i :: nat) < j" and "j < i + N"
  shows "i mod N \<noteq> j mod N"
proof
  assume "i mod N = j mod N"
  then have "N dvd j - i" using assms(1) mod_eq_dvd_iff_nat [of i j N] by simp
  then show False using assms nat_dvd_not_less [of "j - i" N] by simp
qed

lemma ring_len_Suc:
  fixes r :: "'a::len word"
  assumes "ring_len r w + 1 < 2 ^ LENGTH('a)"
  shows "ring_len r (w + 1) = Suc (ring_len r w)"
proof -
  have e: "w + 1 - r = (w - r) + 1" by simp
  have "unat ((w - r) + 1) = Suc (unat (w - r))"
    using assms by (simp add: ring_len_def unat_word_ariths)
  then show ?thesis unfolding ring_len_def e .
qed

lemma ring_put:
  fixes r :: "'a::len word"
  assumes "N dvd 2 ^ LENGTH('a)" and "N < 2 ^ LENGTH('a)" and "ring_len r w < N"
  shows "ring_list N (d(unat w mod N := c)) r (w + 1) = ring_list N d r w @ [c]"
proof -
  have len: "ring_len r (w + 1) = Suc (ring_len r w)" using assms by (intro ring_len_Suc) simp
  have "(unat r + k) mod N \<noteq> unat w mod N" if "k < ring_len r w" for k
    unfolding ring_index [OF assms(1), of w r] using that assms(3) by (intro mod_neq_window) simp_all
  then show ?thesis
    unfolding ring_list_def len by (simp add: ring_index [OF assms(1), of w r])
qed

lemma ring_len_get:
  fixes r :: "'a::len word"
  assumes "r \<noteq> w"
  shows "ring_len r w = Suc (ring_len (r + 1) w)"
proof -
  have e: "w - (r + 1) = (w - r) - 1" by simp
  have "w - r \<noteq> 0" using assms by simp
  then have "1 \<le> w - r" by (simp add: word_le_nat_alt unat_eq_0 Suc_le_eq unat_gt_0)
  then have "unat ((w - r) - 1) = unat (w - r) - 1" by (simp add: unat_sub)
  moreover have "unat (w - r) \<noteq> 0" using assms by (simp add: unat_eq_0)
  ultimately show ?thesis unfolding ring_len_def e by simp
qed

lemma ring_get:
  fixes r :: "'a::len word"
  assumes "N dvd 2 ^ LENGTH('a)" and "r \<noteq> w"
  shows "ring_list N d r w = d (unat r mod N) # ring_list N d (r + 1) w"
proof -
  have "(unat (r + 1) + k) mod N = (unat r + Suc k) mod N" for k
  proof -
    have "unat (r + 1) mod N = Suc (unat r) mod N"
      using unat_plus_mod [OF assms(1), of r 1] by simp
    then show ?thesis by (metis add_Suc_right add_Suc mod_add_left_eq)
  qed
  then show ?thesis
    unfolding ring_list_def ring_len_get [OF assms(2)]
    by (simp add: upt_conv_Cons map_Suc_upt [symmetric] del: upt_Suc)
qed

lemma ring_snoc:
  fixes r :: "'a::len word"
  assumes "N dvd 2 ^ LENGTH('a)" and "w + 1 \<noteq> r"
  shows "ring_list N d r (w + 1) = ring_list N d r w @ [d (unat w mod N)]"
proof -
  have "ring_len r w + 1 < 2 ^ LENGTH('a)"
  proof (rule ccontr)
    assume "\<not> ?thesis"
    then have "unat (w - r) = 2 ^ LENGTH('a) - 1"
      using unsigned_less [of "w - r", where ?'a = nat] unfolding ring_len_def by linarith
    then have "w - r = - 1"
      by (simp add: word_unat_eq_iff unsigned_minus_1_eq_mask mask_eq_exp_minus_1)
    then show False using assms(2) by (simp add: diff_eq_eq)
  qed
  then show ?thesis
    by (simp add: ring_list_def ring_len_Suc ring_index [OF assms(1), of w r])
qed

lemma ring_unput:
  fixes r :: "'a::len word"
  assumes "N dvd 2 ^ LENGTH('a)" and "r \<noteq> w"
  shows "ring_list N d r (w - 1) = butlast (ring_list N d r w)"
    and "last (ring_list N d r w) = d (unat (w - 1) mod N)"
  using ring_snoc [OF assms(1), of "w - 1" r d] assms(2) by simp_all

lemma ring_len_unput:
  fixes r :: "'a::len word"
  assumes "r \<noteq> w"
  shows "ring_len r w = Suc (ring_len r (w - 1))"
  using arg_cong [OF ring_unput(1) [of 1 r w "\<lambda>_. ()"], of length] assms ring_len_0 [of r w] by simp

lemma ring_append:
  fixes r :: "'a::len word"
  assumes "N dvd 2 ^ LENGTH('a)" and "ring_len r w + ring_len w e < 2 ^ LENGTH('a)"
  shows "ring_len r e = ring_len r w + ring_len w e" and "ring_list N d r e = ring_list N d r w @ ring_list N d w e"
proof -
  have e: "e - r = (w - r) + (e - w)" by simp
  show len: "ring_len r e = ring_len r w + ring_len w e"
    unfolding ring_len_def e unat_word_ariths using assms(2) by (simp only: ring_len_def mod_less)
  have "(unat w + k) mod N = (unat r + (ring_len r w + k)) mod N" for k
    by (metis (no_types) ring_index [OF assms(1)] mod_add_left_eq add.assoc)
  then show "ring_list N d r e = ring_list N d r w @ ring_list N d w e"
    unfolding ring_list_def len by (intro nth_equalityI) (auto simp: nth_append)
qed

end
