(* ===== verification/Pipe.thy ===== *)
theory Pipe
  imports Ring
begin

text \<open>
  Pipes (\<open>kern/pipe.c\<close>): the ring buffer with its two 32-bit counters, which run freely and wrap,
  and the processes that sleep on it. A call holds the pipe's lock except while it sleeps, so a
  call is a sequence of atomic runs, each from where the process got the lock to where it returns
  or goes to sleep; \<open>pipe_step\<close> interleaves the runs of any number of readers and writers, with
  closing of either end and with wakeups from elsewhere (a signal). The buffer is related to the
  queue of the bytes in it. \<open>pipealloc\<close> is modelled with the file table.
\<close>

section \<open>Operations\<close>

definition PIPESIZE :: u32 where "PIPESIZE = 512"

record pipe =
  pdata :: "nat \<Rightarrow> u8"
  nread :: u32
  nwrite :: u32
  readopen :: bool
  writeopen :: bool

text \<open>The two channels a process can sleep on, and how a run ends.\<close>

datatype pipe_chan = Nread | Nwrite

datatype pipe_out = Returned int | Asleep nat

function pipewrite ::
    "pipe \<Rightarrow> bool \<Rightarrow> (nat \<Rightarrow> u8) \<Rightarrow> int \<Rightarrow> nat \<Rightarrow> pipe \<times> pipe_chan list \<times> pipe_out" where
  "pipewrite pi killed addr n i = (
    if int i < n then
      if nwrite pi = nread pi + PIPESIZE then
        if \<not> readopen pi \<or> killed then (pi, [], Returned (- 1))
        else (pi, [Nread], Asleep i)
      else pipewrite
        (pi\<lparr>pdata := (pdata pi)(unat (nwrite pi mod PIPESIZE) := addr i), nwrite := nwrite pi + 1\<rparr>)
        killed addr n (Suc i)
    else (pi, [Nread], Returned (int i)))"
  by pat_completeness auto

termination
  by (relation "measure (\<lambda>(pi, killed, addr, n, i). nat (n - int i))") auto

declare pipewrite.simps [simp del]

text \<open>The copying loop of \<open>piperead\<close>; the list collects what it stores at \<open>addr\<close>.\<close>

primrec piperead_loop :: "nat \<Rightarrow> pipe \<Rightarrow> u8 list \<Rightarrow> pipe \<times> u8 list" where
  "piperead_loop 0 pi out = (pi, out)"
| "piperead_loop (Suc n) pi out = (
    if nread pi = nwrite pi then (pi, out)
    else piperead_loop n (pi\<lparr>nread := nread pi + 1\<rparr>)
      (out @ [pdata pi (unat (nread pi mod PIPESIZE))]))"

definition piperead :: "pipe \<Rightarrow> bool \<Rightarrow> int \<Rightarrow> pipe \<times> u8 list \<times> pipe_chan list \<times> pipe_out" where
  "piperead pi killed n = (
    if nread pi = nwrite pi \<and> writeopen pi then
      if killed then (pi, [], [], Returned (- 1)) else (pi, [], [], Asleep 0)
    else let (pi, out) = piperead_loop (nat n) pi []
      in (pi, out, [Nwrite], Returned (int (length out))))"

text \<open>\<open>pipeclose\<close>: the flag says that both ends are closed and the page is given back.\<close>

definition pipeclose :: "pipe \<Rightarrow> bool \<Rightarrow> pipe \<times> pipe_chan list \<times> bool" where
  "pipeclose pi writable = (
    let (pi, wakes) =
      (if writable then (pi\<lparr>writeopen := False\<rparr>, [Nread]) else (pi\<lparr>readopen := False\<rparr>, [Nwrite]))
    in (pi, wakes, \<not> readopen pi \<and> \<not> writeopen pi))"

section \<open>Processes at a pipe\<close>

datatype pthread =
    Idle
  | WRun "nat \<Rightarrow> u8" int nat
  | WSleep "nat \<Rightarrow> u8" int nat
  | RRun int
  | RSleep int

fun woken :: "pipe_chan list \<Rightarrow> pthread \<Rightarrow> pthread" where
  "woken wakes (WSleep addr n i) = (if Nwrite \<in> set wakes then WRun addr n i else WSleep addr n i)"
| "woken wakes (RSleep n) = (if Nread \<in> set wakes then RRun n else RSleep n)"
| "woken wakes th = th"

record pconf =
  pip :: pipe
  threads :: "nat \<Rightarrow> pthread"
  sent :: "u8 list"
  got :: "u8 list"

inductive pipe_step :: "pconf \<Rightarrow> pconf \<Rightarrow> bool" where
  call_write: "threads c t = Idle \<Longrightarrow> pipe_step c (c\<lparr>threads := (threads c)(t := WRun addr n 0)\<rparr>)"
| call_read: "threads c t = Idle \<Longrightarrow> pipe_step c (c\<lparr>threads := (threads c)(t := RRun n)\<rparr>)"
| run_write: "threads c t = WRun addr n i \<Longrightarrow> pipewrite (pip c) killed addr n i = (pi', wakes, out) \<Longrightarrow>
    pipe_step c (c\<lparr>pip := pi',
      threads := (woken wakes \<circ> threads c)(t := (case out of Returned _ \<Rightarrow> Idle | Asleep j \<Rightarrow> WSleep addr n j)),
      sent := sent c @ map addr [i..<i + unat (nwrite pi' - nwrite (pip c))]\<rparr>)"
| run_read: "threads c t = RRun n \<Longrightarrow> piperead (pip c) killed n = (pi', bs, wakes, out) \<Longrightarrow>
    pipe_step c (c\<lparr>pip := pi',
      threads := (woken wakes \<circ> threads c)(t := (case out of Returned _ \<Rightarrow> Idle | Asleep _ \<Rightarrow> RSleep n)),
      got := got c @ bs\<rparr>)"
| close: "pipeclose (pip c) writable = (pi', wakes, freed) \<Longrightarrow>
    pipe_step c (c\<lparr>pip := pi', threads := woken wakes \<circ> threads c\<rparr>)"
| signalled: "threads c t = th \<Longrightarrow> pipe_step c (c\<lparr>threads := (threads c)(t := woken [Nread, Nwrite] th)\<rparr>)"

section \<open>The queue in the buffer\<close>

definition pipe_len :: "pipe \<Rightarrow> nat" where
  "pipe_len pi = ring_len (nread pi) (nwrite pi)"

definition pipe_queue :: "pipe \<Rightarrow> u8 list" where
  "pipe_queue pi = ring_list 512 (pdata pi) (nread pi) (nwrite pi)"

definition pipe_inv :: "pipe \<Rightarrow> bool" where
  "pipe_inv pi \<longleftrightarrow> pipe_len pi \<le> 512"

lemma length_pipe_queue [simp]: "length (pipe_queue pi) = pipe_len pi"
  by (simp add: pipe_queue_def pipe_len_def)

lemma pipe_queue_Nil [simp]: "pipe_len pi = 0 \<Longrightarrow> pipe_queue pi = []"
  by (simp flip: length_pipe_queue)

lemma pipe_full_iff: "nwrite pi = nread pi + PIPESIZE \<longleftrightarrow> pipe_len pi = 512"
proof -
  have "nwrite pi = nread pi + PIPESIZE \<longleftrightarrow> nwrite pi - nread pi = 512"
    by (auto simp: PIPESIZE_def algebra_simps)
  then show ?thesis by (simp add: pipe_len_def ring_len_def word_unat_eq_iff)
qed

lemma pipe_empty_iff: "nread pi = nwrite pi \<longleftrightarrow> pipe_len pi = 0"
  by (auto simp: pipe_len_def ring_len_0)

lemma mod_PIPESIZE: "unat (x mod PIPESIZE) = unat x mod 512"
  by (simp add: PIPESIZE_def unat_mod)

lemma pipe_put:
  fixes c :: u8
  assumes "pipe_inv pi" and "pipe_len pi \<noteq> 512"
  defines "pi' \<equiv> pi\<lparr>pdata := (pdata pi)(unat (nwrite pi mod PIPESIZE) := c), nwrite := nwrite pi + 1\<rparr>"
  shows "pipe_len pi' = Suc (pipe_len pi)" and "pipe_queue pi' = pipe_queue pi @ [c]" and "pipe_inv pi'"
proof -
  have lt: "ring_len (nread pi) (nwrite pi) < 512" using assms(1,2) by (simp add: pipe_inv_def pipe_len_def)
  then show len: "pipe_len pi' = Suc (pipe_len pi)"
    using ring_len_Suc [of "nread pi" "nwrite pi"] by (simp add: pipe_len_def pi'_def)
  then show "pipe_inv pi'" using lt by (simp add: pipe_inv_def pipe_len_def)
  show "pipe_queue pi' = pipe_queue pi @ [c]"
    using ring_put [of 512 "nread pi" "nwrite pi"] lt by (simp add: pipe_queue_def pi'_def mod_PIPESIZE)
qed

lemma pipe_get:
  assumes "pipe_len pi \<noteq> 0"
  defines "pi' \<equiv> pi\<lparr>nread := nread pi + 1\<rparr>"
  shows "pipe_queue pi = pdata pi (unat (nread pi mod PIPESIZE)) # pipe_queue pi'"
    and "pipe_inv pi \<Longrightarrow> pipe_inv pi'"
proof -
  have ne: "nread pi \<noteq> nwrite pi" using assms(1) by (simp add: pipe_len_def ring_len_0)
  show "pipe_inv pi \<Longrightarrow> pipe_inv pi'"
    using ring_len_get [OF ne] by (simp add: pipe_inv_def pipe_len_def pi'_def)
  show "pipe_queue pi = pdata pi (unat (nread pi mod PIPESIZE)) # pipe_queue pi'"
    using ring_get [OF _ ne, of 512] by (simp add: pipe_queue_def pi'_def mod_PIPESIZE)
qed

lemma piperead_loop_queue:
  "pipe_inv pi \<Longrightarrow> piperead_loop n pi out = (pi', out') \<Longrightarrow>
     out' = out @ take n (pipe_queue pi) \<and> pipe_queue pi' = drop n (pipe_queue pi) \<and> pipe_inv pi' \<and>
     readopen pi' = readopen pi \<and> writeopen pi' = writeopen pi"
proof (induction n arbitrary: pi out)
  case (Suc n)
  show ?case
  proof (cases "pipe_len pi = 0")
    case True
    then have "pipe_queue pi = []" by simp
    then show ?thesis using True Suc.prems by (simp add: pipe_empty_iff)
  next
    case False
    note g = pipe_get [OF False]
    show ?thesis
      using Suc.IH [of "pi\<lparr>nread := nread pi + 1\<rparr>" "out @ [pdata pi (unat (nread pi mod PIPESIZE))]"]
        Suc.prems False g by (simp add: pipe_empty_iff)
  qed
qed auto

text \<open>
  A run of \<open>pipewrite\<close> puts the bytes from \<open>i\<close> up to some \<open>j\<close> into the queue; it ends with all of
  them written, or with a full buffer.
\<close>

lemma pipewrite_queue:
  assumes "pipe_inv pi" and "pipewrite pi killed addr n i = (pi', wakes, out)"
  shows "\<exists>j\<ge>i. pipe_queue pi' = pipe_queue pi @ map addr [i..<j] \<and> nwrite pi' = nwrite pi + of_nat (j - i) \<and>
     nread pi' = nread pi \<and> pipe_inv pi' \<and> readopen pi' = readopen pi \<and> writeopen pi' = writeopen pi \<and>
     (wakes = [Nread] \<and> (out = Returned (int j) \<and> n \<le> int j \<and> (i = j \<or> n = int j) \<or> out = Asleep j \<and> int j < n \<and> pipe_len pi' = 512 \<and> readopen pi \<and> \<not> killed) \<or>
      wakes = [] \<and> out = Returned (- 1) \<and> int j < n \<and> pipe_len pi' = 512 \<and> (killed \<or> \<not> readopen pi))"
  using assms
proof (induction pi killed addr n i rule: pipewrite.induct)
  case (1 pi killed addr n i)
  consider "\<not> int i < n" | "int i < n" "pipe_len pi = 512" | "int i < n" "pipe_len pi \<noteq> 512" by blast
  then show ?case
  proof cases
    case 3
    let ?pi = "pi\<lparr>pdata := (pdata pi)(unat (nwrite pi mod PIPESIZE) := addr i), nwrite := nwrite pi + 1\<rparr>"
    note put = pipe_put [OF 1(2) 3(2), of "addr i"]
    have "pipewrite ?pi killed addr n (Suc i) = (pi', wakes, out)"
      using 1(3) 3 by (subst (asm) pipewrite.simps) (simp add: pipe_full_iff)
    from 1(1) [OF 3(1) _ put(3) this] 3 obtain j where j: "j \<ge> Suc i"
      "pipe_queue pi' = pipe_queue ?pi @ map addr [Suc i..<j]" "nwrite pi' = nwrite ?pi + of_nat (j - Suc i)"
      "nread pi' = nread ?pi" "pipe_inv pi'" "readopen pi' = readopen ?pi" "writeopen pi' = writeopen ?pi"
      and out: "(wakes = [Nread] \<and> (out = Returned (int j) \<and> n \<le> int j \<and> (Suc i = j \<or> n = int j) \<or> out = Asleep j \<and> int j < n \<and> pipe_len pi' = 512 \<and> readopen ?pi \<and> \<not> killed) \<or>
      wakes = [] \<and> out = Returned (- 1) \<and> int j < n \<and> pipe_len pi' = 512 \<and> (killed \<or> \<not> readopen ?pi))"
      by (auto simp: pipe_full_iff)
    have "[i..<j] = i # [Suc i..<j]" using j(1) by (simp add: upt_conv_Cons)
    then have "pipe_queue pi' = pipe_queue pi @ map addr [i..<j]" using j(2) put(2) by simp
    moreover have "nwrite pi' = nwrite pi + of_nat (j - i)"
      using j(1,3) by (simp add: Suc_diff_Suc [symmetric] le_simps)
    ultimately show ?thesis
      using j out 3(1) by (intro exI [of _ j] conjI) auto
  next
    case 1
    then show ?thesis
      using "1.prems" by (intro exI [of _ i]) (simp add: pipewrite.simps [of pi killed addr n i])
  next
    case 2
    then show ?thesis
      using "1.prems" by (intro exI [of _ i])
        (auto simp: pipewrite.simps [of pi killed addr n i] pipe_full_iff split: if_splits)
  qed
qed

section \<open>Reachable configurations\<close>

fun w_asleep :: "pthread \<Rightarrow> bool" where
  "w_asleep (WSleep _ _ _) = True"
| "w_asleep _ = False"

fun r_asleep :: "pthread \<Rightarrow> bool" where
  "r_asleep (RSleep _) = True"
| "r_asleep _ = False"

definition pconf_inv :: "pconf \<Rightarrow> bool" where
  "pconf_inv c \<longleftrightarrow> pipe_inv (pip c) \<and> sent c = got c @ pipe_queue (pip c) \<and>
    (\<forall>t. w_asleep (threads c t) \<longrightarrow> pipe_len (pip c) = 512 \<and> readopen (pip c)) \<and>
    (\<forall>t u. \<not> (w_asleep (threads c t) \<and> r_asleep (threads c u)))"

definition pipe_start :: "pconf \<Rightarrow> bool" where
  "pipe_start c \<longleftrightarrow> nread (pip c) = nwrite (pip c) \<and> threads c = (\<lambda>_. Idle) \<and> sent c = [] \<and> got c = []"

lemma asleep_woken [simp]:
  "w_asleep (woken wakes th) \<longleftrightarrow> w_asleep th \<and> Nwrite \<notin> set wakes"
  "r_asleep (woken wakes th) \<longleftrightarrow> r_asleep th \<and> Nread \<notin> set wakes"
  by (cases th; simp)+

lemma pipe_start_inv: "pipe_start c \<Longrightarrow> pconf_inv c"
  by (simp add: pipe_start_def pconf_inv_def pipe_inv_def pipe_empty_iff)

lemma run_write_inv:
  assumes inv: "pconf_inv c" and t: "threads c t = WRun addr n i"
    and run: "pipewrite (pip c) killed addr n i = (pi', wakes, out)"
  shows "pconf_inv (c\<lparr>pip := pi',
      threads := (woken wakes \<circ> threads c)(t := (case out of Returned _ \<Rightarrow> Idle | Asleep j \<Rightarrow> WSleep addr n j)),
      sent := sent c @ map addr [i..<i + unat (nwrite pi' - nwrite (pip c))]\<rparr>)"
proof -
  have pi: "pipe_inv (pip c)" using inv by (simp add: pconf_inv_def)
  from pipewrite_queue [OF pi run] obtain j where j: "i \<le> j" "pipe_queue pi' = pipe_queue (pip c) @ map addr [i..<j]"
    "nwrite pi' = nwrite (pip c) + of_nat (j - i)" "pipe_inv pi'" "readopen pi' = readopen (pip c)"
    and out: "wakes = [Nread] \<and> (\<exists>r. out = Returned r) \<or> wakes = [Nread] \<and> out = Asleep j \<and> pipe_len pi' = 512 \<and> readopen (pip c) \<or>
      wakes = [] \<and> (\<exists>r. out = Returned r)"
    by blast
  have len: "pipe_len pi' = pipe_len (pip c) + (j - i)"
    using arg_cong [OF j(2), of length] by simp
  then have "j - i \<le> 512" using j(4) by (simp add: pipe_inv_def)
  then have "unat (of_nat (j - i) :: u32) = j - i" by (simp only: unat_of_nat_u32)
  moreover have "nwrite pi' - nwrite (pip c) = of_nat (j - i)" unfolding j(3) by simp
  ultimately have s: "i + unat (nwrite pi' - nwrite (pip c)) = j" using j(1) by simp
  have "pipe_len pi' = 512" if "w_asleep (threads c u)" for u
    using inv that len j(4) by (auto simp: pconf_inv_def pipe_inv_def)
  then show ?thesis
    unfolding s using inv j out by (auto simp: pconf_inv_def split: if_splits)
qed

lemma run_read_inv:
  assumes inv: "pconf_inv c" and t: "threads c t = RRun n"
    and run: "piperead (pip c) killed n = (pi', bs, wakes, out)"
  shows "pconf_inv (c\<lparr>pip := pi',
      threads := (woken wakes \<circ> threads c)(t := (case out of Returned _ \<Rightarrow> Idle | Asleep _ \<Rightarrow> RSleep n)),
      got := got c @ bs\<rparr>)"
proof (cases "nread (pip c) = nwrite (pip c) \<and> writeopen (pip c)")
  case True
  then have "\<not> w_asleep (threads c u)" for u
    using inv by (auto simp: pconf_inv_def pipe_empty_iff)
  then show ?thesis
    using True run inv by (auto simp: piperead_def pconf_inv_def split: if_splits)
next
  case False
  obtain pi2 out2 where l: "piperead_loop (nat n) (pip c) [] = (pi2, out2)" by fastforce
  have r: "pi' = pi2" "bs = out2" "wakes = [Nwrite]" "\<exists>v. out = Returned v"
    using run False l by (auto simp: piperead_def)
  have "pipe_inv (pip c)" using inv by (simp add: pconf_inv_def)
  from piperead_loop_queue [OF this l] have q: "bs @ pipe_queue pi' = pipe_queue (pip c)" "pipe_inv pi'"
    by (simp_all add: r)
  show ?thesis using inv q r(3,4) by (auto simp: pconf_inv_def)
qed

lemma close_inv:
  assumes "pconf_inv c" and "pipeclose (pip c) writable = (pi', wakes, freed)"
  shows "pconf_inv (c\<lparr>pip := pi', threads := woken wakes \<circ> threads c\<rparr>)"
proof (cases writable)
  case True
  then have "pi' = pip c\<lparr>writeopen := False\<rparr>" "wakes = [Nread]"
    using assms(2) by (auto simp: pipeclose_def)
  then show ?thesis using assms(1) by (simp add: pconf_inv_def pipe_inv_def pipe_queue_def pipe_len_def)
next
  case False
  then have "pi' = pip c\<lparr>readopen := False\<rparr>" "wakes = [Nwrite]"
    using assms(2) by (auto simp: pipeclose_def)
  then show ?thesis using assms(1) by (simp add: pconf_inv_def pipe_inv_def pipe_queue_def pipe_len_def)
qed

lemma pipe_step_inv: "pipe_step c c' \<Longrightarrow> pconf_inv c \<Longrightarrow> pconf_inv c'"
proof (induction rule: pipe_step.induct)
  case (run_write c t addr n i killed pi' wakes out)
  then show ?case by (intro run_write_inv)
next
  case (run_read c t n killed pi' bs wakes out)
  then show ?case by (intro run_read_inv)
next
  case (close c writable pi' wakes freed)
  then show ?case by (intro close_inv)
qed (auto simp: pconf_inv_def)

lemma pipe_reachable_inv: "pipe_step\<^sup>*\<^sup>* c0 c \<Longrightarrow> pipe_start c0 \<Longrightarrow> pconf_inv c"
  by (induction rule: rtranclp_induct) (auto intro: pipe_start_inv pipe_step_inv)

section \<open>Properties\<close>

text \<open>C26: Under every interleaving of readers, writers, closing and signals, a pipe is a queue: the
  bytes read so far, followed by those in the buffer, are the bytes written so far, in order, none
  lost and none twice, however often the 32-bit counters have wrapped; the buffer never holds more
  than 512.\<close>

theorem pipe_fifo:
  assumes "pipe_start c0" and "pipe_step\<^sup>*\<^sup>* c0 c"
  shows "sent c = got c @ pipe_queue (pip c) \<and> length (pipe_queue (pip c)) \<le> 512"
  using pipe_reachable_inv [OF assms(2,1)] by (simp add: pconf_inv_def pipe_inv_def)

text \<open>A reader that sleeps on the empty pipe and a byte written across the wrap of the counters.\<close>

definition pipe0 :: pipe where
  "pipe0 = \<lparr>pdata = (\<lambda>_. 0), nread = - 1, nwrite = - 1, readopen = True, writeopen = True\<rparr>"

definition pconf0 :: pconf where
  "pconf0 = \<lparr>pip = pipe0, threads = (\<lambda>_. Idle), sent = [], got = []\<rparr>"

definition pconf1 :: pconf where
  "pconf1 = pconf0\<lparr>threads := (\<lambda>_. Idle)(0 := RSleep 4)\<rparr>"

definition pconf2 :: pconf where
  "pconf2 = \<lparr>pip = \<lparr>pdata = (\<lambda>_. 0)(511 := 7), nread = - 1, nwrite = 0, readopen = True, writeopen = True\<rparr>,
     threads = (\<lambda>_. Idle)(0 := RRun 4, 1 := Idle), sent = [7], got = []\<rparr>"

lemma pconf1_reachable: "pipe_step\<^sup>*\<^sup>* pconf0 pconf1"
proof -
  have "pipe_step pconf0 (pconf0\<lparr>threads := (\<lambda>_. Idle)(0 := RRun 4)\<rparr>)"
    using call_read [of pconf0 0 4] by (simp add: pconf0_def)
  moreover have "pipe_step (pconf0\<lparr>threads := (\<lambda>_. Idle)(0 := RRun 4)\<rparr>) pconf1"
    using run_read [of "pconf0\<lparr>threads := (\<lambda>_. Idle)(0 := RRun 4)\<rparr>" 0 4 False pipe0 "[]" "[]" "Asleep 0"]
    by (simp add: pconf0_def pconf1_def pipe0_def piperead_def comp_def fun_upd_def if_distrib [of "woken _"] cong: if_cong)
  ultimately show ?thesis by auto
qed

lemma pconf2_reachable: "pipe_step\<^sup>*\<^sup>* pconf0 pconf2"
proof -
  let ?c = "pconf1\<lparr>threads := (\<lambda>_. Idle)(0 := RSleep 4, 1 := WRun (\<lambda>_. 7) 1 0)\<rparr>"
  have "pipe_step pconf1 ?c"
    using call_write [of pconf1 1 "\<lambda>_. 7" 1] by (simp add: pconf1_def pconf0_def)
  moreover have "pipewrite pipe0 False (\<lambda>_. 7) 1 0 = (pip pconf2, [Nread], Returned 1)"
    by (simp add: pipewrite.simps pipe0_def pconf2_def PIPESIZE_def)
  then have "pipe_step ?c pconf2"
    using run_write [of ?c 1 "\<lambda>_. 7" 1 0 False "pip pconf2" "[Nread]" "Returned 1"]
    by (simp add: pconf0_def pconf1_def pconf2_def pipe0_def comp_def fun_upd_def if_distrib [of "woken _"] cong: if_cong)
  ultimately show ?thesis using pconf1_reachable by (meson rtranclp.rtrancl_into_rtrancl)
qed

theorem pipe_fifo_witness:
  "sent pconf2 = got pconf2 @ pipe_queue (pip pconf2) \<and> pipe_queue (pip pconf2) = [7]"
  using pipe_fifo [OF _ pconf2_reachable]
  by (simp add: pipe_start_def pconf0_def pipe0_def pconf2_def)

text \<open>C27: A writer sleeps only at a full buffer with the read end open, and never while a reader
  sleeps: readers and writers do not block each other for ever.\<close>

theorem pipe_no_mutual_sleep:
  assumes "pipe_start c0" and "pipe_step\<^sup>*\<^sup>* c0 c"
  shows "(w_asleep (threads c t) \<longrightarrow> pipe_len (pip c) = 512 \<and> readopen (pip c)) \<and>
    \<not> (w_asleep (threads c t) \<and> r_asleep (threads c u))"
  using pipe_reachable_inv [OF assms(2,1)] by (auto simp: pconf_inv_def)

theorem pipe_no_mutual_sleep_witness:
  "r_asleep (threads pconf1 0) \<and> \<not> (w_asleep (threads pconf1 1) \<and> r_asleep (threads pconf1 0))"
  using pipe_no_mutual_sleep [OF _ pconf1_reachable, of 1 0]
  by (simp add: pipe_start_def pconf0_def pipe0_def pconf1_def)

text \<open>A killed writer that fills the buffer returns \<open>-1\<close> without waking the readers: its 512
  bytes stay in the buffer while a reader that slept on the empty pipe goes on sleeping.\<close>

lemma pipewrite_killed_no_wakeup:
  assumes "nread pi = nwrite pi" and "n > 512"
  shows "\<exists>pi'. pipewrite pi True addr n 0 = (pi', [], Returned (- 1)) \<and>
    pipe_queue pi' = map addr [0..<512] \<and> w_asleep (woken [] (WSleep addr n 0)) \<and> r_asleep (woken [] (RSleep 1))"
proof -
  have e: "pipe_len pi = 0" "pipe_queue pi = []" "pipe_inv pi"
    using assms(1) by (simp_all add: pipe_empty_iff pipe_inv_def)
  obtain pi' wakes out where run: "pipewrite pi True addr n 0 = (pi', wakes, out)" by (metis prod_cases3)
  from pipewrite_queue [OF e(3) run] obtain j where j: "pipe_queue pi' = map addr [0..<j]" "pipe_inv pi'"
    "wakes = [] \<and> out = Returned (- 1) \<and> pipe_len pi' = 512 \<or> n \<le> int j"
    using e(2) by auto
  have "pipe_len pi' = j" using arg_cong [OF j(1), of length] by simp
  then show ?thesis using j assms(2) run by (auto simp: pipe_inv_def)
qed

lemma pipewrite_killed_no_wakeup_witness:
  "\<exists>pi'. pipewrite pipe0 True (\<lambda>_. 7) 600 0 = (pi', [], Returned (- 1)) \<and> pipe_queue pi' = map (\<lambda>_. 7) [0..<512]"
  using pipewrite_killed_no_wakeup [of pipe0 600 "\<lambda>_. 7"] by (auto simp: pipe0_def)

end
