(* ===== verification/Sigset.thy ===== *)
theory Sigset
  imports K_Prelude
begin

text \<open>
  Signal sets, \<open>kern/signal.c\<close>: a set is the 64-bit word \<open>sigset_t\<close>. The shift \<open>1 << (signum - 1)\<close> is
  one of type \<open>int\<close>, so its value is sign extended to 64 bits when it meets the set. Each operation
  returns the C result and the new value of the set it writes.
\<close>

section \<open>Operations\<close>

definition NSIG :: int where "NSIG = 32"

definition sig_bit :: "int \<Rightarrow> u64" where
  "sig_bit signum = scast (push_bit (nat (signum - 1)) 1 :: u32)"

definition sigemptyset :: "u64 \<Rightarrow> int \<times> u64" where
  "sigemptyset s = (0, 0)"

definition sigfillset :: "u64 \<Rightarrow> int \<times> u64" where
  "sigfillset s = (0, 0xffffffffffffffff)"

definition sigaddset :: "u64 \<Rightarrow> int \<Rightarrow> int \<times> u64" where
  "sigaddset s signum = (
    if signum < 1 \<or> signum \<ge> NSIG then (- 1, s) else (0, s OR sig_bit signum))"

definition sigdelset :: "u64 \<Rightarrow> int \<Rightarrow> int \<times> u64" where
  "sigdelset s signum = (
    if signum < 1 \<or> signum \<ge> NSIG then (- 1, s) else (0, s AND scast (NOT (push_bit (nat (signum - 1)) 1 :: u32))))"

definition sigismember :: "u64 \<Rightarrow> int \<Rightarrow> int" where
  "sigismember s signum = (
    if signum < 1 \<or> signum \<ge> NSIG then - 1 else if s AND sig_bit signum \<noteq> 0 then 1 else 0)"

definition sigisemptyset :: "u64 \<Rightarrow> int" where
  "sigisemptyset s = (if s = 0 then 1 else 0)"

definition signotset :: "u64 \<Rightarrow> int \<times> u64" where
  "signotset src = (0, NOT src)"

definition sigorset :: "u64 \<Rightarrow> u64 \<Rightarrow> int \<times> u64" where
  "sigorset left right = (0, left OR right)"

definition sigandset :: "u64 \<Rightarrow> u64 \<Rightarrow> int \<times> u64" where
  "sigandset left right = (0, left AND right)"

definition siginitset :: "u64 \<Rightarrow> u64 \<Rightarrow> int \<times> u64" where
  "siginitset dst src = (
    let (_, dst) = sigemptyset dst; (_, dst) = sigorset dst src in (0, dst))"

section \<open>The set a word stands for\<close>

definition signals :: "u64 \<Rightarrow> int set" where
  "signals w = {n. 1 \<le> n \<and> n < NSIG \<and> bit w (nat (n - 1))}"

lemma scast_bit:
  "bit (scast (x :: u32) :: u64) i \<longleftrightarrow> i < 64 \<and> (if i < 32 then bit x i else bit x 31)"
proof (cases "i = 31")
  case False
  then have "i < 32 \<longleftrightarrow> i < 31" by linarith
  then show ?thesis by (simp add: bit_simps)
qed (simp add: bit_simps)

lemma bit_sig_bit:
  assumes "1 \<le> n" and "n < NSIG"
  shows "bit (sig_bit n) i \<longleftrightarrow> i = nat (n - 1)"
proof -
  have "nat (n - 1) < 31" using assms by (simp add: NSIG_def)
  then show ?thesis unfolding sig_bit_def scast_bit by (auto simp: bit_simps)
qed

lemma bit_sig_mask:
  assumes "1 \<le> n" and "n < NSIG" and "i < 64"
  shows "bit (scast (NOT (push_bit (nat (n - 1)) 1 :: u32)) :: u64) i \<longleftrightarrow> i \<noteq> nat (n - 1)"
proof -
  have "nat (n - 1) < 31" using assms by (simp add: NSIG_def)
  then show ?thesis unfolding scast_bit using assms(3) by (auto simp: bit_simps)
qed

lemma and_sig_bit:
  assumes "1 \<le> n" and "n < NSIG"
  shows "w AND sig_bit n \<noteq> 0 \<longleftrightarrow> bit w (nat (n - 1))"
proof -
  have "sig_bit n = push_bit (nat (n - 1)) 1"
    by (rule bit_word_eqI) (use assms bit_sig_bit in \<open>auto simp: bit_simps NSIG_def\<close>)
  then show ?thesis by (simp add: push_bit_of_1 and_exp_eq_0_iff_not_bit)
qed

text \<open>C39: The signal set operations are the operations of finite sets on the signals 1 to 31:
  membership, the empty and the full set, complement, union, intersection and copying; adding and
  deleting change membership of exactly the given signal, and a number that is not a signal is
  answered with \<open>-1\<close> and changes nothing.\<close>

theorem sigset_operations:
  "(sigismember w n = 1 \<longleftrightarrow> n \<in> signals w) \<and>
   signals (snd (sigemptyset w)) = {} \<and> signals (snd (sigfillset w)) = {1..<NSIG} \<and>
   signals (snd (signotset w)) = {1..<NSIG} - signals w \<and>
   signals (snd (sigorset w v)) = signals w \<union> signals v \<and>
   signals (snd (sigandset w v)) = signals w \<inter> signals v \<and> snd (siginitset w v) = v \<and>
   (if 1 \<le> n \<and> n < NSIG
    then sigaddset w n = (0, snd (sigaddset w n)) \<and> signals (snd (sigaddset w n)) = insert n (signals w) \<and>
         sigdelset w n = (0, snd (sigdelset w n)) \<and> signals (snd (sigdelset w n)) = signals w - {n}
    else sigaddset w n = (- 1, w) \<and> sigdelset w n = (- 1, w) \<and> sigismember w n = - 1)"
proof -
  have all: "(0xffffffffffffffff :: u64) = - 1" by simp
  have b: "nat (k - 1) < 64" if "k < NSIG" for k using that by (simp add: NSIG_def)
  have "sigismember w n = 1 \<longleftrightarrow> n \<in> signals w"
    using and_sig_bit [of n w] by (auto simp: sigismember_def signals_def)
  moreover have "signals (snd (sigaddset w n)) = insert n (signals w)"
    "signals (snd (sigdelset w n)) = signals w - {n}" if "1 \<le> n" "n < NSIG"
    using that bit_sig_bit [OF that] bit_sig_mask [OF that] b
    by (auto simp: sigaddset_def sigdelset_def signals_def bit_or_iff bit_and_iff)
  moreover have "signals (snd (sigemptyset w)) = {}" "signals (snd (sigfillset w)) = {1..<NSIG}"
    "snd (siginitset w v) = v"
    using b by (auto simp: sigemptyset_def sigfillset_def siginitset_def sigorset_def signals_def all)
  moreover have "signals (snd (signotset w)) = {1..<NSIG} - signals w"
    using b by (auto simp: signotset_def signals_def bit_not_iff)
  moreover have "signals (snd (sigorset w v)) = signals w \<union> signals v"
    "signals (snd (sigandset w v)) = signals w \<inter> signals v"
    by (auto simp: sigorset_def sigandset_def signals_def bit_or_iff bit_and_iff)
  moreover have "sigaddset w n = (0, snd (sigaddset w n))" "sigdelset w n = (0, snd (sigdelset w n))"
    if "1 \<le> n" "n < NSIG"
    using that by (simp_all add: sigaddset_def sigdelset_def)
  moreover have "sigaddset w n = (- 1, w) \<and> sigdelset w n = (- 1, w) \<and> sigismember w n = - 1"
    if "\<not> (1 \<le> n \<and> n < NSIG)"
    using that by (auto simp: sigaddset_def sigdelset_def sigismember_def)
  ultimately show ?thesis by (simp only: if_splits) blast
qed

end
