(* ===== verification/Errno.thy ===== *)
theory Errno
  imports K_Prelude
begin

text \<open>The error numbers of \<open>inc/linux/errno.h\<close> that the modelled functions return.\<close>

definition EPERM :: int where "EPERM = 1"
definition ENOENT :: int where "ENOENT = 2"
definition ESRCH :: int where "ESRCH = 3"
definition EIO :: int where "EIO = 5"
definition EBADF :: int where "EBADF = 9"
definition ENOMEM :: int where "ENOMEM = 12"
definition EACCES :: int where "EACCES = 13"
definition EFAULT :: int where "EFAULT = 14"
definition ENOTBLK :: int where "ENOTBLK = 15"
definition EEXIST :: int where "EEXIST = 17"
definition EXDEV :: int where "EXDEV = 18"
definition ENODEV :: int where "ENODEV = 19"
definition ENOTDIR :: int where "ENOTDIR = 20"
definition EISDIR :: int where "EISDIR = 21"
definition EINVAL :: int where "EINVAL = 22"
definition ENOSPC :: int where "ENOSPC = 28"

lemmas errno_defs = EPERM_def ENOENT_def ESRCH_def EIO_def EBADF_def ENOMEM_def EACCES_def EFAULT_def ENOTBLK_def EEXIST_def EXDEV_def ENODEV_def ENOTDIR_def EISDIR_def EINVAL_def ENOSPC_def

end
