(* ===== verification/Vm.thy ===== *)
theory Vm
  imports Mm Errno
begin

text \<open>
  User page tables, \<open>kern/vm.c\<close>: the four-level tables the MMU walks, built from pages of the page
  allocator in the memory \<open>mem\<close> of \<^theory_text>\<open>Mm\<close>. A table is a page of 512 cells; the functions read and
  write its cells as the code does. \<open>table_at\<close> follows a path of indices from the root, and the
  invariant says that different paths lead to different tables, none of them a free page: a write
  to one entry then changes the translation of one page only. The region list that decides which
  pages a process shares is an argument of the two functions that ask for it; the register write
  of \<open>uvm_switch\<close> and the printing of \<open>vm_stat\<close> are not modelled.
\<close>

section \<open>State and operations\<close>


definition MAP_SHARED :: u32 where "MAP_SHARED = 0x01"

text \<open>The mapped regions of a process, in the order of its list; \<open>file\<close> is an entry of the file table.\<close>

record mmap_region =
  raddr :: u64
  rlength :: u64
  roffset :: int
  rfile :: "nat option"
  rprot :: u32
  rflags :: u32

definition in_region :: "u64 \<Rightarrow> 'a mmap_region_scheme \<Rightarrow> bool" where
  "in_region start region \<longleftrightarrow> raddr region \<le> start \<and> start < raddr region + rlength region"

definition find_mmap_region :: "mmap_region list \<Rightarrow> u64 \<Rightarrow> mmap_region option" where
  "find_mmap_region regions start = find (in_region start) regions"

definition shared_at :: "mmap_region list \<Rightarrow> u64 \<Rightarrow> bool" where
  "shared_at regions va = (case find_mmap_region regions va of
     None \<Rightarrow> False | Some region \<Rightarrow> rflags region AND MAP_SHARED \<noteq> 0)"

definition PTX :: "nat \<Rightarrow> u64 \<Rightarrow> nat" where
  "PTX i va = unat (drop_bit (12 + (3 - i) * 9) va AND 0x1FF)"

definition cell :: "u64 \<Rightarrow> nat \<Rightarrow> u64" where
  "cell pgt idx = pgt + 8 * of_nat idx"

definition store :: "u64 \<Rightarrow> u64 \<Rightarrow> kmem \<Rightarrow> kmem" where
  "store a v s = s\<lparr>mem := (mem s)(a := v)\<rparr>"

definition zero_page :: "u64 \<Rightarrow> kmem \<Rightarrow> kmem" where
  "zero_page p s = s\<lparr>mem := (\<lambda>a. if a - p < PGSIZE then 0 else mem s a)\<rparr>"

definition copy_frame :: "u64 \<Rightarrow> u64 \<Rightarrow> kmem \<Rightarrow> kmem" where
  "copy_frame np p s = s\<lparr>mem := (\<lambda>a. if a - np < PGSIZE then mem s (p + (a - np)) else mem s a)\<rparr>"

definition vm_init :: "kmem \<Rightarrow> (u64 \<times> kmem) kres" where
  "vm_init s = kbind (kalloc s) (\<lambda>(pgdir, s). Inr (pgdir, if pgdir \<noteq> 0 then zero_page pgdir s else s))"

fun walk_levels :: "bool \<Rightarrow> u64 \<Rightarrow> nat list \<Rightarrow> u64 \<Rightarrow> kmem \<Rightarrow> (u64 \<times> kmem) kres" where
  "walk_levels alloc va [] pgt s = Inr (cell pgt (unat (drop_bit 12 va AND 0x1FF)), s)"
| "walk_levels alloc va (i # is) pgt s = (
    let a = cell pgt (PTX i va)
    in if mem s a AND PTE_VALID = 0 then
         if alloc then
           kbind (kalloc s) (\<lambda>(p, s).
             if p \<noteq> 0 then
               let s = store a (V2P p OR PTE_TABLE) (zero_page p s)
               in walk_levels alloc va is (P2V (PTE_ADDR (mem s a))) s
             else Inr (0, s))
         else Inr (0, s)
       else walk_levels alloc va is (P2V (PTE_ADDR (mem s a))) s)"

definition pgdir_walk :: "u64 \<Rightarrow> u64 \<Rightarrow> bool \<Rightarrow> kmem \<Rightarrow> (u64 \<times> kmem) kres" where
  "pgdir_walk pgdir va alloc s = walk_levels alloc va [0, 1, 2] pgdir s"

text \<open>The loop of \<open>uvm_map\<close>: \<open>p\<close> and \<open>e\<close> are addresses as naturals, pointers that do not wrap.\<close>

function map_pages :: "u64 \<Rightarrow> nat \<Rightarrow> nat \<Rightarrow> u64 \<Rightarrow> kmem \<Rightarrow> (int \<times> kmem) kres" where
  "map_pages pgdir p e pa s = (
    if p < e then
      kbind (pgdir_walk pgdir (of_nat p) True s) (\<lambda>(pte, s).
        if pte = 0 then Inr (- EINVAL, s)
        else if mem s pte AND PTE_VALID \<noteq> 0 then Inr (- EINVAL, s)
        else map_pages pgdir (p + 4096) e (pa + PGSIZE) (store pte (pa OR PTE_UDATA) s))
    else Inr (0, s))"
  by pat_completeness auto

termination
  by (relation "measure (\<lambda>(pgdir, p, e, pa, s). e - p)") auto

declare map_pages.simps [simp del]

definition uvm_map :: "u64 \<Rightarrow> u64 \<Rightarrow> u64 \<Rightarrow> u64 \<Rightarrow> kmem \<Rightarrow> (int \<times> kmem) kres" where
  "uvm_map pgdir va sz pa s = (
    if \<not> pa < USERTOP then Inl (Panic ''uvm_map'')
    else map_pages pgdir (unat (ROUNDDOWN va PGSIZE)) (unat va + unat sz) (ROUNDDOWN pa PGSIZE) s)"

text \<open>
  \<open>uvm_dealloc\<close> hands the physical address itself to \<open>kfree\<close>. Sizes are below \<open>USERTOP\<close>, so the
  loop's addresses do not wrap; the results are truncated to \<open>int\<close>.
\<close>

definition to_int :: "u64 \<Rightarrow> int" where
  "to_int x = sint (ucast x :: u32)"

definition drop_frame :: "u64 \<Rightarrow> u64 \<Rightarrow> u64 \<Rightarrow> kmem \<Rightarrow> kmem kres" where
  "drop_frame kend pa va s =
    kbind (dec_kmem_ref pa s) (\<lambda>s. kbind (get_kmem_ref pa s) (\<lambda>r.
      if r = 0 then kfree kend va s else Inr s))"

definition dealloc_page :: "u64 \<Rightarrow> u64 \<Rightarrow> u64 \<Rightarrow> kmem \<Rightarrow> kmem kres" where
  "dealloc_page kend pgdir a s =
    kbind (pgdir_walk pgdir a False s) (\<lambda>(pte, s).
      if pte \<noteq> 0 \<and> mem s pte AND PTE_VALID \<noteq> 0 then
        let pa = PTE_ADDR (mem s pte)
        in if pa = 0 then Inl (Panic ''uvm_dealloc'')
           else kbind (drop_frame kend pa pa s) (\<lambda>s. Inr (store pte 0 s))
      else Inr s)"

function dealloc_pages :: "u64 \<Rightarrow> u64 \<Rightarrow> nat \<Rightarrow> nat \<Rightarrow> kmem \<Rightarrow> kmem kres" where
  "dealloc_pages kend pgdir a oldsz s = (
    if a < oldsz then
      kbind (dealloc_page kend pgdir (of_nat a) s) (dealloc_pages kend pgdir (a + 4096) oldsz)
    else Inr s)"
  by pat_completeness auto

termination
  by (relation "measure (\<lambda>(kend, pgdir, a, oldsz, s). oldsz - a)") auto

declare dealloc_pages.simps [simp del]

definition uvm_dealloc :: "u64 \<Rightarrow> u64 \<Rightarrow> u64 \<Rightarrow> u64 \<Rightarrow> u64 \<Rightarrow> kmem \<Rightarrow> (int \<times> kmem) kres" where
  "uvm_dealloc kend pgdir base oldsz newsz s = (
    if newsz \<ge> oldsz \<or> newsz < base then Inr (to_int oldsz, s)
    else kbind (dealloc_pages kend pgdir (unat (ROUNDUP newsz PGSIZE)) (unat oldsz) s)
      (\<lambda>s. Inr (to_int newsz, s)))"

text \<open>The loop of \<open>uvm_alloc\<close>; on a failure it undoes with \<open>uvm_dealloc\<close> and returns 0.\<close>

function alloc_pages :: "u64 \<Rightarrow> u64 \<Rightarrow> u64 \<Rightarrow> u64 \<Rightarrow> nat \<Rightarrow> u64 \<Rightarrow> kmem \<Rightarrow> (int \<times> kmem) kres" where
  "alloc_pages kend pgdir base oldsz a newsz s = (
    if a < unat newsz then
      kbind (kalloc s) (\<lambda>(p, s).
        if p = 0 then kbind (uvm_dealloc kend pgdir base newsz oldsz s) (\<lambda>(_, s). Inr (0, s))
        else kbind (uvm_map pgdir (of_nat a) PGSIZE (V2P p) s) (\<lambda>(r, s).
          if r < 0 then
            kbind (kfree kend p s) (\<lambda>s.
              kbind (uvm_dealloc kend pgdir base newsz oldsz s) (\<lambda>(_, s). Inr (0, s)))
          else alloc_pages kend pgdir base oldsz (a + 4096) newsz s))
    else Inr (to_int newsz, s))"
  by pat_completeness auto

termination
  by (relation "measure (\<lambda>(kend, pgdir, base, oldsz, a, newsz, s). unat newsz - a)") auto

declare alloc_pages.simps [simp del]

definition uvm_alloc :: "u64 \<Rightarrow> u64 \<Rightarrow> u64 \<Rightarrow> u64 \<Rightarrow> u64 \<Rightarrow> u64 \<Rightarrow> kmem \<Rightarrow> (int \<times> kmem) kres" where
  "uvm_alloc kend pgdir base stksz oldsz newsz s = (
    if stksz mod PGSIZE \<noteq> 0 then Inl (Panic ''uvm_alloc'')
    else if \<not> (stksz < USERTOP \<and> base \<le> oldsz \<and> oldsz \<le> newsz \<and> newsz < USERTOP - stksz) then Inr (0, s)
    else alloc_pages kend pgdir base oldsz (unat (ROUNDUP oldsz PGSIZE)) newsz s)"

text \<open>\<open>uvm_unmap\<close>: one page of the loop, and the loop over the pages.\<close>

definition unmap_page :: "u64 \<Rightarrow> u64 \<Rightarrow> u64 \<Rightarrow> kmem \<Rightarrow> kmem kres" where
  "unmap_page kend pgdir a s =
    kbind (pgdir_walk pgdir a False s) (\<lambda>(pte, s).
      if pte = 0 then Inl (Panic ''pgdir_walk'')
      else if mem s pte AND PTE_VALID = 0 then Inl (Panic ''not mapped'')
      else if PTE_FLAGS (mem s pte) AND (PTE_PAGE OR PTE_VALID) = PTE_VALID then Inl (Panic ''not a leaf'')
      else let pa = PTE_ADDR (mem s pte)
        in kbind (drop_frame kend pa (P2V pa) s) (\<lambda>s. Inr (store pte (PTE_ADDR 0) s)))"

definition uvm_unmap :: "u64 \<Rightarrow> u64 \<Rightarrow> u64 \<Rightarrow> u64 \<Rightarrow> kmem \<Rightarrow> kmem kres" where
  "uvm_unmap kend pgdir va npages s = (
    if va mod PGSIZE \<noteq> 0 then Inl (Panic ''not aligned'')
    else kfold (\<lambda>i. unmap_page kend pgdir (va + of_nat i * PGSIZE))
      [0..<(unat (va + npages * PGSIZE) - unat va) div 4096] s)"

text \<open>
  \<open>vm_free\<close>: the four nested loops are four levels of one recursion, the innermost one over the
  page entries; every table is freed after the loop over its entries.
\<close>

definition vm_free_frame :: "u64 \<Rightarrow> mmap_region list \<Rightarrow> u64 \<Rightarrow> u64 \<Rightarrow> kmem \<Rightarrow> kmem kres" where
  "vm_free_frame kend regions va pa s =
    kbind (if shared_at regions va then dec_kmem_ref pa s else Inr s) (\<lambda>s.
      kbind (get_kmem_ref pa s) (\<lambda>r. if r = 0 then kfree kend (P2V pa) s else Inr s))"

fun vm_free_level :: "u64 \<Rightarrow> mmap_region list \<Rightarrow> nat \<Rightarrow> u64 \<Rightarrow> u64 \<Rightarrow> kmem \<Rightarrow> kmem kres" where
  "vm_free_level kend regions 0 va pgt s =
    kbind (kfold (\<lambda>i s.
        let pte = mem s (cell pgt i)
        in if pte AND PTE_VALID \<noteq> 0
           then vm_free_frame kend regions (va OR push_bit 12 (of_nat i)) (PTE_ADDR pte) s
           else Inr s) [0..<512] s)
      (kfree kend pgt)"
| "vm_free_level kend regions (Suc n) va pgt s =
    kbind (kfold (\<lambda>i s.
        let pte = mem s (cell pgt i)
        in if pte AND PTE_VALID \<noteq> 0 then
             if pte AND PTE_TABLE = 0 then Inl (Panic ''vm_free'')
             else vm_free_level kend regions n (va OR push_bit (21 + 9 * n) (of_nat i))
               (P2V (PTE_ADDR pte)) s
           else Inr s) [0..<512] s)
      (kfree kend pgt)"

definition vm_free :: "u64 \<Rightarrow> mmap_region list \<Rightarrow> u64 \<Rightarrow> kmem \<Rightarrow> kmem kres" where
  "vm_free kend regions pgdir s = vm_free_level kend regions 3 0 pgdir s"

text \<open>
  \<open>uvm_copy\<close>: the same nesting over the parent's tables. The flag in the state says that the
  function has returned 0, so that the rest of the loops does nothing.
\<close>

definition copy_leaf ::
    "u64 \<Rightarrow> mmap_region list \<Rightarrow> u64 \<Rightarrow> u64 \<Rightarrow> u64 \<Rightarrow> kmem \<Rightarrow> (bool \<times> kmem) kres" where
  "copy_leaf kend regions newpgdir va pte s = (
    if pte AND PTE_PAGE = 0 \<or> pte AND PTE_NORMAL = 0 \<or> \<not> PTE_ADDR pte < KERNBASE
    then Inl (Panic ''uvm_copy'')
    else
      let pa = PTE_ADDR pte
      in kbind
           (if shared_at regions va then kbind (inc_kmem_ref pa s) (\<lambda>s. Inr (P2V pa, s))
            else kbind (kalloc s) (\<lambda>(np, s). Inr (np, if np = 0 then s else copy_frame np (P2V pa) s)))
           (\<lambda>(np, s).
             if np = 0 then kbind (vm_free kend regions newpgdir s) (\<lambda>s. Inr (True, s))
             else kbind (uvm_map newpgdir va PGSIZE (V2P np) s) (\<lambda>(r, s).
               if r < 0 then kbind (vm_free kend regions newpgdir s) (\<lambda>s.
                 kbind (kfree kend np s) (\<lambda>s. Inr (True, s)))
               else Inr (False, s))))"

fun copy_level ::
    "u64 \<Rightarrow> mmap_region list \<Rightarrow> u64 \<Rightarrow> nat \<Rightarrow> u64 \<Rightarrow> u64 \<Rightarrow> bool \<times> kmem \<Rightarrow> (bool \<times> kmem) kres" where
  "copy_level kend regions newpgdir 0 va pgt st =
    kfold (\<lambda>i (failed, s).
      if failed then Inr (failed, s)
      else let pte = mem s (cell pgt i)
        in if pte AND PTE_VALID \<noteq> 0
           then copy_leaf kend regions newpgdir (va OR push_bit 12 (of_nat i)) pte s
           else Inr (False, s)) [0..<512] st"
| "copy_level kend regions newpgdir (Suc n) va pgt st =
    kfold (\<lambda>i (failed, s).
      if failed then Inr (failed, s)
      else let pte = mem s (cell pgt i)
        in if pte AND PTE_VALID \<noteq> 0 then
             if pte AND PTE_TABLE = 0 then Inl (Panic ''uvm_copy'')
             else copy_level kend regions newpgdir n (va OR push_bit (21 + 9 * n) (of_nat i))
               (P2V (PTE_ADDR pte)) (False, s)
           else Inr (False, s)) [0..<512] st"

definition uvm_copy :: "u64 \<Rightarrow> mmap_region list \<Rightarrow> u64 \<Rightarrow> kmem \<Rightarrow> (u64 \<times> kmem) kres" where
  "uvm_copy kend regions pgdir s =
    kbind (vm_init s) (\<lambda>(newpgdir, s).
      if newpgdir = 0 then Inr (0, s)
      else kbind (copy_level kend regions newpgdir 3 0 pgdir (False, s))
        (\<lambda>(failed, s). Inr (if failed then 0 else newpgdir, s)))"

text \<open>
  \<open>copyout\<close> writes bytes; \<open>set_byte\<close> is a byte store into the 64-bit cells, little-endian. A NULL
  source (\<open>None\<close>) stands for zeros.
\<close>

definition get_byte :: "(u64 \<Rightarrow> u64) \<Rightarrow> u64 \<Rightarrow> u8" where
  "get_byte m a = ucast (drop_bit (8 * unat (a AND 7)) (m (a AND NOT 7)))"

definition set_byte :: "u64 \<Rightarrow> u8 \<Rightarrow> (u64 \<Rightarrow> u64) \<Rightarrow> u64 \<Rightarrow> u64" where
  "set_byte a b m = (
    let c = a AND NOT 7; sh = 8 * unat (a AND 7)
    in m(c := (m c AND NOT (push_bit sh 0xff)) OR push_bit sh (ucast b)))"

primrec store_bytes :: "u64 \<Rightarrow> u8 list \<Rightarrow> (u64 \<Rightarrow> u64) \<Rightarrow> u64 \<Rightarrow> u64" where
  "store_bytes a [] m = m"
| "store_bytes a (b # bs) m = store_bytes (a + 1) bs (set_byte a b m)"

definition source_bytes :: "(nat \<Rightarrow> u8) option \<Rightarrow> nat \<Rightarrow> nat \<Rightarrow> u8 list" where
  "source_bytes p off n = (case p of Some f \<Rightarrow> map f [off..<off + n] | None \<Rightarrow> replicate n 0)"

function copyout_loop :: "u64 \<Rightarrow> u64 \<Rightarrow> (nat \<Rightarrow> u8) option \<Rightarrow> nat \<Rightarrow> nat \<Rightarrow> kmem \<Rightarrow> (int \<times> kmem) kres" where
  "copyout_loop pgdir va p off len s = (
    if len = 0 then Inr (0, s)
    else
      let pgoff = unat (va - ROUNDDOWN va PGSIZE)
      in kbind (pgdir_walk pgdir va True s) (\<lambda>(pte, s).
           if pte = 0 then Inr (- 1, s)
           else kbind
             (if mem s pte AND PTE_VALID \<noteq> 0 then Inr (P2V (PTE_ADDR (mem s pte)), s)
              else kbind (kalloc s) (\<lambda>(page, s).
                Inr (page, if page = 0 then s else store pte (V2P page OR PTE_UDATA) s)))
             (\<lambda>(page, s).
               if page = 0 then Inr (- 1, s)
               else let n = min (4096 - pgoff) len
                 in copyout_loop pgdir (va + of_nat n) p (off + n) (len - n)
                      (s\<lparr>mem := store_bytes (page + of_nat pgoff) (source_bytes p off n) (mem s)\<rparr>))))"
  by pat_completeness auto

termination
proof (relation "measure (\<lambda>(pgdir, va, p, off, len, s). len)", simp, goal_cases)
  case (1 pgdir va p off len s pgoff x pte sa xa page sb n)
  have "unat (va mod PGSIZE) < 4096"
    by (simp add: PGSIZE_def unat_mod)
  then show ?case using 1 by (simp add: ROUNDDOWN_def)
qed

declare copyout_loop.simps [simp del]

definition copyout :: "u64 \<Rightarrow> u64 \<Rightarrow> (nat \<Rightarrow> u8) option \<Rightarrow> u64 \<Rightarrow> kmem \<Rightarrow> (int \<times> kmem) kres" where
  "copyout pgdir va p len s = (
    if va + len > USERTOP then Inr (- 1, s)
    else copyout_loop pgdir va p 0 (unat len) s)"

section \<open>Paths through the tables\<close>

primrec table_at :: "(u64 \<Rightarrow> u64) \<Rightarrow> u64 \<Rightarrow> nat list \<Rightarrow> u64 option" where
  "table_at m t [] = Some t"
| "table_at m t (i # is) =
    (if i < 512 \<and> m (cell t i) AND PTE_VALID \<noteq> 0 then table_at m (P2V (PTE_ADDR (m (cell t i)))) is else None)"

lemma table_at_append:
  "table_at m t (is @ js) = Option.bind (table_at m t is) (\<lambda>u. table_at m u js)"
  by (induction "is" arbitrary: t) auto

lemma table_at_snoc:
  "table_at m t (is @ [i]) = Some v \<longleftrightarrow>
     (\<exists>u. table_at m t is = Some u \<and> i < 512 \<and> m (cell u i) AND PTE_VALID \<noteq> 0 \<and> v = P2V (PTE_ADDR (m (cell u i))))"
  by (auto simp: table_at_append bind_eq_Some_conv split: if_splits)

text \<open>A path reads the entries along it and nothing else.\<close>

lemma table_at_cong:
  assumes "\<And>ks i js u. is = ks @ i # js \<Longrightarrow> table_at m t ks = Some u \<Longrightarrow> m' (cell u i) = m (cell u i)"
  shows "table_at m' t is = table_at m t is"
  using assms
proof (induction "is" arbitrary: t)
  case (Cons i "is")
  have e: "m' (cell t i) = m (cell t i)" using Cons.prems [of "[]" i "is" t] by simp
  show ?case
  proof (cases "i < 512 \<and> m (cell t i) AND PTE_VALID \<noteq> 0")
    case True
    have "table_at m' (P2V (PTE_ADDR (m (cell t i)))) is = table_at m (P2V (PTE_ADDR (m (cell t i)))) is"
    proof (rule Cons.IH)
      fix ks j js u
      assume "is = ks @ j # js" "table_at m (P2V (PTE_ADDR (m (cell t i)))) ks = Some u"
      then show "m' (cell u j) = m (cell u j)" using Cons.prems [of "i # ks" j js u] True by simp
    qed
    then show ?thesis using e by simp
  qed (use e in auto)
qed simp

lemma page_ok_high: "page_ok kend t \<Longrightarrow> unat t + 4096 < 18446744073709551616"
  using unat_V2P [of t] by (simp add: page_ok_def PHYSTOP_def word_less_nat_alt)

lemma unat_cell: "page_ok kend t \<Longrightarrow> i < 512 \<Longrightarrow> unat (cell t i) = unat t + 8 * i"
proof -
  assume "page_ok kend t" "i < 512"
  then have "unat (8 * of_nat i :: u64) = 8 * i" by (simp add: unat_word_ariths unat_of_nat)
  then show ?thesis
    using page_ok_high [OF \<open>page_ok kend t\<close>] \<open>i < 512\<close> unfolding cell_def by (subst unat_add_nowrap64) simp_all
qed

lemma page_aligned: "page_ok kend t \<Longrightarrow> unat t mod 4096 = 0"
  by (simp add: page_ok_def PGSIZE_def word_unat_eq_iff unat_mod)

lemma page_disjoint:
  assumes "page_ok kend t" and "page_ok kend' u" and "unat t + a = unat u + b" and "a < 4096" and "b < 4096"
  shows "t = u \<and> a = b"
proof -
  have "unat t div 4096 = unat u div 4096"
  proof -
    obtain x y where x: "unat t = 4096 * x" "unat u = 4096 * y"
      using page_aligned [OF assms(1)] page_aligned [OF assms(2)] by (metis dvdE mod_0_imp_dvd)
    then have "x = y" using assms(3-5) by linarith
    then show ?thesis by (simp add: x)
  qed
  then have "unat t = unat u"
    using page_aligned [OF assms(1)] page_aligned [OF assms(2)] by (metis div_mult_mod_eq)
  then show ?thesis using assms(3) by (simp add: word_unat_eq_iff)
qed

lemma cell_inject:
  assumes "page_ok kend t" and "page_ok kend u" and "i < 512" and "j < 512"
  shows "cell t i = cell u j \<longleftrightarrow> t = u \<and> i = j"
proof
  assume "cell t i = cell u j"
  then have "unat t + 8 * i = unat u + 8 * j" using assms by (simp flip: unat_cell)
  from page_disjoint [OF assms(1,2) this] assms(3,4) show "t = u \<and> i = j" by simp
qed simp

lemma cell_in_page:
  assumes "page_ok kend t" and "page_ok kend p" and "i < 512"
  shows "cell t i - p < PGSIZE \<longleftrightarrow> t = p"
proof
  assume c: "cell t i - p < PGSIZE"
  define d where "d = unat (cell t i - p)"
  have d: "d < 4096" using c by (simp add: d_def word_less_nat_alt PGSIZE_def)
  have "unat (p + (cell t i - p)) = unat p + d"
    unfolding d_def using page_ok_high [OF assms(2)] d by (intro unat_add_nowrap64) (simp add: d_def)
  then have "unat t + 8 * i = unat p + d" using assms by (simp add: unat_cell)
  from page_disjoint [OF assms(1,2) this] d assms(3) show "t = p" by simp
next
  assume "t = p"
  then show "cell t i - p < PGSIZE"
    using assms(3) by (simp add: cell_def word_less_nat_alt PGSIZE_def unat_word_ariths unat_of_nat)
qed

section \<open>The invariant and the effect of a new table\<close>

definition tables_ok :: "u64 \<Rightarrow> u64 \<Rightarrow> u64 list \<Rightarrow> (u64 \<Rightarrow> u64) \<Rightarrow> bool" where
  "tables_ok kend pgdir fs m \<longleftrightarrow>
    (\<forall>is t. length is \<le> 3 \<longrightarrow> table_at m pgdir is = Some t \<longrightarrow> page_ok kend t \<and> t \<notin> set fs) \<and>
    (\<forall>is js t. length is \<le> 3 \<longrightarrow> length js \<le> 3 \<longrightarrow> table_at m pgdir is = Some t \<longrightarrow>
       table_at m pgdir js = Some t \<longrightarrow> is = js)"

definition vm_inv :: "u64 \<Rightarrow> u64 \<Rightarrow> u64 list \<Rightarrow> kmem \<Rightarrow> bool" where
  "vm_inv kend pgdir fs s \<longleftrightarrow> mm_inv kend fs s \<and> tables_ok kend pgdir fs (mem s)"

lemma tables_okD:
  assumes "tables_ok kend pgdir fs m" and "table_at m pgdir is = Some t" and "length is \<le> 3"
  shows "page_ok kend t" and "t \<notin> set fs"
    and "table_at m pgdir js = Some t \<Longrightarrow> length js \<le> 3 \<Longrightarrow> js = is"
  using assms unfolding tables_ok_def by blast+

definition with_table :: "u64 \<Rightarrow> u64 \<Rightarrow> (u64 \<Rightarrow> u64) \<Rightarrow> u64 \<Rightarrow> u64" where
  "with_table a p m = (\<lambda>x. if x - p < PGSIZE then 0 else m x)(a := V2P p OR PTE_TABLE)"

lemma PTE_TABLE_entry:
  assumes "page_ok kend p"
  shows "P2V (PTE_ADDR (V2P p OR PTE_TABLE)) = p" and "(V2P p OR PTE_TABLE) AND PTE_VALID \<noteq> 0"
proof -
  have "unat (V2P p) < 2 ^ 48" using assms by (simp add: page_ok_def PHYSTOP_def word_less_nat_alt)
  then have "PTE_FLAGS (V2P p) = 0" by (rule PTE_FLAGS_frame [OF page_ok_aligned [OF assms]])
  then show "P2V (PTE_ADDR (V2P p OR PTE_TABLE)) = p"
    by (subst PTE_ADDR_frame) (simp_all add: PTE_ADDR_def PTE_TABLE_def)
  show "(V2P p OR PTE_TABLE) AND PTE_VALID \<noteq> 0"
    by (rule PTE_VALID_or) (simp add: PTE_TABLE_def PTE_VALID_def)
qed

lemma table_at_zero:
  assumes "page_ok kend p" and "\<And>i. i < 512 \<Longrightarrow> m (cell p i) = 0"
  shows "table_at m p ks = (if ks = [] then Some p else None)"
  using assms(2) by (cases ks) auto

lemma table_at_with_table:
  assumes ok: "tables_ok kend pgdir (p # fs) m" and p: "page_ok kend p"
    and u: "table_at m pgdir is = Some u" and len: "length is < 3" and i: "i < 512"
    and inv: "m (cell u i) AND PTE_VALID = 0" and js: "length js \<le> 3"
  shows "table_at (with_table (cell u i) p m) pgdir js = (if js = is @ [i] then Some p else table_at m pgdir js)"
proof -
  let ?m = "with_table (cell u i) p m"
  have uok: "page_ok kend u" "u \<noteq> p" using tables_okD(1,2) [OF ok u] len by auto
  have other: "?m (cell w j) = m (cell w j)"
    if "table_at m pgdir ks = Some w" "length ks < 3" "j < 512" "ks \<noteq> is \<or> j \<noteq> i" for ks w j
  proof -
    have w: "page_ok kend w" "w \<noteq> p" "w = u \<longrightarrow> ks = is" using tables_okD [OF ok that(1)] that(2) u len by auto
    then have "cell w j \<noteq> cell u i" using that(4) cell_inject [OF w(1) uok(1) that(3) i] by auto
    then show ?thesis using cell_in_page [OF w(1) p that(3)] w(2) by (simp add: with_table_def)
  qed
  have cong: "table_at ?m pgdir ks = table_at m pgdir ks"
    if "\<And>as. ks \<noteq> is @ i # as" "length ks \<le> 3" "\<forall>j \<in> set ks. j < 512" for ks
  proof (rule table_at_cong)
    fix as j bs w
    assume "ks = as @ j # bs" "table_at m pgdir as = Some w"
    then show "?m (cell w j) = m (cell w j)" using that by (intro other [of as]) auto
  qed
  have big: "table_at m' pgdir ks = None" if "\<not> (\<forall>j \<in> set ks. j < 512)" for m' ks
    using that
  proof (induction ks arbitrary: pgdir)
    case (Cons k ks)
    then show ?case by auto
  qed simp
  show ?thesis
  proof (cases "\<exists>as. js = is @ i # as")
    case True
    then obtain "as" where as: "js = is @ i # as" by blast
    have "?m (cell p k) = 0" if "k < 512" for k
      using cell_in_page [OF p p that] cell_inject [OF p uok(1) that i] uok(2) by (auto simp: with_table_def)
    then have z: "table_at ?m p as = (if as = [] then Some p else None)" by (rule table_at_zero [OF p])
    have "\<forall>j \<in> set is. j < 512" using big [of "is" m] u by auto
    then have "table_at ?m pgdir is = Some u" using cong [of "is"] u len by simp
    moreover have "?m (cell u i) = V2P p OR PTE_TABLE" by (simp add: with_table_def)
    ultimately show ?thesis
      unfolding as using PTE_TABLE_entry [OF p] i z u inv by (simp add: table_at_append)
  next
    case False
    then show ?thesis using cong [of js] big [of js] js by (cases "\<forall>j \<in> set js. j < 512") auto
  qed
qed

lemma tables_ok_with_table:
  assumes ok: "tables_ok kend pgdir (p # fs) m" and p: "page_ok kend p" "p \<notin> set fs"
    and u: "table_at m pgdir is = Some u" and len: "length is < 3" and i: "i < 512"
    and inv: "m (cell u i) AND PTE_VALID = 0"
  shows "tables_ok kend pgdir fs (with_table (cell u i) p m)"
proof -
  note t = table_at_with_table [OF ok p(1) u len i inv]
  have fresh: "table_at m pgdir js \<noteq> Some p" if "length js \<le> 3" for js
    using tables_okD(2) [OF ok _ that] by fastforce
  have "page_ok kend w \<and> w \<notin> set fs"
    if "length js \<le> 3" "table_at (with_table (cell u i) p m) pgdir js = Some w" for js w
    using that t [OF that(1)] tables_okD(1,2) [OF ok _ that(1), of w] p by (auto split: if_splits)
  moreover have "js = ks"
    if "length js \<le> 3" "length ks \<le> 3" "table_at (with_table (cell u i) p m) pgdir js = Some w"
      "table_at (with_table (cell u i) p m) pgdir ks = Some w" for js ks w
    using that t [OF that(1)] t [OF that(2)] fresh tables_okD(3) [OF ok, of ks w js]
    by (auto split: if_splits)
  ultimately show ?thesis unfolding tables_ok_def by blast
qed

section \<open>Translations\<close>

definition pte_path :: "u64 \<Rightarrow> nat list" where
  "pte_path va = [PTX 0 va, PTX 1 va, PTX 2 va]"

definition pte_of :: "(u64 \<Rightarrow> u64) \<Rightarrow> u64 \<Rightarrow> u64 \<Rightarrow> u64" where
  "pte_of m pgdir va = (case table_at m pgdir (pte_path va) of None \<Rightarrow> 0 | Some t \<Rightarrow> m (cell t (PTX 3 va)))"

lemma PTX_less [simp]: "PTX i va < 512"
proof -
  have "drop_bit (12 + (3 - i) * 9) va AND 0x1FF = take_bit 9 (drop_bit (12 + (3 - i) * 9) va)"
    by (simp add: take_bit_eq_mask mask_eq_exp_minus_1)
  then show ?thesis
    unfolding PTX_def using take_bit_nat_less_exp [of 9 "unat (drop_bit (12 + (3 - i) * 9) va)"]
    by (simp add: unsigned_take_bit_eq)
qed

text \<open>Addresses that are neither in a free page nor in a table.\<close>

definition outside :: "u64 \<Rightarrow> u64 list \<Rightarrow> (u64 \<Rightarrow> u64) \<Rightarrow> u64 \<Rightarrow> bool" where
  "outside pgdir fs m a \<longleftrightarrow> (\<forall>p \<in> set fs. \<not> a - p < PGSIZE) \<and>
     (\<forall>is t i. length is \<le> 3 \<longrightarrow> i < 512 \<longrightarrow> table_at m pgdir is = Some t \<longrightarrow> a \<noteq> cell t i)"

definition vm_grows :: "u64 \<Rightarrow> u64 \<Rightarrow> u64 list \<Rightarrow> kmem \<Rightarrow> u64 list \<Rightarrow> kmem \<Rightarrow> bool" where
  "vm_grows kend pgdir fs s fs' s' \<longleftrightarrow> vm_inv kend pgdir fs' s' \<and> set fs' \<subseteq> set fs \<and>
     (\<forall>va. pte_of (mem s') pgdir va = pte_of (mem s) pgdir va) \<and>
     (\<forall>a. outside pgdir fs (mem s) a \<longrightarrow> mem s' a = mem s a \<and> outside pgdir fs' (mem s') a) \<and>
     (\<forall>is t. length is \<le> 3 \<longrightarrow> table_at (mem s) pgdir is = Some t \<longrightarrow> table_at (mem s') pgdir is = Some t) \<and>
     (\<forall>f. kref s f \<noteq> 0 \<longrightarrow> kref s' f = kref s f)"

lemma vm_grows_refl: "vm_inv kend pgdir fs s \<Longrightarrow> vm_grows kend pgdir fs s fs s"
  by (simp add: vm_grows_def)

lemma vm_grows_trans:
  "vm_grows kend pgdir fs s fs' s' \<Longrightarrow> vm_grows kend pgdir fs' s' fs'' s'' \<Longrightarrow> vm_grows kend pgdir fs s fs'' s''"
  unfolding vm_grows_def by auto

lemma pte_of_with_table:
  assumes ok: "tables_ok kend pgdir (p # fs) m" and p: "page_ok kend p"
    and u: "table_at m pgdir is = Some u" and len: "length is < 3" and i: "i < 512"
    and inv: "m (cell u i) AND PTE_VALID = 0"
  shows "pte_of (with_table (cell u i) p m) pgdir va = pte_of m pgdir va"
proof -
  let ?m = "with_table (cell u i) p m"
  have uok: "page_ok kend u" "u \<noteq> p" using tables_okD(1,2) [OF ok u] len by auto
  have l3: "length (pte_path va) \<le> 3" by (simp add: pte_path_def)
  note t = table_at_with_table [OF ok p u len i inv l3]
  show ?thesis
  proof (cases "pte_path va = is @ [i]")
    case True
    then have "table_at m pgdir (pte_path va) = None" using u inv by (simp add: table_at_append)
    moreover have "?m (cell p (PTX 3 va)) = 0"
      using cell_in_page [OF p p PTX_less] cell_inject [OF p uok(1) PTX_less i] uok(2)
      by (auto simp: with_table_def)
    ultimately show ?thesis using t True by (simp add: pte_of_def)
  next
    case False
    have "?m (cell w (PTX 3 va)) = m (cell w (PTX 3 va))" if w: "table_at m pgdir (pte_path va) = Some w" for w
    proof -
      have wok: "page_ok kend w" "w \<noteq> p" using tables_okD(1,2) [OF ok w l3] by auto
      have "w \<noteq> u" using tables_okD(3) [OF ok w l3, of "is"] u len by (auto simp: pte_path_def)
      then show ?thesis
        using cell_in_page [OF wok(1) p PTX_less] cell_inject [OF wok(1) uok(1) PTX_less i] wok(2)
        by (simp add: with_table_def)
    qed
    then show ?thesis using t False by (simp add: pte_of_def split: option.split)
  qed
qed

lemma outside_with_table:
  assumes ok: "tables_ok kend pgdir (p # fs) m" and p: "page_ok kend p"
    and u: "table_at m pgdir is = Some u" and len: "length is < 3" and i: "i < 512"
    and inv: "m (cell u i) AND PTE_VALID = 0" and a: "outside pgdir (p # fs) m a"
  shows "with_table (cell u i) p m a = m a" and "outside pgdir fs (with_table (cell u i) p m) a"
proof -
  have ne: "\<not> a - p < PGSIZE" using a by (simp add: outside_def)
  have "length is \<le> 3" using len by simp
  then have ne': "a \<noteq> cell u i" using a u i unfolding outside_def by blast
  show "with_table (cell u i) p m a = m a" using ne ne' by (simp add: with_table_def)
  have "a \<noteq> cell p j" if "j < 512" for j using cell_in_page [OF p p that] ne by auto
  then show "outside pgdir fs (with_table (cell u i) p m) a"
    using a table_at_with_table [OF ok p u len i inv] by (auto simp: outside_def split: if_splits)
qed

text \<open>Taking a free page as the table of an invalid entry.\<close>

lemma grow_table:
  assumes vm: "vm_inv kend pgdir (p # fs) s" and u: "table_at (mem s) pgdir is = Some u"
    and len: "length is < 3" and i: "i < 512" and inv: "mem s (cell u i) AND PTE_VALID = 0"
  obtains s' where "kalloc s = Inr (p, s')" and "p \<noteq> 0"
    and "vm_grows kend pgdir (p # fs) s fs (store (cell u i) (V2P p OR PTE_TABLE) (zero_page p s'))"
    and "mem (store (cell u i) (V2P p OR PTE_TABLE) (zero_page p s')) = with_table (cell u i) p (mem s)"
proof -
  have mm: "mm_inv kend (p # fs) s" and ok: "tables_ok kend pgdir (p # fs) (mem s)"
    using vm by (simp_all add: vm_inv_def)
  from kalloc_Cons [OF mm] obtain s' where s': "kalloc s = Inr (p, s')" "mm_inv kend fs s'" "mem s' = mem s"
      and kr: "kref s' = (kref s)(frame (V2P p) := 1)" by blast
  have p: "page_ok kend p" "p \<notin> set fs" using mm by (auto simp: mm_inv_def)
  have uok: "page_ok kend u" "u \<notin> set (p # fs)" using tables_okD(1,2) [OF ok u] len by auto
  let ?s = "store (cell u i) (V2P p OR PTE_TABLE) (zero_page p s')"
  have m: "mem ?s = with_table (cell u i) p (mem s)"
    unfolding store_def zero_page_def with_table_def by (simp add: s'(3) fun_eq_iff)
  have q0: "q = cell q 0" for q by (simp add: cell_def)
  have "mem ?s q = mem s' q" if "q \<in> set fs" for q
  proof -
    have q: "page_ok kend q" "q \<noteq> p" "q \<noteq> u" using that mm uok p by (auto simp: mm_inv_def)
    then show ?thesis
      using cell_in_page [OF q(1) p(1), of 0] cell_inject [OF q(1) uok(1) _ i, of 0]
      by (simp add: m s'(3) with_table_def flip: q0)
  qed
  then have "mm_inv kend fs ?s"
    using s'(2) free_chain_cong [of fs "mem ?s" "mem s'"]
    by (simp add: mm_inv_def store_def zero_page_def)
  moreover have "tables_ok kend pgdir fs (mem ?s)"
    unfolding m by (rule tables_ok_with_table [OF ok p u len i inv])
  moreover have "table_at (mem ?s) pgdir js = Some t" if "length js \<le> 3" "table_at (mem s) pgdir js = Some t" for js t
    using table_at_with_table [OF ok p(1) u len i inv that(1)] that(2) u inv
    unfolding m by (auto simp: table_at_append)
  moreover have "kref ?s f = kref s f" if "kref s f \<noteq> 0" for f
    using that mm kr by (auto simp: mm_inv_def store_def zero_page_def)
  ultimately have "vm_grows kend pgdir (p # fs) s fs ?s"
    using pte_of_with_table [OF ok p(1) u len i inv] outside_with_table [OF ok p(1) u len i inv]
    by (auto simp: vm_grows_def vm_inv_def m)
  with s'(1) page_ok_nonzero [OF p(1)] m show ?thesis using that by blast
qed

section \<open>Walking and mapping\<close>

definition walk_result :: "kmem \<Rightarrow> u64 \<Rightarrow> u64 \<Rightarrow> u64 \<Rightarrow> bool" where
  "walk_result s pgdir va r \<longleftrightarrow> (\<exists>t. table_at (mem s) pgdir (pte_path va) = Some t \<and> r = cell t (PTX 3 va))"

lemma walk_levels_alloc:
  assumes "vm_inv kend pgdir fs s" and "ks @ is = [0, 1, 2]"
    and "table_at (mem s) pgdir (map (\<lambda>i. PTX i va) ks) = Some t"
  shows "\<exists>r s' fs'. walk_levels True va is t s = Inr (r, s') \<and> vm_grows kend pgdir fs s fs' s' \<and>
     (r = 0 \<longrightarrow> fs' = []) \<and> (r \<noteq> 0 \<longrightarrow> walk_result s' pgdir va r) \<and> length fs \<le> length fs' + length is"
  using assms
proof (induction "is" arbitrary: ks t s fs)
  case Nil
  then have ks: "map (\<lambda>i. PTX i va) ks = pte_path va" by (simp add: pte_path_def)
  have ok: "page_ok kend t"
    by (rule tables_okD(1) [of kend pgdir fs "mem s" "pte_path va"])
      (use Nil.prems ks in \<open>simp_all add: vm_inv_def pte_path_def del: list.map\<close>)
  have "unat (cell t (PTX 3 va)) \<noteq> 0"
    using unat_cell [OF ok PTX_less] page_ok_nonzero [OF ok] by (simp add: unat_eq_0)
  then have "cell t (PTX 3 va) \<noteq> 0" by auto
  moreover have "walk_levels True va [] t s = Inr (cell t (PTX 3 va), s)" by (simp add: PTX_def)
  moreover have "table_at (mem s) pgdir (pte_path va) = Some t" using Nil.prems(3) unfolding ks .
  ultimately show ?case using vm_grows_refl [OF Nil.prems(1)] by (auto simp: walk_result_def)
next
  case (Cons i "is")
  let ?path = "map (\<lambda>i. PTX i va) ks"
  have len: "length ?path < 3" using arg_cong [OF Cons.prems(2), of length] by simp
  have next_path: "(ks @ [i]) @ is = [0, 1, 2]" using Cons.prems(2) by simp
  show ?case
  proof (cases "mem s (cell t (PTX i va)) AND PTE_VALID = 0")
    case False
    then have "table_at (mem s) pgdir (map (\<lambda>i. PTX i va) (ks @ [i])) = Some (P2V (PTE_ADDR (mem s (cell t (PTX i va)))))"
      using Cons.prems(3) by (simp add: table_at_append)
    from Cons.IH [OF Cons.prems(1) next_path this] show ?thesis using False by (auto intro: le_SucI)
  next
    case True
    show ?thesis
    proof (cases fs)
      case Nil
      then have "kalloc s = Inr (0, s)" using Cons.prems(1) by (auto simp: vm_inv_def intro: kalloc_Nil)
      then show ?thesis using True Nil Cons.prems(1) vm_grows_refl by (auto simp: Let_def)
    next
      case (Cons p fs')
      let ?s = "\<lambda>s'. store (cell t (PTX i va)) (V2P p OR PTE_TABLE) (zero_page p s')"
      from grow_table [OF Cons.prems(1) [unfolded Cons] Cons.prems(3) len PTX_less True] obtain s1 where
        s1: "kalloc s = Inr (p, s1)" "p \<noteq> 0" "vm_grows kend pgdir (p # fs') s fs' (?s s1)"
        "mem (?s s1) = with_table (cell t (PTX i va)) p (mem s)"
        by metis
      have p: "page_ok kend p" using Cons.prems(1) Cons by (auto simp: vm_inv_def mm_inv_def)
      have e: "mem (?s s1) (cell t (PTX i va)) = V2P p OR PTE_TABLE" by (simp add: store_def)
      have v: "vm_inv kend pgdir fs' (?s s1)" using s1(3) by (simp add: vm_grows_def)
      have "table_at (mem (?s s1)) pgdir ?path = Some t"
        using s1(3) Cons.prems(3) len by (simp add: vm_grows_def)
      then have "table_at (mem (?s s1)) pgdir (map (\<lambda>i. PTX i va) (ks @ [i])) = Some p"
        using PTE_TABLE_entry [OF p] e by (simp add: table_at_append)
      from Cons.IH [OF v next_path this] obtain r s2 fs2 where
        "walk_levels True va is p (?s s1) = Inr (r, s2)" "vm_grows kend pgdir fs' (?s s1) fs2 s2"
        "r = 0 \<longrightarrow> fs2 = []" "r \<noteq> 0 \<longrightarrow> walk_result s2 pgdir va r" "length fs' \<le> length fs2 + length is"
        by blast
      then show ?thesis
        using True s1 e PTE_TABLE_entry(1) [OF p] vm_grows_trans [OF s1(3)] Cons by (auto simp: Let_def)
    qed
  qed
qed

lemma pgdir_walk_alloc:
  assumes "vm_inv kend pgdir fs s"
  shows "\<exists>r s' fs'. pgdir_walk pgdir va True s = Inr (r, s') \<and> vm_grows kend pgdir fs s fs' s' \<and>
     (r = 0 \<longrightarrow> fs' = []) \<and> (r \<noteq> 0 \<longrightarrow> walk_result s' pgdir va r) \<and> length fs \<le> length fs' + 3"
  using walk_levels_alloc [OF assms, of "[]" "[0, 1, 2]" va pgdir] by (simp add: pgdir_walk_def numeral_3_eq_3)

text \<open>Without \<open>alloc\<close> the walk changes nothing and finds the entry the translation uses.\<close>

lemma pgdir_walk_lookup:
  "pgdir_walk pgdir va False s = Inr (case table_at (mem s) pgdir (pte_path va) of
     None \<Rightarrow> (0, s) | Some t \<Rightarrow> (cell t (PTX 3 va), s))"
  by (simp add: pgdir_walk_def pte_path_def Let_def) (simp add: PTX_def)

lemma walk_result_pte: "walk_result s pgdir va r \<Longrightarrow> mem s r = pte_of (mem s) pgdir va"
  by (auto simp: walk_result_def pte_of_def)

definition same_page :: "u64 \<Rightarrow> u64 \<Rightarrow> bool" where
  "same_page va va' \<longleftrightarrow> pte_path va = pte_path va' \<and> PTX 3 va = PTX 3 va'"

lemma store_pte:
  assumes vm: "vm_inv kend pgdir fs s" and r: "walk_result s pgdir va r"
  shows "vm_inv kend pgdir fs (store r v s)"
    and "pte_of (mem (store r v s)) pgdir va' = (if same_page va va' then v else pte_of (mem s) pgdir va')"
    and "outside pgdir fs (mem s) a \<Longrightarrow> mem (store r v s) a = mem s a \<and> outside pgdir fs (mem (store r v s)) a"
proof -
  have mm: "mm_inv kend fs s" and ok: "tables_ok kend pgdir fs (mem s)" using vm by (simp_all add: vm_inv_def)
  obtain t where t: "table_at (mem s) pgdir (pte_path va) = Some t" and rt: "r = cell t (PTX 3 va)"
    using r by (auto simp: walk_result_def)
  have l3: "length (pte_path x) \<le> 3" for x by (simp add: pte_path_def)
  note td = tables_okD [OF ok t l3]
  have m: "mem (store r v s) = (mem s)(r := v)" by (simp add: store_def)
  have big: "table_at m' g ks = None" if "\<not> (\<forall>j \<in> set ks. j < 512)" for m' g ks
    using that by (induction ks arbitrary: g) auto
  have same: "table_at (mem (store r v s)) pgdir js = table_at (mem s) pgdir js" if "length js \<le> 3" for js
  proof (cases "\<forall>j \<in> set js. j < 512")
    case True
    show ?thesis
    proof (rule table_at_cong)
      fix ks i bs u
      assume js: "js = ks @ i # bs" and u: "table_at (mem s) pgdir ks = Some u"
      then have lk: "length ks < 3" and i: "i < 512" using that True by auto
      have "u \<noteq> t" using td(3) [of ks] u lk by (auto simp: pte_path_def)
      moreover have "page_ok kend u" using tables_okD(1) [OF ok u] lk by simp
      ultimately have "cell u i \<noteq> r" using cell_inject [OF _ td(1) i PTX_less] by (simp add: rt)
      then show "mem (store r v s) (cell u i) = mem s (cell u i)" by (simp add: m)
    qed
  qed (simp add: big)
  have q0: "q = cell q 0" for q by (simp add: cell_def)
  have "q \<noteq> r" if "q \<in> set fs" for q
  proof -
    have "page_ok kend q" "q \<noteq> t" using that mm td by (auto simp: mm_inv_def)
    then show ?thesis using cell_inject [of kend q t 0 "PTX 3 va"] td(1) q0 [of q] by (simp add: rt)
  qed
  then have "mm_inv kend fs (store r v s)"
    using mm free_chain_cong [of fs "mem (store r v s)" "mem s"] by (auto simp: mm_inv_def store_def)
  moreover have "tables_ok kend pgdir fs (mem (store r v s))"
    using ok same by (simp add: tables_ok_def)
  ultimately show "vm_inv kend pgdir fs (store r v s)" by (simp add: vm_inv_def)
  show "pte_of (mem (store r v s)) pgdir va' = (if same_page va va' then v else pte_of (mem s) pgdir va')"
  proof (cases "table_at (mem s) pgdir (pte_path va')")
    case None
    then show ?thesis using same [OF l3] t by (auto simp: pte_of_def same_page_def)
  next
    case (Some u)
    have u: "page_ok kend u" "u = t \<longleftrightarrow> pte_path va = pte_path va'"
      using tables_okD(1) [OF ok Some l3] td(3) [of "pte_path va'"] Some t l3 by auto
    then have "cell u (PTX 3 va') = r \<longleftrightarrow> same_page va va'"
      using cell_inject [OF u(1) td(1) PTX_less PTX_less] by (auto simp: rt same_page_def)
    then show ?thesis using same [OF l3] Some by (simp add: pte_of_def m)
  qed
  assume a: "outside pgdir fs (mem s) a"
  then have "a \<noteq> r" using t rt l3 [of va] PTX_less unfolding outside_def by blast
  then show "mem (store r v s) a = mem s a \<and> outside pgdir fs (mem (store r v s)) a"
    using a same by (simp add: outside_def m)
qed

lemma PTX_div: "PTX i va = unat va div 2 ^ (12 + (3 - i) * 9) mod 512"
proof -
  have "drop_bit (12 + (3 - i) * 9) va AND 0x1FF = take_bit 9 (drop_bit (12 + (3 - i) * 9) va)"
    by (simp add: take_bit_eq_mask mask_eq_exp_minus_1)
  then show ?thesis
    by (simp only: PTX_def unsigned_take_bit_eq unat_drop_bit_eq) (simp add: take_bit_eq_mod drop_bit_eq_div)
qed

lemma mod_div_512_eq: "(a :: nat) = b \<longleftrightarrow> a mod 512 = b mod 512 \<and> a div 512 = b div 512"
  by (metis div_mult_mod_eq)

lemma same_page_iff:
  assumes "unat va < 2 ^ 48" and "unat va' < 2 ^ 48"
  shows "same_page va va' \<longleftrightarrow> unat va div 4096 = unat va' div 4096"
proof -
  have split: "x div 2 ^ (12 + (3 - 0) * 9) = x div 4096 div 512 div 512 div 512"
    "x div 2 ^ (12 + (3 - 1) * 9) = x div 4096 div 512 div 512"
    "x div 2 ^ (12 + (3 - 2) * 9) = x div 4096 div 512"
    "x div 2 ^ (12 + (3 - 3) * 9) = x div 4096" for x :: nat
    by (simp_all flip: div_mult2_eq)
  have top: "x div 4096 div 512 div 512 div 512 < 512" if "x < 2 ^ 48" for x :: nat
    using that by (simp add: less_mult_imp_div_less flip: div_mult2_eq)
  have "same_page va va' \<longleftrightarrow>
      PTX 0 va = PTX 0 va' \<and> PTX 1 va = PTX 1 va' \<and> PTX 2 va = PTX 2 va' \<and> PTX 3 va = PTX 3 va'"
    by (auto simp: same_page_def pte_path_def)
  also have "\<dots> \<longleftrightarrow> unat va div 4096 = unat va' div 4096"
    unfolding PTX_div split using top [OF assms(1)] top [OF assms(2)]
    by (simp add: mod_div_512_eq [of "unat va div 4096"] mod_div_512_eq [of "unat va div 4096 div 512"]
        mod_div_512_eq [of "unat va div 4096 div 512 div 512"]) blast
  finally show ?thesis .
qed

text \<open>The entry the loop of \<open>uvm_map\<close> writes for the page of \<open>va\<close>, when it started at \<open>p\<close> with \<open>pa\<close>.\<close>

definition mapped_pte :: "nat \<Rightarrow> u64 \<Rightarrow> u64 \<Rightarrow> u64" where
  "mapped_pte p pa va = (pa + of_nat (unat va div 4096 - p div 4096) * PGSIZE) OR PTE_UDATA"

lemma mapped_pte_Suc:
  assumes "p + 4096 \<le> unat va" and "p mod 4096 = 0"
  shows "mapped_pte (p + 4096) (pa + PGSIZE) va = mapped_pte p pa va"
proof -
  have "p div 4096 < unat va div 4096" using assms by (auto simp: less_eq_div_iff_mult_less_eq mod_eq_0_iff_dvd elim!: dvdE)
  then have "unat va div 4096 - p div 4096 = Suc (unat va div 4096 - (p + 4096) div 4096)" by simp
  then show ?thesis unfolding mapped_pte_def by (simp add: algebra_simps del: diff_Suc_Suc)
qed

lemma page_number:
  assumes "(p :: nat) mod 4096 = 0"
  shows "x div 4096 = p div 4096 \<longleftrightarrow> p \<le> x \<and> x < p + 4096"
proof -
  obtain k where p: "p = 4096 * k" using assms by (auto simp: mod_eq_0_iff_dvd elim!: dvdE)
  obtain q r where x: "x = 4096 * q + r" "r < 4096"
    using mod_less_divisor [of 4096 x] by (metis mult_div_mod_eq zero_less_numeral)
  have "q = k \<longleftrightarrow> 4096 * k \<le> 4096 * q + r \<and> 4096 * q + r < 4096 * k + 4096" using x(2) by linarith
  then show ?thesis by (simp add: p x)
qed

text \<open>What a run of the loop from \<open>p\<close> does, when the pages before \<open>q\<close> are mapped at its end.\<close>

definition map_post ::
    "u64 \<Rightarrow> u64 \<Rightarrow> nat \<Rightarrow> nat \<Rightarrow> u64 \<Rightarrow> u64 list \<Rightarrow> kmem \<Rightarrow> int \<Rightarrow> kmem \<Rightarrow> u64 list \<Rightarrow> nat \<Rightarrow> bool" where
  "map_post kend pgdir p e pa fs s r s' fs' q \<longleftrightarrow> vm_inv kend pgdir fs' s' \<and> p \<le> q \<and>
     (\<forall>va. unat va < 2 ^ 48 \<longrightarrow> pte_of (mem s') pgdir va =
        (if p \<le> unat va \<and> unat va < q then mapped_pte p pa va else pte_of (mem s) pgdir va)) \<and>
     (\<forall>a. outside pgdir fs (mem s) a \<longrightarrow> mem s' a = mem s a \<and> outside pgdir fs' (mem s') a) \<and>
     (r = 0 \<and> e \<le> q \<and> (if p < e then q < e + 4096 else q = p) \<or>
      r = - EINVAL \<and> q < e \<and> (fs' = [] \<or> pte_of (mem s) pgdir (of_nat q) AND PTE_VALID \<noteq> 0))"

lemma map_post_step:
  assumes p: "p mod 4096 = 0" "p < e" "e \<le> 2 ^ 48" and g: "vm_grows kend pgdir fs s fs1 s1"
    and r: "walk_result s1 pgdir (of_nat p) r"
    and ih: "map_post kend pgdir (p + 4096) e (pa + PGSIZE) fs1 (store r (pa OR PTE_UDATA) s1) r' s' fs' q"
  shows "map_post kend pgdir p e pa fs s r' s' fs' q"
proof -
  let ?s = "store r (pa OR PTE_UDATA) s1"
  have v1: "vm_inv kend pgdir fs1 s1" and pte: "\<And>va. pte_of (mem s1) pgdir va = pte_of (mem s) pgdir va"
    and out: "\<And>a. outside pgdir fs (mem s) a \<Longrightarrow> mem s1 a = mem s a \<and> outside pgdir fs1 (mem s1) a"
    using g by (auto simp: vm_grows_def)
  note st = store_pte [OF v1 r, where v = "pa OR PTE_UDATA"]
  have q: "p + 4096 \<le> q" using ih by (simp add: map_post_def)
  have up: "unat (of_nat p :: u64) = p" using p by (simp add: unat_of_nat)
  have sp: "same_page (of_nat p) va \<longleftrightarrow> p \<le> unat va \<and> unat va < p + 4096" if "unat va < 2 ^ 48" for va
    using same_page_iff [of "of_nat p" va] page_number [OF p(1), of "unat va"] that p up by auto
  have first: "mapped_pte p pa va = pa OR PTE_UDATA" if "p \<le> unat va" "unat va < p + 4096" for va
    using page_number [OF p(1), of "unat va"] that by (simp add: mapped_pte_def)
  have new: "pte_of (mem s') pgdir va =
      (if p \<le> unat va \<and> unat va < q then mapped_pte p pa va else pte_of (mem s) pgdir va)"
    if va: "unat va < 2 ^ 48" for va
  proof -
    have "pte_of (mem s') pgdir va = (if p + 4096 \<le> unat va \<and> unat va < q
        then mapped_pte (p + 4096) (pa + PGSIZE) va else pte_of (mem ?s) pgdir va)"
      using ih va by (simp add: map_post_def)
    then show ?thesis
      using q st(2) [where va' = va] sp [OF va] first [of va] pte mapped_pte_Suc [OF _ p(1), of va pa] by auto
  qed
  have "pte_of (mem ?s) pgdir (of_nat q) = pte_of (mem s) pgdir (of_nat q)" if "q < e"
  proof -
    have "unat (of_nat q :: u64) = q" using that p(3) by (simp add: unat_of_nat)
    then show ?thesis using st(2) [where va' = "of_nat q"] sp [of "of_nat q"] pte that p(3) q by auto
  qed
  then have "r' = 0 \<and> e \<le> q \<and> (if p < e then q < e + 4096 else q = p) \<or>
      r' = - EINVAL \<and> q < e \<and> (fs' = [] \<or> pte_of (mem s) pgdir (of_nat q) AND PTE_VALID \<noteq> 0)"
    using ih p(2) by (auto simp: map_post_def split: if_splits)
  moreover have "mem s' a = mem s a \<and> outside pgdir fs' (mem s') a" if "outside pgdir fs (mem s) a" for a
  proof -
    have s: "mem ?s a = mem s1 a \<and> outside pgdir fs1 (mem ?s) a" by (rule st(3)) (use out [OF that] in blast)
    then show ?thesis using out [OF that] ih unfolding map_post_def by auto
  qed
  ultimately show ?thesis using new q ih by (simp add: map_post_def)
qed

lemma map_pages_ok:
  assumes "vm_inv kend pgdir fs s" and "p mod 4096 = 0" and "e \<le> 2 ^ 48"
  shows "\<exists>r s' fs' q. map_pages pgdir p e pa s = Inr (r, s') \<and> map_post kend pgdir p e pa fs s r s' fs' q"
  using assms
proof (induction pgdir p e pa s arbitrary: fs rule: map_pages.induct)
  case (1 pgdir p e pa s)
  show ?case
  proof (cases "p < e")
    case False
    then have "map_post kend pgdir p e pa fs s 0 s fs p" using "1.prems" by (auto simp: map_post_def)
    then show ?thesis using False by (subst map_pages.simps) auto
  next
    case True
    from pgdir_walk_alloc [OF "1.prems"(1), of "of_nat p"] obtain r s1 fs1 where
      w: "pgdir_walk pgdir (of_nat p) True s = Inr (r, s1)" and g: "vm_grows kend pgdir fs s fs1 s1"
      and r: "r = 0 \<longrightarrow> fs1 = []" "r \<noteq> 0 \<longrightarrow> walk_result s1 pgdir (of_nat p) r"
      by blast
    show ?thesis
    proof (cases "r = 0 \<or> mem s1 r AND PTE_VALID \<noteq> 0")
      case stop: True
      have "fs1 = [] \<or> pte_of (mem s) pgdir (of_nat p) AND PTE_VALID \<noteq> 0"
        using stop r g walk_result_pte [of s1 pgdir "of_nat p" r] by (auto simp: vm_grows_def)
      then have "map_post kend pgdir p e pa fs s (- EINVAL) s1 fs1 p"
        using True g by (auto simp: map_post_def vm_grows_def)
      then show ?thesis using stop True w by (subst map_pages.simps) auto
    next
      case go: False
      then have c: "r \<noteq> 0" "\<not> mem s1 r AND PTE_VALID \<noteq> 0" and wr: "walk_result s1 pgdir (of_nat p) r" using r by auto
      have v: "vm_inv kend pgdir fs1 (store r (pa OR PTE_UDATA) s1)"
        by (rule store_pte(1) [OF _ wr]) (use g in \<open>simp add: vm_grows_def\<close>)
      have "(p + 4096) mod 4096 = 0" using "1.prems"(2) by simp
      from "1.IH" [OF True w refl c v this "1.prems"(3)] obtain r' s' fs' q where
        "map_pages pgdir (p + 4096) e (pa + PGSIZE) (store r (pa OR PTE_UDATA) s1) = Inr (r', s')"
        and "map_post kend pgdir (p + 4096) e (pa + PGSIZE) fs1 (store r (pa OR PTE_UDATA) s1) r' s' fs' q"
        by blast
      then have "map_pages pgdir p e pa s = Inr (r', s')" "map_post kend pgdir p e pa fs s r' s' fs' q"
        using True c w by (auto simp: map_pages.simps [of pgdir p]
            intro: map_post_step [OF "1.prems"(2) True "1.prems"(3) g wr])
      then show ?thesis by blast
    qed
  qed
qed

section \<open>Properties\<close>

text \<open>C14: On well-formed page tables \<open>uvm_map\<close> either returns 0 and has given every page that meets
  the range the entry for its frame, or returns \<open>-EINVAL\<close> because the page allocator is empty or
  because a page of the range was mapped before; in both cases the tables stay well formed, a page
  outside of the range keeps its entry, and memory outside the tables and the free pages is
  unchanged. The comment above the function announces \<open>-1\<close> for a failure.\<close>

theorem uvm_map_correct:
  assumes "vm_inv kend pgdir fs s" and "pa < USERTOP" and "unat va + unat sz \<le> 2 ^ 48"
  shows "\<exists>r s' fs' q. uvm_map pgdir va sz pa s = Inr (r, s') \<and> vm_inv kend pgdir fs' s' \<and>
     (\<forall>x. unat x < 2 ^ 48 \<longrightarrow> pte_of (mem s') pgdir x =
        (if unat (ROUNDDOWN va PGSIZE) \<le> unat x \<and> unat x < q
         then mapped_pte (unat (ROUNDDOWN va PGSIZE)) (ROUNDDOWN pa PGSIZE) x else pte_of (mem s) pgdir x)) \<and>
     (\<forall>a. outside pgdir fs (mem s) a \<longrightarrow> mem s' a = mem s a) \<and>
     (r = 0 \<and> unat va + unat sz \<le> q \<and> (sz \<noteq> 0 \<longrightarrow> q < unat va + unat sz + 4096) \<or>
      r = - EINVAL \<and> q < unat va + unat sz \<and>
        (fs' = [] \<or> pte_of (mem s) pgdir (of_nat q) AND PTE_VALID \<noteq> 0))"
proof -
  have le: "unat (ROUNDDOWN va PGSIZE) \<le> unat va" by (simp add: unat_ROUNDDOWN)
  have "sz \<noteq> 0 \<longleftrightarrow> unat sz \<noteq> 0" by (simp add: unat_eq_0)
  then have nz: "unat (ROUNDDOWN va PGSIZE) < unat va + unat sz" if "sz \<noteq> 0" using le that by simp
  let ?p = "unat (ROUNDDOWN va PGSIZE)" and ?pa = "ROUNDDOWN pa PGSIZE" and ?e = "unat va + unat sz"
  from map_pages_ok [OF assms(1) ROUNDDOWN_PGSIZE_aligned assms(3), of va ?pa] obtain r s' fs' q where
    1: "map_pages pgdir ?p ?e ?pa s = Inr (r, s')" and 2: "map_post kend pgdir ?p ?e ?pa fs s r s' fs' q"
    by blast
  have "uvm_map pgdir va sz pa s = Inr (r, s')" using 1 assms(2) by (simp add: uvm_map_def)
  moreover have "r = 0 \<and> ?e \<le> q \<and> (sz \<noteq> 0 \<longrightarrow> q < ?e + 4096) \<or>
      r = - EINVAL \<and> q < ?e \<and> (fs' = [] \<or> pte_of (mem s) pgdir (of_nat q) AND PTE_VALID \<noteq> 0)"
    using 2 nz by (auto simp: map_post_def split: if_splits)
  ultimately show ?thesis using 2 unfolding map_post_def by blast
qed

text \<open>C40: Shrinking a process with \<open>uvm_dealloc\<close> stops the kernel as soon as it reaches a mapped page
  that only this process uses: the page's physical address, not its kernel address, is passed to
  \<open>kfree\<close>.\<close>

theorem uvm_dealloc_panics:
  assumes "vm_inv kend pgdir fs s" and "base \<le> newsz" and "newsz < oldsz"
    and "unat (ROUNDUP newsz PGSIZE) < unat oldsz"
    and "pte_of (mem s) pgdir (ROUNDUP newsz PGSIZE) AND PTE_VALID \<noteq> 0"
    and "pa = PTE_ADDR (pte_of (mem s) pgdir (ROUNDUP newsz PGSIZE))" and "pa \<noteq> 0" and "pa < PHYSTOP"
    and "get_kmem_ref pa s = Inr 1" and "P2V 0 \<le> kend"
  shows "uvm_dealloc kend pgdir base oldsz newsz s = Inl (Panic ''kfree'')"
proof -
  let ?a = "ROUNDUP newsz PGSIZE"
  obtain t where t: "table_at (mem s) pgdir (pte_path ?a) = Some t"
    using assms(5) by (auto simp: pte_of_def split: option.splits)
  have ok: "tables_ok kend pgdir fs (mem s)" using assms(1) by (simp add: vm_inv_def)
  have "page_ok kend t" by (rule tables_okD(1) [OF ok t]) (simp add: pte_path_def)
  then have "cell t (PTX 3 ?a) \<noteq> 0"
    using unat_cell [of kend t "PTX 3 ?a"] page_ok_nonzero [of kend t] by (auto simp: unat_eq_0)
  moreover have "pgdir_walk pgdir ?a False s = Inr (cell t (PTX 3 ?a), s)" by (simp add: pgdir_walk_lookup t)
  moreover have "frame pa < NFRAMES" "kref s (frame pa) = 1"
    using assms(9) by (auto simp: get_kmem_ref_def split: if_splits)
  moreover have "pa < kend" using assms(8,10) by (simp add: PHYSTOP_def P2V_def KERNBASE_def word_less_nat_alt word_le_nat_alt)
  ultimately have "dealloc_page kend pgdir ?a s = Inl (Panic ''kfree'')"
    using assms(5-7) t
    by (simp add: dealloc_page_def drop_frame_def dec_kmem_ref_def get_kmem_ref_def kfree_def pte_of_def Let_def)
  then show ?thesis
    using assms(2-4) by (simp add: uvm_dealloc_def dealloc_pages.simps [of kend pgdir "unat ?a"] not_less not_le)
qed

section \<open>Witnesses\<close>

text \<open>An address space with one mapped page, at \<open>0x1000\<close>, and one page left in the allocator.\<close>

definition wend :: u64 where "wend = 0xFFFF000000125000"
definition wpg :: "nat \<Rightarrow> u64" where "wpg n = 0xFFFF000000300000 + of_nat n * 4096"

definition vm1 :: kmem where
  "vm1 = \<lparr>mem = (\<lambda>_. 0)(cell (wpg 0) 0 := V2P (wpg 1) OR PTE_TABLE, cell (wpg 1) 0 := V2P (wpg 2) OR PTE_TABLE,
      cell (wpg 2) 0 := V2P (wpg 3) OR PTE_TABLE, cell (wpg 3) 1 := V2P (wpg 4) OR PTE_UDATA),
    freelist = wpg 5, fpages = 1, kref = (\<lambda>f. if f = 0x304 then 1 else 0), totalram = 4096\<rparr>"

lemma unat_wpg: "n < 16 \<Longrightarrow> unat (wpg n) = 18446462598735986688 + n * 4096"
  unfolding wpg_def by (simp add: unat_word_ariths unat_of_nat)

lemma wpg_ok:
  assumes "n < 16"
  shows "page_ok wend (wpg n)"
proof -
  have "V2P (wpg n) = 0x300000 + of_nat n * 4096" by (simp add: V2P_def wpg_def KERNBASE_def)
  then have "unat (V2P (wpg n)) = 0x300000 + n * 4096" using assms by (simp add: unat_word_ariths unat_of_nat)
  then have 1: "V2P (wpg n) < PHYSTOP" using assms by (simp add: PHYSTOP_def word_less_nat_alt)
  have 2: "wend \<le> wpg n" by (simp add: wend_def word_le_nat_alt unat_wpg [OF assms])
  have "unat PGSIZE = 4096" by (simp add: PGSIZE_def)
  moreover have "18446462598735986688 + n * 4096 = (4503530907894528 + n) * 4096" by simp
  ultimately have "unat (wpg n mod PGSIZE) = 0"
    by (simp only: unat_mod unat_wpg [OF assms] mod_mult_self2_is_0)
  then have "wpg n mod PGSIZE = 0" by (simp only: unat_eq_0)
  with 1 2 show ?thesis unfolding page_ok_def by blast
qed

lemma wpg_inject:
  assumes "n < 16" and "k < 16"
  shows "wpg n = wpg k \<longleftrightarrow> n = k"
proof
  assume "wpg n = wpg k"
  then have "unat (wpg n) = unat (wpg k)" by (rule arg_cong)
  then show "n = k" unfolding unat_wpg [OF assms(1)] unat_wpg [OF assms(2)] by simp
qed simp

lemma wcell: "n < 16 \<Longrightarrow> k < 16 \<Longrightarrow> i < 512 \<Longrightarrow> j < 512 \<Longrightarrow> cell (wpg n) i = cell (wpg k) j \<longleftrightarrow> n = k \<and> i = j"
  using cell_inject [OF wpg_ok wpg_ok] by (simp add: wpg_inject)

lemma vm1_entries:
  "i < 512 \<Longrightarrow> mem vm1 (cell (wpg 0) i) = (if i = 0 then V2P (wpg 1) OR PTE_TABLE else 0)"
  "i < 512 \<Longrightarrow> mem vm1 (cell (wpg 1) i) = (if i = 0 then V2P (wpg 2) OR PTE_TABLE else 0)"
  "i < 512 \<Longrightarrow> mem vm1 (cell (wpg 2) i) = (if i = 0 then V2P (wpg 3) OR PTE_TABLE else 0)"
  "mem vm1 (cell (wpg 3) 1) = V2P (wpg 4) OR PTE_UDATA"
  "mem vm1 (cell (wpg 5) 0) = 0"
  by (simp_all add: vm1_def wcell)

lemma vm1_table_at:
  "length is \<le> 3 \<Longrightarrow> table_at (mem vm1) (wpg 0) is = Some t \<Longrightarrow> t = wpg (length is) \<and> is = replicate (length is) 0"
proof -
  assume len: "length is \<le> 3" and t: "table_at (mem vm1) (wpg 0) is = Some t"
  note e = PTE_TABLE_entry [OF wpg_ok]
  have "\<exists>a b c. is = [] \<or> is = [a] \<or> is = [a, b] \<or> is = [a, b, c]"
    using len by (auto simp: le_Suc_eq numeral_3_eq_3 length_Suc_conv)
  then show ?thesis using t vm1_entries e by (auto simp: numeral_2_eq_2 numeral_3_eq_3 split: if_splits)
qed

lemma vm1_inv: "vm_inv wend (wpg 0) [wpg 5] vm1"
proof -
  have 5: "page_ok wend (wpg 5)" "wpg 5 \<noteq> 0" using wpg_ok [of 5] page_ok_nonzero by auto
  moreover have "mem vm1 (wpg 5) = 0" using vm1_entries(5) by (simp add: cell_def)
  moreover have "frame (V2P (wpg 5)) = 0x305"
    by (simp add: frame_eq wpg_def V2P_def KERNBASE_def)
  ultimately have "mm_inv wend [wpg 5] vm1" by (simp add: mm_inv_def vm1_def)
  moreover have "tables_ok wend (wpg 0) [wpg 5] (mem vm1)"
    unfolding tables_ok_def
  proof (intro conjI allI impI)
    fix ks t
    assume "length ks \<le> 3" "table_at (mem vm1) (wpg 0) ks = Some t"
    then have "t = wpg (length ks)" "length ks < 16" by (auto dest: vm1_table_at)
    then show "page_ok wend t" "t \<notin> set [wpg 5]" using wpg_ok \<open>length ks \<le> 3\<close> by (auto simp: wpg_inject)
  next
    fix ks js t
    assume a: "length ks \<le> 3" "length js \<le> 3" "table_at (mem vm1) (wpg 0) ks = Some t" "table_at (mem vm1) (wpg 0) js = Some t"
    then have "wpg (length ks) = wpg (length js)" "ks = replicate (length ks) 0" "js = replicate (length js) 0"
      using vm1_table_at by blast+
    then show "ks = js" using a wpg_inject [of "length ks" "length js"] by auto
  qed
  ultimately show ?thesis by (simp add: vm_inv_def)
qed

lemma vm1_pte: "pte_of (mem vm1) (wpg 0) 0x1000 = V2P (wpg 4) OR PTE_UDATA"
  using vm1_entries PTE_TABLE_entry [OF wpg_ok]
  by (simp add: pte_of_def pte_path_def PTX_def)

theorem uvm_map_correct_witness:
  "\<exists>r s' fs' q. uvm_map (wpg 0) 0x2000 0x1000 0x305000 vm1 = Inr (r, s') \<and> vm_inv wend (wpg 0) fs' s' \<and>
     (r = 0 \<and> (12288 :: nat) \<le> q \<or> r = - EINVAL \<and> q < 12288)"
proof -
  have "(0x305000 :: u64) < USERTOP" by (simp add: USERTOP_def)
  from uvm_map_correct [OF vm1_inv this, of "0x2000" "0x1000"] obtain r s' fs' q where
    "uvm_map (wpg 0) 0x2000 0x1000 0x305000 vm1 = Inr (r, s')" "vm_inv wend (wpg 0) fs' s'"
    "r = 0 \<and> unat (0x2000 :: u64) + unat (0x1000 :: u64) \<le> q \<or> r = - EINVAL \<and> q < unat (0x2000 :: u64) + unat (0x1000 :: u64)"
    by auto
  then show ?thesis by auto
qed

theorem uvm_dealloc_panics_witness:
  "uvm_dealloc wend (wpg 0) 0 0x2000 0x1000 vm1 = Inl (Panic ''kfree'')"
proof (rule uvm_dealloc_panics [OF vm1_inv])
  have up: "ROUNDUP 0x1000 PGSIZE = 0x1000" by (simp add: ROUNDUP_def ROUNDDOWN_def PGSIZE_def)
  have pa: "PTE_ADDR (V2P (wpg 4) OR PTE_UDATA) = 0x304000"
    by (simp add: PTE_ADDR_def wpg_def V2P_def KERNBASE_def PTE_UDATA_def PTE_USER_def PTE_NORMAL_def
        MT_NORMAL_def AF_USED_def SH_INNER_def PTE_PAGE_def push_bit_eq_mult)
  show "(0x304000 :: u64) = PTE_ADDR (pte_of (mem vm1) (wpg 0) (ROUNDUP 0x1000 PGSIZE))"
    by (simp add: up vm1_pte pa)
  show "pte_of (mem vm1) (wpg 0) (ROUNDUP 0x1000 PGSIZE) AND PTE_VALID \<noteq> 0"
    unfolding up vm1_pte by (rule PTE_VALID_or)
      (simp add: PTE_UDATA_def PTE_USER_def PTE_NORMAL_def MT_NORMAL_def AF_USED_def SH_INNER_def
        PTE_PAGE_def PTE_VALID_def push_bit_eq_mult)
  show "get_kmem_ref 0x304000 vm1 = Inr 1" by (simp add: get_kmem_ref_def frame_eq NFRAMES_def vm1_def)
  show "unat (ROUNDUP 0x1000 PGSIZE) < unat (0x2000 :: u64)" by (simp add: up)
qed (simp_all add: PHYSTOP_def wend_def P2V_def KERNBASE_def)

end
