(* ===== verification/Vm_Space.thy ===== *)
theory Vm_Space
  imports Vm
begin

text \<open>
  The address space of a process: its page tables together with the frames they map. A frame that is
  mapped is neither free nor a table, it is counted, and it is mapped once. Under this invariant one page
  can be mapped to a fresh frame, a frame can be written, and \<open>uvm_unmap\<close> of \<open>kern/vm.c\<close> takes away exactly
  the pages it is given and frees those that nobody else uses.
\<close>

section \<open>Pages\<close>

definition tables :: "(u64 \<Rightarrow> u64) \<Rightarrow> u64 \<Rightarrow> u64 set" where
  "tables m pgdir = {t. \<exists>is. length is \<le> 3 \<and> table_at m pgdir is = Some t}"

definition frame_at :: "(u64 \<Rightarrow> u64) \<Rightarrow> u64 \<Rightarrow> u64 \<Rightarrow> u64 option" where
  "frame_at m pgdir va =
     (if pte_of m pgdir va AND PTE_VALID = 0 then None else Some (P2V (PTE_ADDR (pte_of m pgdir va))))"

lemma frame_at_pte: "pte_of m pgdir va = pte_of m' pgdir va \<Longrightarrow> frame_at m pgdir va = frame_at m' pgdir va"
  by (simp add: frame_at_def)

definition data_page :: "u64 \<Rightarrow> u64 \<Rightarrow> u64 list \<Rightarrow> kmem \<Rightarrow> u64 \<Rightarrow> bool" where
  "data_page kend pgdir fs s p \<longleftrightarrow>
     page_ok kend p \<and> p \<notin> set fs \<and> p \<notin> tables (mem s) pgdir \<and> kref s (frame (V2P p)) \<noteq> 0"

definition space_ok :: "u64 \<Rightarrow> u64 \<Rightarrow> u64 list \<Rightarrow> kmem \<Rightarrow> bool" where
  "space_ok kend pgdir fs s \<longleftrightarrow> vm_inv kend pgdir fs s \<and>
     (\<forall>va p. unat va < 2 ^ 48 \<longrightarrow> frame_at (mem s) pgdir va = Some p \<longrightarrow>
        data_page kend pgdir fs s p \<and> pte_of (mem s) pgdir va AND PTE_PAGE = PTE_PAGE) \<and>
     (\<forall>va va' p. unat va < 2 ^ 48 \<longrightarrow> unat va' < 2 ^ 48 \<longrightarrow> frame_at (mem s) pgdir va = Some p \<longrightarrow>
        frame_at (mem s) pgdir va' = Some p \<longrightarrow> same_page va va')"

lemma space_okD:
  assumes "space_ok kend pgdir fs s"
  shows "vm_inv kend pgdir fs s"
    and "unat va < 2 ^ 48 \<Longrightarrow> frame_at (mem s) pgdir va = Some p \<Longrightarrow>
      data_page kend pgdir fs s p \<and> pte_of (mem s) pgdir va AND PTE_PAGE = PTE_PAGE"
    and "unat va < 2 ^ 48 \<Longrightarrow> unat va' < 2 ^ 48 \<Longrightarrow> frame_at (mem s) pgdir va = Some p \<Longrightarrow>
      frame_at (mem s) pgdir va' = Some p \<Longrightarrow> same_page va va'"
  using assms unfolding space_ok_def by blast+

lemma unat_in_page:
  assumes "page_ok kend p" and "a - p < PGSIZE"
  obtains d where "d < 4096" and "unat a = unat p + d"
proof
  show d: "unat (a - p) < 4096" using assms(2) by (simp add: word_less_nat_alt PGSIZE_def)
  have "unat (p + (a - p)) = unat p + unat (a - p)"
    using page_ok_high [OF assms(1)] d by (intro unat_add_nowrap64) simp
  then show "unat a = unat p + unat (a - p)" by simp
qed

lemma in_page_disjoint:
  assumes "page_ok kend p" and "page_ok kend q" and "a - p < PGSIZE" and "a - q < PGSIZE"
  shows "p = q"
proof -
  obtain d where d: "d < 4096" "unat a = unat p + d" using unat_in_page [OF assms(1,3)] by blast
  obtain e where e: "e < 4096" "unat a = unat q + e" using unat_in_page [OF assms(2,4)] by blast
  have "unat p + d = unat q + e" using d(2) e(2) by simp
  from page_disjoint [OF assms(1,2) this d(1) e(1)] show ?thesis ..
qed

lemma tablesI: "table_at m pgdir is = Some t \<Longrightarrow> length is \<le> 3 \<Longrightarrow> t \<in> tables m pgdir"
  by (auto simp: tables_def)

lemma tables_page:
  assumes "vm_inv kend pgdir fs s" and "t \<in> tables (mem s) pgdir"
  shows "page_ok kend t" and "t \<notin> set fs"
  using assms tables_okD(1,2) by (auto simp: tables_def vm_inv_def)

lemma length_pte_path [simp]: "length (pte_path va) = 3"
  by (simp add: pte_path_def)

lemma pte_table:
  assumes "table_at m pgdir (pte_path va) = Some t"
  shows "t \<in> tables m pgdir"
  using assms by (rule tablesI) simp

lemma table_at_big: "\<not> (\<forall>j \<in> set is. j < 512) \<Longrightarrow> table_at m t is = None"
  by (induction "is" arbitrary: t) auto

text \<open>Two memories that agree on the entries of the tables have the same tables and translations.\<close>

lemma table_at_frame:
  assumes "\<And>t i. t \<in> tables m pgdir \<Longrightarrow> i < 512 \<Longrightarrow> m' (cell t i) = m (cell t i)" and "length is \<le> 3"
  shows "table_at m' pgdir is = table_at m pgdir is"
proof (cases "\<forall>j \<in> set is. j < 512")
  case True
  show ?thesis
  proof (rule table_at_cong)
    fix ks i js u
    assume e: "is = ks @ i # js" "table_at m pgdir ks = Some u"
    then have "u \<in> tables m pgdir" using assms(2) by (intro tablesI) auto
    then show "m' (cell u i) = m (cell u i)" using assms(1) True e(1) by simp
  qed
qed (simp add: table_at_big)

lemma tables_frame:
  assumes "\<And>t i. t \<in> tables m pgdir \<Longrightarrow> i < 512 \<Longrightarrow> m' (cell t i) = m (cell t i)"
  shows "tables m' pgdir = tables m pgdir" and "pte_of m' pgdir va = pte_of m pgdir va"
    and "frame_at m' pgdir va = frame_at m pgdir va"
proof -
  have t: "table_at m' pgdir is = table_at m pgdir is" if "length is \<le> 3" for "is"
    using assms that by (rule table_at_frame)
  show "tables m' pgdir = tables m pgdir" using t by (auto simp: tables_def)
  have "table_at m' pgdir (pte_path va) = table_at m pgdir (pte_path va)" by (rule t) (simp add: pte_path_def)
  then show p: "pte_of m' pgdir va = pte_of m pgdir va"
    using assms pte_table [of m pgdir va] by (auto simp: pte_of_def split: option.split)
  show "frame_at m' pgdir va = frame_at m pgdir va" by (simp add: frame_at_def p)
qed

text \<open>Writing to a page that is neither a table nor free.\<close>

lemma data_write:
  assumes vm: "vm_inv kend pgdir fs s" and p: "page_ok kend p" "p \<notin> set fs" "p \<notin> tables (mem s) pgdir"
    and m: "\<And>a. \<not> a - p < PGSIZE \<Longrightarrow> mem s' a = mem s a"
    and same: "freelist s' = freelist s" "fpages s' = fpages s" "kref s' = kref s"
  shows "vm_inv kend pgdir fs s'" and "\<And>t i. t \<in> tables (mem s) pgdir \<Longrightarrow> i < 512 \<Longrightarrow> mem s' (cell t i) = mem s (cell t i)"
proof -
  show e: "mem s' (cell t i) = mem s (cell t i)" if "t \<in> tables (mem s) pgdir" "i < 512" for t i
    using cell_in_page [OF tables_page(1) [OF vm that(1)] p(1) that(2)] p(3) that(1) by (intro m) auto
  have t: "table_at (mem s') pgdir is = table_at (mem s) pgdir is" if "length is \<le> 3" for "is"
    using e that by (rule table_at_frame)
  have mm: "mm_inv kend fs s" using vm by (simp add: vm_inv_def)
  have "mem s' q = mem s q" if "q \<in> set fs" for q
  proof (rule m)
    have "page_ok kend q" "q \<noteq> p" using that mm p(2) by (auto simp: mm_inv_def)
    then show "\<not> q - p < PGSIZE" using cell_in_page [of kend q p 0] p(1) by (simp add: cell_def)
  qed
  then have "mm_inv kend fs s'" using mm same free_chain_cong [of fs "mem s'" "mem s"] by (simp add: mm_inv_def)
  moreover have "tables_ok kend pgdir fs (mem s')" using vm t by (simp add: vm_inv_def tables_ok_def)
  ultimately show "vm_inv kend pgdir fs s'" by (simp add: vm_inv_def)
qed

text \<open>Taking translations away.\<close>

lemma space_sub:
  assumes "space_ok kend pgdir fs s" and "vm_inv kend pgdir fs' s'"
    and "\<And>va p. unat va < 2 ^ 48 \<Longrightarrow> frame_at (mem s') pgdir va = Some p \<Longrightarrow>
      pte_of (mem s') pgdir va = pte_of (mem s) pgdir va \<and> data_page kend pgdir fs' s' p"
  shows "space_ok kend pgdir fs' s'"
proof -
  have f: "frame_at (mem s) pgdir va = Some p" if "unat va < 2 ^ 48" "frame_at (mem s') pgdir va = Some p" for va p
    using assms(3) [OF that] that(2) by (auto simp: frame_at_def split: if_splits)
  show ?thesis
    unfolding space_ok_def
    using assms(2,3) f space_okD(2,3) [OF assms(1)] by (metis (no_types, lifting))
qed

lemma data_write_space:
  assumes sp: "space_ok kend pgdir fs s" and p: "page_ok kend p" "p \<notin> set fs" "p \<notin> tables (mem s) pgdir"
    and m: "\<And>a. \<not> a - p < PGSIZE \<Longrightarrow> mem s' a = mem s a"
    and same: "freelist s' = freelist s" "fpages s' = fpages s" "kref s' = kref s"
  shows "space_ok kend pgdir fs s'" and "tables (mem s') pgdir = tables (mem s) pgdir"
    and "pte_of (mem s') pgdir va = pte_of (mem s) pgdir va"
proof -
  note dw = data_write [OF space_okD(1) [OF sp] p m same]
  show t: "tables (mem s') pgdir = tables (mem s) pgdir" using dw(2) by (rule tables_frame)
  show pte: "pte_of (mem s') pgdir va = pte_of (mem s) pgdir va" for va using dw(2) by (rule tables_frame)
  show "space_ok kend pgdir fs s'"
  proof (rule space_sub [OF sp dw(1)])
    fix va q
    assume a: "unat va < 2 ^ 48" "frame_at (mem s') pgdir va = Some q"
    moreover have "frame_at (mem s') pgdir va = frame_at (mem s) pgdir va" using dw(2) by (rule tables_frame)
    ultimately have "data_page kend pgdir fs s q" using space_okD(2) [OF sp a(1)] by simp
    then show "pte_of (mem s') pgdir va = pte_of (mem s) pgdir va \<and> data_page kend pgdir fs s' q"
      using pte t same by (simp add: data_page_def)
  qed
qed

lemma kfree_data:
  assumes vm: "vm_inv kend pgdir fs s" and p: "page_ok kend p" "p \<notin> set fs" "p \<notin> tables (mem s) pgdir"
  obtains s' where "kfree kend p s = Inr s'" and "vm_inv kend pgdir (p # fs) s'"
    and "tables (mem s') pgdir = tables (mem s) pgdir" and "\<And>va. pte_of (mem s') pgdir va = pte_of (mem s) pgdir va"
    and "\<And>a. a \<noteq> p \<Longrightarrow> mem s' a = mem s a" and "kref s' = (kref s)(frame (V2P p) := 0)"
    and "\<And>is. length is \<le> 3 \<Longrightarrow> table_at (mem s') pgdir is = table_at (mem s) pgdir is"
proof -
  have mm: "mm_inv kend fs s" using vm by (simp add: vm_inv_def)
  from kfree_Cons [OF mm p(1,2)] obtain s' where s': "kfree kend p s = Inr s'" "mm_inv kend (p # fs) s'"
    "mem s' = (mem s)(p := freelist s)" "kref s' = (kref s)(frame (V2P p) := 0)" by blast
  have e: "mem s' (cell t i) = mem s (cell t i)" if "t \<in> tables (mem s) pgdir" "i < 512" for t i
    using cell_in_page [OF tables_page(1) [OF vm that(1)] p(1) that(2)] p(3) that(1) s'(3) by (auto simp: PGSIZE_def)
  have t: "table_at (mem s') pgdir is = table_at (mem s) pgdir is" if "length is \<le> 3" for "is"
    using e that by (rule table_at_frame)
  have "tables_ok kend pgdir (p # fs) (mem s')"
    using vm t p(3) tablesI [of "mem s" pgdir] by (auto simp: vm_inv_def tables_ok_def)
  then have v: "vm_inv kend pgdir (p # fs) s'" using s'(2) by (simp add: vm_inv_def)
  have pt: "pte_of (mem s') pgdir va = pte_of (mem s) pgdir va" for va using e by (rule tables_frame)
  have tb: "tables (mem s') pgdir = tables (mem s) pgdir" using e by (rule tables_frame)
  show thesis by (rule that [OF s'(1) v tb pt _ s'(4) t]) (simp add: s'(3))
qed

lemma table_at_store:
  assumes vm: "vm_inv kend pgdir fs s" and r: "walk_result s pgdir va r" and len: "length is \<le> 3"
  shows "table_at (mem (store r v s)) pgdir is = table_at (mem s) pgdir is"
proof (cases "\<forall>j \<in> set is. j < 512")
  case True
  obtain t where t: "table_at (mem s) pgdir (pte_path va) = Some t" and rt: "r = cell t (PTX 3 va)"
    using r by (auto simp: walk_result_def)
  have ok: "tables_ok kend pgdir fs (mem s)" using vm by (simp add: vm_inv_def)
  have l3: "length (pte_path va) \<le> 3" by (simp add: pte_path_def)
  show ?thesis
  proof (rule table_at_cong)
    fix ks i js u
    assume e: "is = ks @ i # js" and u: "table_at (mem s) pgdir ks = Some u"
    then have lk: "length ks < 3" and i: "i < 512" using len True by auto
    have "u \<noteq> t" using tables_okD(3) [OF ok t l3, of ks] u lk by (auto simp: pte_path_def)
    moreover have "page_ok kend u" using tables_okD(1) [OF ok u] lk by simp
    ultimately have "cell u i \<noteq> r" using cell_inject [OF _ tables_okD(1) [OF ok t l3] i PTX_less] by (simp add: rt)
    then show "mem (store r v s) (cell u i) = mem s (cell u i)" by (simp add: store_def)
  qed
qed (simp add: table_at_big)

section \<open>Unmapping\<close>

lemma walk_lookup:
  assumes "vm_inv kend pgdir fs s" and "frame_at (mem s) pgdir va = Some p"
  obtains r where "pgdir_walk pgdir va False s = Inr (r, s)" and "r \<noteq> 0" and "walk_result s pgdir va r"
    and "mem s r = pte_of (mem s) pgdir va"
proof -
  obtain t where t: "table_at (mem s) pgdir (pte_path va) = Some t"
    using assms(2) by (auto simp: frame_at_def pte_of_def split: option.splits if_splits)
  have "page_ok kend t" using tables_page(1) [OF assms(1) pte_table [OF t]] .
  then have "cell t (PTX 3 va) \<noteq> 0"
    using unat_cell [of kend t "PTX 3 va"] page_ok_nonzero [of kend t] by (auto simp: unat_eq_0)
  moreover have w: "walk_result s pgdir va (cell t (PTX 3 va))" using t by (auto simp: walk_result_def)
  ultimately show thesis using that [OF _ _ w walk_result_pte [OF w]] t by (simp add: pgdir_walk_lookup)
qed

lemma PTE_FLAGS_leaf:
  assumes "pte AND PTE_PAGE = PTE_PAGE"
  shows "PTE_FLAGS pte AND (PTE_PAGE OR PTE_VALID) \<noteq> PTE_VALID"
proof -
  have "PTE_FLAGS pte AND (PTE_PAGE OR PTE_VALID) = pte AND PTE_PAGE"
    unfolding PTE_FLAGS_def PTE_PAGE_def PTE_VALID_def by (simp add: and.assoc)
  then show ?thesis using assms by (simp add: PTE_PAGE_def PTE_VALID_def)
qed

lemma drop_frame_ok:
  assumes vm: "vm_inv kend pgdir fs s" and p: "data_page kend pgdir fs s p"
  obtains s' where "drop_frame kend (V2P p) p s = Inr s'"
    and "vm_inv kend pgdir (if kref s (frame (V2P p)) = 1 then p # fs else fs) s'"
    and "kref s' = (kref s)(frame (V2P p) := kref s (frame (V2P p)) - 1)"
    and "\<And>is. length is \<le> 3 \<Longrightarrow> table_at (mem s') pgdir is = table_at (mem s) pgdir is"
    and "\<And>va. pte_of (mem s') pgdir va = pte_of (mem s) pgdir va" and "\<And>a. a \<noteq> p \<Longrightarrow> mem s' a = mem s a"
proof -
  let ?f = "frame (V2P p)"
  let ?s = "s\<lparr>kref := (kref s)(?f := kref s ?f - 1)\<rparr>"
  have ok: "page_ok kend p" "p \<notin> set fs" "p \<notin> tables (mem s) pgdir" and f: "?f < NFRAMES"
    using p page_ok_frame by (auto simp: data_page_def)
  have "kref ?s (frame (V2P q)) = 0" if "q \<in> set fs" for q
    using that vm ok(2) page_ok_frame_inj [OF _ ok(1), of kend q] by (auto simp: vm_inv_def mm_inv_def)
  then have v: "vm_inv kend pgdir fs ?s" using vm by (auto simp: vm_inv_def mm_inv_def)
  have d: "drop_frame kend (V2P p) p s = (if kref s ?f = 1 then kfree kend p ?s else Inr ?s)"
    using f by (simp add: drop_frame_def dec_kmem_ref_def get_kmem_ref_def)
  show thesis
  proof (cases "kref s ?f = 1")
    case True
    have o: "p \<notin> tables (mem ?s) pgdir" using ok(3) by simp
    obtain s' where "kfree kend p ?s = Inr s'" "vm_inv kend pgdir (p # fs) s'" "tables (mem s') pgdir = tables (mem ?s) pgdir"
      "\<And>va. pte_of (mem s') pgdir va = pte_of (mem ?s) pgdir va" "\<And>a. a \<noteq> p \<Longrightarrow> mem s' a = mem ?s a"
      "kref s' = (kref ?s)(?f := 0)" "\<And>is. length is \<le> 3 \<Longrightarrow> table_at (mem s') pgdir is = table_at (mem ?s) pgdir is"
      by (rule kfree_data [OF v ok(1,2) o]) (rule that)
    then show thesis using that d True by simp
  next
    case False
    then show thesis using that [of ?s] d v by simp
  qed
qed

lemma unmap_page_ok:
  assumes sp: "space_ok kend pgdir fs s" and a: "unat a < 2 ^ 48" and p: "frame_at (mem s) pgdir a = Some p"
  obtains s' where "unmap_page kend pgdir a s = Inr s'"
    and "space_ok kend pgdir (if kref s (frame (V2P p)) = 1 then p # fs else fs) s'"
    and "\<And>x. pte_of (mem s') pgdir x = (if same_page a x then 0 else pte_of (mem s) pgdir x)"
    and "kref s' = (kref s)(frame (V2P p) := kref s (frame (V2P p)) - 1)" and "tables (mem s') pgdir = tables (mem s) pgdir"
    and "\<And>b. b \<noteq> p \<Longrightarrow> \<forall>t\<in>tables (mem s) pgdir. \<forall>i<512. b \<noteq> cell t i \<Longrightarrow> mem s' b = mem s b"
proof -
  let ?fs = "if kref s (frame (V2P p)) = 1 then p # fs else fs"
  note vm = space_okD(1) [OF sp]
  have dp: "data_page kend pgdir fs s p" and leaf: "pte_of (mem s) pgdir a AND PTE_PAGE = PTE_PAGE"
    using space_okD(2) [OF sp a p] by simp_all
  obtain r where r: "pgdir_walk pgdir a False s = Inr (r, s)" "r \<noteq> 0" "walk_result s pgdir a r"
    "mem s r = pte_of (mem s) pgdir a" by (rule walk_lookup [OF vm p]) (rule that)
  have e: "V2P p = PTE_ADDR (pte_of (mem s) pgdir a)" "pte_of (mem s) pgdir a AND PTE_VALID \<noteq> 0"
    using p by (auto simp: frame_at_def split: if_splits)
  obtain s1 where s1: "drop_frame kend (V2P p) p s = Inr s1" "vm_inv kend pgdir ?fs s1"
    "kref s1 = (kref s)(frame (V2P p) := kref s (frame (V2P p)) - 1)"
    "\<And>is. length is \<le> 3 \<Longrightarrow> table_at (mem s1) pgdir is = table_at (mem s) pgdir is"
    "\<And>va. pte_of (mem s1) pgdir va = pte_of (mem s) pgdir va" "\<And>a. a \<noteq> p \<Longrightarrow> mem s1 a = mem s a"
    by (rule drop_frame_ok [OF vm dp]) (rule that)
  have w: "walk_result s1 pgdir a r" using r(3) s1(4) [of "pte_path a"] by (simp add: walk_result_def)
  let ?s = "store r 0 s1"
  have z: "PTE_ADDR 0 = 0" by (simp add: PTE_ADDR_def)
  have u: "unmap_page kend pgdir a s = Inr ?s"
    using r(1,2,4) e(2) s1(1) PTE_FLAGS_leaf [OF leaf] by (simp add: unmap_page_def Let_def z flip: e(1))
  have pte: "pte_of (mem ?s) pgdir x = (if same_page a x then 0 else pte_of (mem s) pgdir x)" for x
    using store_pte(2) [OF s1(2) w, where v = 0 and va' = x] s1(5) by simp
  have tb: "tables (mem ?s) pgdir = tables (mem s) pgdir"
    using table_at_store [OF s1(2) w, where v = 0] s1(4) by (auto simp: tables_def)
  have sp': "space_ok kend pgdir ?fs ?s"
  proof (rule space_sub [OF sp store_pte(1) [OF s1(2) w]])
    fix x q
    assume x: "unat x < 2 ^ 48" "frame_at (mem ?s) pgdir x = Some q"
    then have n: "\<not> same_page a x" "frame_at (mem s) pgdir x = Some q" using pte by (auto simp: frame_at_def split: if_splits)
    then have "data_page kend pgdir fs s q" "q \<noteq> p" using space_okD(2,3) [OF sp x(1)] space_okD(3) [OF sp a x(1) p] by auto
    then have "data_page kend pgdir ?fs ?s q"
      using tb s1(3) dp page_ok_frame_inj [of kend q kend p] by (auto simp: data_page_def store_def)
    then show "pte_of (mem ?s) pgdir x = pte_of (mem s) pgdir x \<and> data_page kend pgdir ?fs ?s q" using pte n by simp
  qed
  obtain t where t: "t \<in> tables (mem s) pgdir" "r = cell t (PTX 3 a)" using r(3) pte_table unfolding walk_result_def by blast
  have "mem ?s b = mem s b" if "b \<noteq> p" "\<forall>t\<in>tables (mem s) pgdir. \<forall>i<512. b \<noteq> cell t i" for b
    using that s1(6) t PTX_less [of 3 a] by (auto simp: store_def)
  then show thesis using that [OF u sp' pte _ tb] s1(3) by (simp add: store_def)
qed

lemma same_page_pte: "same_page va va' \<Longrightarrow> pte_of m pgdir va = pte_of m pgdir va'"
  by (simp add: same_page_def pte_of_def split: option.split)

lemma same_page_frame: "same_page va va' \<Longrightarrow> frame_at m pgdir va = frame_at m pgdir va'"
  using same_page_pte [of va va' m pgdir] by (simp add: frame_at_def)

lemma same_page_range:
  assumes "a mod 4096 = 0" and "a + 4096 \<le> 2 ^ 48" and "unat x < 2 ^ 48"
  shows "same_page (of_nat a) x \<longleftrightarrow> a \<le> unat x \<and> unat x < a + 4096"
proof -
  have "unat (of_nat a :: u64) = a" using assms(2) by (simp add: unat_of_nat)
  then show ?thesis using same_page_iff [of "of_nat a" x] assms page_number [OF assms(1), of "unat x"] by auto
qed

text \<open>The frames of the pages of a range, and what \<open>uvm_unmap\<close> does to them and to the rest.\<close>

definition frames_in :: "(u64 \<Rightarrow> u64) \<Rightarrow> u64 \<Rightarrow> nat \<Rightarrow> nat \<Rightarrow> u64 set" where
  "frames_in m pgdir a n = {p. \<exists>x. a \<le> unat x \<and> unat x < a + n \<and> frame_at m pgdir x = Some p}"

definition unmapped :: "u64 \<Rightarrow> u64 \<Rightarrow> nat \<Rightarrow> nat \<Rightarrow> u64 list \<Rightarrow> kmem \<Rightarrow> u64 list \<Rightarrow> kmem \<Rightarrow> bool" where
  "unmapped kend pgdir a n fs s fs' s' \<longleftrightarrow> space_ok kend pgdir fs' s' \<and> tables (mem s') pgdir = tables (mem s) pgdir \<and>
     (\<forall>x. unat x < 2 ^ 48 \<longrightarrow>
        pte_of (mem s') pgdir x = (if a \<le> unat x \<and> unat x < a + n then 0 else pte_of (mem s) pgdir x)) \<and>
     set fs' = set fs \<union> {p \<in> frames_in (mem s) pgdir a n. kref s (frame (V2P p)) = 1} \<and>
     (\<forall>p. page_ok kend p \<longrightarrow> kref s' (frame (V2P p)) =
        (if p \<in> frames_in (mem s) pgdir a n then kref s (frame (V2P p)) - 1 else kref s (frame (V2P p)))) \<and>
     (\<forall>q b. page_ok kend q \<longrightarrow> q \<notin> tables (mem s) pgdir \<longrightarrow> q \<notin> frames_in (mem s) pgdir a n \<longrightarrow> b - q < PGSIZE \<longrightarrow>
        mem s' b = mem s b)"

lemma frames_in_0 [simp]: "frames_in m pgdir a 0 = {}"
  by (auto simp: frames_in_def)

lemma unmapped_refl: "space_ok kend pgdir fs s \<Longrightarrow> unmapped kend pgdir a 0 fs s fs s"
  unfolding unmapped_def frames_in_0 by auto

lemma frames_in_Suc:
  assumes "a mod 4096 = 0" and "n mod 4096 = 0" and "b + 4096 \<le> 2 ^ 48" and b: "b = a + n"
    and p: "frame_at m pgdir (of_nat b) = Some p"
  shows "frames_in m pgdir a (n + 4096) = insert p (frames_in m pgdir a n)"
proof -
  have al: "b mod 4096 = 0" using assms(1,2) b by (simp add: mod_eq_0_iff_dvd)
  have sp: "same_page (of_nat b) x \<longleftrightarrow> b \<le> unat x \<and> unat x < b + 4096" if "unat x < 2 ^ 48" for x
    by (rule same_page_range [OF al assms(3) that])
  have u: "unat (of_nat b :: u64) = b" using assms(3) by (simp add: unat_of_nat)
  have last: "q = p" if x: "a + n \<le> unat x" "unat x < a + n + 4096" "frame_at m pgdir x = Some q" for x q
  proof -
    have "same_page (of_nat b) x" using sp [of x] x assms(3) b by simp
    from same_page_frame [OF this, of m pgdir] p x(3) show ?thesis by simp
  qed
  have "p \<in> frames_in m pgdir a (n + 4096)"
    unfolding frames_in_def using p u b by (intro CollectI exI [of _ "of_nat b"]) simp
  moreover have "frames_in m pgdir a n \<subseteq> frames_in m pgdir a (n + 4096)" by (force simp: frames_in_def)
  moreover have "q \<in> insert p (frames_in m pgdir a n)" if q: "q \<in> frames_in m pgdir a (n + 4096)" for q
  proof -
    obtain x where x: "a \<le> unat x" "unat x < a + n + 4096" "frame_at m pgdir x = Some q"
      using q by (auto simp: frames_in_def)
    show ?thesis
    proof (cases "a + n \<le> unat x")
      case False
      then show ?thesis using x by (auto simp: frames_in_def not_le)
    qed (use last x in blast)
  qed
  ultimately show ?thesis by blast
qed

lemma unmapped_step:
  assumes un: "unmapped kend pgdir a n fs s fs1 s1" and al: "a mod 4096 = 0" "n mod 4096 = 0" and le: "b + 4096 \<le> 2 ^ 48" and b: "b = a + n"
    and p: "frame_at (mem s) pgdir (of_nat b) = Some p" and sp: "space_ok kend pgdir fs s"
  shows "\<exists>s2 fs2. unmap_page kend pgdir (of_nat b) s1 = Inr s2 \<and> unmapped kend pgdir a (n + 4096) fs s fs2 s2"
proof -
  let ?x = "of_nat b :: u64" and ?F = "frames_in (mem s) pgdir a n"
  have ux: "unat ?x = b" "unat ?x < 2 ^ 48" using le by (simp_all add: unat_of_nat)
  have al': "b mod 4096 = 0" using al b by (simp add: mod_eq_0_iff_dvd)
  have same: "same_page ?x y \<longleftrightarrow> b \<le> unat y \<and> unat y < b + 4096" if "unat y < 2 ^ 48" for y
    by (rule same_page_range [OF al' le that])
  have pte1: "pte_of (mem s1) pgdir y = (if a \<le> unat y \<and> unat y < a + n then 0 else pte_of (mem s) pgdir y)"
    if "unat y < 2 ^ 48" for y using un that by (simp add: unmapped_def)
  have "pte_of (mem s1) pgdir ?x = pte_of (mem s) pgdir ?x" using pte1 [OF ux(2)] ux(1) b by simp
  then have p1: "frame_at (mem s1) pgdir ?x = Some p" using p frame_at_pte by metis
  have dp: "data_page kend pgdir fs s p" using space_okD(2) [OF sp ux(2) p] ..
  have pF: "p \<notin> ?F"
  proof
    assume "p \<in> ?F"
    then obtain y where y: "a \<le> unat y" "unat y < a + n" "frame_at (mem s) pgdir y = Some p" by (auto simp: frames_in_def)
    then have "same_page ?x y" using space_okD(3) [OF sp ux(2) _ p y(3)] le b by simp
    then show False using same [of y] y(2) le b by simp
  qed
  have k1: "kref s1 (frame (V2P p)) = kref s (frame (V2P p))" using un dp pF by (simp add: unmapped_def data_page_def)
  have sp1: "space_ok kend pgdir fs1 s1" and t1: "tables (mem s1) pgdir = tables (mem s) pgdir" using un by (simp_all add: unmapped_def)
  obtain s2 where s2: "unmap_page kend pgdir ?x s1 = Inr s2"
    "space_ok kend pgdir (if kref s1 (frame (V2P p)) = 1 then p # fs1 else fs1) s2"
    "\<And>y. pte_of (mem s2) pgdir y = (if same_page ?x y then 0 else pte_of (mem s1) pgdir y)"
    "kref s2 = (kref s1)(frame (V2P p) := kref s1 (frame (V2P p)) - 1)" "tables (mem s2) pgdir = tables (mem s1) pgdir"
    "\<And>b. b \<noteq> p \<Longrightarrow> \<forall>t\<in>tables (mem s1) pgdir. \<forall>i<512. b \<noteq> cell t i \<Longrightarrow> mem s2 b = mem s1 b"
    by (rule unmap_page_ok [OF sp1 ux(2) p1]) (rule that)
  let ?fs = "if kref s1 (frame (V2P p)) = 1 then p # fs1 else fs1"
  note F = frames_in_Suc [OF al le b p]
  have pte: "pte_of (mem s2) pgdir y = (if a \<le> unat y \<and> unat y < a + (n + 4096) then 0 else pte_of (mem s) pgdir y)"
    if "unat y < 2 ^ 48" for y using s2(3) [of y] pte1 [OF that] same [OF that] b by auto
  have fs: "set ?fs = set fs \<union> {q \<in> insert p ?F. kref s (frame (V2P q)) = 1}" using un k1 by (auto simp: unmapped_def)
  have kr: "kref s2 (frame (V2P q)) = (if q \<in> insert p ?F then kref s (frame (V2P q)) - 1 else kref s (frame (V2P q)))"
    if "page_ok kend q" for q
    using s2(4) un k1 that pF dp page_ok_frame_inj [OF that, of kend p] by (auto simp: unmapped_def data_page_def)
  have cont: "mem s2 b = mem s b" if q: "page_ok kend q" "q \<notin> tables (mem s) pgdir" "q \<notin> insert p ?F" "b - q < PGSIZE" for q b
  proof -
    have "b \<noteq> p" using in_page_disjoint [of kend p q p] q dp by (auto simp: data_page_def PGSIZE_def)
    moreover have "b \<noteq> cell t i" if "t \<in> tables (mem s1) pgdir" "i < 512" for t i
      using cell_in_page [OF tables_page(1) [OF space_okD(1) [OF sp1] that(1)] q(1) that(2)] q(2,4) t1 that(1) by auto
    ultimately show ?thesis using s2(6) [of b] un q by (simp add: unmapped_def)
  qed
  have "unmapped kend pgdir a (n + 4096) fs s ?fs s2"
    unfolding unmapped_def F using s2(2,5) t1 pte fs kr cont by blast
  then show ?thesis using s2(1) by blast
qed

lemma uvm_unmap_ok:
  assumes sp: "space_ok kend pgdir fs s" and al: "unat va mod 4096 = 0" and le: "unat va + 4096 * n \<le> 2 ^ 48"
    and m: "\<And>i. i < n \<Longrightarrow> frame_at (mem s) pgdir (of_nat (unat va + 4096 * i)) \<noteq> None"
  shows "\<exists>s' fs'. uvm_unmap kend pgdir va (of_nat n) s = Inr s' \<and> unmapped kend pgdir (unat va) (4096 * n) fs s fs' s'"
proof -
  have n: "n \<le> 2 ^ 36" using le by simp
  have "unat (of_nat n * PGSIZE :: u64) = 4096 * n"
    using n by (simp add: PGSIZE_def unat_word_ariths unat_of_nat)
  then have "unat (va + of_nat n * PGSIZE) = unat va + 4096 * n" using le by (subst unat_add_nowrap64) simp_all
  then have "(unat (va + of_nat n * PGSIZE) - unat va) div 4096 = n" by simp
  moreover have "va mod PGSIZE = 0" using al by (simp add: PGSIZE_def word_unat_eq_iff unat_mod)
  moreover have a: "va + of_nat i * PGSIZE = of_nat (unat va + 4096 * i)" for i by (simp add: PGSIZE_def)
  ultimately have u: "uvm_unmap kend pgdir va (of_nat n) s = kfold (\<lambda>i. unmap_page kend pgdir (of_nat (unat va + 4096 * i))) [0..<n] s"
    unfolding uvm_unmap_def a by simp
  have "\<exists>s'. kfold (\<lambda>i. unmap_page kend pgdir (of_nat (unat va + 4096 * i))) [0..<n] s = Inr s' \<and>
      (\<exists>fs'. unmapped kend pgdir (unat va) (4096 * n) fs s fs' s')"
  proof (rule kfold_upt_invariant)
    show "\<exists>fs'. unmapped kend pgdir (unat va) (4096 * 0) fs s fs' s" using unmapped_refl [OF sp] by auto
    fix i s1
    assume i: "i < n" "\<exists>fs'. unmapped kend pgdir (unat va) (4096 * i) fs s fs' s1"
    then obtain fs1 where un: "unmapped kend pgdir (unat va) (4096 * i) fs s fs1 s1" by blast
    obtain p where p: "frame_at (mem s) pgdir (of_nat (unat va + 4096 * i)) = Some p" using m [OF i(1)] by blast
    have m: "4096 * i mod 4096 = 0" and l: "unat va + 4096 * i + 4096 \<le> 2 ^ 48" using le i(1) by simp_all
    from unmapped_step [OF un al m l refl p sp] obtain s2 fs2 where
      "unmap_page kend pgdir (of_nat (unat va + 4096 * i)) s1 = Inr s2"
      "unmapped kend pgdir (unat va) (4096 * i + 4096) fs s fs2 s2" by (elim exE conjE)
    then show "\<exists>s'. unmap_page kend pgdir (of_nat (unat va + 4096 * i)) s1 = Inr s' \<and>
        (\<exists>fs'. unmapped kend pgdir (unat va) (4096 * Suc i) fs s fs' s')" by (simp add: add.commute) blast
  qed
  then show ?thesis unfolding u by blast
qed

section \<open>Mapping a fresh frame\<close>

text \<open>A page that was allocated and is not mapped yet.\<close>

definition fresh_page :: "u64 \<Rightarrow> u64 \<Rightarrow> u64 list \<Rightarrow> kmem \<Rightarrow> u64 \<Rightarrow> bool" where
  "fresh_page kend pgdir fs s p \<longleftrightarrow> data_page kend pgdir fs s p \<and>
     (\<forall>x. unat x < 2 ^ 48 \<longrightarrow> frame_at (mem s) pgdir x \<noteq> Some p)"

lemma kalloc_fresh:
  assumes sp: "space_ok kend pgdir (p # fs) s"
  obtains s' where "kalloc s = Inr (p, s')" and "p \<noteq> 0" and "space_ok kend pgdir fs s'" and "fresh_page kend pgdir fs s' p"
    and "mem s' = mem s" and "kref s' = (kref s)(frame (V2P p) := 1)"
proof -
  have mm: "mm_inv kend (p # fs) s" and t: "tables_ok kend pgdir (p # fs) (mem s)"
    using space_okD(1) [OF sp] by (simp_all add: vm_inv_def)
  from kalloc_Cons [OF mm] obtain s' where s': "kalloc s = Inr (p, s')" "mm_inv kend fs s'" "mem s' = mem s"
    "kref s' = (kref s)(frame (V2P p) := 1)" by blast
  have ok: "page_ok kend p" "p \<notin> set fs" using mm by (auto simp: mm_inv_def)
  have "vm_inv kend pgdir fs s'" using s'(2,3) t by (auto simp: vm_inv_def tables_ok_def)
  moreover have "data_page kend pgdir fs s' q" if "data_page kend pgdir (p # fs) s q" for q
    using that s'(3,4) by (auto simp: data_page_def)
  ultimately have "space_ok kend pgdir fs s'"
    using space_sub [OF sp, of fs s'] space_okD(2) [OF sp] s'(3) by auto
  moreover have "p \<notin> tables (mem s) pgdir" using tables_page(2) [OF space_okD(1) [OF sp], of p] by auto
  then have "fresh_page kend pgdir fs s' p"
    using ok s'(3,4) space_okD(2) [OF sp] by (fastforce simp: fresh_page_def data_page_def)
  ultimately show thesis using that [OF s'(1) page_ok_nonzero [OF ok(1)]] s'(3,4) by blast
qed

text \<open>Pages in use keep their contents, their reference count and their role.\<close>

definition keeps :: "u64 \<Rightarrow> u64 \<Rightarrow> u64 list \<Rightarrow> kmem \<Rightarrow> u64 list \<Rightarrow> kmem \<Rightarrow> bool" where
  "keeps kend pgdir fs s fs' s' \<longleftrightarrow> (\<forall>q. data_page kend pgdir fs s q \<longrightarrow> data_page kend pgdir fs' s' q \<and>
     kref s' (frame (V2P q)) = kref s (frame (V2P q)) \<and> (\<forall>b. b - q < PGSIZE \<longrightarrow> mem s' b = mem s b))"

lemma keepsD:
  assumes "keeps kend pgdir fs s fs' s'" and "data_page kend pgdir fs s q"
  shows "data_page kend pgdir fs' s' q" and "kref s' (frame (V2P q)) = kref s (frame (V2P q))"
    and "b - q < PGSIZE \<Longrightarrow> mem s' b = mem s b"
  using assms unfolding keeps_def by blast+

lemma keeps_trans:
  "keeps kend pgdir fs s fs' s' \<Longrightarrow> keeps kend pgdir fs' s' fs'' s'' \<Longrightarrow> keeps kend pgdir fs s fs'' s''"
  unfolding keeps_def by auto

lemma outside_data:
  assumes vm: "vm_inv kend pgdir fs s" and q: "data_page kend pgdir fs s q" and a: "a - q < PGSIZE"
  shows "outside pgdir fs (mem s) a"
  unfolding outside_def
proof (intro conjI ballI allI impI)
  have qok: "page_ok kend q" using q by (simp add: data_page_def)
  fix p assume p: "p \<in> set fs"
  then have "page_ok kend p" "p \<noteq> q" using vm q by (auto simp: vm_inv_def mm_inv_def data_page_def)
  then show "\<not> a - p < PGSIZE" using in_page_disjoint [OF _ qok _ a] by blast
next
  fix "is" t i
  assume t: "length is \<le> 3" "i < (512 :: nat)" "table_at (mem s) pgdir is = Some t"
  then have "t \<in> tables (mem s) pgdir" by (intro tablesI)
  then show "a \<noteq> cell t i"
    using cell_in_page [OF tables_page(1) [OF vm] _ t(2), of t q] q a by (auto simp: data_page_def)
qed

lemma grows_keeps:
  assumes vm: "vm_inv kend pgdir fs s" and g: "vm_grows kend pgdir fs s fs' s'"
  shows "keeps kend pgdir fs s fs' s'"
  unfolding keeps_def
proof (intro allI impI conjI)
  fix q
  assume q: "data_page kend pgdir fs s q"
  have o: "mem s' b = mem s b" "outside pgdir fs' (mem s') b" if "b - q < PGSIZE" for b
    using outside_data [OF vm q that] g by (auto simp: vm_grows_def)
  show "mem s' b = mem s b" if "b - q < PGSIZE" for b using o(1) that .
  show k: "kref s' (frame (V2P q)) = kref s (frame (V2P q))" using g q by (simp add: vm_grows_def data_page_def)
  have "q \<notin> tables (mem s') pgdir"
  proof
    assume "q \<in> tables (mem s') pgdir"
    then obtain "is" where t: "length is \<le> 3" "table_at (mem s') pgdir is = Some q" by (auto simp: tables_def)
    have "outside pgdir fs' (mem s') (cell q 0)" by (rule o(2)) (simp add: cell_def PGSIZE_def)
    then have "0 < (512 :: nat) \<longrightarrow> cell q 0 \<noteq> cell q 0" using t unfolding outside_def by blast
    then show False by simp
  qed
  then show "data_page kend pgdir fs' s' q" using q g k by (auto simp: data_page_def vm_grows_def)
qed

lemma keeps_space:
  assumes sp: "space_ok kend pgdir fs s" and k: "keeps kend pgdir fs s fs' s'" and v: "vm_inv kend pgdir fs' s'"
    and pte: "\<And>x. pte_of (mem s') pgdir x = pte_of (mem s) pgdir x"
  shows "space_ok kend pgdir fs' s'"
proof (rule space_sub [OF sp v])
  fix x q
  assume x: "unat x < 2 ^ 48" "frame_at (mem s') pgdir x = Some q"
  then have "frame_at (mem s) pgdir x = Some q" using frame_at_pte [OF pte] by metis
  then have "data_page kend pgdir fs s q" using space_okD(2) [OF sp x(1)] by blast
  then show "pte_of (mem s') pgdir x = pte_of (mem s) pgdir x \<and> data_page kend pgdir fs' s' q"
    using keepsD(1) [OF k] pte by blast
qed

lemma PTE_UDATA_entry:
  assumes "page_ok kend p"
  shows "P2V (PTE_ADDR (V2P p OR PTE_UDATA)) = p" and "(V2P p OR PTE_UDATA) AND PTE_VALID \<noteq> 0"
    and "(V2P p OR PTE_UDATA) AND PTE_PAGE = PTE_PAGE"
proof -
  have u: "PTE_UDATA = 0x747"
    by (simp add: PTE_UDATA_def PTE_USER_def PTE_NORMAL_def MT_NORMAL_def AF_USED_def SH_INNER_def PTE_PAGE_def push_bit_eq_mult)
  have "unat (V2P p) < 2 ^ 48" using assms by (simp add: page_ok_def PHYSTOP_def word_less_nat_alt)
  then have "PTE_FLAGS (V2P p) = 0" by (rule PTE_FLAGS_frame [OF page_ok_aligned [OF assms]])
  then show "P2V (PTE_ADDR (V2P p OR PTE_UDATA)) = p" by (subst PTE_ADDR_frame) (simp_all add: PTE_ADDR_def u)
  show "(V2P p OR PTE_UDATA) AND PTE_VALID \<noteq> 0" by (rule PTE_VALID_or) (simp add: u PTE_VALID_def)
  have "(V2P p AND 3) OR 3 = (3 :: u64)" by (rule bit_word_eqI) (auto simp: bit_simps)
  then have "(V2P p OR 0x747) AND 3 = (3 :: u64)" by (simp add: bit.conj_disj_distrib2)
  then show "(V2P p OR PTE_UDATA) AND PTE_PAGE = PTE_PAGE" by (simp add: u PTE_PAGE_def)
qed

lemma page_ROUNDDOWN: "unat a mod 4096 = 0 \<Longrightarrow> ROUNDDOWN a PGSIZE = a"
  by (simp add: word_unat_eq_iff unat_ROUNDDOWN PGSIZE_def)

lemma uvm_map_page:
  assumes va: "unat va mod 4096 = 0" and p: "page_ok kend p"
  shows "uvm_map pgdir va PGSIZE (V2P p) s = kbind (pgdir_walk pgdir va True s) (\<lambda>(pte, s).
     if pte = 0 \<or> mem s pte AND PTE_VALID \<noteq> 0 then Inr (- EINVAL, s) else Inr (0, store pte (V2P p OR PTE_UDATA) s))"
proof -
  have "V2P p < USERTOP" using p by (simp add: page_ok_def PHYSTOP_def USERTOP_def word_less_nat_alt)
  moreover have "unat PGSIZE = 4096" by (simp add: PGSIZE_def)
  moreover have "map_pages pgdir (unat va + 4096) (unat va + 4096) pa s = Inr (0, s)" for pa s
    by (subst map_pages.simps) simp
  ultimately show ?thesis
    using page_ROUNDDOWN [OF va] page_ROUNDDOWN [OF page_ok_aligned [OF p]]
    by (simp add: uvm_map_def map_pages.simps [of pgdir "unat va"]) (rule kbind_cong, auto)
qed

text \<open>The entry of one page is written.\<close>

lemma store_keeps:
  assumes vm: "vm_inv kend pgdir fs s" and r: "walk_result s pgdir va r"
  shows "keeps kend pgdir fs s fs (store r v s)"
proof -
  have t: "tables (mem (store r v s)) pgdir = tables (mem s) pgdir"
    using table_at_store [OF vm r] by (auto simp: tables_def)
  have "mem (store r v s) b = mem s b" if "data_page kend pgdir fs s q" "b - q < PGSIZE" for q b
    using store_pte(3) [OF vm r outside_data [OF vm that]] by blast
  then show ?thesis using t by (auto simp: keeps_def data_page_def store_def)
qed

lemma store_space:
  assumes sp: "space_ok kend pgdir fs s" and fr: "fresh_page kend pgdir fs s p" and r: "walk_result s pgdir va r"
    and va: "unat va < 2 ^ 48"
  shows "space_ok kend pgdir fs (store r (V2P p OR PTE_UDATA) s)"
proof -
  let ?s = "store r (V2P p OR PTE_UDATA) s"
  note vm = space_okD(1) [OF sp]
  have ok: "page_ok kend p" and dp: "data_page kend pgdir fs s p" using fr by (auto simp: fresh_page_def data_page_def)
  have pte: "pte_of (mem ?s) pgdir x = (if same_page va x then V2P p OR PTE_UDATA else pte_of (mem s) pgdir x)" for x
    by (rule store_pte(2) [OF vm r])
  have f: "frame_at (mem ?s) pgdir x = (if same_page va x then Some p else frame_at (mem s) pgdir x)" for x
    using pte [of x] PTE_UDATA_entry [OF ok] by (simp add: frame_at_def)
  have k: "data_page kend pgdir fs ?s q" if "data_page kend pgdir fs s q" for q
    using keepsD(1) [OF store_keeps [OF vm r] that] .
  have new: "frame_at (mem s) pgdir x \<noteq> Some p" if "unat x < 2 ^ 48" for x using fr that by (simp add: fresh_page_def)
  show ?thesis
    unfolding space_ok_def
  proof (intro conjI allI impI)
    show "vm_inv kend pgdir fs ?s" by (rule store_pte(1) [OF vm r])
    fix x q
    assume x: "unat x < 2 ^ 48" "frame_at (mem ?s) pgdir x = Some q"
    show "data_page kend pgdir fs ?s q" using x f [of x] k dp space_okD(2) [OF sp x(1)] by (cases "same_page va x") auto
    show "pte_of (mem ?s) pgdir x AND PTE_PAGE = PTE_PAGE"
      using x f [of x] pte [of x] PTE_UDATA_entry(3) [OF ok] space_okD(2) [OF sp x(1)] by (cases "same_page va x") auto
    fix y
    assume y: "unat y < 2 ^ 48" "frame_at (mem ?s) pgdir y = Some q"
    have "same_page va x \<longleftrightarrow> same_page va y" using x y f new by (metis option.inject)
    then show "same_page x y"
      using x y f space_okD(3) [OF sp x(1) y(1)] by (cases "same_page va x") (auto simp: same_page_def)
  qed
qed

lemma map_fresh:
  assumes sp: "space_ok kend pgdir fs s" and fr: "fresh_page kend pgdir fs s p"
    and va: "unat va mod 4096 = 0" "unat va < 2 ^ 48"
  shows "\<exists>r s' fs'. uvm_map pgdir va PGSIZE (V2P p) s = Inr (r, s') \<and> space_ok kend pgdir fs' s' \<and> set fs' \<subseteq> set fs \<and>
     length fs \<le> length fs' + 3 \<and> keeps kend pgdir fs s fs' s' \<and>
     (r = 0 \<and> frame_at (mem s) pgdir va = None \<and>
        (\<forall>x. pte_of (mem s') pgdir x = (if same_page va x then V2P p OR PTE_UDATA else pte_of (mem s) pgdir x)) \<or>
      r = - EINVAL \<and> (\<forall>x. pte_of (mem s') pgdir x = pte_of (mem s) pgdir x) \<and> fresh_page kend pgdir fs' s' p \<and>
        (fs' = [] \<or> frame_at (mem s) pgdir va \<noteq> None))"
proof -
  note vm = space_okD(1) [OF sp]
  have ok: "page_ok kend p" and dp: "data_page kend pgdir fs s p" using fr by (auto simp: fresh_page_def data_page_def)
  from pgdir_walk_alloc [OF vm, of va] obtain r s1 fs1 where w: "pgdir_walk pgdir va True s = Inr (r, s1)"
    and g: "vm_grows kend pgdir fs s fs1 s1" and r: "r = 0 \<longrightarrow> fs1 = []" "r \<noteq> 0 \<longrightarrow> walk_result s1 pgdir va r"
    and len: "length fs \<le> length fs1 + 3" by blast
  have v1: "vm_inv kend pgdir fs1 s1" and sub: "set fs1 \<subseteq> set fs" and pte1: "\<And>x. pte_of (mem s1) pgdir x = pte_of (mem s) pgdir x"
    using g by (simp_all add: vm_grows_def)
  have k1: "keeps kend pgdir fs s fs1 s1" by (rule grows_keeps [OF vm g])
  have sp1: "space_ok kend pgdir fs1 s1" by (rule keeps_space [OF sp k1 v1 pte1])
  have f1: "frame_at (mem s1) pgdir x = frame_at (mem s) pgdir x" for x by (rule frame_at_pte [OF pte1])
  have fr1: "fresh_page kend pgdir fs1 s1 p" using fr keepsD(1) [OF k1 dp] f1 by (simp add: fresh_page_def)
  note m = uvm_map_page [OF va(1) ok, of pgdir s, unfolded w, simplified]
  show ?thesis
  proof (cases "r = 0 \<or> mem s1 r AND PTE_VALID \<noteq> 0")
    case True
    have "fs1 = [] \<or> frame_at (mem s) pgdir va \<noteq> None"
      using True r walk_result_pte [of s1 pgdir va r] pte1 by (auto simp: frame_at_def)
    then show ?thesis using m True sp1 sub len k1 pte1 fr1 by auto
  next
    case False
    then have wr: "walk_result s1 pgdir va r" using r by blast
    let ?s = "store r (V2P p OR PTE_UDATA) s1"
    have pte: "pte_of (mem ?s) pgdir x = (if same_page va x then V2P p OR PTE_UDATA else pte_of (mem s) pgdir x)" for x
      using store_pte(2) [OF v1 wr, where va' = x] pte1 by simp
    have "frame_at (mem s) pgdir va = None" using False walk_result_pte [OF wr] pte1 by (simp add: frame_at_def)
    moreover have "keeps kend pgdir fs s fs1 ?s" by (rule keeps_trans [OF k1 store_keeps [OF v1 wr]])
    moreover have "space_ok kend pgdir fs1 ?s" by (rule store_space [OF sp1 fr1 wr va(2)])
    ultimately show ?thesis using m False sub len pte by auto
  qed
qed

lemma kfree_fresh:
  assumes sp: "space_ok kend pgdir fs s" and fr: "fresh_page kend pgdir fs s p"
  obtains s' where "kfree kend p s = Inr s'" and "space_ok kend pgdir (p # fs) s'"
    and "\<And>x. pte_of (mem s') pgdir x = pte_of (mem s) pgdir x"
    and "\<And>q. data_page kend pgdir fs s q \<Longrightarrow> q \<noteq> p \<Longrightarrow> data_page kend pgdir (p # fs) s' q \<and>
      kref s' (frame (V2P q)) = kref s (frame (V2P q)) \<and> (\<forall>b. b - q < PGSIZE \<longrightarrow> mem s' b = mem s b)"
proof -
  have ok: "page_ok kend p" "p \<notin> set fs" "p \<notin> tables (mem s) pgdir" using fr by (auto simp: fresh_page_def data_page_def)
  obtain s' where s': "kfree kend p s = Inr s'" "vm_inv kend pgdir (p # fs) s'" "tables (mem s') pgdir = tables (mem s) pgdir"
    "\<And>va. pte_of (mem s') pgdir va = pte_of (mem s) pgdir va" "\<And>a. a \<noteq> p \<Longrightarrow> mem s' a = mem s a"
    "kref s' = (kref s)(frame (V2P p) := 0)"
    by (rule kfree_data [OF space_okD(1) [OF sp] ok]) (rule that)
  have other: "data_page kend pgdir (p # fs) s' q \<and> kref s' (frame (V2P q)) = kref s (frame (V2P q)) \<and>
      (\<forall>b. b - q < PGSIZE \<longrightarrow> mem s' b = mem s b)" if q: "data_page kend pgdir fs s q" "q \<noteq> p" for q
  proof -
    have qok: "page_ok kend q" using q(1) by (simp add: data_page_def)
    have k: "kref s' (frame (V2P q)) = kref s (frame (V2P q))" using s'(6) q(2) page_ok_frame_inj [OF qok ok(1)] by auto
    have "b \<noteq> p" if "b - q < PGSIZE" for b
      using in_page_disjoint [OF ok(1) qok, of p] q(2) that by (auto simp: PGSIZE_def)
    then show ?thesis using s'(3,5) k q by (auto simp: data_page_def)
  qed
  have "space_ok kend pgdir (p # fs) s'"
  proof (rule space_sub [OF sp s'(2)])
    fix x q
    assume x: "unat x < 2 ^ 48" "frame_at (mem s') pgdir x = Some q"
    then have "frame_at (mem s) pgdir x = Some q" using frame_at_pte [OF s'(4)] by metis
    then have "data_page kend pgdir fs s q" "q \<noteq> p" using space_okD(2) [OF sp x(1)] fr x(1) by (auto simp: fresh_page_def)
    then show "pte_of (mem s') pgdir x = pte_of (mem s) pgdir x \<and> data_page kend pgdir (p # fs) s' q" using s'(4) other by blast
  qed
  then show thesis using that [OF s'(1) _ s'(4)] other by blast
qed

lemma page_range:
  assumes "(a :: nat) mod 4096 = 0" and "x div 4096 = y div 4096"
  shows "a \<le> x \<longleftrightarrow> a \<le> y" and "x < a + 4096 * n \<longleftrightarrow> y < a + 4096 * n"
proof -
  have le: "b \<le> x \<longleftrightarrow> b \<le> y" if b0: "b mod 4096 = 0" for b
  proof -
    obtain k where b: "b = k * 4096" using b0 by (auto simp: mod_eq_0_iff_dvd elim!: dvdE)
    have "b \<le> z \<longleftrightarrow> k \<le> z div 4096" for z unfolding b by (simp add: less_eq_div_iff_mult_less_eq)
    then show ?thesis using assms(2) by simp
  qed
  show "a \<le> x \<longleftrightarrow> a \<le> y" using assms(1) by (rule le)
  have "(a + 4096 * n) mod 4096 = 0" using assms(1) by simp
  then show "x < a + 4096 * n \<longleftrightarrow> y < a + 4096 * n" using le by (simp add: not_le [symmetric])
qed

section \<open>The property\<close>

text \<open>C15: In a well-formed address space \<open>uvm_unmap\<close> of pages that are mapped returns; it clears the entries of exactly
  these pages, puts those of their frames that have no other user on the free list, counts the others down, and
  changes the contents of no other frame.\<close>

theorem uvm_unmap_correct:
  assumes "space_ok kend pgdir fs s" and "unat va mod 4096 = 0" and "unat va + 4096 * n \<le> 2 ^ 48"
    and "\<And>i. i < n \<Longrightarrow> frame_at (mem s) pgdir (of_nat (unat va + 4096 * i)) \<noteq> None"
  shows "\<exists>s' fs'. uvm_unmap kend pgdir va (of_nat n) s = Inr s' \<and> space_ok kend pgdir fs' s' \<and>
     (\<forall>x. unat x < 2 ^ 48 \<longrightarrow> pte_of (mem s') pgdir x =
        (if unat va \<le> unat x \<and> unat x < unat va + 4096 * n then 0 else pte_of (mem s) pgdir x)) \<and>
     set fs' = set fs \<union> {p \<in> frames_in (mem s) pgdir (unat va) (4096 * n). kref s (frame (V2P p)) = 1} \<and>
     (\<forall>p \<in> frames_in (mem s) pgdir (unat va) (4096 * n). kref s' (frame (V2P p)) = kref s (frame (V2P p)) - 1) \<and>
     (\<forall>x q b. unat x < 2 ^ 48 \<and> frame_at (mem s') pgdir x = Some q \<and> b - q < PGSIZE \<longrightarrow> mem s' b = mem s b)"
proof -
  let ?F = "frames_in (mem s) pgdir (unat va) (4096 * n)"
  obtain s' fs' where u: "uvm_unmap kend pgdir va (of_nat n) s = Inr s'" and un: "unmapped kend pgdir (unat va) (4096 * n) fs s fs' s'"
    using uvm_unmap_ok [OF assms] by blast
  have sp': "space_ok kend pgdir fs' s'" and tb: "tables (mem s') pgdir = tables (mem s) pgdir" using un by (simp_all add: unmapped_def)
  have pok: "page_ok kend p" if pF: "p \<in> ?F" for p
  proof -
    obtain x where x: "unat x < unat va + 4096 * n" "frame_at (mem s) pgdir x = Some p" using pF by (auto simp: frames_in_def)
    then have "unat x < 2 ^ 48" using assms(3) by simp
    then show ?thesis using space_okD(2) [OF assms(1) _ x(2)] by (simp add: data_page_def)
  qed
  have "mem s' b = mem s b" if x: "unat x < 2 ^ 48" "frame_at (mem s') pgdir x = Some q" "b - q < PGSIZE" for x q b
  proof -
    have pte: "pte_of (mem s') pgdir x = (if unat va \<le> unat x \<and> unat x < unat va + 4096 * n then 0 else pte_of (mem s) pgdir x)"
      using un x(1) by (simp add: unmapped_def)
    then have out: "\<not> (unat va \<le> unat x \<and> unat x < unat va + 4096 * n)" and "frame_at (mem s) pgdir x = Some q"
      using x(2) by (auto simp: frame_at_def split: if_splits)
    have dq: "data_page kend pgdir fs' s' q" using space_okD(2) [OF sp' x(1,2)] ..
    have "q \<notin> ?F"
    proof
      assume "q \<in> ?F"
      then obtain y where y: "unat va \<le> unat y" "unat y < unat va + 4096 * n" "frame_at (mem s) pgdir y = Some q"
        by (auto simp: frames_in_def)
      have "same_page x y" using space_okD(3) [OF assms(1) x(1) _ \<open>frame_at (mem s) pgdir x = Some q\<close> y(3)] y(2) assms(3) by simp
      then have "unat x div 4096 = unat y div 4096" using same_page_iff [of x y] x(1) y(2) assms(3) by simp
      from page_range [OF assms(2) this] show False using out y(1,2) by blast
    qed
    then show ?thesis using un dq tb x(3) by (auto simp: unmapped_def data_page_def)
  qed
  moreover have "kref s' (frame (V2P p)) = kref s (frame (V2P p)) - 1" if "p \<in> ?F" for p
    using un pok [OF that] that by (simp add: unmapped_def)
  ultimately show ?thesis using u sp' un by (intro exI [of _ s'] exI [of _ fs']) (auto simp: unmapped_def)
qed

lemma vm1_frame:
  assumes x: "unat x < 2 ^ 48" and f: "frame_at (mem vm1) (wpg 0) x = Some p"
  shows "p = wpg 4" and "same_page 0x1000 x" and "pte_of (mem vm1) (wpg 0) x = V2P (wpg 4) OR PTE_UDATA"
proof -
  have pv: "pte_of (mem vm1) (wpg 0) x AND PTE_VALID \<noteq> 0" and p: "p = P2V (PTE_ADDR (pte_of (mem vm1) (wpg 0) x))"
    using f by (auto simp: frame_at_def split: if_splits)
  obtain t where t: "table_at (mem vm1) (wpg 0) (pte_path x) = Some t" using pv by (auto simp: pte_of_def split: option.splits)
  have tp: "t = wpg 3" "pte_path x = replicate 3 0" using vm1_table_at [OF _ t] by simp_all
  have e: "mem vm1 (cell (wpg 3) i) = (if i = 1 then V2P (wpg 4) OR PTE_UDATA else 0)" if "i < 512" for i
    using that by (simp add: vm1_def wcell)
  have one: "PTX 3 x = 1" using pv t tp(1) e [of "PTX 3 x"] by (simp add: pte_of_def split: if_splits)
  then show pte: "pte_of (mem vm1) (wpg 0) x = V2P (wpg 4) OR PTE_UDATA" using t tp(1) e [of "PTX 3 x"] by (simp add: pte_of_def)
  then show "p = wpg 4" using p PTE_UDATA_entry(1) [OF wpg_ok [of 4]] by simp
  show "same_page 0x1000 x" using one tp(2) by (simp add: same_page_def pte_path_def PTX_def numeral_3_eq_3)
qed

lemma vm1_space: "space_ok wend (wpg 0) [wpg 5] vm1"
proof -
  have "wpg 4 \<notin> tables (mem vm1) (wpg 0)"
  proof
    assume "wpg 4 \<in> tables (mem vm1) (wpg 0)"
    then obtain ks where k: "length ks \<le> 3" "table_at (mem vm1) (wpg 0) ks = Some (wpg 4)" by (auto simp: tables_def)
    then show False using vm1_table_at [OF k] wpg_inject [of 4 "length ks"] by simp
  qed
  moreover have "frame (V2P (wpg 4)) = 0x304" by (simp add: frame_eq wpg_def V2P_def KERNBASE_def)
  ultimately have d: "data_page wend (wpg 0) [wpg 5] vm1 (wpg 4)"
    using wpg_ok [of 4] wpg_inject [of 4 5] by (simp add: data_page_def vm1_def)
  have "same_page x y" if "same_page 0x1000 x" "same_page 0x1000 y" for x y using that by (simp add: same_page_def)
  then show ?thesis
    unfolding space_ok_def using vm1_inv d vm1_frame PTE_UDATA_entry(3) [OF wpg_ok [of 4]] by (metis numeral_less_iff semiring_norm(76) semiring_norm(78))
qed

theorem uvm_unmap_correct_witness:
  "\<exists>s' fs'. uvm_unmap wend (wpg 0) 0x1000 1 vm1 = Inr s' \<and> space_ok wend (wpg 0) fs' s' \<and>
     pte_of (mem s') (wpg 0) 0x1000 = 0 \<and> set fs' = {wpg 4, wpg 5}"
proof -
  have f: "frame_at (mem vm1) (wpg 0) 0x1000 = Some (wpg 4)"
    using vm1_pte PTE_UDATA_entry [OF wpg_ok [of 4]] by (simp add: frame_at_def)
  have k: "kref vm1 (frame (V2P (wpg 4))) = 1" by (simp add: frame_eq wpg_def V2P_def KERNBASE_def vm1_def)
  have "frames_in (mem vm1) (wpg 0) (unat (0x1000 :: u64)) (4096 * 1) = {wpg 4}"
    using frames_in_Suc [of "0x1000" 0 "0x1000" "mem vm1" "wpg 0" "wpg 4"] f by simp
  moreover have "{p \<in> {wpg 4}. kref vm1 (frame (V2P p)) = 1} = {wpg 4}" using k by auto
  ultimately obtain s' fs' where "uvm_unmap wend (wpg 0) 0x1000 1 vm1 = Inr s'" "space_ok wend (wpg 0) fs' s'"
    "\<forall>x :: u64. unat x < 2 ^ 48 \<longrightarrow> pte_of (mem s') (wpg 0) x =
      (if unat (0x1000 :: u64) \<le> unat x \<and> unat x < unat (0x1000 :: u64) + 4096 * 1 then 0 else pte_of (mem vm1) (wpg 0) x)"
    "set fs' = set [wpg 5] \<union> {wpg 4}"
    using uvm_unmap_correct [OF vm1_space, of "0x1000" 1] f by (auto simp: less_Suc_eq)
  then show ?thesis by (intro exI [of _ s'] exI [of _ fs']) auto
qed

end
