(* ===== verification/Console.thy ===== *)
theory Console
  imports Ring
begin

text \<open>
  The console, \<open>kern/console.c\<close>: the line discipline that the interrupt handler runs on typed
  characters, reading and writing, and the formatted printing of the kernel. \<open>uart\<close> collects the
  characters sent to the UART. The functions run under \<open>conslock\<close>; a read is a sequence of atomic
  runs that end where it returns or sleeps. The inode lock that \<open>console_read\<close> and \<open>console_write\<close>
  give up around their work belongs to the file system and is added there.
\<close>

section \<open>State and operations\<close>

definition INPUT_BUF :: u64 where "INPUT_BUF = 128"

record termios =
  c_iflag :: u32
  c_oflag :: u32
  c_cflag :: u32
  c_lflag :: u32
  c_line :: u8
  c_cc :: "nat \<Rightarrow> u8"
  c_ispeed :: u32
  c_ospeed :: u32

record cons =
  inbuf :: "nat \<Rightarrow> u8"
  inr :: u64
  inw :: u64
  ine :: u64
  ctermios :: termios
  uart :: "u8 list"

definition ISIG :: u32 where "ISIG = 1"
definition ICANON :: u32 where "ICANON = 2"
definition ECHO :: u32 where "ECHO = 8"
definition ECHOE :: u32 where "ECHOE = 16"
definition IEXTEN :: u32 where "IEXTEN = 32768"
definition ECHOCTL :: u32 where "ECHOCTL = 512"
definition ECHOKE :: u32 where "ECHOKE = 2048"
abbreviation OPOST :: u32 where "OPOST \<equiv> 1"
abbreviation ONLCR :: u32 where "ONLCR \<equiv> 4"
abbreviation ICRNL :: u32 where "ICRNL \<equiv> 256"
abbreviation IXON :: u32 where "IXON \<equiv> 1024"
abbreviation IXANY :: u32 where "IXANY \<equiv> 2048"
abbreviation IMAXBEL :: u32 where "IMAXBEL \<equiv> 8192"
abbreviation CREAD :: u32 where "CREAD \<equiv> 128"
abbreviation CS8 :: u32 where "CS8 \<equiv> 48"
abbreviation B115200 :: u32 where "B115200 \<equiv> 4098"

definition isecho :: "cons \<Rightarrow> bool" where "isecho s = (c_lflag (ctermios s) AND ECHO \<noteq> 0)"
definition islbuf :: "cons \<Rightarrow> bool" where "islbuf s = (c_lflag (ctermios s) AND ICANON \<noteq> 0)"

definition set_default_termios :: "termios \<Rightarrow> termios" where
  "set_default_termios t = t\<lparr>
     c_oflag := OPOST OR ONLCR,
     c_iflag := ICRNL OR IXON OR IXANY OR IMAXBEL,
     c_cflag := CREAD OR CS8 OR B115200,
     c_lflag := ISIG OR ICANON OR IEXTEN OR ECHO OR ECHOE OR ECHOCTL OR ECHOKE,
     c_cc := (\<lambda>_. 0)(5 := 0, 6 := 1, 0 := 0x1f AND 99, 1 := 28, 4 := 0x1f AND 100, 10 := 0x1f AND 122,
       3 := 0x1f AND 117, 2 := 127, 14 := 0x1f AND 119),
     c_line := 0, c_ispeed := 0, c_ospeed := 0\<rparr>"

text \<open>\<open>None\<close> stands for \<open>BACKSPACE\<close>, which no character has as its code.\<close>

definition consputc :: "u8 option \<Rightarrow> cons \<Rightarrow> cons" where
  "consputc c s = s\<lparr>uart := uart s @ (case c of None \<Rightarrow> [8, 32, 8] | Some c \<Rightarrow> [c])\<rparr>"

text \<open>The loop compares its unsigned counter with \<open>n\<close>: with a negative \<open>n\<close> it runs off the end of memory.\<close>

definition console_write :: "u8 list \<Rightarrow> int \<Rightarrow> cons \<Rightarrow> (int \<times> cons) kres" where
  "console_write buf n s = (if n < 0 then Inl (Fault ''console_write'')
     else Inr (n, fold (\<lambda>c. consputc (Some c)) (take (nat n) buf) s))"

datatype cons_out = CReturned int | CAsleep nat

text \<open>
  \<open>console_read\<close> from the point where \<open>n\<close> of the \<open>target\<close> bytes are still wanted; \<open>out\<close> is what has
  been stored at \<open>dst\<close>. A negative count reads nothing, like 0.
\<close>

primrec console_read :: "bool \<Rightarrow> nat \<Rightarrow> nat \<Rightarrow> u8 list \<Rightarrow> cons \<Rightarrow> cons \<times> u8 list \<times> cons_out" where
  "console_read killed target 0 out s = (s, out, CReturned (int target))"
| "console_read killed target (Suc n) out s = (
    if inr s = inw s then
      if killed then (s, out, CReturned (- 1)) else (s, out, CAsleep (Suc n))
    else
      let c = inbuf s (unat (inr s mod INPUT_BUF)); s = s\<lparr>inr := inr s + 1\<rparr>
      in if \<not> islbuf s then (s, out @ [c], CReturned 1)
         else if c = 4 then
           (if Suc n < target then s\<lparr>inr := inr s - 1\<rparr> else s, out, CReturned (int target - int (Suc n)))
         else if c = 10 then (s, out @ [c], CReturned (int target - int n))
         else console_read killed target n (out @ [c]) s)"

text \<open>
  One character of \<open>console_intr1\<close>. The kill-line loop ends at the write index, after at most as many
  steps as there are characters in the edit part. The flags are the process listing and the wakeup.
\<close>

function kill_line :: "cons \<Rightarrow> cons" where
  "kill_line s = (
    if ine s \<noteq> inw s \<and> inbuf s (unat ((ine s - 1) mod INPUT_BUF)) \<noteq> 10
    then kill_line (consputc None (s\<lparr>ine := ine s - 1\<rparr>)) else s)"
  by pat_completeness auto

termination
proof (relation "measure (\<lambda>s. unat (ine s - inw s))")
  fix s :: cons
  assume "ine s \<noteq> inw s \<and> inbuf s (unat ((ine s - 1) mod INPUT_BUF)) \<noteq> 10"
  then have "ring_len (inw s) (ine s - 1) < ring_len (inw s) (ine s)"
    using ring_len_unput [of "inw s" "ine s"] by auto
  then show "(consputc None (s\<lparr>ine := ine s - 1\<rparr>), s) \<in> measure (\<lambda>s. unat (ine s - inw s))"
    by (simp add: ring_len_def consputc_def)
qed simp

declare kill_line.simps [simp del]

definition console_char :: "u8 \<Rightarrow> cons \<times> bool \<times> bool \<Rightarrow> cons \<times> bool \<times> bool" where
  "console_char c = (\<lambda>(s, prof, wake).
    if c = 16 then (s, True, wake)
    else if c = 21 then (kill_line s, prof, wake)
    else if c = 8 \<or> c = 127 then
      (if ine s \<noteq> inw s then consputc None (s\<lparr>ine := ine s - 1\<rparr>) else s, prof, wake)
    else if c \<noteq> 0 \<and> ine s - inr s < INPUT_BUF then
      let c = (if c = 13 then 10 else c);
          s = s\<lparr>inbuf := (inbuf s)(unat (ine s mod INPUT_BUF) := c), ine := ine s + 1\<rparr>;
          s = (if isecho s then consputc (Some c) s else s)
      in if \<not> islbuf s \<or> c = 10 \<or> c = 4 \<or> ine s = inr s + INPUT_BUF
         then (s\<lparr>inw := ine s\<rparr>, prof, True) else (s, prof, wake)
    else (s, prof, wake))"

text \<open>\<open>getc\<close> gives the typed characters and then a negative value; a panicked kernel hangs here.\<close>

definition console_intr1 :: "bool \<Rightarrow> u8 list \<Rightarrow> cons \<Rightarrow> (cons \<times> bool \<times> bool) kres" where
  "console_intr1 panicked typed s = (
    if panicked then Inl (Panic ''console_intr'') else Inr (fold console_char typed (s, False, False)))"

section \<open>Printing\<close>

text \<open>
  \<open>printint\<close>: the digits of \<open>t\<close>, least significant first, as the \<open>do\<close> loop stores them; the padding
  loop; and the output in reverse. The buffer has 64 cells: padding beyond them is a fault. So is the negation of
  the most negative number, a signed overflow, which C leaves undefined.
\<close>

definition digit :: "nat \<Rightarrow> u8" where
  "digit d = (if d < 10 then of_nat (48 + d) else of_nat (87 + d))"

function print_digits :: "nat \<Rightarrow> nat \<Rightarrow> u8 list" where
  "print_digits base t = digit (t mod base) # (if base < 2 \<or> t div base = 0 then [] else print_digits base (t div base))"
  by pat_completeness auto

termination
  by (relation "measure snd") (auto simp: not_less intro!: div_less_dividend, metis div_0 gr0I)

declare print_digits.simps [simp del]

definition print_pad :: "int \<Rightarrow> int \<Rightarrow> u8 list \<Rightarrow> u8 list kres" where
  "print_pad zero col buf = (
    let n = nat col - length buf;
        buf = (if zero = 1 then buf @ replicate n 48 else if zero = - 1 then buf @ replicate n 32 else buf)
    in if length buf > 64 then Inl (Fault ''printint'') else Inr buf)"

definition printint :: "u64 \<Rightarrow> nat \<Rightarrow> bool \<Rightarrow> int \<Rightarrow> int \<Rightarrow> u8 list kres" where
  "printint x base sign zero col = (
    let neg = (sign \<and> sint x < 0); t = (if neg then - x else x)
    in if neg \<and> sint x = - (2 ^ 63) then Inl (Fault ''- x'')
    else kbind (print_pad zero col (print_digits base (unat t)))
         (\<lambda>buf. Inr ((if neg then [45] else []) @ rev buf)))"

text \<open>
  The variable arguments of a call; \<open>va_arg\<close> reads an integer at the width the format asks for. The
  format is the list of its characters without the final NUL.
\<close>

datatype varg = VInt u64 | VStr "u8 list option"

definition print_flag :: "u8 list \<Rightarrow> int \<times> u8 list" where
  "print_flag fmt = (case fmt of
     c # rest \<Rightarrow> if c = 48 then (1, rest) else if c = 45 then (- 1, rest) else (0, fmt)
   | [] \<Rightarrow> (0, fmt))"

definition is_digit :: "u8 \<Rightarrow> bool" where "is_digit c = (48 \<le> c \<and> c \<le> 57)"

definition print_width :: "u8 list \<Rightarrow> int \<times> u8 list" where
  "print_width fmt = (fold (\<lambda>c n. n * 10 + (uint c - 48) mod 10) (takeWhile is_digit fmt) 0, dropWhile is_digit fmt)"

definition print_string :: "u8 list option \<Rightarrow> int \<Rightarrow> u8 list" where
  "print_string arg n = (
    let (s, j) = (case arg of Some s \<Rightarrow> (s, 0) | None \<Rightarrow> ([40, 110, 117, 108, 108, 41], 6))
    in s @ replicate (nat (n - (j + int (length s)))) 32)"

definition print_conv :: "u8 \<Rightarrow> nat \<Rightarrow> int \<Rightarrow> int \<Rightarrow> varg list \<Rightarrow> (u8 list \<times> varg list) kres" where
  "print_conv c l z n args = (
    if c \<in> {117, 100, 120, 112} then
      (case args of
         VInt v # args \<Rightarrow>
           kbind
            (if c = 117 then printint (if l = 2 then v else ucast (ucast v :: u32)) 10 False z n
             else if c = 100 then printint (if l = 2 then v else scast (ucast v :: u32)) 10 True z n
             else if c = 120 then printint (if l = 2 then v else ucast (ucast v :: u32)) 16 False z n
             else printint v 16 False 0 16)
            (\<lambda>out. Inr (out, args))
       | _ \<Rightarrow> Inl (Fault ''va_arg''))
    else if c = 99 then
      (case args of VInt v # args \<Rightarrow> Inr ([ucast v], args) | _ \<Rightarrow> Inl (Fault ''va_arg''))
    else if c = 115 then
      (case args of VStr s # args \<Rightarrow> Inr (print_string s n, args) | _ \<Rightarrow> Inl (Fault ''va_arg''))
    else if c = 37 then Inr ([37], args)
    else Inr ([37, c], args))"

lemma length_print_flag: "length (snd (print_flag fmt)) \<le> length fmt"
  by (auto simp: print_flag_def split: list.split)

text \<open>The loop of \<open>vprintfmt\<close> over the format.\<close>

function print_fmt :: "u8 list \<Rightarrow> varg list \<Rightarrow> u8 list kres" where
  "print_fmt [] args = Inr []"
| "print_fmt (c # fmt) args = (
    if c \<noteq> 37 then kbind (print_fmt fmt args) (\<lambda>out. Inr (c # out))
    else
      let (z, fmt) = print_flag fmt;
          (n, fmt) = print_width fmt;
          l = length (takeWhile (\<lambda>c. c = 108) fmt)
      in case dropWhile (\<lambda>c. c = 108) fmt of
           [] \<Rightarrow> Inr []
         | c # fmt \<Rightarrow>
             kbind (print_conv c l z n args) (\<lambda>(out, args).
               kbind (print_fmt fmt args) (\<lambda>rest. Inr (out @ rest))))"
  by pat_completeness auto

termination
proof (relation "measure (\<lambda>(fmt, args). length fmt)", simp, simp, goal_cases)
  case (1 c fmt args x z fmt1 xa n fmt2 l c' fmt3 xb out args')
  have "length (dropWhile (\<lambda>c. c = 108) fmt2) \<le> length fmt2" by (rule length_dropWhile_le)
  moreover have "length fmt2 \<le> length fmt1"
    using 1 length_dropWhile_le [of is_digit fmt1] by (simp add: print_width_def)
  moreover have "length fmt1 \<le> length fmt" using 1 length_print_flag [of fmt] by (metis snd_conv)
  ultimately show ?case using 1 by simp
qed

text \<open>After a panic every CPU but the one that panicked stops here.\<close>

definition vprintfmt :: "int \<Rightarrow> int \<Rightarrow> u8 list \<Rightarrow> varg list \<Rightarrow> u8 list kres" where
  "vprintfmt panicked cpuid fmt args =
     (if panicked \<ge> 0 \<and> panicked \<noteq> cpuid then Inl (Deadlock ''panicked'') else print_fmt fmt args)"

section \<open>The line editor\<close>

definition queue :: "cons \<Rightarrow> u8 list" where
  "queue s = ring_list 128 (inbuf s) (inr s) (inw s)"

definition edit :: "cons \<Rightarrow> u8 list" where
  "edit s = ring_list 128 (inbuf s) (inw s) (ine s)"

definition cons_inv :: "cons \<Rightarrow> bool" where
  "cons_inv s \<longleftrightarrow> length (queue s) + length (edit s) \<le> 128"

text \<open>What a character does to the finished input and to the line being edited.\<close>

definition edit_char :: "bool \<Rightarrow> u8 \<Rightarrow> u8 list \<times> u8 list \<Rightarrow> u8 list \<times> u8 list" where
  "edit_char lbuf c = (\<lambda>(q, l).
    if c = 16 then (q, l)
    else if c = 21 then (q, rev (dropWhile (\<lambda>x. x \<noteq> 10) (rev l)))
    else if c = 8 \<or> c = 127 then (q, butlast l)
    else if c \<noteq> 0 \<and> length q + length l < 128 then
      let c = (if c = 13 then 10 else c)
      in if \<not> lbuf \<or> c = 10 \<or> c = 4 \<or> length q + length l = 127 then (q @ l @ [c], []) else (q, l @ [c])
    else (q, l))"

lemma mod_INPUT_BUF: "unat (x mod INPUT_BUF) = unat x mod 128"
  by (simp add: INPUT_BUF_def unat_mod)

lemma dvd_128: "(128 :: nat) dvd 2 ^ LENGTH(64)"
  by simp

lemma cons_total:
  assumes "cons_inv s"
  shows "ring_len (inr s) (ine s) = length (queue s) + length (edit s)"
    and "ring_list 128 (inbuf s) (inr s) (ine s) = queue s @ edit s"
proof -
  have "ring_len (inr s) (inw s) + ring_len (inw s) (ine s) < 2 ^ LENGTH(64)"
    using assms by (simp add: cons_inv_def queue_def edit_def)
  note a = ring_append [OF dvd_128 this]
  show "ring_len (inr s) (ine s) = length (queue s) + length (edit s)"
    using a(1) by (simp add: queue_def edit_def)
  show "ring_list 128 (inbuf s) (inr s) (ine s) = queue s @ edit s"
    using a(2) by (simp add: queue_def edit_def)
qed

lemma queue_edit_consputc [simp]:
  "queue (consputc c s) = queue s" "edit (consputc c s) = edit s" "islbuf (consputc c s) = islbuf s"
  "inr (consputc c s) = inr s" "inw (consputc c s) = inw s" "ine (consputc c s) = ine s"
  "inbuf (consputc c s) = inbuf s" "ctermios (consputc c s) = ctermios s"
  by (simp_all add: queue_def edit_def consputc_def islbuf_def)

lemma edit_rubout:
  assumes "ine s \<noteq> inw s"
  shows "edit (s\<lparr>ine := ine s - 1\<rparr>) = butlast (edit s)" and "queue (s\<lparr>ine := ine s - 1\<rparr>) = queue s"
    and "inbuf s (unat ((ine s - 1) mod INPUT_BUF)) = last (edit s)" and "edit s \<noteq> []"
  using ring_unput [OF dvd_128, of "inw s" "ine s" "inbuf s"] assms ring_list_Nil [of 128 "inbuf s" "inw s" "ine s"]
  by (auto simp: edit_def queue_def mod_INPUT_BUF)

lemma kill_line_edit:
  "queue (kill_line s) = queue s \<and> edit (kill_line s) = rev (dropWhile (\<lambda>x. x \<noteq> 10) (rev (edit s))) \<and>
   ctermios (kill_line s) = ctermios s \<and> inr (kill_line s) = inr s \<and> inw (kill_line s) = inw s"
proof (induction s rule: kill_line.induct)
  case (1 s)
  have nil: "ine s = inw s \<longleftrightarrow> edit s = []"
    using ring_list_Nil [of 128 "inbuf s" "inw s" "ine s"] by (auto simp: edit_def)
  show ?case
  proof (cases "ine s \<noteq> inw s \<and> inbuf s (unat ((ine s - 1) mod INPUT_BUF)) \<noteq> 10")
    case True
    then have "edit s \<noteq> []" "last (edit s) \<noteq> 10"
      using edit_rubout [of s] by auto
    then have "dropWhile (\<lambda>x. x \<noteq> 10) (rev (edit s)) = dropWhile (\<lambda>x. x \<noteq> 10) (rev (butlast (edit s)))"
      by (cases "edit s" rule: rev_cases) simp_all
    then show ?thesis
      using "1.IH" [OF True] True edit_rubout [of s] by (simp add: kill_line.simps [of s])
  next
    case False
    have "dropWhile (\<lambda>x. x \<noteq> 10) (rev (edit s)) = rev (edit s)"
    proof (cases "edit s = []")
      case ne: False
      then have "last (edit s) = 10" using False nil edit_rubout [of s] by auto
      then show ?thesis using ne by (cases "edit s" rule: rev_cases) auto
    qed simp
    then show ?thesis using False by (auto simp: kill_line.simps [of s])
  qed
qed

lemma edit_put:
  fixes s :: cons and c :: u8
  assumes "cons_inv s" and "length (queue s) + length (edit s) < 128"
  defines "s' \<equiv> s\<lparr>inbuf := (inbuf s)(unat (ine s mod INPUT_BUF) := c), ine := ine s + 1\<rparr>"
  shows "queue s' = queue s" and "edit s' = edit s @ [c]"
proof -
  have f: "inbuf s' = (inbuf s)(unat (ine s) mod 128 := c)" "inr s' = inr s" "inw s' = inw s" "ine s' = ine s + 1"
    by (simp_all add: s'_def mod_INPUT_BUF)
  have l: "ring_len (inr s) (ine s) < 128" using cons_total(1) [OF assms(1)] assms(2) by simp
  have w: "ring_len (inw s) (ine s) < 128" using assms(2) by (simp add: edit_def)
  show e: "edit s' = edit s @ [c]"
    using ring_put [OF dvd_128 _ w, of "inbuf s" c] by (simp add: edit_def f)
  have all: "ring_list 128 (inbuf s') (inr s) (ine s') = queue s @ edit s @ [c]"
    using ring_put [OF dvd_128 _ l, of "inbuf s" c] cons_total(2) [OF assms(1)] by (simp add: f)
  have "length (queue s') = length (queue s)" by (simp add: queue_def f)
  then have "cons_inv s'" using assms(2) e by (simp add: cons_inv_def)
  then have "queue s' @ edit s' = queue s @ edit s @ [c]" using cons_total(2) [of s'] all f by simp
  then show "queue s' = queue s" by (simp add: e)
qed

lemma edit_commit:
  assumes "cons_inv s"
  shows "queue (s\<lparr>inw := ine s\<rparr>) = queue s @ edit s" and "edit (s\<lparr>inw := ine s\<rparr>) = []"
  using cons_total(2) [OF assms] ring_list_Nil [of 128 "inbuf s" "ine s" "ine s"] by (simp_all add: queue_def edit_def)

lemma full_line:
  assumes "cons_inv s"
  shows "ine s - inr s < INPUT_BUF \<longleftrightarrow> length (queue s) + length (edit s) < 128"
    and "ine s = inr s + INPUT_BUF \<longleftrightarrow> length (queue s) + length (edit s) = 128"
proof -
  have l: "unat (ine s - inr s) = length (queue s) + length (edit s)"
    using cons_total(1) [OF assms] by (simp add: ring_len_def)
  show "ine s - inr s < INPUT_BUF \<longleftrightarrow> length (queue s) + length (edit s) < 128"
    by (simp add: word_less_nat_alt l INPUT_BUF_def)
  have "ine s = inr s + INPUT_BUF \<longleftrightarrow> ine s - inr s = INPUT_BUF" by (metis add.commute diff_add_cancel add_diff_cancel)
  then show "ine s = inr s + INPUT_BUF \<longleftrightarrow> length (queue s) + length (edit s) = 128"
    by (simp add: word_unat_eq_iff l INPUT_BUF_def)
qed

definition char_view :: "cons \<times> bool \<times> bool \<Rightarrow> u8 list \<times> u8 list" where
  "char_view st = (queue (fst st), edit (fst st))"

lemma console_char_refines:
  assumes "cons_inv s"
  shows "cons_inv (fst (console_char c (s, p, w))) \<and> ctermios (fst (console_char c (s, p, w))) = ctermios s \<and>
    char_view (console_char c (s, p, w)) = edit_char (islbuf s) c (queue s, edit s)"
proof (cases "c \<in> {16, 21, 8, 127}")
  case True
  consider "c = 16" | "c = 21" | "c = 8 \<or> c = 127" using True by blast
  then show ?thesis
  proof cases
    case 1
    then show ?thesis using assms by (simp add: console_char_def edit_char_def char_view_def)
  next
    case 2
    have "cons_inv (kill_line s)"
      using assms kill_line_edit [of s] length_dropWhile_le [of "\<lambda>x. x \<noteq> 10" "rev (edit s)"] by (simp add: cons_inv_def)
    then show ?thesis using 2 kill_line_edit [of s] by (simp add: console_char_def edit_char_def char_view_def)
  next
    case 3
    have c: "console_char c (s, p, w) = (if ine s \<noteq> inw s then consputc None (s\<lparr>ine := ine s - 1\<rparr>) else s, p, w)"
      "edit_char (islbuf s) c (queue s, edit s) = (queue s, butlast (edit s))"
      using 3 by (auto simp: console_char_def edit_char_def)
    show ?thesis
    proof (cases "ine s = inw s")
      case True
      then have "edit s = []" using ring_list_Nil [of 128 "inbuf s" "inw s" "ine s"] by (simp add: edit_def)
      then show ?thesis using c True assms by (simp add: char_view_def)
    next
      case False
      then show ?thesis using c assms edit_rubout [OF False] by (simp add: char_view_def cons_inv_def)
    qed
  qed
next
  case no: False
  show ?thesis
  proof (cases "c \<noteq> 0 \<and> length (queue s) + length (edit s) < 128")
    case True
    define b where "b = (if c = 13 then 10 else c)"
    define s1 where "s1 = s\<lparr>inbuf := (inbuf s)(unat (ine s mod INPUT_BUF) := b), ine := ine s + 1\<rparr>"
    define s2 where "s2 = (if isecho s1 then consputc (Some b) s1 else s1)"
    have q: "queue s2 = queue s" "edit s2 = edit s @ [b]" "ctermios s2 = ctermios s" "islbuf s2 = islbuf s"
      using edit_put [OF assms, of b] True by (simp_all add: s2_def s1_def islbuf_def)
    have i2: "cons_inv s2" using True q by (simp add: cons_inv_def)
    have c: "console_char c (s, p, w) =
        (if \<not> islbuf s2 \<or> b = 10 \<or> b = 4 \<or> ine s2 = inr s2 + INPUT_BUF then (s2\<lparr>inw := ine s2\<rparr>, p, True) else (s2, p, w))"
    proof -
      have "c \<noteq> 16" "c \<noteq> 21" "c \<noteq> 8" "c \<noteq> 127" "c \<noteq> 0" "ine s - inr s < INPUT_BUF"
        using no True full_line(1) [OF assms] by auto
      then show ?thesis
        by (simp only: console_char_def prod.case Let_def b_def s1_def s2_def if_True if_False simp_thms)
    qed
    have full: "ine s2 = inr s2 + INPUT_BUF \<longleftrightarrow> length (queue s) + length (edit s) = 127"
      using full_line(2) [OF i2] q by simp
    show ?thesis
      using no True edit_commit [OF i2] i2 q full
      by (auto simp: c edit_char_def char_view_def b_def [symmetric] Let_def cons_inv_def)
  next
    case False
    then have "console_char c (s, p, w) = (s, p, w)"
      using no full_line(1) [OF assms] by (auto simp: console_char_def)
    then show ?thesis using False no assms by (auto simp: edit_char_def char_view_def)
  qed
qed

lemma console_chars_refine:
  assumes "cons_inv (fst st)"
  shows "cons_inv (fst (fold console_char cs st)) \<and>
    char_view (fold console_char cs st) = fold (edit_char (islbuf (fst st))) cs (char_view st) \<and>
    ctermios (fst (fold console_char cs st)) = ctermios (fst st)"
  using assms
proof (induction cs arbitrary: st)
  case (Cons c cs)
  obtain s p w where st: "st = (s, p, w)" by (cases st)
  note r = console_char_refines [of s c p w]
  have "islbuf (fst (console_char c st)) = islbuf s" using r Cons.prems by (simp add: st islbuf_def)
  then show ?case using Cons.IH [of "console_char c st"] Cons.prems r by (simp add: st char_view_def)
qed simp

section \<open>Reading a line back\<close>

definition plain :: "u8 \<Rightarrow> bool" where
  "plain c = (c \<notin> {0, 4, 8, 10, 13, 16, 21, 127})"

lemma edit_plain:
  assumes "list_all plain cs" and "length l + length cs < 127"
  shows "fold (edit_char True) cs ([], l) = ([], l @ cs)"
  using assms
proof (induction cs arbitrary: l)
  case (Cons c cs)
  then have "edit_char True c ([], l) = ([], l @ [c])" by (simp add: edit_char_def plain_def)
  then show ?case using Cons.IH [of "l @ [c]"] Cons.prems by simp
qed simp

lemma queue_get:
  assumes "queue s = c # q"
  shows "inr s \<noteq> inw s" and "inbuf s (unat (inr s mod INPUT_BUF)) = c" and "queue (s\<lparr>inr := inr s + 1\<rparr>) = q"
proof -
  show ne: "inr s \<noteq> inw s" using assms ring_list_Nil [of 128 "inbuf s" "inr s" "inw s"] by (auto simp: queue_def)
  show "inbuf s (unat (inr s mod INPUT_BUF)) = c" "queue (s\<lparr>inr := inr s + 1\<rparr>) = q"
    using ring_get [OF dvd_128 ne, of "inbuf s"] assms by (simp_all add: queue_def mod_INPUT_BUF)
qed

lemma console_read_line:
  assumes "queue s = cs @ 10 # rest" and "list_all plain cs" and "islbuf s" and "length cs < n" and "n \<le> target"
  shows "\<exists>s'. console_read k target n out s = (s', out @ cs @ [10], CReturned (int target - int (n - length cs - 1))) \<and>
    queue s' = rest \<and> edit s' = edit s"
  using assms
proof (induction cs arbitrary: s n out)
  case Nil
  then obtain m where n: "n = Suc m" by (cases n) auto
  note g = queue_get [of s 10 rest]
  show ?case using Nil g by (simp add: n islbuf_def edit_def)
next
  case (Cons c cs)
  then obtain m where n: "n = Suc m" by (cases n) auto
  note g = queue_get [of s c "cs @ 10 # rest"]
  define s1 where "s1 = s\<lparr>inr := inr s + 1\<rparr>"
  have p: "c \<noteq> 4" "c \<noteq> 10" using Cons.prems by (simp_all add: plain_def)
  have r: "console_read k target n out s = console_read k target m (out @ [c]) s1"
    using Cons.prems g p by (simp add: n islbuf_def s1_def Let_def)
  have "queue s1 = cs @ 10 # rest" "islbuf s1" "edit s1 = edit s"
    using Cons.prems g by (simp_all add: s1_def islbuf_def edit_def)
  then show ?case unfolding r using Cons.IH [of s1 m "out @ [c]"] Cons.prems by (simp add: n)
qed

lemma console_char_wakes:
  assumes "cons_inv s" and "length (queue s) + length (edit s) < 128"
    and "nl \<in> {10, 13}"
  shows "snd (console_char nl (s, p, w)) = (p, True)"
  using full_line(1) [OF assms(1)] assms(2,3) by (auto simp: console_char_def Let_def)

lemma intr_prof:
  assumes "list_all plain cs"
  shows "fst (snd (fold console_char cs st)) = fst (snd st)"
  using assms
proof (induction cs arbitrary: st)
  case (Cons c cs)
  obtain s p w where st: "st = (s, p, w)" by (cases st)
  have "fst (snd (console_char c st)) = p" using Cons.prems by (simp add: st console_char_def plain_def Let_def)
  then show ?case using Cons by (simp add: st)
qed simp

section \<open>Numbers\<close>

definition digit_val :: "u8 \<Rightarrow> nat" where
  "digit_val c = (if c < 58 then unat c - 48 else unat c - 87)"

text \<open>The value of a written number, most significant digit first.\<close>

definition number :: "nat \<Rightarrow> u8 list \<Rightarrow> nat" where
  "number base ds = foldl (\<lambda>a c. a * base + digit_val c) 0 ds"

lemma digit_val_digit: "d < 16 \<Longrightarrow> digit_val (digit d) = d"
  by (auto simp: digit_val_def digit_def word_less_nat_alt unat_of_nat unat_word_ariths)

lemma number_print_digits:
  assumes "2 \<le> base" and "base \<le> 16"
  shows "number base (rev (print_digits base t)) = t"
proof (induction t rule: less_induct)
  case (less t)
  have d: "digit_val (digit (t mod base)) = t mod base" using assms mod_less_divisor [of base t] by (intro digit_val_digit) linarith
  show ?case
  proof (cases "t div base = 0")
    case True
    then have "t mod base = t" using assms by (simp add: div_eq_0_iff)
    then show ?thesis using True d by (simp add: print_digits.simps [of base t] number_def)
  next
    case False
    have "t div base < t" using assms False by (intro div_less_dividend) (auto intro: gr0I)
    then have "number base (rev (print_digits base (t div base))) = t div base" by (rule less)
    then show ?thesis using False assms d by (simp add: print_digits.simps [of base t] number_def)
  qed
qed

lemma length_print_digits:
  assumes "2 \<le> base" and "t < base ^ Suc k"
  shows "length (print_digits base t) \<le> Suc k"
  using assms(2)
proof (induction k arbitrary: t)
  case 0
  then show ?case by (simp add: print_digits.simps)
next
  case (Suc k)
  have "t div base < base ^ Suc k" using Suc.prems assms(1) by (simp add: div_less_iff_less_mult mult.commute)
  then show ?case using Suc.IH [of "t div base"] by (simp add: print_digits.simps [of base t])
qed

lemma print_digits_64:
  assumes "2 \<le> base"
  shows "length (print_digits base (unat (x :: u64))) \<le> 64"
proof -
  have "unat x < 2 ^ LENGTH(64)" by (rule unsigned_less)
  then have "unat x < 2 ^ Suc 63" by simp
  also have "(2 :: nat) ^ Suc 63 \<le> base ^ Suc 63" using assms by (rule power_mono) simp
  finally show ?thesis using length_print_digits [OF assms, of "unat x" 63] by simp
qed

lemma number_zeros: "number base (replicate n 48 @ ds) = number base ds"
proof -
  have "foldl (\<lambda>a c. a * base + digit_val c) 0 (replicate n 48) = 0"
    by (induction n) (simp_all add: digit_val_def)
  then show ?thesis by (simp add: number_def)
qed

lemma uint_sint_mod: "uint (x :: u64) = sint x mod 2 ^ 64"
proof -
  have "uint (word_of_int (sint x) :: u64) = sint x mod 2 ^ 64"
    by (simp only: uint_word_of_int len_bit0 len_num1 arith_simps mult_1_right)
  then show ?thesis by simp
qed

lemma unat_sint_abs:
  fixes x :: u64
  shows "0 \<le> sint x \<Longrightarrow> unat x = nat \<bar>sint x\<bar>" and "sint x < 0 \<Longrightarrow> unat (- x) = nat \<bar>sint x\<bar>"
proof -
  have b: "- (2 ^ 63) \<le> sint x" "sint x < 2 ^ 63" using sint_ge [of x] sint_lt [of x] by simp_all
  then have "uint x = sint x" if "0 \<le> sint x"
    using that uint_sint_mod [of x] by simp
  then show "unat x = nat \<bar>sint x\<bar>" if "0 \<le> sint x"
    using that by (simp add: unat_eq_nat_uint)
  have "uint (- x) = (- uint x) mod 2 ^ 64" by (simp add: uint_word_ariths)
  also have "\<dots> = (- sint x) mod 2 ^ 64" by (simp only: uint_sint_mod mod_minus_eq)
  finally have "uint (- x) = - sint x" if "sint x < 0" using that b by simp
  then show "unat (- x) = nat \<bar>sint x\<bar>" if "sint x < 0"
    using that by (simp add: unat_eq_nat_uint)
qed

section \<open>Properties\<close>

text \<open>C29: The ring with its three counters is the line editor: after any sequence of typed characters
  the finished input and the line being edited are those of the list editor (control-U kills back to a
  newline, backspace drops the last character, carriage return is newline, a newline, end of file or a
  full buffer commits the line), the indices never run past the buffer, and the mode is unchanged.\<close>

theorem console_intr1_refines:
  assumes "cons_inv s"
  shows "\<exists>s' prof wake. console_intr1 False typed s = Inr (s', prof, wake) \<and> cons_inv s' \<and>
    (queue s', edit s') = fold (edit_char (islbuf s)) typed (queue s, edit s) \<and> ctermios s' = ctermios s"
proof -
  obtain s' prof wake where r: "fold console_char typed (s, False, False) = (s', prof, wake)" by (metis prod.exhaust)
  then show ?thesis
    using console_chars_refine [of "(s, False, False)" typed] assms by (simp add: console_intr1_def char_view_def)
qed

definition cons0 :: cons where
  "cons0 = \<lparr>inbuf = (\<lambda>_. 0), inr = 0, inw = 0, ine = 0,
     ctermios = set_default_termios \<lparr>c_iflag = 0, c_oflag = 0, c_cflag = 0, c_lflag = 0, c_line = 0, c_cc = (\<lambda>_. 0),
       c_ispeed = 0, c_ospeed = 0\<rparr>,
     uart = []\<rparr>"

lemma cons0: "queue cons0 = []" "edit cons0 = []" "islbuf cons0"
  by (simp_all add: queue_def edit_def ring_list_def ring_len_def cons0_def islbuf_def set_default_termios_def
      ICANON_def ISIG_def IEXTEN_def ECHO_def ECHOE_def ECHOCTL_def ECHOKE_def)

theorem console_intr1_refines_witness:
  "\<exists>s' prof wake. console_intr1 False [97, 98, 8, 99, 13, 100] cons0 = Inr (s', prof, wake) \<and> cons_inv s' \<and>
    (queue s', edit s') = ([97, 99, 10], [100]) \<and> ctermios s' = ctermios cons0"
proof -
  have "cons_inv cons0" by (simp add: cons_inv_def cons0)
  from console_intr1_refines [OF this, of "[97, 98, 8, 99, 13, 100]"] show ?thesis
    by (simp add: cons0 edit_char_def)
qed

text \<open>C30: In line mode and with nothing typed or unread before, a typed line of fewer than 127 printing characters,
  ended by carriage return or newline, wakes the reader, and a read of more bytes than the line has returns
  it, newline included, and leaves the buffer empty.\<close>

theorem console_line_roundtrip:
  assumes "queue s = []" and "edit s = []" and "islbuf s" and "list_all plain cs" and "length cs < 127"
    and "length cs < n" and "nl \<in> {10, 13}"
  shows "\<exists>s' s''. console_intr1 False (cs @ [nl]) s = Inr (s', False, True) \<and>
    console_read killed n n [] s' = (s'', cs @ [10], CReturned (int (length cs) + 1)) \<and> queue s'' = [] \<and> edit s'' = []"
proof -
  let ?st = "(s, False, False)"
  let ?m = "fold console_char cs ?st"
  have "cons_inv s" using assms by (simp add: cons_inv_def)
  then have m: "cons_inv (fst ?m)" "char_view ?m = ([], cs)" "ctermios (fst ?m) = ctermios s" "fst (snd ?m) = False"
    using console_chars_refine [of ?st cs] edit_plain [of cs "[]"] intr_prof [of cs ?st] assms
    by (simp_all add: char_view_def)
  obtain s1 w where m1: "?m = (s1, False, w)" using m(4) by (cases ?m) auto
  obtain s' p w' where m2: "console_char nl (s1, False, w) = (s', p, w')" by (metis prod.exhaust)
  have v: "queue s1 = []" "edit s1 = cs" "islbuf s1" using m assms by (auto simp: m1 char_view_def islbuf_def)
  have e: "queue s' = cs @ [10]" "edit s' = []" "islbuf s'"
    using console_char_refines [of s1 nl False w] m v assms by (auto simp: m1 m2 char_view_def edit_char_def islbuf_def)
  have "\<not> p" "w'"
    using console_char_wakes [of s1 nl False w] m v assms by (auto simp: m1 m2)
  then have i: "console_intr1 False (cs @ [nl]) s = Inr (s', False, True)" by (simp add: console_intr1_def m1 m2)
  have "int n - int (n - length cs - 1) = int (length cs) + 1" using assms(6) by simp
  then show ?thesis using i console_read_line [of s' cs "[]" n n killed "[]"] e assms by auto
qed

theorem console_line_roundtrip_witness:
  "\<exists>s' s''. console_intr1 False [108, 115, 13] cons0 = Inr (s', False, True) \<and>
    console_read False 100 100 [] s' = (s'', [108, 115, 10], CReturned 3) \<and> queue s'' = [] \<and> edit s'' = []"
  using console_line_roundtrip [OF cons0, of "[108, 115]" 100 13 False] by (simp add: plain_def)

text \<open>C38: A number printed in a base from 2 to 16, without padding or with zeros up to a width of at most 64, reads
  back as the number: the absolute value after a minus sign for a negative signed one. The exception is the
  most negative number printed as a signed one, whose negation overflows.\<close>

theorem printint_value:
  assumes "2 \<le> base" and "base \<le> 16" and "col \<le> 64" and "zero \<in> {0, 1}" and "sign \<Longrightarrow> sint x \<noteq> - (2 ^ 63)"
  shows "\<exists>ds. printint x base sign zero col = Inr ((if sign \<and> sint x < 0 then [45] else []) @ ds) \<and>
    number base ds = (if sign then nat \<bar>sint x\<bar> else unat x) \<and> (zero = 1 \<longrightarrow> col \<le> int (length ds))"
proof -
  let ?neg = "sign \<and> sint x < 0"
  let ?t = "if ?neg then - x else x"
  let ?ds = "rev (print_digits base (unat ?t))"
  let ?n = "if zero = 1 then nat col - length ?ds else 0"
  have l: "length ?ds \<le> 64" using print_digits_64 [OF assms(1), of ?t] by simp
  have p: "print_pad zero col (rev ?ds) = Inr (rev ?ds @ replicate ?n 48)"
    using l assms(3,4) by (auto simp: print_pad_def Let_def)
  have "number base (replicate ?n 48 @ ?ds) = unat ?t"
    using number_print_digits [OF assms(1,2)] by (simp only: number_zeros)
  also have "\<dots> = (if sign then nat \<bar>sint x\<bar> else unat x)" using unat_sint_abs [of x] by auto
  finally have v: "number base (replicate ?n 48 @ ?ds) = (if sign then nat \<bar>sint x\<bar> else unat x)" .
  have r: "printint x base sign zero col = Inr ((if ?neg then [45] else []) @ replicate ?n 48 @ ?ds)"
    using p assms(5) by (auto simp: printint_def Let_def)
  show ?thesis using r v by (intro exI [of _ "replicate ?n 48 @ ?ds"]) auto
qed

theorem printint_value_witness:
  "\<exists>ds. printint (- 255) 16 True 1 8 = Inr (45 # ds) \<and> number 16 ds = 255 \<and> 8 \<le> length ds"
  using printint_value [of 16 8 1 True "- 255"] by simp

end
