(* ===== verification/Task.thy ===== *)
theory Task
  imports K_Prelude
begin

text \<open>
  What the file system and the system calls read and change of the running process: its
  identifiers, credentials, capabilities, open files and working directory (the corresponding fields
  of \<open>struct proc\<close>, \<open>inc/proc.h\<close>), the capability test, and sleep locks (\<open>kern/sleeplock.c\<close>).
  Open files and inodes are named by their index in the system tables.
\<close>

section \<open>The running process\<close>

definition NOFILE :: nat where "NOFILE = 16"
definition NGROUPS :: nat where "NGROUPS = 32"

record proc =
  p_pid :: int
  p_pgid :: int
  p_sid :: int
  p_uid :: u32
  p_euid :: u32
  p_suid :: u32
  p_fsuid :: u32
  p_gid :: u32
  p_egid :: u32
  p_sgid :: u32
  p_fsgid :: u32
  p_groups :: "nat \<Rightarrow> u32"
  p_ngroups :: int
  cap_effective :: u32
  cap_inheritable :: u32
  cap_permitted :: u32
  p_umask :: u32
  p_killed :: bool
  p_fdflag :: u32
  p_ofile :: "nat \<Rightarrow> nat option"
  p_cwd :: nat

definition CAP_CHOWN :: nat where "CAP_CHOWN = 0"
definition CAP_DAC_OVERRIDE :: nat where "CAP_DAC_OVERRIDE = 1"
definition CAP_SETGID :: nat where "CAP_SETGID = 6"
definition CAP_SETUID :: nat where "CAP_SETUID = 7"

definition capable :: "proc \<Rightarrow> nat \<Rightarrow> bool" where
  "capable p cap = (cap_effective p AND push_bit cap 1 \<noteq> 0)"

lemma capable_bit: "cap < 32 \<Longrightarrow> capable p cap \<longleftrightarrow> bit (cap_effective p) cap"
  by (simp add: capable_def and_exp_eq_0_iff_not_bit push_bit_eq_mult)

section \<open>Sleep locks\<close>

text \<open>
  A lock that is held makes the caller sleep, for ever if it is the holder itself. \<open>releasesleep\<close>
  does not look at the holder.
\<close>

record sleeplock =
  sl_locked :: bool
  sl_pid :: int

definition initsleeplock :: sleeplock where
  "initsleeplock = \<lparr>sl_locked = False, sl_pid = 0\<rparr>"

definition acquiresleep :: "proc \<Rightarrow> sleeplock \<Rightarrow> sleeplock kres" where
  "acquiresleep p lk = (if sl_locked lk then Inl (Sleeps ''acquiresleep'') else Inr \<lparr>sl_locked = True, sl_pid = p_pid p\<rparr>)"

definition releasesleep :: "sleeplock \<Rightarrow> sleeplock" where
  "releasesleep lk = lk\<lparr>sl_locked := False, sl_pid := 0\<rparr>"

definition holdingsleep :: "proc \<Rightarrow> sleeplock \<Rightarrow> bool" where
  "holdingsleep p lk = (sl_locked lk \<and> sl_pid lk = p_pid p)"

lemma sleeplock_cycle:
  assumes "acquiresleep p lk = Inr lk'"
  shows "holdingsleep p lk'" and "acquiresleep q lk' = Inl (Sleeps ''acquiresleep'')"
    and "\<exists>lk''. acquiresleep q (releasesleep lk') = Inr lk''"
  using assms by (auto simp: acquiresleep_def holdingsleep_def releasesleep_def split: if_splits)

end
