(* ===== verification/Inode.thy ===== *)
theory Inode
  imports Log_Crash Cstring Console Task Errno
begin

text \<open>
  The inode cache and the switch of the virtual file system: the state of the file system above the
  log, the tables of mounted and of registered file systems, and the functions of \<open>kern/vfs.c\<close> and
  \<open>kern/vfsmount.c\<close> that a file system implementation calls. An inode pointer is an index into
  \<open>icache.inode\<close>. The calls through \<open>iops\<close> and \<open>ops\<close> are resolved to the operations of
  \<open>kern/v6.c\<close>: the model describes a system whose mounted file systems are of that type. The field
  \<open>addrs\<close> is the file-system private part of an inode; \<open>kmalloc\<close> of it is taken to succeed.
  \<open>this\<close> is the process that makes the call and \<open>xtime\<close> the wall-clock time it reads.
\<close>

section \<open>State\<close>

definition T_DIR :: u16 where "T_DIR = 1"
definition T_FILE :: u16 where "T_FILE = 2"
definition T_DEV :: u16 where "T_DEV = 3"
definition T_MOUNT :: u16 where "T_MOUNT = 4"
definition T_SYMLINK :: u16 where "T_SYMLINK = 5"

definition NINODE :: nat where "NINODE = 1024"
definition SDMAJOR :: int where "SDMAJOR = 0"
definition CONMAJOR :: u16 where "CONMAJOR = 1"
definition MOUNTSIZE :: nat where "MOUNTSIZE = 2"
definition DIRSIZ :: nat where "DIRSIZ = 58"

record timespec =
  tv_sec :: u64
  tv_nsec :: u64

datatype filesystem_type = V6FS | EXT2FS

definition fs_name :: "filesystem_type \<Rightarrow> string" where
  "fs_name t = (case t of V6FS \<Rightarrow> ''v6'' | EXT2FS \<Rightarrow> ''ext2'')"

record inode =
  i_dev :: u32
  i_inum :: u32
  i_ref :: int
  i_lock :: sleeplock
  i_valid :: bool
  i_fs_t :: filesystem_type
  i_addrs :: "nat \<Rightarrow> u32"
  i_type :: u16
  i_major :: u16
  i_minor :: u16
  i_nlink :: u16
  i_size :: u32
  i_mode :: u32
  i_uid :: u32
  i_gid :: u32
  i_atime :: timespec
  i_mtime :: timespec
  i_ctime :: timespec

record mntentry =
  m_inode :: "nat option"
  m_rtinode :: "nat option"
  m_pdata :: "nat option"
  m_dev :: int
  m_used :: bool

record vfs =
  vfs_major :: int
  vfs_minor :: int
  vfs_fs_t :: filesystem_type

record fsst = logst +
  icache :: "nat \<Rightarrow> inode"
  mtable :: "nat \<Rightarrow> mntentry"
  vfsmlist :: "vfs list"
  vfssw :: "filesystem_type list"
  rootfs :: "vfs option"
  con :: cons
  xtime :: timespec
  this :: proc

definition i_upd :: "nat \<Rightarrow> (inode \<Rightarrow> inode) \<Rightarrow> 'a fsst_scheme \<Rightarrow> 'a fsst_scheme" where
  "i_upd ip f s = s\<lparr>icache := (icache s)(ip := f (icache s ip))\<rparr>"

section \<open>The file system switch\<close>

definition register_fs :: "filesystem_type \<Rightarrow> 'a fsst_scheme \<Rightarrow> int \<times> 'a fsst_scheme" where
  "register_fs t s = (0, s\<lparr>vfssw := vfssw s @ [t]\<rparr>)"

definition fs_init :: "'a fsst_scheme \<Rightarrow> 'a fsst_scheme kres" where
  "fs_init s =
     (case register_fs V6FS s of (r, s) \<Rightarrow>
      if r \<noteq> 0 then Inl (Panic ''cant register v6'')
      else case register_fs EXT2FS s of (r, s) \<Rightarrow>
           if r \<noteq> 0 then Inl (Panic ''cant register ext2'') else Inr s)"

definition getfs :: "string \<Rightarrow> 'a fsst_scheme \<Rightarrow> filesystem_type option" where
  "getfs name s = find (\<lambda>t. name = fs_name t) (vfssw s)"

definition install_rootfs :: "'a fsst_scheme \<Rightarrow> 'a fsst_scheme kres" where
  "install_rootfs s =
     (case getfs ''v6'' s of
        None \<Rightarrow> Inl (Panic ''The root fs type is not supported'')
      | Some t \<Rightarrow>
          let v = \<lparr>vfs_major = SDMAJOR, vfs_minor = uint ROOTDEV, vfs_fs_t = t\<rparr>
          in Inr (s\<lparr>rootfs := Some v, vfsmlist := vfsmlist s @ [v]\<rparr>))"

definition getvfsentry :: "int \<Rightarrow> int \<Rightarrow> 'a fsst_scheme \<Rightarrow> vfs option" where
  "getvfsentry major minor s = find (\<lambda>v. vfs_major v = major \<and> vfs_minor v = minor) (vfsmlist s)"

definition putvfsonlist :: "int \<Rightarrow> int \<Rightarrow> filesystem_type \<Rightarrow> 'a fsst_scheme \<Rightarrow> int \<times> 'a fsst_scheme" where
  "putvfsonlist major minor t s =
     (0, s\<lparr>vfsmlist := vfsmlist s @ [\<lparr>vfs_major = major, vfs_minor = minor, vfs_fs_t = t\<rparr>]\<rparr>)"

definition deletefsfromlist :: "vfs \<Rightarrow> 'a fsst_scheme \<Rightarrow> int \<times> 'a fsst_scheme" where
  "deletefsfromlist v s = (0, s\<lparr>vfsmlist := remove1 v (vfsmlist s)\<rparr>)"

section \<open>The mount table\<close>

definition same_inode :: "'a fsst_scheme \<Rightarrow> nat option \<Rightarrow> nat \<Rightarrow> bool" where
  "same_inode s q ip = (case q of None \<Rightarrow> False
     | Some j \<Rightarrow> i_dev (icache s j) = i_dev (icache s ip) \<and> i_inum (icache s j) = i_inum (icache s ip))"

definition mtablertinode :: "nat \<Rightarrow> 'a fsst_scheme \<Rightarrow> nat option" where
  "mtablertinode ip s =
     (case find (\<lambda>k. same_inode s (m_inode (mtable s k)) ip) [0..<MOUNTSIZE] of
        None \<Rightarrow> None | Some k \<Rightarrow> m_rtinode (mtable s k))"

definition mtablemntinode :: "nat \<Rightarrow> 'a fsst_scheme \<Rightarrow> nat option" where
  "mtablemntinode ip s =
     (case find (\<lambda>k. same_inode s (m_rtinode (mtable s k)) ip) [0..<MOUNTSIZE] of
        None \<Rightarrow> None | Some k \<Rightarrow> m_inode (mtable s k))"

definition isinoderoot :: "nat \<Rightarrow> 'a fsst_scheme \<Rightarrow> bool" where
  "isinoderoot ip s = list_ex (\<lambda>k. same_inode s (m_rtinode (mtable s k)) ip) [0..<MOUNTSIZE]"

section \<open>The inode cache\<close>

text \<open>
  \<open>iget\<close>: the loop remembers the first free slot and stops at a slot that holds the inode. The
  lookup of the file system of the device dereferences what \<open>getvfsentry\<close> returns.
\<close>

definition iget_slot :: "u32 \<Rightarrow> u32 \<Rightarrow> 'a fsst_scheme \<Rightarrow> nat option" where
  "iget_slot dev inum s =
     find (\<lambda>i. i_ref (icache s i) > 0 \<and> i_dev (icache s i) = dev \<and> i_inum (icache s i) = inum) [0..<NINODE]"

definition iget_fill :: "u32 \<Rightarrow> u32 \<Rightarrow> u16 \<Rightarrow> 'a fsst_scheme \<Rightarrow> (nat \<times> 'a fsst_scheme) kres" where
  "iget_fill dev inum type s =
     (case find (\<lambda>i. i_ref (icache s i) = 0) [0..<NINODE] of
        None \<Rightarrow> Inl (Panic ''iget: no inodes'')
      | Some nip \<Rightarrow>
          (case getvfsentry SDMAJOR (sint dev) s of
             None \<Rightarrow> Inl (Fault ''iget: no file system'')
           | Some v \<Rightarrow>
               Inr (nip, i_upd nip (\<lambda>I. I\<lparr>i_dev := dev, i_inum := inum, i_type := type, i_ref := 1,
                 i_valid := False, i_fs_t := vfs_fs_t v\<rparr>) s)))"

definition iget :: "u32 \<Rightarrow> u32 \<Rightarrow> u16 \<Rightarrow> 'a fsst_scheme \<Rightarrow> (nat \<times> 'a fsst_scheme) kres" where
  "iget dev inum type s =
     (case iget_slot dev inum s of
        Some ip \<Rightarrow>
          if i_type (icache s ip) = T_MOUNT then
            (case mtablertinode ip s of
               None \<Rightarrow> Inl (Panic ''Invalid inode on mount table'')
             | Some r \<Rightarrow> Inr (r, i_upd r (\<lambda>I. I\<lparr>i_ref := i_ref I + 1\<rparr>) s))
          else Inr (ip, i_upd ip (\<lambda>I. I\<lparr>i_ref := i_ref I + 1\<rparr>) s)
      | None \<Rightarrow> iget_fill dev inum type s)"

definition idup :: "nat \<Rightarrow> 'a fsst_scheme \<Rightarrow> nat \<times> 'a fsst_scheme" where
  "idup ip s = (ip, i_upd ip (\<lambda>I. I\<lparr>i_ref := i_ref I + 1\<rparr>) s)"

definition generic_iunlock :: "nat option \<Rightarrow> 'a fsst_scheme \<Rightarrow> 'a fsst_scheme kres" where
  "generic_iunlock q s =
     (case q of None \<Rightarrow> Inl (Panic ''invalid ip'')
      | Some ip \<Rightarrow>
          if \<not> holdingsleep (this s) (i_lock (icache s ip)) \<or> i_ref (icache s ip) < 1 then Inl (Panic ''invalid ip'')
          else Inr (i_upd ip (\<lambda>I. I\<lparr>i_lock := releasesleep (i_lock I)\<rparr>) s))"

section \<open>Status and permission\<close>

record stat =
  st_dev :: u64
  st_ino :: u64
  st_mode :: u32
  st_nlink :: u32
  st_uid :: u32
  st_gid :: u32
  st_rdev :: u64
  st_size :: u64
  st_blksize :: u32
  st_blocks :: u64
  st_atime :: timespec
  st_mtime :: timespec
  st_ctime :: timespec

definition makedev :: "u64 \<Rightarrow> u64 \<Rightarrow> u64" where
  "makedev x y = push_bit 32 (x AND 0xfffff000) OR push_bit 8 (x AND 0xfff) OR
     push_bit 12 (y AND 0xffffff00) OR (y AND 0xff)"

text \<open>\<open>blocksize\<close> 0, of a device without a file system, is a division by zero, which is 0 on AArch64.\<close>

definition generic_stati :: "nat \<Rightarrow> stat \<Rightarrow> 'a fsst_scheme \<Rightarrow> stat kres" where
  "generic_stati ip st s =
     (let I = icache s ip; bs = sb_blocksize (sb s (unat (i_dev I)));
          st = st\<lparr>st_dev := ucast (i_dev I), st_ino := ucast (i_inum I), st_nlink := ucast (i_nlink I),
            st_uid := i_uid I, st_gid := i_gid I, st_size := ucast (i_size I), st_blksize := bs,
            st_blocks := ucast (i_size I div bs + 1),
            st_atime := i_atime I, st_mtime := i_mtime I, st_ctime := i_ctime I\<rparr>;
          st = (if i_type I = T_DEV then st\<lparr>st_rdev := makedev (ucast (i_major I)) (ucast (i_minor I))\<rparr> else st)
      in if i_type I \<in> {T_FILE, T_DIR, T_DEV, T_MOUNT, T_SYMLINK} then Inr (st\<lparr>st_mode := i_mode I\<rparr>)
         else Inl (Panic ''unexpected stat type''))"


definition MAY_EXEC :: u32 where "MAY_EXEC = 1"
definition MAY_WRITE :: u32 where "MAY_WRITE = 2"
definition MAY_READ :: u32 where "MAY_READ = 4"
definition S_IXUGO :: u32 where "S_IXUGO = 73"

definition generic_permission :: "proc \<Rightarrow> inode \<Rightarrow> u32 \<Rightarrow> int" where
  "generic_permission p I m =
     (if p_fsuid p = 0 then 0
      else
        let mode = (if p_fsuid p = i_uid I then drop_bit 6 (i_mode I)
                    else if p_fsgid p = i_gid I then drop_bit 3 (i_mode I) else i_mode I)
        in if mode AND m AND (MAY_READ OR MAY_WRITE OR MAY_EXEC) = m then 0
           else if (m AND (MAY_READ OR MAY_WRITE) \<noteq> 0 \<or> i_mode I AND S_IXUGO \<noteq> 0) \<and> capable p CAP_DAC_OVERRIDE then 0
           else - EACCES)"

end
