(* ===== verification/V6.thy ===== *)
theory V6
  imports Inode
begin

text \<open>
  The v6 file system, \<open>kern/v6.c\<close>: superblock, block and inode allocation, the on-disk inode, the
  block map with its direct, indirect and double indirect blocks, reading, writing and truncating a
  file, and directories. All of it works on the buffer cache through \<open>bread\<close>, \<open>log_write\<close> and
  \<open>brelse\<close>. A C pointer into a buffer's data is the buffer and an offset; where the code goes on
  using such a pointer after \<open>brelse\<close>, so does the model.
\<close>

section \<open>Superblock and layout\<close>

definition NDIRECT :: nat where "NDIRECT = 11"
definition NINDIRECT :: nat where "NINDIRECT = 1024"
definition MAXFILE :: nat where "MAXFILE = NDIRECT + NINDIRECT + NINDIRECT * NINDIRECT"
definition IPB :: nat where "IPB = 32"
definition BPB :: nat where "BPB = 32768"
definition V6_ROOTINO :: u32 where "V6_ROOTINO = 1"
definition SB_INITIALIZED :: int where "SB_INITIALIZED = 1"

definition IBLOCK :: "u32 \<Rightarrow> v6_superblock \<Rightarrow> u32" where
  "IBLOCK i b = i div of_nat IPB + v6_inodestart b"

definition BBLOCK :: "u32 \<Rightarrow> v6_superblock \<Rightarrow> u32" where
  "BBLOCK n b = n div of_nat BPB + v6_bmapstart b"

text \<open>\<open>sb[dev].fs_info\<close>, dereferenced.\<close>

definition v6_info :: "u32 \<Rightarrow> 'a iost_scheme \<Rightarrow> v6_superblock kres" where
  "v6_info dev s =
     (if unat dev \<ge> NMINOR then Inl (Fault ''sb[dev]'')
      else case fs_info (sb s (unat dev)) of None \<Rightarrow> Inl (Fault ''fs_info'') | Some b \<Rightarrow> Inr b)"

function blksize_bits :: "u8 \<Rightarrow> u32 \<Rightarrow> u8" where
  "blksize_bits bits n = (let n = drop_bit 1 n in if n > 256 then blksize_bits (bits + 1) n else bits + 1)"
  by pat_completeness auto

termination
proof (relation "measure (\<lambda>(_, n). unat n)")
  fix bits :: u8 and n x :: u32
  assume "x = drop_bit 1 n" and "256 < x"
  then have "unat x = unat n div 2" "0 < unat x"
    by (simp_all add: unat_div drop_bit_eq_div word_less_nat_alt)
  then show "((bits + 1, x), bits, n) \<in> measure (\<lambda>(_, n). unat n)" by simp
qed simp

definition sb_set_blocksize :: "superblock \<Rightarrow> u32 \<Rightarrow> superblock" where
  "sb_set_blocksize b n = b\<lparr>sb_blocksize := n, s_blocksize_bits := blksize_bits 8 n\<rparr>"

definition v6_superblock_of :: "bytes \<Rightarrow> v6_superblock" where
  "v6_superblock_of m = \<lparr>v6_size = get32 m 0, v6_nblocks = get32 m 4, v6_ninodes = get32 m 8,
     v6_nlog = get32 m 12, v6_logstart = get32 m 16, v6_inodestart = get32 m 20, v6_bmapstart = get32 m 24\<rparr>"

definition v6_readsb :: "u32 \<Rightarrow> 'a iost_scheme \<Rightarrow> 'a iost_scheme kres" where
  "v6_readsb dev s =
     (if unat dev \<ge> NMINOR then Inl (Fault ''sb[dev]'')
      else if sb_flags (sb s (unat dev)) = SB_INITIALIZED then Inr s
      else
        let b = sb_set_blocksize ((sb s (unat dev))\<lparr>sb_major := SDMAJOR, sb_minor := sint dev\<rparr>) (of_nat BSIZE);
            b = b\<lparr>sb_lba := mbr_lba (mbr s) 1, sb_nsecs := mbr_nsecs (mbr s) 1, sb_flags := SB_INITIALIZED\<rparr>;
            s = s\<lparr>sb := (sb s)(unat dev := b)\<rparr>
        in kbind (bread dev 1 s) (\<lambda>(bp, s).
           let v6sb = v6_superblock_of (b_data (bufs s bp))
           in kbind (brelse bp s) (\<lambda>s.
              Inr (s\<lparr>sb := (sb s)(unat dev := (sb s (unat dev))\<lparr>fs_info := Some v6sb\<rparr>)\<rparr>))))"

definition v6_getroot :: "u32 \<Rightarrow> 'a fsst_scheme \<Rightarrow> (nat \<times> 'a fsst_scheme) kres" where
  "v6_getroot minor s = iget minor V6_ROOTINO T_DIR s"

section \<open>Blocks\<close>

definition v6_bzero :: "u32 \<Rightarrow> u32 \<Rightarrow> 'a logst_scheme \<Rightarrow> 'a logst_scheme kres" where
  "v6_bzero dev bno s =
     kbind (bread dev bno s) (\<lambda>(bp, s).
     kbind (log_write bp (buf_store bp (memset_bytes (b_data (bufs s bp)) 0 0 BSIZE) s)) (\<lambda>s.
     brelse bp s))"

definition map_bit :: "bytes \<Rightarrow> nat \<Rightarrow> bool" where
  "map_bit m i = (m (i div 8) AND push_bit (i mod 8) 1 \<noteq> 0)"

definition set_map_bit :: "bytes \<Rightarrow> nat \<Rightarrow> bytes" where
  "set_map_bit m i = m(i div 8 := m (i div 8) OR push_bit (i mod 8) 1)"

definition clear_map_bit :: "bytes \<Rightarrow> nat \<Rightarrow> bytes" where
  "clear_map_bit m i = m(i div 8 := m (i div 8) AND NOT (push_bit (i mod 8) 1))"

text \<open>The outer loop of \<open>v6_balloc\<close>, over the first block numbers of the bitmap blocks.\<close>

primrec balloc_from :: "u32 \<Rightarrow> v6_superblock \<Rightarrow> nat list \<Rightarrow> 'a logst_scheme \<Rightarrow> (u32 \<times> 'a logst_scheme) kres" where
  "balloc_from dev v6sb [] s = Inl (Panic ''balloc: out of blocks'')"
| "balloc_from dev v6sb (b # bs) s =
     kbind (bread dev (BBLOCK (of_nat b) v6sb) s) (\<lambda>(bp, s).
     case find (\<lambda>bi. \<not> map_bit (b_data (bufs s bp)) bi) [0..<min BPB (unat (v6_size v6sb) - b)] of
       Some bi \<Rightarrow>
         kbind (log_write bp (buf_store bp (set_map_bit (b_data (bufs s bp)) bi) s)) (\<lambda>s.
         kbind (brelse bp s) (\<lambda>s.
         kbind (v6_bzero dev (of_nat (b + bi)) s) (\<lambda>s. Inr (of_nat (b + bi), s))))
     | None \<Rightarrow> kbind (brelse bp s) (balloc_from dev v6sb bs))"

definition v6_balloc :: "u32 \<Rightarrow> 'a logst_scheme \<Rightarrow> (u32 \<times> 'a logst_scheme) kres" where
  "v6_balloc dev s =
     kbind (v6_info dev s) (\<lambda>v6sb.
     balloc_from dev v6sb (map (\<lambda>k. k * BPB) [0..<(unat (v6_ninodes v6sb) + BPB - 1) div BPB]) s)"

definition v6_bfree :: "u32 \<Rightarrow> u32 \<Rightarrow> 'a logst_scheme \<Rightarrow> 'a logst_scheme kres" where
  "v6_bfree dev b s =
     kbind (v6_readsb dev s) (\<lambda>s.
     kbind (v6_info dev s) (\<lambda>v6sb.
     kbind (bread dev (BBLOCK b v6sb) s) (\<lambda>(bp, s).
     let bi = unat b mod BPB
     in if \<not> map_bit (b_data (bufs s bp)) bi then Inl (Panic ''freeing free block'')
        else kbind (log_write bp (buf_store bp (clear_map_bit (b_data (bufs s bp)) bi) s)) (\<lambda>s.
             brelse bp s))))"

section \<open>Inodes\<close>

text \<open>The fields of \<open>struct dinode\<close>, 128 bytes, at an offset of a block.\<close>

definition put_time :: "bytes \<Rightarrow> nat \<Rightarrow> timespec \<Rightarrow> bytes" where
  "put_time m a t = put64 (put64 m a (tv_sec t)) (a + 8) (tv_nsec t)"

definition get_time :: "bytes \<Rightarrow> nat \<Rightarrow> timespec" where
  "get_time m a = \<lparr>tv_sec = get64 m a, tv_nsec = get64 m (a + 8)\<rparr>"

definition put_addrs :: "bytes \<Rightarrow> nat \<Rightarrow> (nat \<Rightarrow> u32) \<Rightarrow> bytes" where
  "put_addrs m a f = fold (\<lambda>k m. put32 m (a + 4 * k) (f k)) [0..<NDIRECT + 2] m"

definition put_dinode :: "bytes \<Rightarrow> nat \<Rightarrow> inode \<Rightarrow> bytes" where
  "put_dinode m a I =
     (let m = put16 m a (i_type I);
          m = put16 m (a + 2) (i_major I);
          m = put16 m (a + 4) (i_minor I);
          m = put16 m (a + 6) (i_nlink I);
          m = put32 m (a + 8) (i_size I);
          m = put32 m (a + 16) (i_uid I);
          m = put32 m (a + 20) (i_gid I);
          m = put32 m (a + 12) (i_mode I);
          m = put_time m (a + 24) (i_atime I);
          m = put_time m (a + 40) (i_mtime I);
          m = put_time m (a + 56) (i_ctime I)
      in put_addrs m (a + 72) (i_addrs I))"

definition get_dinode :: "bytes \<Rightarrow> nat \<Rightarrow> inode \<Rightarrow> inode" where
  "get_dinode m a I = I\<lparr>i_type := get16 m a, i_major := get16 m (a + 2), i_minor := get16 m (a + 4),
     i_nlink := get16 m (a + 6), i_size := get32 m (a + 8), i_mode := get32 m (a + 12),
     i_uid := get32 m (a + 16), i_gid := get32 m (a + 20), i_atime := get_time m (a + 24),
     i_mtime := get_time m (a + 40), i_ctime := get_time m (a + 56),
     i_addrs := (\<lambda>k. if k < NDIRECT + 2 then get32 m (a + 72 + 4 * k) else i_addrs I k)\<rparr>"

definition dinode_off :: "u32 \<Rightarrow> nat" where
  "dinode_off inum = 128 * (unat inum mod IPB)"

definition v6_iget :: "u32 \<Rightarrow> u32 \<Rightarrow> u16 \<Rightarrow> 'a fsst_scheme \<Rightarrow> (nat \<times> 'a fsst_scheme) kres" where
  "v6_iget dev inum type s = iget dev inum type s"

primrec ialloc_from :: "u32 \<Rightarrow> u16 \<Rightarrow> v6_superblock \<Rightarrow> nat list \<Rightarrow> 'a fsst_scheme \<Rightarrow> (nat \<times> 'a fsst_scheme) kres" where
  "ialloc_from dev type v6sb [] s = Inl (Panic ''ialloc: no inodes'')"
| "ialloc_from dev type v6sb (inum # inums) s =
     kbind (bread dev (IBLOCK (of_nat inum) v6sb) s) (\<lambda>(bp, s).
     let a = dinode_off (of_nat inum); m = b_data (bufs s bp)
     in if get16 m a = 0 then
          kbind (log_write bp (buf_store bp (put16 (memset_bytes m a 0 128) a type) s)) (\<lambda>s.
          kbind (brelse bp s) (\<lambda>s.
          kbind (v6_iget dev (of_nat inum) type s) (\<lambda>(ip, s).
          Inr (ip, i_upd ip (\<lambda>I. I\<lparr>i_atime := xtime s, i_ctime := xtime s, i_mtime := xtime s\<rparr>) s))))
        else kbind (brelse bp s) (ialloc_from dev type v6sb inums))"

definition v6_ialloc :: "u32 \<Rightarrow> u16 \<Rightarrow> 'a fsst_scheme \<Rightarrow> (nat \<times> 'a fsst_scheme) kres" where
  "v6_ialloc dev type s =
     kbind (v6_info dev s) (\<lambda>v6sb. ialloc_from dev type v6sb [1..<unat (v6_ninodes v6sb)] s)"

definition v6_iupdate :: "nat \<Rightarrow> 'a fsst_scheme \<Rightarrow> 'a fsst_scheme kres" where
  "v6_iupdate ip s =
     (let I = icache s ip in
      kbind (v6_info (i_dev I) s) (\<lambda>v6sb.
      kbind (bread (i_dev I) (IBLOCK (i_inum I) v6sb) s) (\<lambda>(bp, s).
      kbind (log_write bp (buf_store bp (put_dinode (b_data (bufs s bp)) (dinode_off (i_inum I)) I) s)) (\<lambda>s.
      brelse bp s))))"

definition v6_ilock :: "nat \<Rightarrow> 'a fsst_scheme \<Rightarrow> 'a fsst_scheme kres" where
  "v6_ilock ip s =
     (if i_ref (icache s ip) < 1 then Inl (Panic ''ilock'')
      else kbind (acquiresleep (this s) (i_lock (icache s ip))) (\<lambda>lk.
        let s = i_upd ip (\<lambda>I. I\<lparr>i_lock := lk\<rparr>) s in
        if i_valid (icache s ip) then Inr s
        else
          kbind (v6_info (i_dev (icache s ip)) s) (\<lambda>v6sb.
          kbind (bread (i_dev (icache s ip)) (IBLOCK (i_inum (icache s ip)) v6sb) s) (\<lambda>(bp, s).
          let s = i_upd ip (\<lambda>I. get_dinode (b_data (bufs s bp)) (dinode_off (i_inum I)) I) s in
          kbind (brelse bp s) (\<lambda>s.
          let s = i_upd ip (\<lambda>I. I\<lparr>i_valid := True\<rparr>) s in
          if i_type (icache s ip) = 0 then Inl (Panic ''ilock: no type'') else Inr s)))))"

section \<open>The block map\<close>

definition bmap_slot :: "nat \<Rightarrow> nat \<Rightarrow> 'a fsst_scheme \<Rightarrow> (u32 \<times> 'a fsst_scheme) kres" where
  "bmap_slot ip k s =
     (if i_addrs (icache s ip) k = 0 then
        kbind (v6_balloc (i_dev (icache s ip)) s) (\<lambda>(addr, s).
        Inr (addr, i_upd ip (\<lambda>I. I\<lparr>i_addrs := (i_addrs I)(k := addr)\<rparr>) s))
      else Inr (i_addrs (icache s ip) k, s))"

definition bmap_indirect :: "u32 \<Rightarrow> u32 \<Rightarrow> nat \<Rightarrow> 'a logst_scheme \<Rightarrow> (u32 \<times> 'a logst_scheme) kres" where
  "bmap_indirect dev addr idx s =
     kbind (bread dev addr s) (\<lambda>(bp, s).
     let a = get32 (b_data (bufs s bp)) (4 * idx)
     in if a = 0 then
          kbind (v6_balloc dev s) (\<lambda>(addr, s).
          kbind (log_write bp (buf_store bp (put32 (b_data (bufs s bp)) (4 * idx) addr) s)) (\<lambda>s.
          kbind (brelse bp s) (\<lambda>s. Inr (addr, s))))
        else kbind (brelse bp s) (\<lambda>s. Inr (a, s)))"

definition v6_bmap :: "nat \<Rightarrow> nat \<Rightarrow> 'a fsst_scheme \<Rightarrow> (u32 \<times> 'a fsst_scheme) kres" where
  "v6_bmap ip bn s =
     (if bn < NDIRECT then bmap_slot ip bn s
      else if bn - NDIRECT < NINDIRECT then
        kbind (bmap_slot ip NDIRECT s) (\<lambda>(addr, s).
        bmap_indirect (i_dev (icache s ip)) addr (bn - NDIRECT) s)
      else
        let bn = bn - NDIRECT - NINDIRECT in
        if bn < NINDIRECT * NINDIRECT then
          kbind (bmap_slot ip (NDIRECT + 1) s) (\<lambda>(addr, s).
          kbind (bmap_indirect (i_dev (icache s ip)) addr (bn div NINDIRECT) s) (\<lambda>(addr, s).
          bmap_indirect (i_dev (icache s ip)) addr (bn mod NINDIRECT) s))
        else Inl (Panic ''bmap: out of range''))"

text \<open>
  \<open>v6_itrunc\<close>. The entry \<open>j\<close> of an indirect block is read and zeroed through the pointer into the
  buffer. In the double indirect part the pointer \<open>a\<close> stays in use after \<open>brelse(bp)\<close>: \<open>abuf\<close> is
  the buffer it points into, whatever block that buffer holds by then.
\<close>

definition buf_entry :: "'a iost_scheme \<Rightarrow> nat \<Rightarrow> nat \<Rightarrow> u32" where
  "buf_entry s bp j = get32 (b_data (bufs s bp)) (4 * j)"

definition zero_entry :: "nat \<Rightarrow> nat \<Rightarrow> 'a iost_scheme \<Rightarrow> 'a iost_scheme" where
  "zero_entry bp j s = buf_store bp (put32 (b_data (bufs s bp)) (4 * j) 0) s"

definition trunc_slot :: "nat \<Rightarrow> nat \<Rightarrow> 'a fsst_scheme \<Rightarrow> 'a fsst_scheme kres" where
  "trunc_slot ip k s =
     (if i_addrs (icache s ip) k \<noteq> 0 then
        kbind (v6_bfree (i_dev (icache s ip)) (i_addrs (icache s ip) k) s) (\<lambda>s.
        Inr (i_upd ip (\<lambda>I. I\<lparr>i_addrs := (i_addrs I)(k := 0)\<rparr>) s))
      else Inr s)"

definition trunc_entry :: "u32 \<Rightarrow> nat \<Rightarrow> nat \<Rightarrow> 'a logst_scheme \<Rightarrow> 'a logst_scheme kres" where
  "trunc_entry dev bp j s =
     (if buf_entry s bp j \<noteq> 0 then
        kbind (v6_bfree dev (buf_entry s bp j) s) (\<lambda>s. Inr (zero_entry bp j s))
      else Inr s)"

definition trunc_indirect :: "u32 \<Rightarrow> u32 \<Rightarrow> 'a logst_scheme \<Rightarrow> 'a logst_scheme kres" where
  "trunc_indirect dev addr s =
     kbind (bread dev addr s) (\<lambda>(bp, s).
     kbind (kfold (trunc_entry dev bp) [0..<NINDIRECT] s) (\<lambda>s.
     brelse bp s))"

definition trunc_double_step :: "u32 \<Rightarrow> nat \<Rightarrow> nat \<Rightarrow> nat \<times> 'a logst_scheme \<Rightarrow> (nat \<times> 'a logst_scheme) kres" where
  "trunc_double_step dev abuf i = (\<lambda>(bp, s).
     if buf_entry s abuf i \<noteq> 0 then
       kbind (brelse bp s) (\<lambda>s.
       kbind (bread dev (buf_entry s abuf i) s) (\<lambda>(bp, s).
       kbind (kfold (trunc_entry dev bp) [0..<NINDIRECT] s) (\<lambda>s.
       kbind (v6_bfree dev (buf_entry s abuf i) s) (\<lambda>s.
       Inr (bp, zero_entry abuf i s)))))
     else Inr (bp, s))"

definition trunc_double :: "u32 \<Rightarrow> u32 \<Rightarrow> 'a logst_scheme \<Rightarrow> 'a logst_scheme kres" where
  "trunc_double dev addr s =
     kbind (bread dev addr s) (\<lambda>(abuf, s).
     kbind (kfold (trunc_double_step dev abuf) [0..<NINDIRECT] (abuf, s)) (\<lambda>(bp, s).
     brelse bp s))"

definition v6_itrunc :: "nat \<Rightarrow> 'a fsst_scheme \<Rightarrow> 'a fsst_scheme kres" where
  "v6_itrunc ip s =
     kbind (kfold (trunc_slot ip) [0..<NDIRECT] s) (\<lambda>s.
     kbind (if i_addrs (icache s ip) NDIRECT \<noteq> 0 then
              kbind (trunc_indirect (i_dev (icache s ip)) (i_addrs (icache s ip) NDIRECT) s) (trunc_slot ip NDIRECT)
            else Inr s) (\<lambda>s.
     kbind (if i_addrs (icache s ip) (NDIRECT + 1) \<noteq> 0 then
              kbind (trunc_double (i_dev (icache s ip)) (i_addrs (icache s ip) (NDIRECT + 1)) s)
                (trunc_slot ip (NDIRECT + 1))
            else Inr s) (\<lambda>s.
     v6_iupdate ip (i_upd ip (\<lambda>I. I\<lparr>i_size := 0\<rparr>) s))))"

definition v6_cleanup :: "nat \<Rightarrow> 'a fsst_scheme \<Rightarrow> 'a fsst_scheme" where
  "v6_cleanup ip s = i_upd ip (\<lambda>I. I\<lparr>i_addrs := (\<lambda>_. 0)\<rparr>) s"

section \<open>Reading and writing\<close>

definition list_bytes :: "u8 list \<Rightarrow> bytes" where
  "list_bytes xs = (\<lambda>i. if i < length xs then xs ! i else 0)"

definition bytes_list :: "bytes \<Rightarrow> nat \<Rightarrow> nat \<Rightarrow> u8 list" where
  "bytes_list m a n = map (\<lambda>i. m (a + i)) [0..<n]"

text \<open>
  A device inode goes to the driver of its major number; the console is the only one that registers
  itself. It gives up the inode lock while it works.
\<close>

definition dev_read :: "nat \<Rightarrow> u64 \<Rightarrow> 'a fsst_scheme \<Rightarrow> (int \<times> u8 list \<times> 'a fsst_scheme) kres" where
  "dev_read ip n s =
     (if i_major (icache s ip) \<noteq> CONMAJOR then Inr (- 1, [], s)
      else kbind (generic_iunlock (Some ip) s) (\<lambda>s.
        case console_read (p_killed (this s)) (nat (sint n)) (nat (sint n)) [] (con s) of
          (c, out, CReturned r) \<Rightarrow> kbind (v6_ilock ip (s\<lparr>con := c\<rparr>)) (\<lambda>s. Inr (r, out, s))
        | (c, out, CAsleep _) \<Rightarrow> Inl (Sleeps ''console_read'')))"

definition dev_write :: "nat \<Rightarrow> u8 list \<Rightarrow> 'a fsst_scheme \<Rightarrow> (int \<times> 'a fsst_scheme) kres" where
  "dev_write ip src s =
     (if i_major (icache s ip) \<noteq> CONMAJOR then Inr (- 1, s)
      else kbind (generic_iunlock (Some ip) s) (\<lambda>s.
        kbind (console_write src (int (length src)) (con s)) (\<lambda>(r, c).
          kbind (v6_ilock ip (s\<lparr>con := c\<rparr>)) (\<lambda>s. Inr (r, s)))))"

lemma chunk_pos: "n \<noteq> 0 \<Longrightarrow> 0 < min n (BSIZE - off mod BSIZE)"
  using mod_less_divisor [of BSIZE off] by (simp add: BSIZE_def)

function readi_loop :: "nat \<Rightarrow> nat \<Rightarrow> nat \<Rightarrow> 'a fsst_scheme \<Rightarrow> (u8 list \<times> 'a fsst_scheme) kres" where
  "readi_loop ip off n s =
     (if n = 0 then Inr ([], s)
      else
        let m = min n (BSIZE - off mod BSIZE) in
        kbind (v6_bmap ip (off div BSIZE) s) (\<lambda>(b, s).
        kbind (bread (i_dev (icache s ip)) b s) (\<lambda>(bp, s).
        let out = bytes_list (b_data (bufs s bp)) (off mod BSIZE) m in
        kbind (brelse bp s) (\<lambda>s.
        kbind (readi_loop ip (off + m) (n - m) s) (\<lambda>(rest, s). Inr (out @ rest, s))))))"
  by pat_completeness auto

termination
proof (relation "measure (\<lambda>(ip, off, n, s). n)", goal_cases)
  case (2 ip off n)
  then show ?case using chunk_pos [of n off] by simp
qed simp

declare readi_loop.simps [simp del]

definition v6_readi :: "nat \<Rightarrow> u64 \<Rightarrow> u64 \<Rightarrow> 'a fsst_scheme \<Rightarrow> (int \<times> u8 list \<times> 'a fsst_scheme) kres" where
  "v6_readi ip off n s =
     (let sz = ucast (i_size (icache s ip)) :: u64 in
      if i_type (icache s ip) = T_DEV then dev_read ip n s
      else if off > sz \<or> off + n < off then Inr (- 1, [], s)
      else
        let n = (if off + n > sz then sz - off else n)
        in kbind (readi_loop ip (unat off) (unat n) s) (\<lambda>(out, s). Inr (int (unat n), out, s)))"

function writei_loop :: "nat \<Rightarrow> u8 list \<Rightarrow> nat \<Rightarrow> 'a fsst_scheme \<Rightarrow> 'a fsst_scheme kres" where
  "writei_loop ip src off s =
     (if src = [] then Inr s
      else
        let m = min (length src) (BSIZE - off mod BSIZE) in
        kbind (v6_bmap ip (off div BSIZE) s) (\<lambda>(b, s).
        kbind (bread (i_dev (icache s ip)) b s) (\<lambda>(bp, s).
        kbind (log_write bp (buf_store bp (memcopy (b_data (bufs s bp)) (off mod BSIZE) (list_bytes src) 0 m) s)) (\<lambda>s.
        kbind (brelse bp s) (\<lambda>s.
        writei_loop ip (drop m src) (off + m) s)))))"
  by pat_completeness auto

termination
proof (relation "measure (\<lambda>(ip, src, off, s). length src)", goal_cases)
  case (2 ip src off)
  then show ?case using chunk_pos [of "length src" off] by simp
qed simp

declare writei_loop.simps [simp del]

definition v6_writei :: "nat \<Rightarrow> u8 list \<Rightarrow> u64 \<Rightarrow> 'a fsst_scheme \<Rightarrow> (int \<times> 'a fsst_scheme) kres" where
  "v6_writei ip src off s =
     (let sz = ucast (i_size (icache s ip)) :: u64; n = of_nat (length src) :: u64 in
      if i_type (icache s ip) = T_DEV then dev_write ip src s
      else if off > sz \<or> off + n < off then Inr (- 1, s)
      else if off + n > of_nat (MAXFILE * BSIZE) then Inr (- 1, s)
      else
        kbind (writei_loop ip src (unat off) s) (\<lambda>s.
        kbind (if n > 0 \<and> off + n > sz
               then v6_iupdate ip (i_upd ip (\<lambda>I. I\<lparr>i_size := ucast (off + n)\<rparr>) s)
               else Inr s) (\<lambda>s.
        Inr (int (length src), s))))"

section \<open>Directories\<close>

record dirent =
  de_inum :: u32
  de_type :: u16
  de_name :: bytes

definition dirent_of :: "u8 list \<Rightarrow> dirent" where
  "dirent_of xs = \<lparr>de_inum = get32 (list_bytes xs) 0, de_type = get16 (list_bytes xs) 4,
     de_name = clip DIRSIZ (\<lambda>i. list_bytes xs (6 + i))\<rparr>"

definition dirent_list :: "dirent \<Rightarrow> u8 list" where
  "dirent_list de =
     bytes_list (put16 (put32 (\<lambda>i. if i < 6 then 0 else de_name de (i - 6)) 0 (de_inum de)) 4 (de_type de)) 0 64"

text \<open>Both names in one memory, the first at 0 and the second at \<open>DIRSIZ\<close>.\<close>

definition v6_namecmp :: "bytes \<Rightarrow> bytes \<Rightarrow> int" where
  "v6_namecmp x y = strncmp (\<lambda>i. if i < DIRSIZ then x i else y (i - DIRSIZ)) 0 DIRSIZ (int DIRSIZ)"

definition read_dirent :: "string \<Rightarrow> nat \<Rightarrow> nat \<Rightarrow> 'a fsst_scheme \<Rightarrow> (dirent \<times> 'a fsst_scheme) kres" where
  "read_dirent msg dp off s =
     kbind (v6_readi dp (of_nat off) 64 s) (\<lambda>(r, out, s).
     if r \<noteq> 64 then Inl (Panic msg) else Inr (dirent_of out, s))"

definition dir_offsets :: "nat \<Rightarrow> nat \<Rightarrow> nat list" where
  "dir_offsets from sz = map (\<lambda>k. 64 * k) [from..<(sz + 63) div 64]"

primrec direntlookup_loop :: "nat \<Rightarrow> u32 \<Rightarrow> nat list \<Rightarrow> 'a fsst_scheme \<Rightarrow> ((dirent \<times> nat) option \<times> 'a fsst_scheme) kres" where
  "direntlookup_loop dp inum [] s = Inr (None, s)"
| "direntlookup_loop dp inum (off # offs) s =
     kbind (read_dirent ''readi'' dp off s) (\<lambda>(de, s).
     if de_inum de = inum then Inr (Some (de, off), s) else direntlookup_loop dp inum offs s)"

definition v6_direntlookup :: "nat \<Rightarrow> u32 \<Rightarrow> 'a fsst_scheme \<Rightarrow> ((dirent \<times> nat) option \<times> 'a fsst_scheme) kres" where
  "v6_direntlookup dp inum s =
     (if i_type (icache s dp) \<noteq> T_DIR then Inl (Panic ''dp is not DIR'')
      else direntlookup_loop dp inum (dir_offsets 0 (unat (i_size (icache s dp)))) s)"

text \<open>The second component of the result is what the caller finds in \<open>*poff\<close>.\<close>

primrec dirlookup_loop ::
  "nat \<Rightarrow> bytes \<Rightarrow> int \<Rightarrow> nat list \<Rightarrow> 'a fsst_scheme \<Rightarrow> (nat option \<times> int \<times> 'a fsst_scheme) kres" where
  "dirlookup_loop dp name free [] s = Inr (None, free, s)"
| "dirlookup_loop dp name free (off # offs) s =
     kbind (read_dirent ''dirlookup read'' dp off s) (\<lambda>(de, s).
     if de_inum de = 0 then dirlookup_loop dp name (if free = - 1 then int off else free) offs s
     else if v6_namecmp name (de_name de) = 0 then
       kbind (v6_iget (i_dev (icache s dp)) (de_inum de) (de_type de) s) (\<lambda>(ip, s). Inr (Some ip, int off, s))
     else dirlookup_loop dp name free offs s)"

definition v6_dirlookup :: "nat \<Rightarrow> bytes \<Rightarrow> 'a fsst_scheme \<Rightarrow> (nat option \<times> int \<times> 'a fsst_scheme) kres" where
  "v6_dirlookup dp name s =
     (if i_type (icache s dp) = T_MOUNT then
        (case mtablertinode dp s of
           None \<Rightarrow> Inl (Panic ''v6_dirlookup: Invalid inode on mount table'')
         | Some r \<Rightarrow> Inr (Some r, - 1, i_upd r (\<lambda>I. I\<lparr>i_ref := i_ref I + 1\<rparr>) s))
      else if i_type (icache s dp) \<noteq> T_DIR then Inl (Panic ''dirlookup not DIR'')
      else dirlookup_loop dp name (- 1) (dir_offsets 0 (unat (i_size (icache s dp)))) s)"

definition v6_unlink :: "nat \<Rightarrow> u32 \<Rightarrow> 'a fsst_scheme \<Rightarrow> (int \<times> 'a fsst_scheme) kres" where
  "v6_unlink dp off s =
     kbind (v6_writei dp (replicate 64 0) (ucast off) s) (\<lambda>(r, s).
     Inr (if r \<noteq> 64 then - 1 else 0, s))"

primrec isdirempty_loop :: "nat \<Rightarrow> nat list \<Rightarrow> 'a fsst_scheme \<Rightarrow> (bool \<times> 'a fsst_scheme) kres" where
  "isdirempty_loop dp [] s = Inr (True, s)"
| "isdirempty_loop dp (off # offs) s =
     kbind (read_dirent ''readi'' dp off s) (\<lambda>(de, s).
     if de_inum de \<noteq> 0 then Inr (False, s) else isdirempty_loop dp offs s)"

definition v6_isdirempty :: "nat \<Rightarrow> 'a fsst_scheme \<Rightarrow> (bool \<times> 'a fsst_scheme) kres" where
  "v6_isdirempty dp s = isdirempty_loop dp (dir_offsets 2 (unat (i_size (icache s dp)))) s"

section \<open>Mounting\<close>

text \<open>
  \<open>v6_mount\<close>: the loop takes the first free entry, or an entry in use for the same mount point, and
  fails at an entry for the same device that comes before it.
\<close>

definition mount_entry :: "u16 \<Rightarrow> nat \<Rightarrow> nat \<Rightarrow> mntentry \<Rightarrow> mntentry" where
  "mount_entry minor ip root e =
     e\<lparr>m_dev := uint minor, m_inode := Some ip, m_pdata := Some (unat minor), m_used := True, m_rtinode := Some root\<rparr>"

primrec mount_slot :: "u16 \<Rightarrow> nat \<Rightarrow> 'a fsst_scheme \<Rightarrow> nat list \<Rightarrow> nat option" where
  "mount_slot minor ip s [] = None"
| "mount_slot minor ip s (k # ks) =
     (if \<not> m_used (mtable s k) then Some k
      else if m_dev (mtable s k) = uint minor then None
      else if same_inode s (m_inode (mtable s k)) ip then Some k
      else mount_slot minor ip s ks)"

definition v6_mount :: "nat \<Rightarrow> nat \<Rightarrow> 'a fsst_scheme \<Rightarrow> (int \<times> 'a fsst_scheme) kres" where
  "v6_mount devi ip s =
     (let minor = i_minor (icache s devi) in
      kbind (v6_readsb (ucast minor) s) (\<lambda>s.
      kbind (v6_getroot (ucast minor) s) (\<lambda>(root, s).
      case mount_slot minor ip s [0..<MOUNTSIZE] of
        None \<Rightarrow> Inr (- 1, s)
      | Some k \<Rightarrow>
          kbind (initlog (unat minor) (s\<lparr>mtable := (mtable s)(k := mount_entry minor ip root (mtable s k))\<rparr>)) (\<lambda>s.
          Inr (0, s)))))"

definition v6_unmount :: "nat \<Rightarrow> 'a fsst_scheme \<Rightarrow> int \<times> 'a fsst_scheme" where
  "v6_unmount devi s =
     (case find (\<lambda>k. m_dev (mtable s k) = sint (i_dev (icache s devi))) [0..<MOUNTSIZE] of
        None \<Rightarrow> (- 1, s)
      | Some k \<Rightarrow> (0, s\<lparr>mtable := (mtable s)(k := (mtable s k)\<lparr>m_dev := - 1, m_used := False\<rparr>)\<rparr>))"

end
