(* ===== verification/Vfs.thy ===== *)
theory Vfs
  imports V6
begin

text \<open>
  The generic layer of \<open>kern/vfs.c\<close> above a file system implementation: releasing inodes, linking
  names into directories, path names, and creating files. A path is the list of its characters
  without the final NUL, and a path element the buffer of its first \<open>DIRSIZ\<close> characters, followed by
  NULs.
\<close>

section \<open>Inodes and directories\<close>

definition iinit :: "u32 \<Rightarrow> 'a fsst_scheme \<Rightarrow> 'a fsst_scheme kres" where
  "iinit dev s =
     v6_readsb dev (s\<lparr>icache := (\<lambda>i. if i < NINODE then (icache s i)\<lparr>i_lock := initsleeplock\<rparr> else icache s i)\<rparr>)"

definition iput_free :: "nat \<Rightarrow> 'a fsst_scheme \<Rightarrow> 'a fsst_scheme kres" where
  "iput_free ip s =
     (if i_valid (icache s ip) \<and> i_nlink (icache s ip) = 0 \<and> i_ref (icache s ip) = 1 then
        kbind (v6_itrunc ip s) (\<lambda>s.
        kbind (v6_iupdate ip (i_upd ip (\<lambda>I. I\<lparr>i_type := 0\<rparr>) s)) (\<lambda>s.
        Inr (i_upd ip (\<lambda>I. I\<lparr>i_valid := False\<rparr>) s)))
      else Inr s)"

definition iput :: "nat \<Rightarrow> 'a fsst_scheme \<Rightarrow> 'a fsst_scheme kres" where
  "iput ip s =
     kbind (acquiresleep (this s) (i_lock (icache s ip))) (\<lambda>lk.
     kbind (iput_free ip (i_upd ip (\<lambda>I. I\<lparr>i_lock := lk\<rparr>) s)) (\<lambda>s.
     let s = i_upd ip (\<lambda>I. I\<lparr>i_lock := releasesleep (i_lock I)\<rparr>) s;
         s = i_upd ip (\<lambda>I. I\<lparr>i_ref := i_ref I - 1\<rparr>) s
     in Inr (if i_ref (icache s ip) = 0 then v6_cleanup ip s else s)))"

definition iunlockput :: "nat \<Rightarrow> 'a fsst_scheme \<Rightarrow> 'a fsst_scheme kres" where
  "iunlockput ip s = kbind (generic_iunlock (Some ip) s) (iput ip)"

text \<open>The offset of the first empty entry of a directory, or of its end.\<close>

primrec dirlink_slot :: "nat \<Rightarrow> nat \<Rightarrow> nat list \<Rightarrow> 'a fsst_scheme \<Rightarrow> (nat \<times> 'a fsst_scheme) kres" where
  "dirlink_slot dp fin [] s = Inr (fin, s)"
| "dirlink_slot dp fin (off # offs) s =
     kbind (read_dirent ''read error'' dp off s) (\<lambda>(de, s).
     if de_inum de = 0 then Inr (off, s) else dirlink_slot dp fin offs s)"

definition generic_dirlink :: "nat \<Rightarrow> bytes \<Rightarrow> u32 \<Rightarrow> u16 \<Rightarrow> 'a fsst_scheme \<Rightarrow> (int \<times> 'a fsst_scheme) kres" where
  "generic_dirlink dp name inum type s =
     kbind (v6_dirlookup dp name s) (\<lambda>(q, _, s).
     case q of
       Some ip \<Rightarrow> kbind (iput ip s) (\<lambda>s. Inr (- EEXIST, s))
     | None \<Rightarrow>
         let offs = dir_offsets 0 (unat (i_size (icache s dp))) in
         kbind (dirlink_slot dp (64 * length offs) offs s) (\<lambda>(off, s).
         kbind (v6_writei dp (dirent_list \<lparr>de_inum = inum, de_type = type, de_name = clip DIRSIZ name\<rparr>) (of_nat off) s)
           (\<lambda>(r, s).
         if r \<noteq> 64 then Inl (Panic ''write error'') else Inr (0, s))))"

section \<open>Path names\<close>

text \<open>47 is the slash and 46 the dot.\<close>

definition skipelem :: "u8 list \<Rightarrow> (u8 list \<times> u8 list) option" where
  "skipelem pth =
     (let s = dropWhile (\<lambda>c. c = 47) pth in
      if s = [] then None
      else Some (take DIRSIZ (takeWhile (\<lambda>c. c \<noteq> 47) s), dropWhile (\<lambda>c. c = 47) (dropWhile (\<lambda>c. c \<noteq> 47) s)))"

lemma skipelem_shorter:
  assumes "skipelem pth = Some (name, rest)"
  shows "length rest < length pth"
proof -
  let ?s = "dropWhile (\<lambda>c. c = 47) pth"
  have ne: "?s \<noteq> []" and r: "rest = dropWhile (\<lambda>c. c = 47) (dropWhile (\<lambda>c. c \<noteq> 47) ?s)"
    using assms by (auto simp: skipelem_def Let_def split: if_splits)
  have "hd ?s \<noteq> 47" using hd_dropWhile [OF ne] by simp
  then have "dropWhile (\<lambda>c. c \<noteq> 47) ?s = dropWhile (\<lambda>c. c \<noteq> 47) (tl ?s)" using ne by (cases ?s) auto
  then have "rest = dropWhile (\<lambda>c. c = 47) (dropWhile (\<lambda>c. c \<noteq> 47) (tl ?s))" using r by simp
  then have "length rest \<le> length (dropWhile (\<lambda>c. c \<noteq> 47) (tl ?s))"
    by (simp only: length_dropWhile_le)
  also have "\<dots> \<le> length (tl ?s)" by (rule length_dropWhile_le)
  also have "\<dots> < length ?s" using ne by simp
  also have "\<dots> \<le> length pth" by (rule length_dropWhile_le)
  finally show ?thesis .
qed

text \<open>
  \<open>component_search\<close> is the part of the loop of \<open>namex\<close> from that label on: it looks the name up in
  the locked directory \<open>ip\<close> and gives \<open>ip\<close> up. Every jump back to the label moves to the inode on
  which a file system of the mount table is mounted; more jumps than the table has entries never end.
\<close>

primrec component_search :: "nat \<Rightarrow> nat \<Rightarrow> bytes \<Rightarrow> 'a fsst_scheme \<Rightarrow> (nat option \<times> 'a fsst_scheme) kres" where
  "component_search 0 ip name s = Inl (Deadlock ''namex'')"
| "component_search (Suc k) ip name s =
     kbind (v6_dirlookup ip name s) (\<lambda>(q, _, s).
     case q of
       None \<Rightarrow> kbind (iunlockput ip s) (\<lambda>s. Inr (None, s))
     | Some nxt \<Rightarrow>
         kbind (v6_getroot (i_dev (icache s nxt)) s) (\<lambda>(ir, s).
         if i_inum (icache s nxt) = i_inum (icache s ir) \<and> isinoderoot ip s \<and> name 0 = 46 \<and> name 1 = 46 then
           (case mtablemntinode ip s of
              None \<Rightarrow> Inl (Fault ''mntinode'')
            | Some mnt \<Rightarrow>
                kbind (iunlockput ip s) (\<lambda>s.
                kbind (v6_ilock mnt s) (\<lambda>s.
                component_search k mnt name (i_upd mnt (\<lambda>I. I\<lparr>i_ref := i_ref I + 1\<rparr>) s))))
         else kbind (iunlockput ip s) (\<lambda>s. Inr (Some nxt, s))))"

function namex_loop ::
  "u8 list \<Rightarrow> bool \<Rightarrow> nat \<Rightarrow> 'a fsst_scheme \<Rightarrow> (nat option \<times> bytes \<times> 'a fsst_scheme) kres" where
  "namex_loop pth nameiparent ip s =
     (case skipelem pth of
        None \<Rightarrow>
          if nameiparent then kbind (iput ip s) (\<lambda>s. Inr (None, list_bytes [], s)) else Inr (Some ip, list_bytes [], s)
      | Some (name, rest) \<Rightarrow>
          kbind (v6_ilock ip s) (\<lambda>s.
          if i_type (icache s ip) \<noteq> T_DIR then kbind (iunlockput ip s) (\<lambda>s. Inr (None, list_bytes name, s))
          else if nameiparent \<and> rest = [] then
            kbind (generic_iunlock (Some ip) s) (\<lambda>s. Inr (Some ip, list_bytes name, s))
          else
            kbind (component_search (MOUNTSIZE + 1) ip (list_bytes name) s) (\<lambda>(q, s).
            case q of
              None \<Rightarrow> Inr (None, list_bytes name, s)
            | Some nxt \<Rightarrow> namex_loop rest nameiparent nxt s)))"
  by pat_completeness auto

termination
  by (relation "measure (\<lambda>(pth, _). length pth)") (auto dest: skipelem_shorter)

declare namex_loop.simps [simp del]

definition namex :: "u8 list \<Rightarrow> bool \<Rightarrow> 'a fsst_scheme \<Rightarrow> (nat option \<times> bytes \<times> 'a fsst_scheme) kres" where
  "namex pth nameiparent s =
     kbind (if pth \<noteq> [] \<and> hd pth = 47 then
              (case rootfs s of None \<Rightarrow> Inl (Fault ''rootfs'') | Some _ \<Rightarrow> v6_getroot ROOTDEV s)
            else Inr (idup (p_cwd (this s)) s))
       (\<lambda>(ip, s). namex_loop pth nameiparent ip s)"

definition namei :: "u8 list \<Rightarrow> 'a fsst_scheme \<Rightarrow> (nat option \<times> 'a fsst_scheme) kres" where
  "namei pth s = kbind (namex pth False s) (\<lambda>(q, _, s). Inr (q, s))"

definition nameiparent :: "u8 list \<Rightarrow> 'a fsst_scheme \<Rightarrow> (nat option \<times> bytes \<times> 'a fsst_scheme) kres" where
  "nameiparent pth s = namex pth True s"

section \<open>Creating files\<close>

text \<open>A result that is an error number cast to a pointer is \<open>IErr\<close>.\<close>

datatype iptr = IErr int | IPtr nat

definition create_inode :: "nat \<Rightarrow> u16 \<Rightarrow> u16 \<Rightarrow> u16 \<Rightarrow> u32 \<Rightarrow> 'a fsst_scheme \<Rightarrow> (nat \<times> 'a fsst_scheme) kres" where
  "create_inode dp type major minor mode s =
     kbind (v6_ialloc (i_dev (icache s dp)) type s) (\<lambda>(ip, s).
     kbind (v6_ilock ip s) (\<lambda>s.
     let s = i_upd ip (\<lambda>I. I\<lparr>i_major := major, i_minor := minor, i_nlink := 1,
               i_mode := mode AND NOT (p_umask (this s)), i_type := type,
               i_atime := xtime s, i_mtime := xtime s, i_ctime := xtime s,
               i_uid := p_uid (this s), i_gid := p_gid (this s)\<rparr>) s
     in kbind (v6_iupdate ip s) (\<lambda>s. Inr (ip, s))))"

definition create_dots :: "nat \<Rightarrow> nat \<Rightarrow> 'a fsst_scheme \<Rightarrow> 'a fsst_scheme kres" where
  "create_dots dp ip s =
     kbind (v6_iupdate dp (i_upd dp (\<lambda>I. I\<lparr>i_nlink := i_nlink I + 1\<rparr>) s)) (\<lambda>s.
     kbind (generic_dirlink ip (list_bytes [46]) (i_inum (icache s ip)) (i_type (icache s ip)) s) (\<lambda>(r, s).
     if r < 0 then Inl (Panic ''create: cant dots'')
     else
       kbind (generic_dirlink ip (list_bytes [46, 46]) (i_inum (icache s dp)) (i_type (icache s dp)) s) (\<lambda>(r, s).
       if r < 0 then Inl (Panic ''create: cant dots'') else Inr s)))"

definition create :: "u8 list \<Rightarrow> u16 \<Rightarrow> u16 \<Rightarrow> u16 \<Rightarrow> u32 \<Rightarrow> 'a fsst_scheme \<Rightarrow> (iptr \<times> 'a fsst_scheme) kres" where
  "create pth type major minor mode s =
     kbind (nameiparent pth s) (\<lambda>(q, name, s).
     case q of None \<Rightarrow> Inr (IErr (- ENOENT), s)
     | Some dp \<Rightarrow>
         kbind (v6_ilock dp s) (\<lambda>s.
         if generic_permission (this s) (icache s dp) MAY_EXEC < 0 then
           kbind (iunlockput dp s) (\<lambda>s. Inr (IErr (- EACCES), s))
         else
           kbind (v6_dirlookup dp name s) (\<lambda>(q, _, s).
           case q of
             Some ip \<Rightarrow>
               kbind (iunlockput dp s) (\<lambda>s.
               kbind (v6_ilock ip s) (\<lambda>s.
               if type = T_FILE \<and> i_type (icache s ip) = T_FILE then Inr (IPtr ip, s)
               else kbind (iunlockput ip s) (\<lambda>s. Inr (IErr (- EEXIST), s))))
           | None \<Rightarrow>
               kbind (create_inode dp type major minor mode s) (\<lambda>(ip, s).
               kbind (if type = T_DIR then create_dots dp ip s else Inr s) (\<lambda>s.
               kbind (generic_dirlink dp name (i_inum (icache s ip)) (i_type (icache s ip)) s) (\<lambda>(r, s).
               if r < 0 then Inl (Panic ''create: dirlink'')
               else kbind (iunlockput dp s) (\<lambda>s. Inr (IPtr ip, s))))))))"

end
