(* ===== verification/Pagecache.thy ===== *)
theory Pagecache
  imports Vfs
begin

text \<open>
  The page cache of file contents, \<open>kern/pagecache.c\<close>, from which \<open>exec\<close> and \<open>mmap\<close> copy. A cached
  page is an array of \<open>PGSIZE\<close> bytes; a copy that leaves it is a fault. Offsets are not negative.
\<close>

definition NPAGECACHE :: nat where "NPAGECACHE = 10240"

record cached_page =
  cp_page :: bytes
  cp_dev :: u32
  cp_inum :: u32
  cp_ref_count :: int
  cp_offset :: int
  cp_lock :: sleeplock

record pgst = fsst +
  pages :: "nat \<Rightarrow> cached_page"
  total_count :: nat

definition pg_upd :: "nat \<Rightarrow> (cached_page \<Rightarrow> cached_page) \<Rightarrow> 'a pgst_scheme \<Rightarrow> 'a pgst_scheme" where
  "pg_upd i f s = s\<lparr>pages := (pages s)(i := f (pages s i))\<rparr>"

definition pagecache_init :: "'a pgst_scheme \<Rightarrow> 'a pgst_scheme" where
  "pagecache_init s = s\<lparr>pages := (\<lambda>i. if i < NPAGECACHE then (pages s i)\<lparr>cp_lock := initsleeplock\<rparr> else pages s i),
     total_count := 0\<rparr>"

definition find_page :: "u32 \<Rightarrow> int \<Rightarrow> u32 \<Rightarrow> 'a pgst_scheme \<Rightarrow> nat option" where
  "find_page inum offset dev s =
     find (\<lambda>i. cp_inum (pages s i) = inum \<and> cp_offset (pages s i) = offset \<and> cp_dev (pages s i) = dev) [0..<NPAGECACHE]"

definition lock_page :: "nat \<Rightarrow> 'a pgst_scheme \<Rightarrow> 'a pgst_scheme kres" where
  "lock_page i s = kbind (acquiresleep (this s) (cp_lock (pages s i))) (\<lambda>lk. Inr (pg_upd i (\<lambda>P. P\<lparr>cp_lock := lk\<rparr>) s))"

text \<open>\<open>None\<close> is the pointer -1 that \<open>get_page\<close> returns when \<open>readi\<close> fails; the page stays locked.\<close>

definition get_page :: "nat \<Rightarrow> int \<Rightarrow> 'a pgst_scheme \<Rightarrow> (nat option \<times> 'a pgst_scheme) kres" where
  "get_page ip offset s =
     (let offset = offset - offset mod 4096; I = icache s ip in
      case find_page (i_inum I) offset (i_dev I) s of
        Some i \<Rightarrow> kbind (lock_page i s) (\<lambda>s. Inr (Some i, s))
      | None \<Rightarrow>
          let i = total_count s; s = s\<lparr>total_count := i + 1\<rparr> in
          if i \<ge> NPAGECACHE then Inl (Fault ''pagecache.pages'')
          else
            kbind (lock_page i s) (\<lambda>s.
            let s = (if total_count s = NPAGECACHE then s\<lparr>total_count := 0\<rparr> else s);
                s = pg_upd i (\<lambda>P. P\<lparr>cp_page := memset_bytes (cp_page P) 0 0 4096\<rparr>) s in
            kbind (begin_op s) (\<lambda>s.
            kbind (v6_readi ip (word_of_int offset) 4096 s) (\<lambda>(n, out, s).
            let s = pg_upd i (\<lambda>P. P\<lparr>cp_page := memcopy (cp_page P) 0 (list_bytes out) 0 (length out)\<rparr>) s in
            if n < 0 then kbind (end_op s) (\<lambda>s. Inr (None, s))
            else
              kbind (end_op s) (\<lambda>s.
              Inr (Some i, pg_upd i (\<lambda>P. P\<lparr>cp_dev := i_dev (icache s ip), cp_inum := i_inum (icache s ip),
                cp_offset := offset\<rparr>) s))))))"

definition copy_page :: "nat \<Rightarrow> int \<Rightarrow> nat \<Rightarrow> nat \<Rightarrow> 'a pgst_scheme \<Rightarrow> (int \<times> u8 list \<times> 'a pgst_scheme) kres" where
  "copy_page ip offset n doff s =
     kbind (get_page ip offset s) (\<lambda>(q, s).
     case q of
       None \<Rightarrow> Inr (- ENOMEM, [], s)
     | Some i \<Rightarrow>
         if \<not> holdingsleep (this s) (cp_lock (pages s i)) then Inl (Panic ''copy_page: not locked'')
         else if doff + n > 4096 then Inl (Fault ''copy_page'')
         else Inr (0, bytes_list (cp_page (pages s i)) doff n,
                pg_upd i (\<lambda>P. P\<lparr>cp_lock := releasesleep (cp_lock P)\<rparr>) s))"

text \<open>The loop of \<open>copy_pages\<close>: \<open>k\<close> pages are left, \<open>n\<close> bytes, and the next page gives \<open>sz\<close> of them.\<close>

primrec copy_pages_loop ::
  "nat \<Rightarrow> nat \<Rightarrow> int \<Rightarrow> nat \<Rightarrow> nat \<Rightarrow> nat \<Rightarrow> 'a pgst_scheme \<Rightarrow> (int \<times> u8 list \<times> 'a pgst_scheme) kres" where
  "copy_pages_loop 0 ip ioff n sz doff s = Inr (0, [], s)"
| "copy_pages_loop (Suc k) ip ioff n sz doff s =
     kbind (copy_page ip ioff sz doff s) (\<lambda>(r, out, s).
     if r < 0 then Inr (r, out, s)
     else
       kbind (copy_pages_loop k ip (ioff + 4096) (n - sz) (min (n - sz) 4096) 0 s) (\<lambda>(r, rest, s).
       Inr (r, out @ rest, s)))"

definition copy_pages :: "nat \<Rightarrow> nat \<Rightarrow> nat \<Rightarrow> 'a pgst_scheme \<Rightarrow> (int \<times> u8 list \<times> 'a pgst_scheme) kres" where
  "copy_pages ip n offset s =
     (let ioff = (if offset < 4096 then 0 else offset - offset mod 4096);
          doff = offset mod 4096;
          sz = (if doff + n > 4096 then 4096 - doff else n)
      in copy_pages_loop ((n + doff + 4095) div 4096) ip (int ioff) n sz doff s)"

definition update_page :: "int \<Rightarrow> u32 \<Rightarrow> u32 \<Rightarrow> u8 list \<Rightarrow> 'a pgst_scheme \<Rightarrow> 'a pgst_scheme kres" where
  "update_page offset inum dev src s =
     (let start = nat (offset mod 4096) in
      case find_page inum (offset - offset mod 4096) dev s of
        None \<Rightarrow> Inr s
      | Some i \<Rightarrow>
          kbind (lock_page i s) (\<lambda>s.
          if start + length src > 4096 then Inl (Fault ''update_page'')
          else Inr (pg_upd i (\<lambda>P. P\<lparr>cp_page := memcopy (cp_page P) start (list_bytes src) 0 (length src),
                 cp_lock := releasesleep (cp_lock P)\<rparr>) s)))"

end
