(* ===== verification/File.thy ===== *)
theory File
  imports Pagecache Pipe
begin

text \<open>
  Open files, \<open>kern/file.c\<close>, and \<open>pipealloc\<close> of \<open>kern/pipe.c\<close>: the file table, file descriptors, and
  the operations on path names that make up the file system calls, each inside its transaction. A
  file pointer is an index into \<open>ftable.file\<close>; a pipe is named by the page that holds it. A call that
  goes to sleep, or whose log operation has to wait, is the stop \<open>Sleeps\<close>.
\<close>

section \<open>The file table\<close>

definition NFILE :: nat where "NFILE = 512"

definition O_ACCMODE :: u32 where "O_ACCMODE = 0x200003"
definition O_RDONLY :: u32 where "O_RDONLY = 0"
definition O_WRONLY :: u32 where "O_WRONLY = 1"
definition O_RDWR :: u32 where "O_RDWR = 2"
abbreviation O_CREAT :: u32 where "O_CREAT \<equiv> 0x40"
abbreviation O_EXCL :: u32 where "O_EXCL \<equiv> 0x80"
definition O_APPEND :: u32 where "O_APPEND = 0x400"
definition O_CLOEXEC :: u32 where "O_CLOEXEC = 0x80000"
abbreviation O_NONBLOCK :: u32 where "O_NONBLOCK \<equiv> 0x800"
abbreviation O_DIRECT :: u32 where "O_DIRECT \<equiv> 0x10000"
definition AT_REMOVEDIR :: u32 where "AT_REMOVEDIR = 0x200"
definition AT_EACCESS :: u32 where "AT_EACCESS = 0x200"

datatype fdtype = FD_NONE | FD_PIPE | FD_INODE

record kfile =
  f_type :: fdtype
  f_ref :: int
  f_pipe :: nat
  f_ip :: "nat option"
  f_off :: int
  f_flags :: u32
  f_readable :: bool
  f_writable :: bool

record filest = pgst +
  ftable :: "nat \<Rightarrow> kfile"
  pipes :: "nat \<Rightarrow> pipe"

definition f_upd :: "nat \<Rightarrow> (kfile \<Rightarrow> kfile) \<Rightarrow> 'a filest_scheme \<Rightarrow> 'a filest_scheme" where
  "f_upd f g s = s\<lparr>ftable := (ftable s)(f := g (ftable s f))\<rparr>"

definition FILE_READABLE :: "u32 \<Rightarrow> bool" where
  "FILE_READABLE flags = (flags AND O_ACCMODE = O_RDWR \<or> flags AND O_ACCMODE = O_RDONLY)"

definition FILE_WRITABLE :: "u32 \<Rightarrow> bool" where
  "FILE_WRITABLE flags = (flags AND O_ACCMODE = O_RDWR \<or> flags AND O_ACCMODE = O_WRONLY)"

definition filealloc :: "'a filest_scheme \<Rightarrow> nat option \<times> 'a filest_scheme" where
  "filealloc s =
     (case find (\<lambda>f. f_ref (ftable s f) = 0) [0..<NFILE] of
        None \<Rightarrow> (None, s)
      | Some f \<Rightarrow> (Some f, f_upd f (\<lambda>F. F\<lparr>f_ref := 1\<rparr>) s))"

definition filedup :: "nat \<Rightarrow> 'a filest_scheme \<Rightarrow> (nat \<times> 'a filest_scheme) kres" where
  "filedup f s =
     (if f_ref (ftable s f) < 1 then Inl (Panic ''filedup'')
      else Inr (f, f_upd f (\<lambda>F. F\<lparr>f_ref := f_ref F + 1\<rparr>) s))"

definition fdalloc :: "nat \<Rightarrow> nat \<Rightarrow> 'a filest_scheme \<Rightarrow> int \<times> 'a filest_scheme" where
  "fdalloc f from s =
     (case find (\<lambda>fd. p_ofile (this s) fd = None) [from..<NOFILE] of
        None \<Rightarrow> (- EBADF, s)
      | Some fd \<Rightarrow> (int fd, s\<lparr>this := (this s)\<lparr>p_ofile := (p_ofile (this s))(fd := Some f)\<rparr>\<rparr>))"

definition fileclose :: "nat \<Rightarrow> 'a filest_scheme \<Rightarrow> 'a filest_scheme kres" where
  "fileclose f s =
     (if f_ref (ftable s f) < 1 then Inl (Panic ''fileclose'')
      else
        let s = f_upd f (\<lambda>F. F\<lparr>f_ref := f_ref F - 1\<rparr>) s in
        if f_ref (ftable s f) > 0 then Inr s
        else
          let ff = ftable s f; s = f_upd f (\<lambda>F. F\<lparr>f_ref := 0, f_type := FD_NONE\<rparr>) s in
          case f_type ff of
            FD_PIPE \<Rightarrow> Inr (s\<lparr>pipes := (pipes s)(f_pipe ff := fst (pipeclose (pipes s (f_pipe ff)) (f_writable ff)))\<rparr>)
          | FD_INODE \<Rightarrow>
              (case f_ip ff of
                 None \<Rightarrow> Inl (Fault ''fileclose'')
               | Some ip \<Rightarrow> kbind (begin_op s) (\<lambda>s. kbind (iput ip s) end_op))
          | FD_NONE \<Rightarrow> Inr s)"

text \<open>\<open>pipealloc\<close>: the first argument is the page that \<open>kalloc\<close> returned, if any.\<close>

definition PIPE2_FLAGS :: u32 where "PIPE2_FLAGS = O_CLOEXEC OR O_NONBLOCK OR O_DIRECT"

definition close_all :: "nat option list \<Rightarrow> 'a filest_scheme \<Rightarrow> 'a filest_scheme kres" where
  "close_all fs s = kfold (\<lambda>q s. case q of None \<Rightarrow> Inr s | Some f \<Rightarrow> fileclose f s) fs s"

definition pipealloc ::
  "nat option \<Rightarrow> u32 \<Rightarrow> 'a filest_scheme \<Rightarrow> (int \<times> nat option \<times> nat option \<times> 'a filest_scheme) kres" where
  "pipealloc page flags s =
     (case filealloc s of (q0, s) \<Rightarrow>
      case (case q0 of None \<Rightarrow> (None, s) | Some _ \<Rightarrow> filealloc s) of (q1, s) \<Rightarrow>
      case (q0, q1, page) of
        (Some f0, Some f1, Some pi) \<Rightarrow>
          let s = s\<lparr>pipes := (pipes s)(pi := (pipes s pi)\<lparr>readopen := True, writeopen := True, nwrite := 0, nread := 0\<rparr>)\<rparr>;
              s = f_upd f0 (\<lambda>F. F\<lparr>f_type := FD_PIPE, f_readable := True, f_writable := False, f_pipe := pi,
                    f_flags := O_RDONLY OR (flags AND PIPE2_FLAGS), f_off := 0\<rparr>) s;
              s = f_upd f1 (\<lambda>F. F\<lparr>f_type := FD_PIPE, f_readable := False, f_writable := True, f_pipe := pi,
                    f_flags := O_WRONLY OR O_APPEND OR (flags AND PIPE2_FLAGS), f_off := 0\<rparr>) s
          in Inr (0, Some f0, Some f1, s)
      | _ \<Rightarrow> kbind (close_all [q0, q1] s) (\<lambda>s. Inr (- 1, q0, q1, s)))"

section \<open>Opening\<close>

text \<open>The end of a call: the transaction is closed and the call returns.\<close>

definition op_return :: "int \<Rightarrow> 'a filest_scheme \<Rightarrow> (int \<times> 'a filest_scheme) kres" where
  "op_return e s = kbind (end_op s) (\<lambda>s. Inr (e, s))"

definition put_return :: "nat \<Rightarrow> int \<Rightarrow> 'a filest_scheme \<Rightarrow> (int \<times> 'a filest_scheme) kres" where
  "put_return ip e s = kbind (iunlockput ip s) (op_return e)"

text \<open>
  The loop of \<open>fileopen\<close> that follows symbolic links, without a limit: the value is \<open>None\<close> when it
  never ends. It returns an error number, the transaction closed, or the locked inode.
\<close>

partial_function (option) open_follow ::
  "u8 list \<Rightarrow> u32 \<Rightarrow> 'a filest_scheme \<Rightarrow> ((int + nat) \<times> 'a filest_scheme) kres option" where
  "open_follow pth flags s =
     (case namei pth s of
        Inl e \<Rightarrow> Some (Inl e)
      | Inr (q, s) \<Rightarrow>
          (case q of
             None \<Rightarrow> Some (kbind (op_return (- ENOENT) s) (\<lambda>(e, s). Inr (Inl e, s)))
           | Some ip \<Rightarrow>
               (case v6_ilock ip s of
                  Inl e \<Rightarrow> Some (Inl e)
                | Inr s \<Rightarrow>
                    if i_type (icache s ip) = T_DIR \<and> flags AND O_ACCMODE \<noteq> 0 then
                      Some (kbind (put_return ip (- EINVAL) s) (\<lambda>(e, s). Inr (Inl e, s)))
                    else if i_type (icache s ip) = T_SYMLINK then
                      (case v6_readi ip 0 511 s of
                         Inl e \<Rightarrow> Some (Inl e)
                       | Inr (n, out, s) \<Rightarrow>
                           if n \<le> 0 then Some (kbind (put_return ip (- ENOENT) s) (\<lambda>(e, s). Inr (Inl e, s)))
                           else (case iunlockput ip s of
                                   Inl e \<Rightarrow> Some (Inl e)
                                 | Inr s \<Rightarrow> open_follow (takeWhile (\<lambda>c. c \<noteq> 0) out) flags s))
                    else Some (Inr (Inr ip, s)))))"

abbreviation S_IFREG :: u32 where "S_IFREG \<equiv> 0x8000"

text \<open>
  The branch of \<open>fileopen\<close> for \<open>O_CREAT\<close>. The result of \<open>create\<close> is compared with 0, which it never
  is; an error number in its place is used as an inode pointer, and the access faults.
\<close>

definition open_create :: "u8 list \<Rightarrow> u32 \<Rightarrow> u32 \<Rightarrow> 'a filest_scheme \<Rightarrow> ((int + nat) \<times> 'a filest_scheme) kres" where
  "open_create pth flags mode s =
     kbind (namei pth s) (\<lambda>(q, s).
     case q of
       Some ip \<Rightarrow>
         if flags AND O_EXCL \<noteq> 0 then
           kbind (iput ip s) (\<lambda>s. kbind (op_return (- EEXIST) s) (\<lambda>(e, s). Inr (Inl e, s)))
         else kbind (v6_ilock ip s) (\<lambda>s. Inr (Inr ip, s))
     | None \<Rightarrow>
         kbind (create pth T_FILE 0 0 (mode OR S_IFREG) s) (\<lambda>(p, s).
         case p of IErr e \<Rightarrow> Inl (Fault ''fileopen: ip'') | IPtr ip \<Rightarrow> Inr (Inr ip, s)))"

text \<open>The rest of \<open>fileopen\<close>, with the inode locked inside the transaction.\<close>

definition open_file :: "nat \<Rightarrow> u32 \<Rightarrow> 'a filest_scheme \<Rightarrow> (int \<times> 'a filest_scheme) kres" where
  "open_file ip flags s =
     (let r = FILE_READABLE flags; w = FILE_WRITABLE flags in
      if r \<and> generic_permission (this s) (icache s ip) MAY_READ < 0 \<or>
         w \<and> generic_permission (this s) (icache s ip) MAY_WRITE < 0 then put_return ip (- EACCES) s
      else
        case filealloc s of (qf, s) \<Rightarrow>
        case (case qf of None \<Rightarrow> (- 1, s) | Some f \<Rightarrow> fdalloc f 0 s) of (fd, s) \<Rightarrow>
        if fd < 0 then
          kbind (generic_iunlock (Some ip) s) (\<lambda>s.
          kbind (end_op s) (\<lambda>s.
          kbind (close_all [qf] s) (\<lambda>s. Inr (- ENOSPC, s))))
        else
          kbind (generic_iunlock (Some ip) s) (\<lambda>s.
          kbind (end_op s) (\<lambda>s.
          let s = f_upd (the qf) (\<lambda>F. F\<lparr>f_type := FD_INODE, f_ip := Some ip,
                    f_off := (if flags AND O_APPEND \<noteq> 0 then uint (i_size (icache s ip)) else 0),
                    f_flags := flags, f_readable := r, f_writable := w\<rparr>) s
          in Inr (fd, if flags AND O_CLOEXEC \<noteq> 0
                      then s\<lparr>this := (this s)\<lparr>p_fdflag := p_fdflag (this s) OR push_bit (nat fd) 1\<rparr>\<rparr> else s))))"

definition fileopen :: "u8 list \<Rightarrow> u32 \<Rightarrow> u32 \<Rightarrow> 'a filest_scheme \<Rightarrow> (int \<times> 'a filest_scheme) kres option" where
  "fileopen pth flags mode s =
     (case begin_op s of
        Inl e \<Rightarrow> Some (Inl e)
      | Inr s \<Rightarrow>
          (case (if flags AND O_CREAT \<noteq> 0 then Some (open_create pth flags mode s) else open_follow pth flags s) of
             None \<Rightarrow> None
           | Some r \<Rightarrow>
               Some (kbind r (\<lambda>(q, s). case q of Inl e \<Rightarrow> Inr (e, s) | Inr ip \<Rightarrow> open_file ip flags s))))"

section \<open>Reading, writing and seeking\<close>

abbreviation S_IFCHR :: u32 where "S_IFCHR \<equiv> 0x2000"
abbreviation S_IRUSR :: u32 where "S_IRUSR \<equiv> 256"
abbreviation S_IWUSR :: u32 where "S_IWUSR \<equiv> 128"

definition stat0 :: stat where
  "stat0 = \<lparr>st_dev = 0, st_ino = 0, st_mode = 0, st_nlink = 0, st_uid = 0, st_gid = 0, st_rdev = 0, st_size = 0,
     st_blksize = 0, st_blocks = 0, st_atime = \<lparr>tv_sec = 0, tv_nsec = 0\<rparr>, st_mtime = \<lparr>tv_sec = 0, tv_nsec = 0\<rparr>,
     st_ctime = \<lparr>tv_sec = 0, tv_nsec = 0\<rparr>\<rparr>"

definition filestat :: "nat \<Rightarrow> stat \<Rightarrow> 'a filest_scheme \<Rightarrow> (int \<times> stat \<times> 'a filest_scheme) kres" where
  "filestat f st s =
     (case f_type (ftable s f) of
        FD_INODE \<Rightarrow>
          (case f_ip (ftable s f) of
             None \<Rightarrow> Inl (Fault ''filestat'')
           | Some ip \<Rightarrow>
               kbind (v6_ilock ip s) (\<lambda>s.
               kbind (generic_stati ip st s) (\<lambda>st.
               kbind (generic_iunlock (Some ip) s) (\<lambda>s. Inr (0, st, s)))))
      | FD_PIPE \<Rightarrow>
          Inr (0, stat0\<lparr>st_mode := S_IFCHR OR S_IRUSR OR S_IWUSR, st_nlink := 1, st_blksize := 4096\<rparr>, s)
      | FD_NONE \<Rightarrow> Inr (- EFAULT, st, s))"

definition fileread :: "nat \<Rightarrow> int \<Rightarrow> 'a filest_scheme \<Rightarrow> (int \<times> u8 list \<times> 'a filest_scheme) kres" where
  "fileread f n s =
     (let F = ftable s f in
      if \<not> f_readable F then Inr (- EBADF, [], s)
      else case f_type F of
        FD_PIPE \<Rightarrow>
          (case piperead (pipes s (f_pipe F)) (p_killed (this s)) n of
             (pi, out, _, Returned r) \<Rightarrow> Inr (r, out, s\<lparr>pipes := (pipes s)(f_pipe F := pi)\<rparr>)
           | (_, _, _, Asleep _) \<Rightarrow> Inl (Sleeps ''piperead''))
      | FD_INODE \<Rightarrow>
          (case f_ip F of
             None \<Rightarrow> Inl (Fault ''fileread'')
           | Some ip \<Rightarrow>
               kbind (begin_op s) (\<lambda>s.
               kbind (v6_ilock ip s) (\<lambda>s.
               kbind (v6_readi ip (word_of_int (f_off F)) (word_of_int n) s) (\<lambda>(r, out, s).
               let s = (if r > 0 then f_upd f (\<lambda>F. F\<lparr>f_off := f_off F + r\<rparr>) s else s);
                   s = i_upd ip (\<lambda>I. I\<lparr>i_atime := xtime s\<rparr>) s
               in kbind (generic_iunlock (Some ip) s) (\<lambda>s.
                  kbind (end_op s) (\<lambda>s. Inr (r, out, s)))))))
      | FD_NONE \<Rightarrow> Inl (Panic ''fileread''))"

text \<open>One round of the loop of \<open>filewrite\<close>: at most 9216 bytes in one transaction.\<close>

definition write_max :: nat where "write_max = ((42 - 1 - 2 - 2) div 2) * 512"

definition filewrite_round :: "nat \<Rightarrow> nat \<Rightarrow> u8 list \<Rightarrow> 'a filest_scheme \<Rightarrow> (int \<times> 'a filest_scheme) kres" where
  "filewrite_round f ip src s =
     kbind (begin_op s) (\<lambda>s.
     kbind (v6_ilock ip s) (\<lambda>s.
     kbind (v6_writei ip src (word_of_int (f_off (ftable s f))) s) (\<lambda>(r, s).
     kbind (if r > 0 \<and> i_type (icache s ip) = T_FILE then
              kbind (update_page (f_off (ftable s f)) (i_inum (icache s ip)) (i_dev (icache s ip)) (take (nat r) src) s)
                (\<lambda>s. Inr (f_upd f (\<lambda>F. F\<lparr>f_off := f_off F + r\<rparr>) s))
            else Inr s) (\<lambda>s.
     kbind (generic_iunlock (Some ip) (i_upd ip (\<lambda>I. I\<lparr>i_mtime := xtime s, i_atime := xtime s\<rparr>) s)) (\<lambda>s.
     kbind (end_op s) (\<lambda>s. Inr (r, s)))))))"

function filewrite_loop :: "nat \<Rightarrow> nat \<Rightarrow> u8 list \<Rightarrow> nat \<Rightarrow> 'a filest_scheme \<Rightarrow> (int \<times> 'a filest_scheme) kres" where
  "filewrite_loop f ip src n s =
     (if src = [] then Inr (int n, s)
      else
        let chunk = take write_max src in
        kbind (filewrite_round f ip chunk s) (\<lambda>(r, s).
        if r < 0 then Inr (- 1, s)
        else if r \<noteq> int (length chunk) then Inl (Panic ''short filewrite'')
        else filewrite_loop f ip (drop write_max src) n s))"
  by pat_completeness auto

termination
  by (relation "measure (\<lambda>(f, ip, src, n, s). length src)") (auto simp: write_max_def)

declare filewrite_loop.simps [simp del]

definition filewrite :: "nat \<Rightarrow> u8 list \<Rightarrow> 'a filest_scheme \<Rightarrow> (int \<times> 'a filest_scheme) kres" where
  "filewrite f src s =
     (let F = ftable s f in
      if \<not> f_writable F then Inr (- EBADF, s)
      else case f_type F of
        FD_PIPE \<Rightarrow>
          (case pipewrite (pipes s (f_pipe F)) (p_killed (this s)) (list_bytes src) (int (length src)) 0 of
             (pi, _, Returned r) \<Rightarrow> Inr (r, s\<lparr>pipes := (pipes s)(f_pipe F := pi)\<rparr>)
           | (_, _, Asleep _) \<Rightarrow> Inl (Sleeps ''pipewrite''))
      | FD_INODE \<Rightarrow>
          (case f_ip F of
             None \<Rightarrow> Inl (Fault ''filewrite'')
           | Some ip \<Rightarrow> filewrite_loop f ip src (length src) s)
      | FD_NONE \<Rightarrow> Inl (Panic ''filewrite''))"

definition SEEK_SET :: int where "SEEK_SET = 0"
definition SEEK_CUR :: int where "SEEK_CUR = 1"
definition SEEK_END :: int where "SEEK_END = 2"

definition seek_to :: "nat \<Rightarrow> int \<Rightarrow> 'a filest_scheme \<Rightarrow> (int \<times> 'a filest_scheme) kres" where
  "seek_to f off s = (if off < 0 then Inr (- EINVAL, s) else Inr (off, f_upd f (\<lambda>F. F\<lparr>f_off := off\<rparr>) s))"

definition filelseek :: "nat option \<Rightarrow> int \<Rightarrow> int \<Rightarrow> 'a filest_scheme \<Rightarrow> (int \<times> 'a filest_scheme) kres" where
  "filelseek q offset whence s =
     (case q of
        None \<Rightarrow> Inr (- EBADF, s)
      | Some f \<Rightarrow>
          if whence = SEEK_SET then seek_to f offset s
          else if whence = SEEK_CUR then seek_to f (f_off (ftable s f) + offset) s
          else if whence = SEEK_END then
            (case f_ip (ftable s f) of
               None \<Rightarrow> Inl (Fault ''filelseek'')
             | Some ip \<Rightarrow> seek_to f (uint (i_size (icache s ip)) + offset) s)
          else Inr (- EINVAL, s))"

definition filepread64 :: "nat \<Rightarrow> int \<Rightarrow> int \<Rightarrow> 'a filest_scheme \<Rightarrow> (int \<times> u8 list \<times> 'a filest_scheme) kres" where
  "filepread64 f count offset s =
     kbind (filelseek (Some f) 0 SEEK_CUR s) (\<lambda>(old, s).
     if old < 0 then Inr (old, [], s)
     else
       kbind (filelseek (Some f) offset SEEK_SET s) (\<lambda>(e, s).
       if e < 0 then Inr (e, [], s)
       else
         kbind (fileread f count s) (\<lambda>(n, out, s).
         kbind (filelseek (Some f) old SEEK_SET s) (\<lambda>(e, s).
         if e < 0 then Inr (e, out, s) else Inr (n, out, s)))))"

section \<open>Links\<close>

text \<open>The label \<open>bad\<close> of \<open>filelink\<close>: the link count goes back.\<close>

definition link_undo :: "nat \<Rightarrow> int \<Rightarrow> 'a filest_scheme \<Rightarrow> (int \<times> 'a filest_scheme) kres" where
  "link_undo ip e s =
     kbind (v6_ilock ip s) (\<lambda>s.
     kbind (v6_iupdate ip (i_upd ip (\<lambda>I. I\<lparr>i_nlink := i_nlink I - 1\<rparr>) s)) (\<lambda>s.
     put_return ip e s))"

definition filelink :: "u8 list \<Rightarrow> u8 list \<Rightarrow> 'a filest_scheme \<Rightarrow> (int \<times> 'a filest_scheme) kres" where
  "filelink old new s =
     kbind (begin_op s) (\<lambda>s.
     kbind (namei old s) (\<lambda>(q, s).
     case q of None \<Rightarrow> op_return (- ENOENT) s
     | Some ip \<Rightarrow>
         kbind (v6_ilock ip s) (\<lambda>s.
         if i_type (icache s ip) = T_DIR then put_return ip (- EPERM) s
         else
           kbind (v6_iupdate ip (i_upd ip (\<lambda>I. I\<lparr>i_nlink := i_nlink I + 1\<rparr>) s)) (\<lambda>s.
           kbind (generic_iunlock (Some ip) s) (\<lambda>s.
           kbind (nameiparent new s) (\<lambda>(q, name, s).
           case q of None \<Rightarrow> link_undo ip (- ENOENT) s
           | Some dp \<Rightarrow>
               kbind (v6_ilock dp s) (\<lambda>s.
               if i_dev (icache s dp) \<noteq> i_dev (icache s ip) then kbind (iunlockput dp s) (link_undo ip (- EXDEV))
               else
                 kbind (generic_dirlink dp name (i_inum (icache s ip)) (i_type (icache s ip)) s) (\<lambda>(e, s).
                 if e \<noteq> 0 then kbind (iunlockput dp s) (link_undo ip e)
                 else kbind (iunlockput dp s) (\<lambda>s. kbind (iput ip s) (op_return 0))))))))))"

abbreviation S_IFLNK :: u32 where "S_IFLNK \<equiv> 0xA000"

definition filesymlink :: "u8 list \<Rightarrow> u8 list \<Rightarrow> 'a filest_scheme \<Rightarrow> (int \<times> 'a filest_scheme) kres" where
  "filesymlink old new s =
     kbind (begin_op s) (\<lambda>s.
     kbind (nameiparent new s) (\<lambda>(q, name, s).
     case q of None \<Rightarrow> op_return (- ENOENT) s
     | Some dp \<Rightarrow>
         kbind (v6_ilock dp s) (\<lambda>s.
         kbind (v6_ialloc (i_dev (icache s dp)) T_SYMLINK s) (\<lambda>(ip, s).
         kbind (v6_ilock ip s) (\<lambda>s.
         kbind (v6_iupdate ip (i_upd ip (\<lambda>I. I\<lparr>i_major := 0, i_minor := 0, i_nlink := 1, i_mode := S_IFLNK OR 511,
                  i_type := T_SYMLINK, i_atime := xtime s, i_mtime := xtime s, i_ctime := xtime s\<rparr>) s)) (\<lambda>s.
         kbind (generic_dirlink dp name (i_inum (icache s ip)) (i_type (icache s ip)) s) (\<lambda>(e, s).
         if e \<noteq> 0 then kbind (iunlockput dp s) (put_return ip e)
         else
           kbind (v6_iupdate dp s) (\<lambda>s.
           kbind (iunlockput dp s) (\<lambda>s.
           kbind (v6_writei ip old 0 s) (\<lambda>(_, s).
           kbind (v6_iupdate ip s) (put_return ip 0)))))))))))"

definition filereadlink :: "u8 list \<Rightarrow> u64 \<Rightarrow> 'a filest_scheme \<Rightarrow> (int \<times> u8 list \<times> 'a filest_scheme) kres" where
  "filereadlink pth bufsize s =
     kbind (begin_op s) (\<lambda>s.
     kbind (nameiparent pth s) (\<lambda>(q, _, s).
     case q of None \<Rightarrow> kbind (op_return (- ENOTDIR) s) (\<lambda>(e, s). Inr (e, [], s))
     | Some dp \<Rightarrow>
         kbind (iput dp s) (\<lambda>s.
         kbind (namei pth s) (\<lambda>(q, s).
         case q of None \<Rightarrow> kbind (op_return (- ENOENT) s) (\<lambda>(e, s). Inr (e, [], s))
         | Some ip \<Rightarrow>
             kbind (v6_ilock ip s) (\<lambda>s.
             if i_type (icache s ip) \<noteq> T_SYMLINK then kbind (put_return ip (- EINVAL) s) (\<lambda>(e, s). Inr (e, [], s))
             else
               kbind (v6_readi ip 0 bufsize s) (\<lambda>(n, out, s).
               kbind (put_return ip (if n \<le> 0 then - EIO else n) s) (\<lambda>(e, s). Inr (e, out, s))))))))"

text \<open>
  \<open>fileunlink\<close>. An inode without links makes it return at once, with both inodes locked and the
  transaction open.
\<close>

definition unlink_bad :: "nat \<Rightarrow> nat \<Rightarrow> int \<Rightarrow> 'a filest_scheme \<Rightarrow> (int \<times> 'a filest_scheme) kres" where
  "unlink_bad dp ip e s = kbind (iunlockput ip s) (put_return dp e)"

definition unlink_check :: "nat \<Rightarrow> u32 \<Rightarrow> 'a filest_scheme \<Rightarrow> (int \<times> 'a filest_scheme) kres" where
  "unlink_check ip flags s =
     (if flags AND AT_REMOVEDIR \<noteq> 0 then
        if i_type (icache s ip) \<noteq> T_DIR then Inr (- ENOTDIR, s)
        else kbind (v6_isdirempty ip s) (\<lambda>(b, s). Inr (if b then 0 else - EPERM, s))
      else Inr (if i_type (icache s ip) = T_DIR then - EISDIR else 0, s))"

definition unlink_entry :: "nat \<Rightarrow> nat \<Rightarrow> int \<Rightarrow> 'a filest_scheme \<Rightarrow> (int \<times> 'a filest_scheme) kres" where
  "unlink_entry dp ip off s =
     kbind (v6_unlink dp (word_of_int off) s) (\<lambda>(e, s).
     if e < 0 then unlink_bad dp ip (- EIO) s
     else
       kbind (if i_type (icache s ip) = T_DIR then v6_iupdate dp (i_upd dp (\<lambda>I. I\<lparr>i_nlink := i_nlink I - 1\<rparr>) s)
              else Inr s) (\<lambda>s.
       kbind (iunlockput dp s) (\<lambda>s.
       kbind (v6_iupdate ip (i_upd ip (\<lambda>I. I\<lparr>i_nlink := i_nlink I - 1\<rparr>) s)) (put_return ip 0))))"

definition fileunlink :: "u8 list \<Rightarrow> u32 \<Rightarrow> 'a filest_scheme \<Rightarrow> (int \<times> 'a filest_scheme) kres" where
  "fileunlink pth flags s =
     kbind (begin_op s) (\<lambda>s.
     kbind (nameiparent pth s) (\<lambda>(q, name, s).
     case q of None \<Rightarrow> op_return (- ENOENT) s
     | Some dp \<Rightarrow>
         kbind (v6_ilock dp s) (\<lambda>s.
         if v6_namecmp name (list_bytes [46]) = 0 \<or> v6_namecmp name (list_bytes [46, 46]) = 0 then
           put_return dp (- EPERM) s
         else
           kbind (v6_dirlookup dp name s) (\<lambda>(q, off, s).
           case q of None \<Rightarrow> put_return dp (- ENOENT) s
           | Some ip \<Rightarrow>
               kbind (v6_ilock ip s) (\<lambda>s.
               if i_nlink (icache s ip) < 1 then Inr (- EPERM, s)
               else
                 kbind (unlink_check ip flags s) (\<lambda>(e, s).
                 if e < 0 then unlink_bad dp ip e s else unlink_entry dp ip off s))))))"

section \<open>Attributes\<close>

abbreviation UTIME_NOW :: u64 where "UTIME_NOW \<equiv> 0x3fffffff"
abbreviation UTIME_OMIT :: u64 where "UTIME_OMIT \<equiv> 0x3ffffffe"
abbreviation S_IFMT :: u32 where "S_IFMT \<equiv> 0xF000"
abbreviation S_ISUID :: u32 where "S_ISUID \<equiv> 0x800"
abbreviation S_ISGID :: u32 where "S_ISGID \<equiv> 0x400"

definition new_time :: "timespec \<Rightarrow> timespec \<Rightarrow> timespec \<Rightarrow> timespec" where
  "new_time t now old = (if tv_nsec t = UTIME_NOW then now else if tv_nsec t = UTIME_OMIT then old else t)"

definition utimensat :: "u8 list \<Rightarrow> (timespec \<times> timespec) option \<Rightarrow> 'a filest_scheme \<Rightarrow> (int \<times> 'a filest_scheme) kres" where
  "utimensat pth tms s =
     kbind (begin_op s) (\<lambda>s.
     kbind (nameiparent pth s) (\<lambda>(q, name, s).
     case q of None \<Rightarrow> op_return (- ENOENT) s
     | Some dp \<Rightarrow>
         kbind (v6_ilock dp s) (\<lambda>s.
         kbind (v6_dirlookup dp name s) (\<lambda>(q, _, s).
         case q of None \<Rightarrow> put_return dp (- ENOENT) s
         | Some ip \<Rightarrow>
             kbind (iunlockput dp s) (\<lambda>s.
             kbind (v6_ilock ip s) (\<lambda>s.
             let s = i_upd ip (\<lambda>I. case tms of
                       None \<Rightarrow> I\<lparr>i_atime := xtime s, i_mtime := xtime s\<rparr>
                     | Some (t0, t1) \<Rightarrow> I\<lparr>i_atime := new_time t0 (xtime s) (i_atime I),
                         i_mtime := new_time t1 (xtime s) (i_mtime I)\<rparr>) s
             in kbind (v6_iupdate ip s) (put_return ip 0)))))))"

definition filechmod :: "u8 list \<Rightarrow> u32 \<Rightarrow> 'a filest_scheme \<Rightarrow> (int \<times> 'a filest_scheme) kres" where
  "filechmod pth mode s =
     kbind (begin_op s) (\<lambda>s.
     kbind (namei pth s) (\<lambda>(q, s).
     case q of None \<Rightarrow> op_return (- ENOENT) s
     | Some ip \<Rightarrow>
         kbind (v6_ilock ip s) (\<lambda>s.
         kbind (v6_iupdate ip (i_upd ip (\<lambda>I. I\<lparr>i_mode := i_mode I AND S_IFMT OR mode\<rparr>) s)) (put_return ip 0))))"

text \<open>The change of the owner, of the group and of the set-id bits by \<open>filechown\<close>; the flag says that it went through.\<close>

definition chown_inode :: "proc \<Rightarrow> u32 \<Rightarrow> u32 \<Rightarrow> inode \<Rightarrow> bool \<times> inode" where
  "chown_inode p owner grp I =
     (if owner \<noteq> - 1 \<and> \<not> capable p CAP_CHOWN then (False, I)
      else
        let I = (if owner \<noteq> - 1 then I\<lparr>i_uid := owner\<rparr> else I) in
        if grp \<noteq> - 1 \<and> \<not> capable p CAP_CHOWN \<and>
           (i_uid I \<noteq> p_euid p \<or> \<not> list_ex (\<lambda>i. p_groups p i = grp) [0..<nat (p_ngroups p)]) then (False, I)
        else
          let I = (if grp \<noteq> - 1 then I\<lparr>i_gid := grp\<rparr> else I)
          in (True, if i_mode I AND S_IXUGO \<noteq> 0 \<and> \<not> capable p CAP_CHOWN
                    then I\<lparr>i_mode := i_mode I AND NOT (S_ISUID OR S_ISGID)\<rparr> else I))"

definition filechown :: "nat option \<Rightarrow> u8 list \<Rightarrow> u32 \<Rightarrow> u32 \<Rightarrow> 'a filest_scheme \<Rightarrow> (int \<times> 'a filest_scheme) kres" where
  "filechown f pth owner grp s =
     kbind (begin_op s) (\<lambda>s.
     kbind (case f of
              Some f \<Rightarrow> (case f_ip (ftable s f) of None \<Rightarrow> Inl (Fault ''filechown'') | Some ip \<Rightarrow> Inr (Some ip, s))
            | None \<Rightarrow> namei pth s) (\<lambda>(q, s).
     case q of None \<Rightarrow> op_return (- ENOENT) s
     | Some ip \<Rightarrow>
         kbind (v6_ilock ip s) (\<lambda>s.
         case chown_inode (this s) owner grp (icache s ip) of (done, I) \<Rightarrow>
           let s = i_upd ip (\<lambda>_. I) s in
           if done then kbind (v6_iupdate ip s) (put_return ip 0) else put_return ip (- EPERM) s)))"

abbreviation R_OK :: u32 where "R_OK \<equiv> 4"
abbreviation W_OK :: u32 where "W_OK \<equiv> 2"
definition X_OK :: u32 where "X_OK = 1"

text \<open>
  The decision of \<open>faccess\<close> on the mode, owner and grp it read. Each class of permission is refused
  only if the owner's, the grp's and the others' test all refuse it, as the conjunctions of the
  code have it.
\<close>

definition access_denied :: "u32 \<Rightarrow> u32 \<Rightarrow> u32 \<Rightarrow> u32 \<Rightarrow> u32 \<Rightarrow> u32 \<Rightarrow> u32 \<Rightarrow> u32 \<Rightarrow> bool" where
  "access_denied uid gid fuid fgid fmode u g oth =
     ((fuid = uid \<and> fmode AND u = 0) \<and> (fgid = gid \<and> fmode AND g = 0) \<and> fmode AND oth = 0)"

definition access_mode :: "proc \<Rightarrow> u32 \<Rightarrow> u32 \<Rightarrow> inode \<Rightarrow> int" where
  "access_mode p mode flags I =
     (if mode = 0 then 0
      else if p_uid p = 0 then
        if mode AND X_OK \<noteq> 0 \<and> i_mode I AND S_IXUGO = 0 then - EACCES else 0
      else
        let uid = (if flags AND AT_EACCESS \<noteq> 0 then p_euid p else p_uid p);
            gid = (if flags AND AT_EACCESS \<noteq> 0 then p_egid p else p_gid p);
            denied = access_denied uid gid (i_uid I) (i_gid I) (i_mode I)
        in if mode AND R_OK \<noteq> 0 \<and> denied 256 32 4 then - EACCES
           else if mode AND W_OK \<noteq> 0 \<and> denied 128 16 2 then - EACCES
           else if mode AND X_OK \<noteq> 0 \<and> denied 64 1 1 then - EACCES
           else 0)"

definition faccess :: "u8 list \<Rightarrow> u32 \<Rightarrow> u32 \<Rightarrow> 'a filest_scheme \<Rightarrow> (int \<times> 'a filest_scheme) kres" where
  "faccess pth mode flags s =
     (if mode AND NOT 7 \<noteq> 0 then Inr (- EINVAL, s)
      else
        kbind (begin_op s) (\<lambda>s.
        kbind (namei pth s) (\<lambda>(q, s).
        case q of None \<Rightarrow> op_return (- ENOENT) s
        | Some ip \<Rightarrow>
            let I = icache s ip in
            kbind (iput ip s) (\<lambda>s.
            kbind (end_op s) (\<lambda>s. Inr (access_mode (this s) mode flags I, s))))))"

section \<open>Renaming\<close>

text \<open>
  \<open>rename\<close> and \<open>reinode\<close> leave their inodes locked when they fail. \<open>filerename\<close> returns without
  closing its transaction when both names are the same file, and calls \<open>fileunlink\<close> with its own
  transaction still open when the target exists in the same directory.
\<close>

definition rename :: "nat \<Rightarrow> bytes \<Rightarrow> bytes \<Rightarrow> 'a filest_scheme \<Rightarrow> (int \<times> 'a filest_scheme) kres" where
  "rename dp name1 name2 s =
     kbind (v6_ilock dp s) (\<lambda>s.
     kbind (v6_dirlookup dp name1 s) (\<lambda>(q, off, s).
     case q of None \<Rightarrow> Inr (- ENOENT, s)
     | Some ip \<Rightarrow>
         kbind (v6_ilock ip s) (\<lambda>s.
         kbind (v6_writei dp (dirent_list \<lparr>de_inum = i_inum (icache s ip), de_type = i_type (icache s ip),
                  de_name = clip DIRSIZ name2\<rparr>) (word_of_int off) s) (\<lambda>(r, s).
         if r \<noteq> 64 then Inr (- ENOSPC, s)
         else
           kbind (v6_iupdate dp s) (\<lambda>s.
           kbind (v6_iupdate ip (i_upd ip (\<lambda>I. I\<lparr>i_ctime := xtime s\<rparr>) s)) (\<lambda>s.
           kbind (iunlockput ip s) (\<lambda>s.
           kbind (iunlockput dp s) (\<lambda>s. Inr (0, s)))))))))"

definition reinode :: "nat \<Rightarrow> nat \<Rightarrow> nat \<Rightarrow> 'a filest_scheme \<Rightarrow> (int \<times> 'a filest_scheme) kres" where
  "reinode dp old_ip new_ip s =
     kbind (v6_ilock dp s) (\<lambda>s.
     kbind (v6_ilock old_ip s) (\<lambda>s.
     kbind (v6_ilock new_ip s) (\<lambda>s.
     kbind (v6_direntlookup dp (i_inum (icache s old_ip)) s) (\<lambda>(q, s).
     case q of None \<Rightarrow> Inr (- ENOENT, s)
     | Some (de, off) \<Rightarrow>
         kbind (v6_writei dp (dirent_list (de\<lparr>de_inum := i_inum (icache s new_ip)\<rparr>)) (of_nat off) s) (\<lambda>(r, s).
         if r \<noteq> 64 then Inr (- ENOSPC, s)
         else
           kbind (v6_iupdate dp s) (\<lambda>s.
           let s = i_upd new_ip (\<lambda>I. I\<lparr>i_ctime := xtime s\<rparr>) s; s = i_upd old_ip (\<lambda>I. I\<lparr>i_ctime := xtime s\<rparr>) s in
           kbind (v6_iupdate old_ip s) (\<lambda>s.
           kbind (v6_iupdate new_ip s) (\<lambda>s.
           kbind (iunlockput old_ip s) (\<lambda>s.
           kbind (iunlockput new_ip s) (\<lambda>s.
           kbind (iunlockput dp s) (\<lambda>s. Inr (0, s))))))))))))"

definition unlink_flags :: "nat \<Rightarrow> 'a filest_scheme \<Rightarrow> u32" where
  "unlink_flags ip s = (if i_type (icache s ip) = T_DIR then AT_REMOVEDIR else 0)"

definition filerename :: "u8 list \<Rightarrow> u8 list \<Rightarrow> 'a filest_scheme \<Rightarrow> (int \<times> 'a filest_scheme) kres" where
  "filerename pth1 pth2 s =
     kbind (begin_op s) (\<lambda>s.
     kbind (namei pth1 s) (\<lambda>(ip1, s).
     case ip1 of None \<Rightarrow> op_return (- ENOENT) s
     | Some i1 \<Rightarrow>
         kbind (nameiparent pth1 s) (\<lambda>(dp1, name1, s).
         kbind (namei pth2 s) (\<lambda>(ip2, s).
         kbind (nameiparent pth2 s) (\<lambda>(dp2, name2, s).
         if ip1 = ip2 then Inr (0, s)
         else case dp2 of None \<Rightarrow> Inl (Fault ''filerename: dp2'')
         | Some d2 \<Rightarrow>
             if dp1 = dp2 then
               (case ip2 of
                  None \<Rightarrow> kbind (rename d2 name1 name2 s) (\<lambda>(e, s). op_return (if e < 0 then e else 0) s)
                | Some i2 \<Rightarrow>
                    kbind (reinode d2 i2 i1 s) (\<lambda>(e, s).
                    if e < 0 then op_return e s else fileunlink pth2 (unlink_flags i2 s) s))
             else
               (case ip2 of
                  None \<Rightarrow>
                    kbind (generic_dirlink d2 name2 (i_inum (icache s i1)) (i_type (icache s i1)) s) (\<lambda>(e, s).
                    if e < 0 then op_return e s
                    else kbind (end_op s) (\<lambda>s. fileunlink pth1 (unlink_flags i1 s) s))
                | Some i2 \<Rightarrow>
                    kbind (reinode d2 i2 i1 s) (\<lambda>(e, s).
                    if e < 0 then op_return e s
                    else kbind (end_op s) (\<lambda>s. fileunlink pth2 (unlink_flags i2 s) s))))))))"

section \<open>Mounting\<close>

text \<open>
  \<open>mount\<close>: the mount operation of a file system other than v6 is an argument. An unknown file system
  type makes it return with the transaction open and both inodes still referenced.
\<close>

definition mount_bad :: "nat \<Rightarrow> nat \<Rightarrow> int \<Rightarrow> 'a filest_scheme \<Rightarrow> (int \<times> 'a filest_scheme) kres" where
  "mount_bad devi ip e s = kbind (iunlockput devi s) (put_return ip e)"

definition mount_ok ::
  "(nat \<Rightarrow> nat \<Rightarrow> 'a filest_scheme \<Rightarrow> (int \<times> 'a filest_scheme) kres) \<Rightarrow> filesystem_type \<Rightarrow> nat \<Rightarrow> nat \<Rightarrow>
   'a filest_scheme \<Rightarrow> (int \<times> 'a filest_scheme) kres" where
  "mount_ok other_mount t devi ip s =
     (case putvfsonlist (uint (i_major (icache s devi))) (uint (i_minor (icache s devi))) t s of (r, s) \<Rightarrow>
      if r = - 1 then mount_bad devi ip (- ENOTBLK) s
      else
        kbind (case t of V6FS \<Rightarrow> v6_mount devi ip s | _ \<Rightarrow> other_mount devi ip s) (\<lambda>(r, s).
        if r \<noteq> 0 then mount_bad devi ip (- ENOTBLK) s
        else
          kbind (generic_iunlock (Some devi) (i_upd ip (\<lambda>I. I\<lparr>i_type := T_MOUNT\<rparr>) s)) (\<lambda>s.
          kbind (generic_iunlock (Some ip) s) (op_return 0))))"

definition mount ::
  "(nat \<Rightarrow> nat \<Rightarrow> 'a filest_scheme \<Rightarrow> (int \<times> 'a filest_scheme) kres) \<Rightarrow> u8 list \<Rightarrow> u8 list \<Rightarrow> string \<Rightarrow>
   'a filest_scheme \<Rightarrow> (int \<times> 'a filest_scheme) kres" where
  "mount other_mount source target fstype s =
     kbind (begin_op s) (\<lambda>s.
     kbind (namei target s) (\<lambda>(q, s).
     case q of None \<Rightarrow> op_return (- ENOENT) s
     | Some ip \<Rightarrow>
         kbind (namei source s) (\<lambda>(q, s).
         case q of None \<Rightarrow> op_return (- ENOENT) s
         | Some devi \<Rightarrow>
             (case getfs fstype s of
                None \<Rightarrow> Inr (- ENODEV, s)
              | Some t \<Rightarrow>
                  kbind (v6_ilock ip s) (\<lambda>s.
                  kbind (v6_ilock devi s) (\<lambda>s.
                  if i_type (icache s ip) \<noteq> T_DIR \<and> i_ref (icache s ip) > 1 then mount_bad devi ip (- ENOTDIR) s
                  else if i_type (icache s devi) \<noteq> T_DEV then mount_bad devi ip (- ENOTBLK) s
                  else if i_minor (icache s devi) = 0 \<or> i_minor (icache s devi) = 1 then mount_bad devi ip (- ENOTBLK) s
                  else mount_ok other_mount t devi ip s))))))"

definition umount_found :: "nat \<Rightarrow> nat \<Rightarrow> 'a filest_scheme \<Rightarrow> (int \<times> 'a filest_scheme) kres" where
  "umount_found devi ip s =
     (case getvfsentry SDMAJOR (sint (i_dev (icache s devi))) s of
        None \<Rightarrow> Inr (- ENOENT, s)
      | Some v \<Rightarrow>
          (case v6_unmount devi s of (r, s) \<Rightarrow>
           if r < 0 then Inr (- EINVAL, s)
           else case deletefsfromlist v s of (e, s) \<Rightarrow>
             if e < 0 then Inr (e, s)
             else Inr (0, i_upd ip (\<lambda>I. I\<lparr>i_type := T_DIR\<rparr>) (i_upd devi (\<lambda>I. I\<lparr>i_ref := i_ref I - 1\<rparr>) s))))"

definition umount :: "u8 list \<Rightarrow> 'a filest_scheme \<Rightarrow> (int \<times> 'a filest_scheme) kres" where
  "umount target s =
     kbind (begin_op s) (\<lambda>s.
     kbind (namei target s) (\<lambda>(q, s).
     case q of None \<Rightarrow> op_return (- ENOENT) s
     | Some devi \<Rightarrow>
         kbind (v6_ilock devi s) (\<lambda>s.
         case mtablemntinode devi s of
           None \<Rightarrow> put_return devi (- EINVAL) s
         | Some ip \<Rightarrow>
             kbind (v6_ilock ip s) (\<lambda>s.
             kbind (umount_found devi ip s) (\<lambda>(e, s).
             kbind (iunlockput ip s) (put_return devi e))))))"

section \<open>Directory listing\<close>

text \<open>
  \<open>v6_getdents\<close>: a record has an 8-byte inode number, an 8-byte offset, a 2-byte length, a type byte
  and the name with its NUL, padded to a multiple of 8 bytes. \<open>sizeof (struct dirent64)\<close> is 24: the
  clearing of the record reaches 24 bytes, and the name is copied without its padding being cleared.
\<close>

definition reclen_of :: "bytes \<Rightarrow> nat" where
  "reclen_of name =
     (let namelen = min (length (takeWhile (\<lambda>i. name i \<noteq> 0) [0..<DIRSIZ])) DIRSIZ + 1
      in (19 + namelen + 7) div 8 * 8)"

definition dirent64_bytes :: "bytes \<Rightarrow> nat \<Rightarrow> u32 \<Rightarrow> int \<Rightarrow> u32 \<Rightarrow> bytes \<Rightarrow> bytes" where
  "dirent64_bytes data r inum off mode name =
     (let namelen = length (takeWhile (\<lambda>i. name i \<noteq> 0) [0..<DIRSIZ]) + 1;
          m = memset_bytes data r 0 24;
          m = put64 m r (ucast inum);
          m = put64 m (r + 8) (word_of_int off);
          m = put16 m (r + 16) (of_nat (reclen_of name));
          m = m(r + 18 := ucast (drop_bit 12 mode AND 15))
      in memcopy m (r + 19) (clip (namelen - 1) name) 0 namelen)"

text \<open>Every round reads one entry of 64 bytes, so as many rounds as the directory has entries and one are enough.\<close>

primrec getdents_loop ::
  "nat \<Rightarrow> nat \<Rightarrow> bytes \<Rightarrow> nat \<Rightarrow> nat \<Rightarrow> int \<Rightarrow> 'a filest_scheme \<Rightarrow> (int \<times> bytes \<times> 'a filest_scheme) kres" where
  "getdents_loop 0 f data n r off s = Inl (Deadlock ''getdents'')"
| "getdents_loop (Suc k) f data n r off s =
     kbind (fileread f 64 s) (\<lambda>(c, out, s).
     if c = 0 then Inr (int r, data, s)
     else if c \<noteq> 64 then Inr (if r \<noteq> 0 then int r else - 1, data, s)
     else
       let de = dirent_of out in
       if de_inum de = 0 then getdents_loop k f data n r off s
       else if r + reclen_of (de_name de) > n then Inr (int r, data, s)
       else
         let mode = (case f_ip (ftable s f) of None \<Rightarrow> 0 | Some ip \<Rightarrow> i_mode (icache s ip))
         in getdents_loop k f (dirent64_bytes data r (de_inum de) off mode (de_name de)) n
              (r + reclen_of (de_name de)) (f_off (ftable s f)) s)"

definition v6_getdents :: "nat \<Rightarrow> bytes \<Rightarrow> nat \<Rightarrow> 'a filest_scheme \<Rightarrow> (int \<times> bytes \<times> 'a filest_scheme) kres" where
  "v6_getdents f data n s =
     (let entries = (case f_ip (ftable s f) of None \<Rightarrow> 0 | Some ip \<Rightarrow> unat (i_size (icache s ip)) div 64)
      in getdents_loop (entries + 2) f data n 0 0 s)"

end
