(* ===== verification/Txn.thy ===== *)
theory Txn
  imports V6
begin

text \<open>
  Transactions on blocks: what the file system relies on between \<open>begin_op\<close> and \<open>end_op\<close>. The
  interface \<open>block_txn\<close> has a block read, changed and logged, and released; its state is seen as the
  contents of every block (\<open>view\<close>), the locked buffers (\<open>lock\<close>) and the number of further blocks the
  transaction may log (\<open>txn\<close>). The interpretation \<open>tx\<close> provides it by the buffer cache and the log.
\<close>

section \<open>The interface\<close>

locale block_txn =
  fixes bread' :: "u32 \<Rightarrow> u32 \<Rightarrow> 's \<Rightarrow> (nat \<times> 's) kres"
    and logged_store :: "nat \<Rightarrow> bytes \<Rightarrow> 's \<Rightarrow> 's kres"
    and brelse' :: "nat \<Rightarrow> 's \<Rightarrow> 's kres"
    and getd :: "'s \<Rightarrow> nat \<Rightarrow> bytes"
    and txn :: "nat \<Rightarrow> 's \<Rightarrow> bool"
    and ok :: "'s \<Rightarrow> key \<Rightarrow> bool"
    and lock :: "'s \<Rightarrow> nat \<Rightarrow> key option"
    and view :: "'s \<Rightarrow> key \<Rightarrow> bytes"
    and frame :: "'s \<Rightarrow> 'e"
  assumes txn_less: "txn (Suc n) s \<Longrightarrow> txn n s"
    and ok_frame: "frame s' = frame s \<Longrightarrow> ok s' = ok s"
    and txn_view: "txn n s \<Longrightarrow> lock s i = Some k \<Longrightarrow> view s k = clip BSIZE (getd s i)"
    and txn_bread:
      "txn n s \<Longrightarrow> ok s k \<Longrightarrow> k \<notin> ran (lock s) \<Longrightarrow> card (ran (lock s)) \<le> 2 \<Longrightarrow>
       \<exists>i s'. bread' (fst k) (snd k) s = Inr (i, s') \<and> txn n s' \<and> frame s' = frame s \<and> lock s i = None \<and>
         lock s' = (lock s)(i \<mapsto> k) \<and> view s' = view s \<and> (\<forall>j. lock s j \<noteq> None \<longrightarrow> getd s' j = getd s j)"
    and txn_store:
      "txn (Suc n) s \<Longrightarrow> lock s i = Some k \<Longrightarrow>
       \<exists>s'. logged_store i x s = Inr s' \<and> txn n s' \<and> frame s' = frame s \<and> lock s' = lock s \<and>
         view s' = (view s)(k := clip BSIZE x) \<and> getd s' = (getd s)(i := x)"
    and txn_brelse:
      "txn n s \<Longrightarrow> lock s i = Some k \<Longrightarrow>
       \<exists>s'. brelse' i s = Inr s' \<and> txn n s' \<and> frame s' = frame s \<and> lock s' = (lock s)(i := None) \<and>
         view s' = view s \<and> getd s' = getd s"
begin

text \<open>A block read and released, and a block read, changed, logged and released.\<close>

lemma read_release:
  assumes "txn n s" and "ok s k" and "k \<notin> ran (lock s)" and "card (ran (lock s)) \<le> 2"
  obtains i s1 s2 where "bread' (fst k) (snd k) s = Inr (i, s1)" and "clip BSIZE (getd s1 i) = view s k"
    and "brelse' i s1 = Inr s2" and "txn n s1" and "txn n s2" and "frame s1 = frame s" and "frame s2 = frame s"
    and "lock s1 = (lock s)(i \<mapsto> k)" and "lock s2 = lock s" and "view s1 = view s" and "view s2 = view s"
    and "lock s i = None" and "\<And>j. lock s j \<noteq> None \<Longrightarrow> getd s1 j = getd s j"
    and "\<And>j. lock s j \<noteq> None \<Longrightarrow> getd s2 j = getd s j"
proof -
  obtain i s1 where 1: "bread' (fst k) (snd k) s = Inr (i, s1)" "txn n s1" "frame s1 = frame s" "lock s i = None"
      "lock s1 = (lock s)(i \<mapsto> k)" "view s1 = view s" "\<forall>j. lock s j \<noteq> None \<longrightarrow> getd s1 j = getd s j"
    using txn_bread [OF assms] by blast
  have l: "lock s1 i = Some k" by (simp add: 1)
  obtain s2 where 2: "brelse' i s1 = Inr s2" "txn n s2" "frame s2 = frame s1" "lock s2 = (lock s1)(i := None)"
      "view s2 = view s1" "getd s2 = getd s1"
    using txn_brelse [OF 1(2) l] by blast
  have "lock s2 = lock s" using 1 2 by (auto simp: fun_eq_iff)
  then show ?thesis using that [OF 1(1) _ 2(1)] 1 2 txn_view [OF 1(2) l] by auto
qed

lemma store_release:
  assumes "txn (Suc n) s" and "lock s i = Some k"
  obtains s1 s2 where "logged_store i x s = Inr s1" and "brelse' i s1 = Inr s2" and "txn n s2"
    and "frame s2 = frame s" and "lock s2 = (lock s)(i := None)" and "view s2 = (view s)(k := clip BSIZE x)"
    and "getd s2 = (getd s)(i := x)"
proof -
  obtain s1 where 1: "logged_store i x s = Inr s1" "txn n s1" "frame s1 = frame s" "lock s1 = lock s"
      "view s1 = (view s)(k := clip BSIZE x)" "getd s1 = (getd s)(i := x)"
    using txn_store [OF assms] by blast
  then have "lock s1 i = Some k" using assms(2) by simp
  from txn_brelse [OF 1(2) this] obtain s2 where "brelse' i s1 = Inr s2" "txn n s2" "frame s2 = frame s1"
      "lock s2 = (lock s1)(i := None)" "view s2 = view s1" "getd s2 = getd s1" by blast
  then show ?thesis using that 1 by auto
qed

lemma modify_block:
  assumes "txn (Suc n) s" and "ok s k" and "k \<notin> ran (lock s)" and "card (ran (lock s)) \<le> 2"
  obtains i s1 where "bread' (fst k) (snd k) s = Inr (i, s1)" and "clip BSIZE (getd s1 i) = view s k"
    and "txn (Suc n) s1" and "frame s1 = frame s" and "view s1 = view s"
    and "\<And>x. \<exists>s2 s3. logged_store i x s1 = Inr s2 \<and> brelse' i s2 = Inr s3 \<and> txn n s3 \<and> frame s3 = frame s \<and>
          lock s3 = lock s \<and> view s3 = (view s)(k := clip BSIZE x) \<and> (\<forall>j. lock s j \<noteq> None \<longrightarrow> getd s3 j = getd s j)"
proof -
  obtain i s1 where 1: "bread' (fst k) (snd k) s = Inr (i, s1)" "txn (Suc n) s1" "frame s1 = frame s" "lock s i = None"
      "lock s1 = (lock s)(i \<mapsto> k)" "view s1 = view s" "\<forall>j. lock s j \<noteq> None \<longrightarrow> getd s1 j = getd s j"
    using txn_bread [OF assms] by blast
  have l: "lock s1 i = Some k" by (simp add: 1)
  have w: "\<exists>s2 s3. logged_store i x s1 = Inr s2 \<and> brelse' i s2 = Inr s3 \<and> txn n s3 \<and> frame s3 = frame s \<and>
      lock s3 = lock s \<and> view s3 = (view s)(k := clip BSIZE x) \<and> (\<forall>j. lock s j \<noteq> None \<longrightarrow> getd s3 j = getd s j)" for x
  proof (rule store_release [OF 1(2) l, of x])
    fix s2 s3
    assume "logged_store i x s1 = Inr s2" "brelse' i s2 = Inr s3" "txn n s3" "frame s3 = frame s1"
      "lock s3 = (lock s1)(i := None)" "view s3 = (view s1)(k := clip BSIZE x)" "getd s3 = (getd s1)(i := x)"
    moreover from this 1 have "lock s3 = lock s" by (auto simp: fun_eq_iff)
    ultimately show ?thesis using 1 by auto
  qed
  show ?thesis using that [OF 1(1) _ 1(2,3,6) w] 1 txn_view [OF 1(2) l] by auto
qed

end

section \<open>The transactions of the kernel\<close>

definition log_store :: "nat \<Rightarrow> bytes \<Rightarrow> 'a logst_scheme \<Rightarrow> 'a logst_scheme kres" where
  "log_store i x s = log_write i (buf_store i x s)"

text \<open>
  \<open>in_txn d n s\<close>: device \<open>d\<close> has an enabled log; the dirty buffers are the logged blocks; every locked
  buffer is logged or agrees with the card; \<open>n\<close> more blocks fit the log, and with three locked buffers
  they fit the cache; unless \<open>n\<close> is zero, a call is between \<open>begin_op\<close> and \<open>end_op\<close>. So \<open>n = 0\<close> is the
  state of a call that only reads, as \<open>fileread\<close> does with no transaction open. A home block is one
  outside the log region.
\<close>

definition in_txn :: "nat \<Rightarrow> nat \<Rightarrow> 'a logst_scheme \<Rightarrow> bool" where
  "in_txn d n s \<longleftrightarrow> d < NLOG \<and> bio_inv s \<and> log_flag (klog s d) = LOGENABLED \<and> log_dev (klog s d) = of_nat d \<and>
     log_wf (bio_env s) (klog s d) \<and> bio_dirty s = logged (klog s d) \<and>
     (0 < n \<longrightarrow> 1 \<le> outstanding (klog s d)) \<and>
     lh_n (klog s d) + int n \<le> int LOGSIZE \<and> lh_n (klog s d) + int n < log_size (klog s d) \<and>
     lh_n (klog s d) + int n + 3 \<le> int NBUF \<and>
     (\<forall>k\<in>ran (bio_lock s). home_ok (bio_env s) (lgeo (klog s d)) k \<and> fst k = of_nat d \<and>
        (k \<in> bio_dirty s \<or> bio_view s k = kdisk s k))"

definition txn_frame :: "nat \<Rightarrow> 'a logst_scheme \<Rightarrow>
    (nat \<Rightarrow> superblock) \<times> (u32 \<Rightarrow> bytes) \<times> (u32 \<Rightarrow> bool) \<times> lgeo \<times> 'a" where
  "txn_frame d s = (sb s, base (sdcard s), broken (sdcard s), lgeo (klog s d), logst.more s)"

definition txn_ok :: "nat \<Rightarrow> 'a logst_scheme \<Rightarrow> key \<Rightarrow> bool" where
  "txn_ok d s k \<longleftrightarrow> fst k = of_nat d \<and> home_ok (bio_env s) (lgeo (klog s d)) k"

lemma home_ok_cong:
  assumes "sb s' = sb s" and "broken (sdcard s') = broken (sdcard s)"
  shows "home_ok (bio_env s') = home_ok (bio_env s)" and "log_geom (bio_env s') = log_geom (bio_env s)"
    and "log_wf (bio_env s') = log_wf (bio_env s)"
proof -
  have b: "blk_ok (bio_env s') = blk_ok (bio_env s)"
    using assms by (simp add: fun_eq_iff blk_ok_def key_sector_def bio_env_def)
  show h: "home_ok (bio_env s') = home_ok (bio_env s)" "log_geom (bio_env s') = log_geom (bio_env s)"
    by (simp_all add: fun_eq_iff home_ok_def log_geom_def b)
  show "log_wf (bio_env s') = log_wf (bio_env s)" by (simp add: fun_eq_iff log_wf_def h)
qed

lemma txn_frame_env:
  fixes s :: "'a logst_scheme"
  assumes "bio_env s' = bio_env s"
  shows "txn_frame d s' = txn_frame d s" and "klog s' = klog s"
  using assms by (cases s; cases s'; simp add: txn_frame_def bio_env_def)+

lemma in_txn_lock:
  assumes "in_txn d n s" and "bio_lock s i = Some k"
  shows "home_ok (bio_env s) (lgeo (klog s d)) k" and "fst k = of_nat d"
    and "k \<in> bio_dirty s \<or> bio_view s k = kdisk s k"
proof -
  have "k \<in> ran (bio_lock s)" using assms(2) by (rule ranI)
  then show "home_ok (bio_env s) (lgeo (klog s d)) k" "fst k = of_nat d" "k \<in> bio_dirty s \<or> bio_view s k = kdisk s k"
    using assms(1) unfolding in_txn_def by blast+
qed

lemma in_txn_room:
  assumes "in_txn d n s" and "card (ran (bio_lock s)) \<le> 2"
  shows "card (bio_dirty s \<union> ran (bio_lock s)) < NBUF"
proof -
  let ?L = "klog s d"
  have "card (logged ?L) \<le> nat (lh_n ?L)"
    unfolding logged_def by (metis card_image_le card_lessThan finite_lessThan)
  then have "card (bio_dirty s \<union> ran (bio_lock s)) \<le> nat (lh_n ?L) + 2"
    using assms card_Un_le [of "bio_dirty s" "ran (bio_lock s)"] by (simp add: in_txn_def)
  also have "\<dots> < NBUF" using assms(1) by (auto simp: in_txn_def log_wf_def NBUF_def)
  finally show ?thesis .
qed

lemma in_txn_bread:
  fixes s :: "'a logst_scheme"
  assumes "in_txn d n s" and "txn_ok d s k" and "k \<notin> ran (bio_lock s)" and "card (ran (bio_lock s)) \<le> 2"
  shows "\<exists>i s'. bread (fst k) (snd k) s = Inr (i, s') \<and> in_txn d n s' \<and> txn_frame d s' = txn_frame d s \<and>
    bio_lock s i = None \<and> bio_lock s' = (bio_lock s)(i \<mapsto> k) \<and> bio_view s' = bio_view s \<and>
    (\<forall>j. bio_lock s j \<noteq> None \<longrightarrow> b_data (bufs s' j) = b_data (bufs s j))"
proof -
  have h: "bio_inv s" "blk_ok (bio_env s) k" "home_ok (bio_env s) (lgeo (klog s d)) k" "fst k = of_nat d"
    using assms(1,2) by (auto simp: in_txn_def txn_ok_def home_ok_def)
  obtain i s' where b: "bread (fst k) (snd k) s = Inr (i, s')" "bio_inv s'" "bio_env s' = bio_env s" "bio_lock s i = None"
      "bio_lock s' = (bio_lock s)(i \<mapsto> k)" "bio_dirty s' = bio_dirty s" "bio_view s' = bio_view s" "kdisk s' = kdisk s"
      "\<forall>j. bio_lock s j \<noteq> None \<longrightarrow> b_data (bufs s' j) = b_data (bufs s j)"
    using bc.bread_law [OF h(1,2) assms(3) in_txn_room [OF assms(1,4)]] by blast
  note f = txn_frame_env [OF b(3)]
  have "k \<in> bio_dirty s \<or> bio_view s k = kdisk s k" using bc.clean_agrees [OF h(1,2)] assms(3) by blast
  moreover have "ran (bio_lock s') = insert k (ran (bio_lock s))"
    using b(4) by (simp add: b(5))
  ultimately have "in_txn d n s'"
    using assms(1) h(3,4) by (auto simp: in_txn_def b f)
  then show ?thesis using b f by blast
qed

lemma in_txn_store:
  fixes s :: "'a logst_scheme"
  assumes "in_txn d (Suc n) s" and "bio_lock s i = Some k"
  shows "\<exists>s'. log_store i x s = Inr s' \<and> in_txn d n s' \<and> txn_frame d s' = txn_frame d s \<and> bio_lock s' = bio_lock s \<and>
    bio_view s' = (bio_view s)(k := clip BSIZE x) \<and> (\<lambda>j. b_data (bufs s' j)) = (\<lambda>j. b_data (bufs s j))(i := x)"
proof -
  let ?t = "buf_store i x s"
  have T: "d < NLOG" "bio_inv s" "log_flag (klog s d) = LOGENABLED" "log_dev (klog s d) = of_nat d"
      "log_wf (bio_env s) (klog s d)" "bio_dirty s = logged (klog s d)" "1 \<le> outstanding (klog s d)"
      "lh_n (klog s d) < int LOGSIZE" "lh_n (klog s d) < log_size (klog s d) - 1"
    using assms(1) by (auto simp: in_txn_def)
  have k: "home_ok (bio_env s) (lgeo (klog s d)) k" "k = (of_nat d, snd k)"
    using in_txn_lock [OF assms] by (simp_all add: prod_eq_iff)
  have t: "bio_inv ?t" "bio_env ?t = bio_env s" "bio_lock ?t = bio_lock s" "bio_dirty ?t = bio_dirty s"
      "bio_view ?t = (bio_view s)(k := clip BSIZE x)" "kdisk ?t = kdisk s"
      "(\<lambda>j. b_data (bufs ?t j)) = (\<lambda>j. b_data (bufs s j))(i := x)"
    using bc.store_law [OF T(2) assms(2), of x] by auto
  note f = txn_frame_env [OF t(2)]
  have lk: "bio_lock ?t i = Some (of_nat d, snd k)" using assms(2) k(2) t(3) by simp
  show ?thesis
  proof (rule log_write_ok [of ?t d i "snd k"])
    fix L'
    assume w: "log_write i ?t = Inr (buf_dirty i (log_upd d (\<lambda>_. L') ?t))" and L': "log_wf (bio_env ?t) L'"
      "logged L' = insert (of_nat d, snd k) (logged (klog ?t d))" "lgeo L' = lgeo (klog ?t d)" "log_dev L' = of_nat d"
      "log_flag L' = log_flag (klog ?t d)" "outstanding L' = outstanding (klog ?t d)" "lh_n L' \<le> lh_n (klog ?t d) + 1"
      "log_size L' = log_size (klog ?t d)"
    let ?u = "log_upd d (\<lambda>_. L') ?t"
    let ?v = "buf_dirty i ?u"
    have lu: "bio_inv ?u" "bio_lock ?u i = Some k" using t(1) lk k(2) by simp_all
    note p = bc.pin_law [OF lu]
    have e: "klog ?v d = L'" "bio_env ?v = bio_env ?u" using p by (simp_all add: klog_io(5))
    have h: "home_ok (bio_env ?u) = home_ok (bio_env s)" "log_wf (bio_env ?u) = log_wf (bio_env s)"
      by (intro home_ok_cong; simp add: buf_dirty_def buf_store_def buf_upd_def)+
    have "bio_dirty ?v = logged L'" using p T(6) k(2) L'(2) by (simp add: t f)
    moreover have "k' \<in> bio_dirty ?v \<or> bio_view ?v k' = kdisk ?v k'" if "k' \<in> ran (bio_lock s)" for k'
      using that assms(1) p by (cases "k' = k") (auto simp: in_txn_def t)
    ultimately have "in_txn d n ?v"
      using assms(1) p L' by (auto simp: in_txn_def e h t f)
    moreover have "txn_frame d ?v = txn_frame d s"
      using L'(3) by (simp add: txn_frame_def buf_dirty_def buf_store_def buf_upd_def log_upd_def)
    ultimately show ?thesis using w p by (auto simp: log_store_def t)
  qed (use T k lk in \<open>simp_all add: t f\<close>)
qed

lemma in_txn_brelse:
  fixes s :: "'a logst_scheme"
  assumes "in_txn d n s" and "bio_lock s i = Some k"
  shows "\<exists>s'. brelse i s = Inr s' \<and> in_txn d n s' \<and> txn_frame d s' = txn_frame d s \<and>
    bio_lock s' = (bio_lock s)(i := None) \<and> bio_view s' = bio_view s \<and> (\<lambda>j. b_data (bufs s' j)) = (\<lambda>j. b_data (bufs s j))"
proof -
  have "bio_inv s" "k \<in> bio_dirty s \<or> bio_view s k = kdisk s k"
    using assms(1) in_txn_lock(3) [OF assms] by (simp_all add: in_txn_def)
  then obtain s' where b: "brelse i s = Inr s'" "bio_inv s'" "bio_env s' = bio_env s" "bio_lock s' = (bio_lock s)(i := None)"
      "bio_dirty s' = bio_dirty s" "bio_view s' = bio_view s" "kdisk s' = kdisk s"
      "(\<lambda>j. b_data (bufs s' j)) = (\<lambda>j. b_data (bufs s j))"
    using bc.brelse_law [of s i k] assms(2) by blast
  note f = txn_frame_env [OF b(3)]
  have "ran (bio_lock s') \<subseteq> ran (bio_lock s)" by (auto simp: b(4) ran_def split: if_splits)
  then have "in_txn d n s'" using assms(1) by (auto simp: in_txn_def b f)
  then show ?thesis using b f by blast
qed

interpretation tx: block_txn
  "bread :: u32 \<Rightarrow> u32 \<Rightarrow> 'a logst_scheme \<Rightarrow> _" log_store brelse "\<lambda>s j. b_data (bufs s j)"
  "in_txn d" "txn_ok d" bio_lock bio_view "txn_frame d" for d
proof (unfold_locales, goal_cases)
  case (1 n s) then show ?case by (auto simp: in_txn_def)
next
  case (2 s' s) then show ?case using home_ok_cong(1) [of s' s] by (auto simp: txn_ok_def txn_frame_def)
next
  case (3 n s i k) then show ?case using bc.lock_view [of s i k] by (simp add: in_txn_def)
next
  case (4 n s k) then show ?case by (rule in_txn_bread)
next
  case (5 n s i k x) then show ?case by (rule in_txn_store)
next
  case (6 n s i k) then show ?case by (rule in_txn_brelse)
qed

end
