(* ===== verification/V6_Alloc.thy ===== *)
theory V6_Alloc
  imports Txn
begin

text \<open>
  Allocation of blocks: \<open>v6_balloc\<close> and \<open>v6_bfree\<close> on the free bitmap of a file system, inside a
  transaction. The abstraction of the bitmap is the set of blocks in use.
\<close>

section \<open>The bitmap\<close>

definition used :: "nat \<Rightarrow> v6_superblock \<Rightarrow> 'a logst_scheme \<Rightarrow> nat \<Rightarrow> bool" where
  "used d v s b = map_bit (bio_view s (of_nat d, BBLOCK (of_nat b) v)) (b mod BPB)"

definition data_start :: "v6_superblock \<Rightarrow> nat" where
  "data_start v = unat (v6_bmapstart v) + (unat (v6_size v) + BPB - 1) div BPB"

text \<open>
  The layout of a mounted file system on device \<open>d\<close>: its superblock is loaded, and its bitmap blocks
  and data blocks are blocks of the device outside the log.
\<close>

definition layout_ok :: "nat \<Rightarrow> v6_superblock \<Rightarrow> 'a logst_scheme \<Rightarrow> bool" where
  "layout_ok d v s \<longleftrightarrow> d < NLOG \<and> fs_info (sb s d) = Some v \<and> sb_flags (sb s d) = SB_INITIALIZED \<and>
     data_start v \<le> unat (v6_size v) \<and> 0 < data_start v \<and>
     (\<forall>b<unat (v6_size v). txn_ok d s (of_nat d, BBLOCK (of_nat b) v)) \<and>
     (\<forall>b. data_start v \<le> b \<and> b < unat (v6_size v) \<longrightarrow> txn_ok d s (of_nat d, of_nat b))"

definition meta_used :: "nat \<Rightarrow> v6_superblock \<Rightarrow> 'a logst_scheme \<Rightarrow> bool" where
  "meta_used d v s \<longleftrightarrow> (\<forall>b<data_start v. used d v s b)"

lemma map_bit_bit: "map_bit m i \<longleftrightarrow> bit (m (i div 8)) (i mod 8)"
  by (simp add: map_bit_def and_exp_eq_0_iff_not_bit push_bit_eq_mult)

lemma map_bit_upd:
  "map_bit (set_map_bit m i) j \<longleftrightarrow> i = j \<or> map_bit m j"
  "map_bit (clear_map_bit m i) j \<longleftrightarrow> i \<noteq> j \<and> map_bit m j"
proof -
  have e: "i = j \<longleftrightarrow> i div 8 = j div 8 \<and> i mod 8 = j mod 8" by (metis div_mult_mod_eq)
  have b: "j mod 8 < 8" by simp
  show "map_bit (set_map_bit m i) j \<longleftrightarrow> i = j \<or> map_bit m j"
    using b unfolding e by (auto simp: map_bit_bit set_map_bit_def bit_simps)
  show "map_bit (clear_map_bit m i) j \<longleftrightarrow> i \<noteq> j \<and> map_bit m j"
    using b unfolding e by (auto simp: map_bit_bit clear_map_bit_def bit_simps)
qed

lemma map_bit_clip [simp]: "i < BPB \<Longrightarrow> map_bit (clip BSIZE m) i = map_bit m i"
  using less_mult_imp_div_less [of i 4096 8] by (simp add: map_bit_def clip_def BPB_def BSIZE_def)

lemma BPB_pos [simp]: "0 < BPB"
  by (simp add: BPB_def)

lemma unat_of_nat_size: "b < unat (v6_size v) \<Longrightarrow> unat (of_nat b :: u32) = b"
  using unat_u32_less [of "v6_size v"] by (simp add: unat_of_nat_u32)

lemma unat_BBLOCK:
  assumes "data_start v \<le> unat (v6_size v)" and "b < unat (v6_size v)"
  shows "unat (BBLOCK (of_nat b) v) = b div BPB + unat (v6_bmapstart v)"
    and "unat (BBLOCK (of_nat b) v) < data_start v"
proof -
  have "b + BPB \<le> unat (v6_size v) + BPB - 1" using assms(2) by simp
  then have "(b + BPB) div BPB \<le> (unat (v6_size v) + BPB - 1) div BPB" by (rule div_le_mono)
  then have l: "b div BPB + unat (v6_bmapstart v) < data_start v" by (simp add: data_start_def div_add_self2)
  have "unat (of_nat b div of_nat BPB :: u32) = b div BPB"
    using unat_of_nat_size [OF assms(2)] by (simp add: unat_div BPB_def)
  then show "unat (BBLOCK (of_nat b) v) = b div BPB + unat (v6_bmapstart v)"
    using l assms(1) unat_u32_less [of "v6_size v"] by (simp add: BBLOCK_def unat_word_ariths)
  with l show "unat (BBLOCK (of_nat b) v) < data_start v" by simp
qed

lemma BBLOCK_eq_iff:
  assumes "data_start v \<le> unat (v6_size v)" and "b < unat (v6_size v)" and "c < unat (v6_size v)"
  shows "BBLOCK (of_nat b) v = BBLOCK (of_nat c) v \<longleftrightarrow> b div BPB = c div BPB"
  using unat_BBLOCK(1) [OF assms(1)] assms(2,3) by (auto simp: word_unat_eq_iff)

lemma layout_frame:
  assumes "txn_frame d s' = txn_frame d s"
  shows "layout_ok d v s' = layout_ok d v s" and "sb s' = sb s" and "logst.more s' = logst.more s"
    and "txn_ok d s' = txn_ok d s"
proof -
  show f: "sb s' = sb s" "logst.more s' = logst.more s" "txn_ok d s' = txn_ok d s"
    using assms tx.ok_frame [OF assms] by (simp_all add: txn_frame_def)
  show "layout_ok d v s' = layout_ok d v s" by (simp add: layout_ok_def f)
qed

lemma layoutD:
  assumes "layout_ok d v s"
  shows "v6_info (of_nat d) s = Inr v" and "v6_readsb (of_nat d) s = Inr s"
    and "b < unat (v6_size v) \<Longrightarrow> txn_ok d s (of_nat d, BBLOCK (of_nat b) v)"
    and "data_start v \<le> b \<Longrightarrow> b < unat (v6_size v) \<Longrightarrow> txn_ok d s (of_nat d, of_nat b)"
    and "data_start v \<le> unat (v6_size v)" and "0 < data_start v"
proof -
  have "d < NLOG" using assms by (simp add: layout_ok_def)
  then have "unat (of_nat d :: u32) = d" "d < NMINOR" by (simp_all add: NLOG_def NMINOR_def unat_of_nat_u32)
  then show "v6_info (of_nat d) s = Inr v" "v6_readsb (of_nat d) s = Inr s"
    using assms by (simp_all add: v6_info_def v6_readsb_def layout_ok_def)
qed (use assms in \<open>simp_all add: layout_ok_def\<close>)

section \<open>Clearing and marking blocks\<close>

lemma bzero_ok:
  fixes s :: "'a logst_scheme"
  assumes "in_txn d (Suc n) s" and "txn_ok d s (of_nat d, b)" and "(of_nat d, b) \<notin> ran (bio_lock s)"
    and "card (ran (bio_lock s)) \<le> 2"
  obtains s' where "v6_bzero (of_nat d) b s = Inr s'" and "in_txn d n s'" and "txn_frame d s' = txn_frame d s"
    and "bio_lock s' = bio_lock s" and "bio_view s' = (bio_view s)((of_nat d, b) := (\<lambda>_. 0))"
    and "\<And>j. bio_lock s j \<noteq> None \<Longrightarrow> b_data (bufs s' j) = b_data (bufs s j)"
proof (rule tx.modify_block [OF assms])
  fix i s1
  assume b: "bread (fst (of_nat d :: u32, b)) (snd (of_nat d :: u32, b)) s = Inr (i, s1)"
    and w: "\<And>x. \<exists>s2 s3. log_store i x s1 = Inr s2 \<and> brelse i s2 = Inr s3 \<and> in_txn d n s3 \<and>
      txn_frame d s3 = txn_frame d s \<and> bio_lock s3 = bio_lock s \<and>
      bio_view s3 = (bio_view s)((of_nat d, b) := clip BSIZE x) \<and>
      (\<forall>j. bio_lock s j \<noteq> None \<longrightarrow> b_data (bufs s3 j) = b_data (bufs s j))"
  let ?x = "memset_bytes (b_data (bufs s1 i)) 0 0 BSIZE"
  have z: "clip BSIZE ?x = (\<lambda>_. 0)" by (simp add: clip_def memset_bytes_def fun_eq_iff)
  obtain s2 s3 where "log_store i ?x s1 = Inr s2" "brelse i s2 = Inr s3" "in_txn d n s3"
      "txn_frame d s3 = txn_frame d s" "bio_lock s3 = bio_lock s"
      "bio_view s3 = (bio_view s)((of_nat d, b) := clip BSIZE ?x)"
      "\<forall>j. bio_lock s j \<noteq> None \<longrightarrow> b_data (bufs s3 j) = b_data (bufs s j)"
    using w [of ?x] by blast
  then show thesis using that b by (simp add: v6_bzero_def log_store_def z)
qed

definition bitmap_keys :: "nat \<Rightarrow> v6_superblock \<Rightarrow> key set" where
  "bitmap_keys d v = {(of_nat d, BBLOCK (of_nat b) v) |b. b < unat (v6_size v)}"

text \<open>The locked buffers hold neither bitmap blocks nor free blocks.\<close>

definition locks_ok :: "nat \<Rightarrow> v6_superblock \<Rightarrow> 'a logst_scheme \<Rightarrow> bool" where
  "locks_ok d v s \<longleftrightarrow> card (ran (bio_lock s)) \<le> 1 \<and> ran (bio_lock s) \<inter> bitmap_keys d v = {} \<and>
     (\<forall>b<unat (v6_size v). \<not> used d v s b \<longrightarrow> (of_nat d, of_nat b) \<notin> ran (bio_lock s))"

text \<open>Block \<open>b\<close>, which was free, is in use and all zero, and no other block that is not part of the bitmap has changed.\<close>

definition balloc_post :: "nat \<Rightarrow> v6_superblock \<Rightarrow> nat \<Rightarrow> 'a logst_scheme \<Rightarrow> nat \<Rightarrow> 'a logst_scheme \<Rightarrow> bool" where
  "balloc_post d v n s b s' \<longleftrightarrow> data_start v \<le> b \<and> b < unat (v6_size v) \<and> \<not> used d v s b \<and> in_txn d n s' \<and>
     txn_frame d s' = txn_frame d s \<and> bio_lock s' = bio_lock s \<and>
     (\<forall>c<unat (v6_size v). used d v s' c \<longleftrightarrow> c = b \<or> used d v s c) \<and>
     bio_view s' (of_nat d, of_nat b) = (\<lambda>_. 0) \<and>
     (\<forall>k. k \<noteq> (of_nat d, of_nat b) \<and> k \<notin> bitmap_keys d v \<longrightarrow> bio_view s' k = bio_view s k) \<and>
     (\<forall>j. bio_lock s j \<noteq> None \<longrightarrow> b_data (bufs s' j) = b_data (bufs s j))"

lemma data_not_bitmap:
  assumes "layout_ok d v s" and "data_start v \<le> b" and "b < unat (v6_size v)"
  shows "(of_nat d, of_nat b) \<notin> bitmap_keys d v"
proof
  assume "(of_nat d, of_nat b) \<in> bitmap_keys d v"
  then obtain c where "c < unat (v6_size v)" "(of_nat b :: u32) = BBLOCK (of_nat c) v" by (auto simp: bitmap_keys_def)
  then show False
    using unat_BBLOCK(2) [OF layoutD(5) [OF assms(1)], of c] unat_of_nat_size [OF assms(3)] assms(2) by simp
qed

lemma used_upd:
  assumes "layout_ok d v s" and "b < unat (v6_size v)" and "c < unat (v6_size v)"
    and "\<And>k. k \<in> bitmap_keys d v \<Longrightarrow> bio_view s' k = ((bio_view s)((of_nat d, BBLOCK (of_nat b) v) := clip BSIZE m)) k"
    and "\<And>i. i < BPB \<Longrightarrow> map_bit m i = (if i = b mod BPB then x else map_bit (bio_view s (of_nat d, BBLOCK (of_nat b) v)) i)"
  shows "used d v s' c = (if c = b then x else used d v s c)"
proof -
  have k: "(of_nat d, BBLOCK (of_nat c) v) \<in> bitmap_keys d v" using assms(3) by (auto simp: bitmap_keys_def)
  have e: "BBLOCK (of_nat b) v = BBLOCK (of_nat c) v \<longleftrightarrow> b div BPB = c div BPB"
    using assms(1-3) by (intro BBLOCK_eq_iff layoutD(5))
  have cb: "c = b \<longleftrightarrow> c div BPB = b div BPB \<and> c mod BPB = b mod BPB" by (metis div_mult_mod_eq)
  have lt: "c mod BPB < BPB" by simp
  show ?thesis
  proof (cases "c div BPB = b div BPB")
    case True
    then have B: "BBLOCK (of_nat b) v = BBLOCK (of_nat c) v" using e by simp
    have "used d v s' c = map_bit m (c mod BPB)"
      unfolding used_def assms(4) [OF k] B using lt by simp
    also have "\<dots> = (if c = b then x else used d v s c)"
      unfolding assms(5) [OF lt] used_def B using cb True by simp
    finally show ?thesis .
  next
    case False
    then have "BBLOCK (of_nat b) v \<noteq> BBLOCK (of_nat c) v" using e by metis
    then have "used d v s' c = used d v s c" unfolding used_def assms(4) [OF k] by simp
    then show ?thesis using False by auto
  qed
qed

lemma find_first_free:
  assumes "find (\<lambda>bi. \<not> P bi) [0..<m] = q"
  shows "q = None \<Longrightarrow> i < m \<Longrightarrow> P i" and "q = Some bi \<Longrightarrow> bi < m \<and> \<not> P bi \<and> (\<forall>i<bi. P i)"
proof -
  show "P i" if "q = None" "i < m" using assms that by (auto simp: find_None_iff)
  show "bi < m \<and> \<not> P bi \<and> (\<forall>i<bi. P i)" if "q = Some bi"
    using assms that by (auto simp: find_Some_iff)
qed

lemma balloc_take:
  fixes s :: "'a logst_scheme"
  assumes "in_txn d (Suc (Suc n)) s1" and "layout_ok d v s" and "meta_used d v s" and "locks_ok d v s"
    and "txn_frame d s1 = txn_frame d s" and "bio_lock s1 = (bio_lock s)(i \<mapsto> (of_nat d, BBLOCK (of_nat b) v))"
    and "bio_view s1 = bio_view s" and "bio_lock s i = None"
    and "\<And>j. bio_lock s j \<noteq> None \<Longrightarrow> b_data (bufs s1 j) = b_data (bufs s j)"
    and "b < unat (v6_size v)" and "\<not> used d v s b"
    and "clip BSIZE (b_data (bufs s1 i)) = bio_view s (of_nat d, BBLOCK (of_nat b) v)"
  obtains s2 s3 s4 where "log_store i (set_map_bit (b_data (bufs s1 i)) (b mod BPB)) s1 = Inr s2"
    and "brelse i s2 = Inr s3" and "v6_bzero (of_nat d) (of_nat b) s3 = Inr s4" and "balloc_post d v n s b s4"
proof -
  let ?K = "(of_nat d :: u32, BBLOCK (of_nat b) v)" and ?B = "(of_nat d :: u32, of_nat b :: u32)"
  let ?m = "set_map_bit (b_data (bufs s1 i)) (b mod BPB)"
  have ds: "data_start v \<le> b" using assms(3,11) by (meson meta_used_def not_le)
  note nb = data_not_bitmap [OF assms(2) ds assms(10)]
  have l1: "bio_lock s1 i = Some ?K" by (simp add: assms(6))
  obtain s2 s3 where 3: "log_store i ?m s1 = Inr s2" "brelse i s2 = Inr s3" "in_txn d (Suc n) s3"
      "txn_frame d s3 = txn_frame d s1" "bio_lock s3 = (bio_lock s1)(i := None)"
      "bio_view s3 = (bio_view s1)(?K := clip BSIZE ?m)" "(\<lambda>j. b_data (bufs s3 j)) = (\<lambda>j. b_data (bufs s1 j))(i := ?m)"
    by (rule tx.store_release [OF assms(1) l1, of ?m])
  have l3: "bio_lock s3 = bio_lock s" using 3(5) assms(6,8) by (auto simp: fun_eq_iff)
  have d3: "b_data (bufs s3 j) = b_data (bufs s j)" if "bio_lock s j \<noteq> None" for j
    using fun_cong [OF 3(7), of j] assms(8,9) that by (auto split: if_splits)
  have f3: "txn_frame d s3 = txn_frame d s" using 3(4) assms(5) by simp
  have ok: "txn_ok d s3 ?B" using layoutD(4) [OF assms(2) ds assms(10)] layout_frame(4) [OF f3] by simp
  have nl: "?B \<notin> ran (bio_lock s3)" and lc: "card (ran (bio_lock s3)) \<le> 2"
    using assms(4,10,11) by (auto simp: locks_ok_def l3)
  obtain s4 where 4: "v6_bzero (of_nat d) (of_nat b) s3 = Inr s4" "in_txn d n s4" "txn_frame d s4 = txn_frame d s3"
      "bio_lock s4 = bio_lock s3" "bio_view s4 = (bio_view s3)(?B := (\<lambda>_. 0))"
      "\<And>j. bio_lock s3 j \<noteq> None \<Longrightarrow> b_data (bufs s4 j) = b_data (bufs s3 j)"
    by (rule bzero_ok [OF 3(3) ok nl lc], rule that)
  have "used d v s4 c \<longleftrightarrow> (if c = b then True else used d v s c)" if "c < unat (v6_size v)" for c
  proof (rule used_upd [OF assms(2,10) that])
    show "bio_view s4 k = ((bio_view s)(?K := clip BSIZE ?m)) k" if "k \<in> bitmap_keys d v" for k
      using that nb 4(5) 3(6) assms(7) by auto
    show "map_bit ?m i = (if i = b mod BPB then True else map_bit (bio_view s ?K) i)" if "i < BPB" for i
      using that assms(12) by (auto simp: map_bit_upd simp flip: assms(12))
  qed
  moreover have "bio_view s4 k = bio_view s k" if "k \<noteq> ?B" "k \<notin> bitmap_keys d v" for k
    using that assms(10) 4(5) 3(6) assms(7) by (auto simp: bitmap_keys_def)
  moreover have "b_data (bufs s4 j) = b_data (bufs s j)" if "bio_lock s j \<noteq> None" for j
    using that 4(6) d3 l3 by metis
  ultimately have "balloc_post d v n s b s4"
    using ds assms(10,11) 4 f3 l3 by (simp add: balloc_post_def)
  then show thesis using that 3 4 by blast
qed

text \<open>One bitmap block of the search: the first free block of its range is taken, or there is none.\<close>

lemma balloc_block:
  fixes s :: "'a logst_scheme"
  assumes "in_txn d (Suc (Suc n)) s" and "layout_ok d v s" and "meta_used d v s" and "locks_ok d v s"
    and "b0 < unat (v6_size v)" and "b0 mod BPB = 0"
  shows "(\<exists>b s'. balloc_from (of_nat d) v (b0 # bs) s = Inr (of_nat b, s') \<and> balloc_post d v n s b s' \<and>
       b0 \<le> b \<and> b < b0 + BPB \<and> (\<forall>c. b0 \<le> c \<and> c < b \<longrightarrow> used d v s c)) \<or>
     ((\<forall>c. b0 \<le> c \<and> c < b0 + BPB \<and> c < unat (v6_size v) \<longrightarrow> used d v s c) \<and>
      (\<exists>s'. balloc_from (of_nat d) v (b0 # bs) s = balloc_from (of_nat d) v bs s' \<and> in_txn d (Suc (Suc n)) s' \<and>
        txn_frame d s' = txn_frame d s \<and> bio_lock s' = bio_lock s \<and> bio_view s' = bio_view s \<and>
        (\<forall>j. bio_lock s j \<noteq> None \<longrightarrow> b_data (bufs s' j) = b_data (bufs s j))))"
proof -
  let ?K = "(of_nat d :: u32, BBLOCK (of_nat b0) v)"
  have K: "?K \<in> bitmap_keys d v" using assms(5) by (auto simp: bitmap_keys_def)
  have ok: "txn_ok d s ?K" and nl: "?K \<notin> ran (bio_lock s)" and lc: "card (ran (bio_lock s)) \<le> 2"
    using layoutD(3) [OF assms(2,5)] K assms(4) by (auto simp: locks_ok_def)
  have inr: "used d v s c = map_bit (bio_view s ?K) (c - b0)" "c mod BPB = c - b0" "BBLOCK (of_nat c) v = BBLOCK (of_nat b0) v"
    if "b0 \<le> c" "c < b0 + BPB" "c < unat (v6_size v)" for c
  proof -
    have "c = b0 + (c - b0)" "c - b0 < BPB" using that by auto
    then have "c mod BPB = c - b0" "c div BPB = b0 div BPB" using assms(6)
      by (metis add_0 mod_add_left_eq mod_less, metis add.commute assms(6) div_add1_eq div_less mod_0 add_0 mod_less div_0 add_0_right)
    then show "used d v s c = map_bit (bio_view s ?K) (c - b0)" "c mod BPB = c - b0"
        "BBLOCK (of_nat c) v = BBLOCK (of_nat b0) v"
      using BBLOCK_eq_iff [OF layoutD(5) [OF assms(2)] that(3) assms(5)] by (simp_all add: used_def)
  qed
  show ?thesis
  proof (rule tx.read_release [OF assms(1) ok nl lc])
    fix i s1 s2
    assume b: "bread (fst ?K) (snd ?K) s = Inr (i, s1)" and g: "clip BSIZE (b_data (bufs s1 i)) = bio_view s ?K"
      and r: "brelse i s1 = Inr s2" "in_txn d (Suc (Suc n)) s2" "txn_frame d s2 = txn_frame d s" "bio_lock s2 = bio_lock s"
        "bio_view s2 = bio_view s" "\<And>j. bio_lock s j \<noteq> None \<Longrightarrow> b_data (bufs s2 j) = b_data (bufs s j)"
      and s1: "in_txn d (Suc (Suc n)) s1" "txn_frame d s1 = txn_frame d s" "bio_lock s1 = (bio_lock s)(i \<mapsto> ?K)"
        "bio_view s1 = bio_view s" "bio_lock s i = None" "\<And>j. bio_lock s j \<noteq> None \<Longrightarrow> b_data (bufs s1 j) = b_data (bufs s j)"
    let ?m = "b_data (bufs s1 i)" and ?M = "min BPB (unat (v6_size v) - b0)"
    have bit: "map_bit ?m i = map_bit (bio_view s ?K) i" if "i < BPB" for i
      using that g by (metis map_bit_clip)
    show ?thesis
    proof (cases "find (\<lambda>bi. \<not> map_bit ?m bi) [0..<?M]")
      case None
      have "used d v s c" if c: "b0 \<le> c" "c < b0 + BPB" "c < unat (v6_size v)" for c
      proof -
        have "c - b0 < BPB" "c - b0 < ?M" using c by auto
        then show ?thesis using inr(1) [OF c] find_first_free(1) [OF None refl, of "c - b0"] bit [of "c - b0"] by simp
      qed
      moreover have "balloc_from (of_nat d) v (b0 # bs) s = balloc_from (of_nat d) v bs s2" using b r None by simp
      ultimately show ?thesis using r by blast
    next
      case (Some bi)
      note fb = find_first_free(2) [OF Some refl]
      define b where "b = b0 + bi"
      have bb: "b0 \<le> b" "b < b0 + BPB" "b < unat (v6_size v)" "bi < BPB" "b - b0 = bi"
        using fb assms(5) by (auto simp: b_def)
      have u: "\<not> used d v s b" and m: "b mod BPB = bi" "BBLOCK (of_nat b) v = BBLOCK (of_nat b0) v"
        using inr [OF bb(1-3)] fb bit [OF bb(4)] bb(5) by auto
      obtain t2 t3 t4 where t: "log_store i (set_map_bit ?m (b mod BPB)) s1 = Inr t2" "brelse i t2 = Inr t3"
          "v6_bzero (of_nat d) (of_nat b) t3 = Inr t4" "balloc_post d v n s b t4"
        by (rule balloc_take [OF s1(1) assms(2-4) s1(2) s1(3) [folded m(2)] s1(4-6) bb(3) u g [folded m(2)]])
      have "used d v s c" if "b0 \<le> c" "c < b" for c
        using inr(1) [of c] fb that bit [of "c - b0"] bb by (auto simp: b_def)
      moreover have "balloc_from (of_nat d) v (b0 # bs) s = Inr (of_nat b, t4)"
        using b t Some m(1) by (simp add: log_store_def b_def)
      ultimately show ?thesis using t(4) bb(1,2) by blast
    qed
  qed
qed

lemma used_same: "bio_view s' = bio_view s \<Longrightarrow> used d v s' = used d v s"
  unfolding used_def by simp

lemma balloc_same:
  assumes "bio_view s' = bio_view s" and "bio_lock s' = bio_lock s" and "txn_frame d s' = txn_frame d s"
    and "\<And>j. bio_lock s j \<noteq> None \<Longrightarrow> b_data (bufs s' j) = b_data (bufs s j)" and "balloc_post d v n s' b t"
  shows "balloc_post d v n s b t"
  using assms used_same [OF assms(1), of d v] by (simp add: balloc_post_def)

lemma balloc_from_ok:
  fixes s :: "'a logst_scheme"
  assumes "in_txn d (Suc (Suc n)) s" and "layout_ok d v s" and "meta_used d v s" and "locks_ok d v s"
    and "k * BPB \<le> b1" and "b1 < m * BPB" and "b1 < unat (v6_size v)" and "\<not> used d v s b1"
  shows "\<exists>b s'. balloc_from (of_nat d) v (map (\<lambda>k. k * BPB) [k..<m]) s = Inr (of_nat b, s') \<and>
    balloc_post d v n s b s' \<and> (\<forall>c. k * BPB \<le> c \<and> c < b \<longrightarrow> used d v s c)"
  using assms
proof (induction "m - k" arbitrary: k s)
  case 0
  then have "m * BPB \<le> k * BPB" by (intro mult_le_mono1) simp
  then show ?case using 0(6,7) by linarith
next
  case (Suc l)
  then have km: "k < m" and lt: "k * BPB < unat (v6_size v)" by simp_all
  let ?bs = "map (\<lambda>k. k * BPB) [Suc k..<m]"
  have l: "map (\<lambda>k. k * BPB) [k..<m] = k * BPB # ?bs" using km by (simp add: upt_conv_Cons)
  from balloc_block [OF Suc.prems(1-4) lt mod_mult_self2_is_0, of ?bs] show ?case
  proof (elim disjE conjE exE)
    fix b s'
    assume "balloc_from (of_nat d) v (k * BPB # ?bs) s = Inr (of_nat b, s')" "balloc_post d v n s b s'"
      "\<forall>c. k * BPB \<le> c \<and> c < b \<longrightarrow> used d v s c"
    then show ?thesis unfolding l by blast
  next
    fix s'
    assume u: "\<forall>c. k * BPB \<le> c \<and> c < k * BPB + BPB \<and> c < unat (v6_size v) \<longrightarrow> used d v s c"
      and e: "balloc_from (of_nat d) v (k * BPB # ?bs) s = balloc_from (of_nat d) v ?bs s'"
      and s': "in_txn d (Suc (Suc n)) s'" "txn_frame d s' = txn_frame d s" "bio_lock s' = bio_lock s" "bio_view s' = bio_view s"
        "\<forall>j. bio_lock s j \<noteq> None \<longrightarrow> b_data (bufs s' j) = b_data (bufs s j)"
    note us = used_same [OF s'(4), of d v]
    have nx: "Suc k * BPB \<le> b1" using u Suc.prems(5,7,8) by (metis add.commute mult_Suc not_le)
    have "\<exists>b t. balloc_from (of_nat d) v ?bs s' = Inr (of_nat b, t) \<and> balloc_post d v n s' b t \<and>
        (\<forall>c. Suc k * BPB \<le> c \<and> c < b \<longrightarrow> used d v s' c)"
      using Suc.hyps(2) Suc.prems layout_frame(1) [OF s'(2)] nx s' us
      by (intro Suc.hyps(1)) (simp_all add: meta_used_def locks_ok_def)
    then obtain b t where t: "balloc_from (of_nat d) v ?bs s' = Inr (of_nat b, t)" "balloc_post d v n s' b t"
      "\<forall>c. Suc k * BPB \<le> c \<and> c < b \<longrightarrow> used d v s' c" by blast
    have "used d v s c" if "k * BPB \<le> c" "c < b" for c
      using t(2,3) u that us by (cases "Suc k * BPB \<le> c") (auto simp: balloc_post_def)
    moreover have "balloc_post d v n s b t" using balloc_same [OF s'(4,3,2) _ t(2)] s'(5) by blast
    ultimately show ?thesis unfolding l using e t(1) by auto
  qed
qed

text \<open>The blocks the search reaches: the bitmap blocks that as many blocks as there are inodes have.\<close>

definition searched :: "v6_superblock \<Rightarrow> nat" where
  "searched v = (unat (v6_ninodes v) + BPB - 1) div BPB * BPB"

lemma balloc_ok:
  fixes s :: "'a logst_scheme"
  assumes "in_txn d (Suc (Suc n)) s" and "layout_ok d v s" and "meta_used d v s" and "locks_ok d v s"
    and "b1 < searched v" and "b1 < unat (v6_size v)" and "\<not> used d v s b1"
  obtains b s' where "v6_balloc (of_nat d) s = Inr (of_nat b, s')" and "balloc_post d v n s b s'"
    and "\<And>c. c < b \<Longrightarrow> used d v s c"
proof -
  have "b1 < (unat (v6_ninodes v) + BPB - 1) div BPB * BPB" using assms(5) by (simp add: searched_def)
  from balloc_from_ok [OF assms(1-4) _ this assms(6,7), of 0] obtain b s' where
    "balloc_from (of_nat d) v (map (\<lambda>k. k * BPB) [0..<(unat (v6_ninodes v) + BPB - 1) div BPB]) s = Inr (of_nat b, s')"
    "balloc_post d v n s b s'" "\<forall>c. 0 * BPB \<le> c \<and> c < b \<longrightarrow> used d v s c" by auto
  then show thesis using that layoutD(1) [OF assms(2)] by (simp add: v6_balloc_def)
qed

text \<open>With every block the search reaches in use, allocation panics.\<close>

lemma balloc_from_full:
  fixes s :: "'a logst_scheme"
  assumes "in_txn d (Suc (Suc n)) s" and "layout_ok d v s" and "meta_used d v s" and "locks_ok d v s"
    and "\<forall>b. k * BPB \<le> b \<and> b < m * BPB \<and> b < unat (v6_size v) \<longrightarrow> used d v s b"
    and "k < m \<Longrightarrow> (m - 1) * BPB < unat (v6_size v)"
  shows "balloc_from (of_nat d) v (map (\<lambda>k. k * BPB) [k..<m]) s = Inl (Panic ''balloc: out of blocks'')"
  using assms
proof (induction "m - k" arbitrary: k s)
  case (Suc l)
  let ?bs = "map (\<lambda>k. k * BPB) [Suc k..<m]"
  have km: "k < m" using Suc by simp
  then have "k * BPB \<le> (m - 1) * BPB" by (intro mult_le_mono1) simp
  then have lt: "k * BPB < unat (v6_size v)" using Suc.prems(6) km by linarith
  have l: "map (\<lambda>k. k * BPB) [k..<m] = k * BPB # ?bs" using km by (simp add: upt_conv_Cons)
  from balloc_block [OF Suc.prems(1-4) lt mod_mult_self2_is_0, of ?bs] show ?case
  proof (elim disjE conjE exE)
    fix b s'
    assume b: "balloc_from (of_nat d) v (k * BPB # ?bs) s = Inr (of_nat b, s')" "balloc_post d v n s b s'"
      "k * BPB \<le> b" "b < k * BPB + BPB" "\<forall>c. k * BPB \<le> c \<and> c < b \<longrightarrow> used d v s c"
    have "Suc k * BPB \<le> m * BPB" using km by (intro mult_le_mono1) simp
    then have "b < m * BPB" using b(4) by simp
    then show ?thesis using Suc.prems(5) b(2,3) by (auto simp: balloc_post_def)
  next
    fix s'
    assume e: "balloc_from (of_nat d) v (k * BPB # ?bs) s = balloc_from (of_nat d) v ?bs s'"
      and s': "in_txn d (Suc (Suc n)) s'" "txn_frame d s' = txn_frame d s" "bio_lock s' = bio_lock s" "bio_view s' = bio_view s"
    note us = used_same [OF s'(4), of d v]
    have "balloc_from (of_nat d) v ?bs s' = Inl (Panic ''balloc: out of blocks'')"
      using Suc.hyps(2) Suc.prems layout_frame(1) [OF s'(2)] s' us
      by (intro Suc.hyps(1)) (simp_all add: meta_used_def locks_ok_def)
    then show ?thesis unfolding l using e by simp
  qed
qed simp


text \<open>Block \<open>b\<close>, which was in use, is free, and nothing outside the bitmap has changed.\<close>

definition bfree_post :: "nat \<Rightarrow> v6_superblock \<Rightarrow> nat \<Rightarrow> 'a logst_scheme \<Rightarrow> nat \<Rightarrow> 'a logst_scheme \<Rightarrow> bool" where
  "bfree_post d v n s b s' \<longleftrightarrow> used d v s b \<and> in_txn d n s' \<and> txn_frame d s' = txn_frame d s \<and>
     bio_lock s' = bio_lock s \<and> (\<forall>c<unat (v6_size v). used d v s' c \<longleftrightarrow> c \<noteq> b \<and> used d v s c) \<and>
     (\<forall>k. k \<notin> bitmap_keys d v \<longrightarrow> bio_view s' k = bio_view s k) \<and>
     (\<forall>j. bio_lock s j \<noteq> None \<longrightarrow> b_data (bufs s' j) = b_data (bufs s j))"

lemma bfree_ok:
  fixes s :: "'a logst_scheme"
  assumes "in_txn d (Suc n) s" and "layout_ok d v s" and "ran (bio_lock s) \<inter> bitmap_keys d v = {}"
    and "card (ran (bio_lock s)) \<le> 2" and "b < unat (v6_size v)"
  shows "\<not> used d v s b \<Longrightarrow> v6_bfree (of_nat d) (of_nat b) s = Inl (Panic ''freeing free block'')"
    and "used d v s b \<Longrightarrow> \<exists>s'. v6_bfree (of_nat d) (of_nat b) s = Inr s' \<and> bfree_post d v n s b s'"
proof -
  let ?K = "(of_nat d :: u32, BBLOCK (of_nat b) v)"
  have K: "?K \<in> bitmap_keys d v" using assms(5) by (auto simp: bitmap_keys_def)
  have ok: "txn_ok d s ?K" and nl: "?K \<notin> ran (bio_lock s)"
    using layoutD(3) [OF assms(2,5)] K assms(3) by auto
  have ub: "unat (of_nat b :: u32) = b" by (rule unat_of_nat_size [OF assms(5)])
  note sbs = layoutD(1,2) [OF assms(2)]
  obtain i s1 where b: "bread (of_nat d) (BBLOCK (of_nat b) v) s = Inr (i, s1)" and g: "clip BSIZE (b_data (bufs s1 i)) = bio_view s ?K"
    and w: "\<And>x. \<exists>s2 s3. log_store i x s1 = Inr s2 \<and> brelse i s2 = Inr s3 \<and> in_txn d n s3 \<and>
      txn_frame d s3 = txn_frame d s \<and> bio_lock s3 = bio_lock s \<and> bio_view s3 = (bio_view s)(?K := clip BSIZE x) \<and>
      (\<forall>j. bio_lock s j \<noteq> None \<longrightarrow> b_data (bufs s3 j) = b_data (bufs s j))"
    using tx.modify_block [OF assms(1) ok nl assms(4)] by (metis fst_conv snd_conv)
  let ?m = "b_data (bufs s1 i)"
  have bit: "map_bit ?m j = map_bit (bio_view s ?K) j" if "j < BPB" for j
    using that g by (metis map_bit_clip)
  have u: "used d v s b = map_bit ?m (b mod BPB)" by (simp add: used_def bit)
  show "v6_bfree (of_nat d) (of_nat b) s = Inl (Panic ''freeing free block'')" if "\<not> used d v s b"
    using that b sbs by (simp add: v6_bfree_def ub u)
  show "\<exists>s'. v6_bfree (of_nat d) (of_nat b) s = Inr s' \<and> bfree_post d v n s b s'" if ul: "used d v s b"
  proof -
    let ?x = "clear_map_bit ?m (b mod BPB)"
    obtain s2 s3 where 3: "log_store i ?x s1 = Inr s2" "brelse i s2 = Inr s3" "in_txn d n s3"
      "txn_frame d s3 = txn_frame d s" "bio_lock s3 = bio_lock s" "bio_view s3 = (bio_view s)(?K := clip BSIZE ?x)"
      "\<forall>j. bio_lock s j \<noteq> None \<longrightarrow> b_data (bufs s3 j) = b_data (bufs s j)"
      using w [of ?x] by blast
    have "used d v s3 c \<longleftrightarrow> (if c = b then False else used d v s c)" if "c < unat (v6_size v)" for c
      by (rule used_upd [OF assms(2,5) that, of _ ?x]) (use 3(6) bit in \<open>auto simp: map_bit_upd\<close>)
    then have "bfree_post d v n s b s3" using ul 3 K by (auto simp: bfree_post_def)
    moreover have "v6_bfree (of_nat d) (of_nat b) s = Inr s3"
      using b sbs ul 3(1,2) by (simp add: v6_bfree_def ub u log_store_def)
    ultimately show ?thesis by blast
  qed
qed

end
