(* ===== verification/V6_Tree.thy ===== *)
theory V6_Tree
  imports V6_Alloc
begin

text \<open>
  The block tree of a file: the addresses in the inode, and those in its indirect blocks, as a
  function from paths to block numbers. A path is a slot of \<open>addrs\<close> followed by indices into indirect
  blocks. The lemmas say what linking a new block into the tree and writing a data block do to it.
\<close>

section \<open>Paths\<close>

primrec follow :: "(u32 \<Rightarrow> bytes) \<Rightarrow> u32 \<Rightarrow> nat list \<Rightarrow> u32" where
  "follow V a [] = a"
| "follow V a (i # is) = (if a = 0 then 0 else follow V (get32 (V a) (4 * i)) is)"

fun ptr :: "(u32 \<Rightarrow> bytes) \<Rightarrow> (nat \<Rightarrow> u32) \<Rightarrow> nat list \<Rightarrow> u32" where
  "ptr V A [] = 0"
| "ptr V A (k # is) = follow V (A k) is"

fun vpath :: "nat list \<Rightarrow> bool" where
  "vpath [k] = (k < NDIRECT + 2)"
| "vpath [k, i] = ((k = NDIRECT \<or> k = NDIRECT + 1) \<and> i < NINDIRECT)"
| "vpath [k, i, j] = (k = NDIRECT + 1 \<and> i < NINDIRECT \<and> j < NINDIRECT)"
| "vpath _ = False"

definition bpath :: "nat \<Rightarrow> nat list" where
  "bpath bn = (if bn < NDIRECT then [bn]
     else if bn - NDIRECT < NINDIRECT then [NDIRECT, bn - NDIRECT]
     else let m = bn - NDIRECT - NINDIRECT in [NDIRECT + 1, m div NINDIRECT, m mod NINDIRECT])"

lemma follow_append:
  "follow V a (xs @ [i]) = (if follow V a xs = 0 then 0 else get32 (V (follow V a xs)) (4 * i))"
  by (induction xs arbitrary: a) auto

lemma ptr_append:
  "q \<noteq> [] \<Longrightarrow> ptr V A (q @ [i]) = (if ptr V A q = 0 then 0 else get32 (V (ptr V A q)) (4 * i))"
  by (cases q) (simp_all add: follow_append)

lemma vpath_append:
  assumes "vpath (q @ [i])"
  shows "q = [] \<or> vpath q" and "q \<noteq> [] \<Longrightarrow> i < NINDIRECT"
proof -
  have "length (q @ [i]) \<le> 3" using assms by (cases "q @ [i]" rule: vpath.cases) auto
  then have "length q \<le> 2" by simp
  then consider "q = []" | a where "q = [a]" | a b where "q = [a, b]"
    by (cases q; cases "tl q"; cases "tl (tl q)"; force)
  then have "(q = [] \<or> vpath q) \<and> (q \<noteq> [] \<longrightarrow> i < NINDIRECT)" using assms by cases auto
  then show "q = [] \<or> vpath q" "q \<noteq> [] \<Longrightarrow> i < NINDIRECT" by auto
qed

lemma NINDIRECT_pos [simp]: "0 < NINDIRECT"
  by (simp add: NINDIRECT_def)

lemma vpath_bpath:
  assumes "bn < MAXFILE"
  shows "vpath (bpath bn)"
proof (cases "bn < NDIRECT \<or> bn - NDIRECT < NINDIRECT")
  case False
  then have "bn - NDIRECT - NINDIRECT < NINDIRECT * NINDIRECT" using assms unfolding MAXFILE_def by linarith
  then have "(bn - NDIRECT - NINDIRECT) div NINDIRECT < NINDIRECT" by (rule less_mult_imp_div_less)
  then show ?thesis using False by (simp add: bpath_def Let_def)
qed (auto simp: bpath_def)

lemma bpath_leaf: "\<not> vpath (bpath bn @ [i])"
  by (simp add: bpath_def Let_def)

lemma bpath_inj:
  assumes "bpath a = bpath b"
  shows "a = b"
proof (cases "bpath a" rule: vpath.cases)
  case (3 k i j)
  then have "\<not> a - NDIRECT < NINDIRECT" "\<not> b - NDIRECT < NINDIRECT" "\<not> a < NDIRECT" "\<not> b < NDIRECT"
    using assms by (auto simp: bpath_def Let_def split: if_splits)
  moreover from this have "a - NDIRECT - NINDIRECT = b - NDIRECT - NINDIRECT"
    using assms by (simp add: bpath_def Let_def) (metis div_mult_mod_eq)
  ultimately show ?thesis by linarith
qed (use assms in \<open>auto simp: bpath_def Let_def split: if_splits\<close>)

section \<open>Changes of the tree\<close>

text \<open>A tree in which every block that occurs satisfies \<open>P\<close> and occurs once.\<close>

definition tree_ok :: "(u32 \<Rightarrow> bool) \<Rightarrow> (u32 \<Rightarrow> bytes) \<Rightarrow> (nat \<Rightarrow> u32) \<Rightarrow> bool" where
  "tree_ok P V A \<longleftrightarrow> (\<forall>p. vpath p \<and> ptr V A p \<noteq> 0 \<longrightarrow> P (ptr V A p)) \<and>
     (\<forall>p q. vpath p \<and> vpath q \<and> ptr V A p = ptr V A q \<and> ptr V A p \<noteq> 0 \<longrightarrow> p = q)"

definition tree :: "(u32 \<Rightarrow> bytes) \<Rightarrow> (nat \<Rightarrow> u32) \<Rightarrow> u32 set" where
  "tree V A = {ptr V A p |p. vpath p \<and> ptr V A p \<noteq> 0}"

text \<open>
  Block \<open>b\<close>, all zero and not in the tree, is linked at the path \<open>q @ [i]\<close> where there was nothing: in
  the inode, or in the block at \<open>q\<close>.
\<close>

definition linked :: "nat list \<Rightarrow> nat \<Rightarrow> u32 \<Rightarrow> (u32 \<Rightarrow> bytes) \<Rightarrow> (nat \<Rightarrow> u32) \<Rightarrow> (u32 \<Rightarrow> bytes) \<Rightarrow> (nat \<Rightarrow> u32) \<Rightarrow> bool" where
  "linked q i b V A V' A' \<longleftrightarrow> b \<noteq> 0 \<and> b \<notin> tree V A \<and> V' b = (\<lambda>_. 0) \<and> vpath (q @ [i]) \<and>
     ptr V A (q @ [i]) = 0 \<and>
     (if q = [] then A' = A(i := b) \<and> (\<forall>c\<in>tree V A. V' c = V c)
      else A' = A \<and> ptr V A q \<noteq> 0 \<and> V' (ptr V A q) = clip BSIZE (put32 (V (ptr V A q)) (4 * i) b) \<and>
        (\<forall>c\<in>tree V A - {ptr V A q}. V' c = V c))"

lemma in_tree: "vpath p \<Longrightarrow> ptr V A p \<noteq> 0 \<Longrightarrow> ptr V A p \<in> tree V A"
  by (auto simp: tree_def)

lemma get32_clip: "i < NINDIRECT \<Longrightarrow> get32 (clip BSIZE m) (4 * i) = get32 m (4 * i)"
  by (intro get_le_clip) (simp add: NINDIRECT_def BSIZE_def)

lemma get32_put32: "get32 (put32 m (4 * i) x) (4 * j) = (if i = j then x else get32 m (4 * j))"
  using get32_put32_array [of m 0 i x j] by simp

lemma tree_okD:
  assumes "tree_ok P V A" and "vpath p" and "ptr V A p \<noteq> 0"
  shows "P (ptr V A p)" and "vpath q \<Longrightarrow> ptr V A p = ptr V A q \<Longrightarrow> p = q"
  using assms unfolding tree_ok_def by blast+

lemma linked_ptr:
  assumes "tree_ok P V A" and "linked q i b V A V' A'" and "vpath p"
  shows "ptr V' A' p = (if p = q @ [i] then b else ptr V A p)"
  using assms(3)
proof (induction p rule: rev_induct)
  case (snoc j r)
  note l = assms(2) [unfolded linked_def]
  show ?case
  proof (cases "r = []")
    case True
    then show ?thesis using l by (auto split: if_splits)
  next
    case r: False
    then have v: "vpath r" "j < NINDIRECT" using vpath_append [OF snoc.prems] by auto
    note IH = snoc.IH [OF v(1)]
    note pa = ptr_append [OF r]
    consider "r = q @ [i]" | "r \<noteq> q @ [i]" "ptr V A r = 0" | "r = q" "ptr V A r \<noteq> 0" | "r \<noteq> q @ [i]" "r \<noteq> q" "ptr V A r \<noteq> 0"
      by auto
    then show ?thesis
    proof cases
      case 1
      then show ?thesis using l IH unfolding pa by simp
    next
      case 2
      then have "r \<noteq> q" using l r by (auto split: if_splits)
      then show ?thesis using 2 IH unfolding pa by simp
    next
      case 3
      then have e: "V' (ptr V A q) = clip BSIZE (put32 (V (ptr V A q)) (4 * i) b)" using l r by (simp split: if_splits)
      show ?thesis using 3 IH v(2) unfolding pa by (auto simp: e get32_clip get32_put32)
    next
      case 4
      have "ptr V A r \<in> tree V A" by (rule in_tree [OF v(1) 4(3)])
      moreover have "ptr V A r \<noteq> ptr V A q" if "q \<noteq> []"
        using tree_okD(2) [OF assms(1) v(1) 4(3), of q] 4(2) that l vpath_append(1) [of q i] by blast
      ultimately have "V' (ptr V A r) = V (ptr V A r)" using l by (cases "q = []") simp_all
      then show ?thesis using 4 IH unfolding pa by simp
    qed
  qed
qed simp

lemma linkedD:
  assumes "linked q i b V A V' A'"
  shows "vpath (q @ [i])" and "b \<noteq> 0" and "b \<notin> tree V A" and "ptr V A (q @ [i]) = 0" and "V' b = (\<lambda>_. 0)"
    and "q \<noteq> [] \<Longrightarrow> ptr V A q \<in> tree V A"
proof -
  show v: "vpath (q @ [i])" "b \<noteq> 0" "b \<notin> tree V A" "ptr V A (q @ [i]) = 0" "V' b = (\<lambda>_. 0)"
    using assms unfolding linked_def by blast+
  show "ptr V A q \<in> tree V A" if "q \<noteq> []"
    using assms that vpath_append(1) [OF v(1)] in_tree [of q] by (simp add: linked_def)
qed

lemma linked_tree:
  assumes "tree_ok P V A" and "linked q i b V A V' A'"
  shows "tree V' A' = insert b (tree V A)"
proof
  note lp = linked_ptr [OF assms] and l = linkedD [OF assms(2)]
  show "tree V' A' \<subseteq> insert b (tree V A)" using lp in_tree [of _ V A]
    by (auto simp: tree_def [of V' A'] split: if_splits)
  have "x \<in> tree V' A'" if x: "x \<in> tree V A" for x
  proof -
    obtain p where p: "vpath p" "ptr V A p \<noteq> 0" "x = ptr V A p" using x by (auto simp: tree_def)
    then have "ptr V' A' p = x" using lp l(4) by auto
    then show ?thesis using in_tree [OF p(1), of V' A'] p by simp
  qed
  moreover have "b \<in> tree V' A'" using in_tree [OF l(1), of V' A'] lp [OF l(1)] l(2) by simp
  ultimately show "insert b (tree V A) \<subseteq> tree V' A'" by blast
qed

lemma linked_tree_ok:
  assumes "tree_ok P V A" and "linked q i b V A V' A'" and "P' b" and "\<And>c. P c \<Longrightarrow> P' c"
  shows "tree_ok P' V' A'"
  unfolding tree_ok_def
proof (intro conjI allI impI)
  note lp = linked_ptr [OF assms(1,2)] and l = linkedD [OF assms(2)]
  fix p p'
  show "P' (ptr V' A' p)" if "vpath p \<and> ptr V' A' p \<noteq> 0"
    using that lp [of p] assms(3,4) tree_okD(1) [OF assms(1), of p] by (cases "p = q @ [i]") simp_all
  have b: "ptr V A r \<noteq> b" if "vpath r" for r using in_tree [OF that, of V A] l(2,3) by auto
  show "p = p'" if "vpath p \<and> vpath p' \<and> ptr V' A' p = ptr V' A' p' \<and> ptr V' A' p \<noteq> 0"
    using that lp [of p] lp [of p'] tree_okD(2) [OF assms(1), of p p'] b [of p] b [of p'] by metis
qed

lemma tree_cong:
  assumes "\<And>p. vpath p \<Longrightarrow> ptr V' A' p = ptr V A p"
  shows "tree V' A' = tree V A" and "tree_ok P V' A' = tree_ok P V A"
proof -
  show "tree V' A' = tree V A" unfolding tree_def using assms by (metis (no_types, opaque_lifting))
  show "tree_ok P V' A' = tree_ok P V A" unfolding tree_ok_def by (simp add: assms cong: conj_cong)
qed

text \<open>The tree depends on the blocks of the tree only.\<close>

lemma ptr_cong:
  assumes "\<And>c. c \<in> tree V A \<Longrightarrow> V' c = V c" and "vpath p"
  shows "ptr V' A p = ptr V A p"
  using assms(2)
proof (induction p rule: rev_induct)
  case (snoc j r)
  show ?case
  proof (cases "r = []")
    case r: False
    then have v: "vpath r" using vpath_append [OF snoc.prems] by auto
    then show ?thesis using snoc.IH [OF v] assms(1) in_tree [OF v, of V A] unfolding ptr_append [OF r] by auto
  qed simp
qed simp

text \<open>Writing the block of a leaf changes no pointer.\<close>

lemma written_ptr:
  assumes "tree_ok P V A" and "bn < MAXFILE" and "ptr V A (bpath bn) \<noteq> 0"
    and "\<forall>c\<in>tree V A - {ptr V A (bpath bn)}. V' c = V c" and "vpath p"
  shows "ptr V' A p = ptr V A p"
  using assms(5)
proof (induction p rule: rev_induct)
  case (snoc j r)
  show ?case
  proof (cases "r = []")
    case r: False
    then have v: "vpath r" "r \<noteq> bpath bn" using vpath_append [OF snoc.prems] snoc.prems bpath_leaf by auto
    have "V' (ptr V A r) = V (ptr V A r)" if "ptr V A r \<noteq> 0"
      using tree_okD(2) [OF assms(1) v(1) that vpath_bpath [OF assms(2)]] assms(4) v(2) in_tree [OF v(1) that] by auto
    then show ?thesis using snoc.IH [OF v(1)] unfolding ptr_append [OF r] by auto
  qed simp
qed simp

end
