(* ===== verification/V6_File.thy ===== *)
theory V6_File
  imports V6_Tree
begin

text \<open>
  The contents of a file: a file is the bytes of the blocks its tree maps, and zero where the tree maps
  none. \<open>v6_bmap\<close> grows the tree without changing the contents, \<open>v6_readi\<close> returns the contents and
  \<open>v6_writei\<close> replaces a range of them.
\<close>

section \<open>Changes outside the block layer\<close>

definition core :: "'a logst_scheme \<Rightarrow>
    emmc \<times> nat list \<times> (nat \<Rightarrow> buf) \<times> nat list \<times> (nat \<Rightarrow> superblock) \<times> (nat \<Rightarrow> log)" where
  "core s = (sdcard s, devque s, bufs s, lru s, sb s, klog s)"

lemma core_env:
  fixes s :: "'a logst_scheme"
  assumes "core s' = core s"
  shows "blk_ok (bio_env s') = blk_ok (bio_env s)" and "home_ok (bio_env s') = home_ok (bio_env s)"
    and "log_wf (bio_env s') = log_wf (bio_env s)"
  using assms home_ok_cong(1,3) [of s' s]
  by (simp_all add: core_def blk_ok_def key_sector_def bio_env_def fun_eq_iff)

lemma core_bio:
  fixes s :: "'a logst_scheme"
  assumes "core s' = core s"
  shows "bio_lock s' = bio_lock s" and "bio_dirty s' = bio_dirty s" and "kdisk s' = kdisk s" and "bio_view s' = bio_view s"
    and "bkey s' = bkey s"
proof -
  have e: "sdcard s' = sdcard s" "bufs s' = bufs s" "sb s' = sb s" using assms by (simp_all add: core_def)
  show "bio_lock s' = bio_lock s" "bio_dirty s' = bio_dirty s" "kdisk s' = kdisk s" "bio_view s' = bio_view s" "bkey s' = bkey s"
    by (simp_all add: e fun_eq_iff bio_lock_def bio_dirty_def bio_view_def kdisk_def disk_def blk_sector_def bkey_def
        cong: option.case_cong)
qed

lemma core_txn:
  fixes s :: "'a logst_scheme"
  assumes "core s' = core s"
  shows "in_txn d n s' = in_txn d n s" and "layout_ok d v s' = layout_ok d v s" and "used d v s' = used d v s"
    and "meta_used d v s' = meta_used d v s" and "txn_ok d s' = txn_ok d s"
proof -
  note e = core_env [OF assms] core_bio [OF assms]
  have "bio_inv s' = bio_inv s"
    using assms unfolding bio_inv_def e by (simp add: core_def parts_disjoint_def)
  then show "in_txn d n s' = in_txn d n s" using assms by (simp add: in_txn_def e core_def)
  show t: "txn_ok d s' = txn_ok d s" using assms by (simp add: fun_eq_iff txn_ok_def e core_def)
  show "layout_ok d v s' = layout_ok d v s" unfolding layout_ok_def t using assms by (simp add: core_def)
  show u: "used d v s' = used d v s" by (rule used_same [OF core_bio(4) [OF assms]])
  show "meta_used d v s' = meta_used d v s" by (simp add: meta_used_def u)
qed

lemma core_i_upd [simp]: "core (i_upd ip f s) = core s"
  by (simp add: core_def i_upd_def)

lemmas i_upd_same = core_txn [OF core_i_upd] core_bio [OF core_i_upd]

lemma i_upd_fields [simp]:
  "icache (i_upd ip f s) = (icache s)(ip := f (icache s ip))" "sb (i_upd ip f s) = sb s" "klog (i_upd ip f s) = klog s"
  "bufs (i_upd ip f s) = bufs s" "sdcard (i_upd ip f s) = sdcard s" "this (i_upd ip f s) = this s" "con (i_upd ip f s) = con s"
  by (simp_all add: i_upd_def)

section \<open>Files\<close>

text \<open>What an operation on the file at \<open>ip\<close> does not change: everything but its addresses, its size and blocks.\<close>

definition fs_frame :: "nat \<Rightarrow> nat \<Rightarrow> 'a fsst_scheme \<Rightarrow> (nat \<Rightarrow> superblock) \<times> (u32 \<Rightarrow> bytes) \<times> (u32 \<Rightarrow> bool) \<times> lgeo \<times>
    (nat \<Rightarrow> inode) \<times> (nat \<Rightarrow> mntentry) \<times> vfs list \<times> filesystem_type list \<times> vfs option \<times> cons \<times> timespec \<times> proc \<times> 'a" where
  "fs_frame d ip s = (sb s, base (sdcard s), broken (sdcard s), lgeo (klog s d),
     (icache s)(ip := (icache s ip)\<lparr>i_addrs := (\<lambda>_. 0), i_size := 0\<rparr>), mtable s, vfsmlist s, vfssw s, rootfs s, con s,
     xtime s, this s, fsst.more s)"

definition dview :: "nat \<Rightarrow> 'a logst_scheme \<Rightarrow> u32 \<Rightarrow> bytes" where
  "dview d s b = bio_view s (of_nat d, b)"

abbreviation fptr :: "nat \<Rightarrow> nat \<Rightarrow> 'a fsst_scheme \<Rightarrow> nat list \<Rightarrow> u32" where
  "fptr d ip s \<equiv> ptr (dview d s) (i_addrs (icache s ip))"

abbreviation ftree :: "nat \<Rightarrow> nat \<Rightarrow> 'a fsst_scheme \<Rightarrow> u32 set" where
  "ftree d ip s \<equiv> tree (dview d s) (i_addrs (icache s ip))"

definition data_used :: "nat \<Rightarrow> v6_superblock \<Rightarrow> 'a logst_scheme \<Rightarrow> u32 \<Rightarrow> bool" where
  "data_used d v s b \<longleftrightarrow> data_start v \<le> unat b \<and> unat b < unat (v6_size v) \<and> used d v s (unat b)"

text \<open>
  The file at \<open>ip\<close>, on device \<open>d\<close> with superblock \<open>v\<close>: the blocks of its tree are data blocks in use,
  each at one place of the tree.
\<close>

definition file_ok :: "nat \<Rightarrow> v6_superblock \<Rightarrow> nat \<Rightarrow> 'a fsst_scheme \<Rightarrow> bool" where
  "file_ok d v ip s \<longleftrightarrow> layout_ok d v s \<and> meta_used d v s \<and> bio_lock s = (\<lambda>_. None) \<and>
     i_dev (icache s ip) = of_nat d \<and> tree_ok (data_used d v s) (dview d s) (i_addrs (icache s ip))"

definition free_blocks :: "nat \<Rightarrow> v6_superblock \<Rightarrow> 'a logst_scheme \<Rightarrow> nat set" where
  "free_blocks d v s = {b. b < searched v \<and> b < unat (v6_size v) \<and> \<not> used d v s b}"

definition fblock :: "nat \<Rightarrow> nat \<Rightarrow> 'a fsst_scheme \<Rightarrow> nat \<Rightarrow> bytes" where
  "fblock d ip s bn = (if fptr d ip s (bpath bn) = 0 then (\<lambda>_. 0) else dview d s (fptr d ip s (bpath bn)))"

definition file_byte :: "nat \<Rightarrow> nat \<Rightarrow> 'a fsst_scheme \<Rightarrow> nat \<Rightarrow> u8" where
  "file_byte d ip s i = fblock d ip s (i div BSIZE) (i mod BSIZE)"

text \<open>
  The tree of the file has grown from \<open>s\<close> to \<open>s'\<close> by blocks that were free, and nothing else has changed:
  the blocks it had are where they were, and all other blocks, those of other files included, keep
  what they hold. The contents may have changed only in file blocks that \<open>W\<close> allows.
\<close>

definition extends :: "nat set \<Rightarrow> nat \<Rightarrow> v6_superblock \<Rightarrow> nat \<Rightarrow> 'a fsst_scheme \<Rightarrow> 'a fsst_scheme \<Rightarrow> bool" where
  "extends W d v ip s s' \<longleftrightarrow> file_ok d v ip s' \<and> fs_frame d ip s' = fs_frame d ip s \<and>
     i_size (icache s' ip) = i_size (icache s ip) \<and>
     (\<forall>bn<MAXFILE. bn \<notin> W \<longrightarrow> fblock d ip s' bn = fblock d ip s bn) \<and>
     (\<forall>p. vpath p \<and> fptr d ip s p \<noteq> 0 \<longrightarrow> fptr d ip s' p = fptr d ip s p) \<and>
     (\<forall>b\<in>ftree d ip s' - ftree d ip s. \<not> used d v s (unat b)) \<and>
     (\<forall>b<unat (v6_size v). used d v s' b \<longleftrightarrow> used d v s b \<or> of_nat b \<in> ftree d ip s') \<and>
     (\<forall>k. k \<notin> bitmap_keys d v \<and> k \<notin> Pair (of_nat d) ` ftree d ip s' \<longrightarrow> bio_view s' k = bio_view s k)"

lemma file_okD:
  assumes "file_ok d v ip s"
  shows "layout_ok d v s" and "meta_used d v s" and "bio_lock s = (\<lambda>_. None)" and "i_dev (icache s ip) = of_nat d"
    and "tree_ok (data_used d v s) (dview d s) (i_addrs (icache s ip))"
  using assms by (simp_all add: file_ok_def)

lemma extendsD:
  assumes "extends W d v ip s s'"
  shows "file_ok d v ip s'" and "fs_frame d ip s' = fs_frame d ip s" and "i_size (icache s' ip) = i_size (icache s ip)"
    and "bn < MAXFILE \<Longrightarrow> bn \<notin> W \<Longrightarrow> fblock d ip s' bn = fblock d ip s bn"
    and "vpath p \<Longrightarrow> fptr d ip s p \<noteq> 0 \<Longrightarrow> fptr d ip s' p = fptr d ip s p"
    and "b \<in> ftree d ip s' \<Longrightarrow> b \<in> ftree d ip s \<or> \<not> used d v s (unat b)"
    and "c < unat (v6_size v) \<Longrightarrow> used d v s' c \<longleftrightarrow> used d v s c \<or> of_nat c \<in> ftree d ip s'"
    and "k \<notin> bitmap_keys d v \<Longrightarrow> k \<notin> Pair (of_nat d) ` ftree d ip s' \<Longrightarrow> bio_view s' k = bio_view s k"
  using assms unfolding extends_def by blast+

lemma tree_data:
  assumes "file_ok d v ip s" and "b \<in> ftree d ip s"
  shows "data_used d v s b" and "b \<noteq> 0" and "(of_nat d, b) \<notin> bitmap_keys d v"
proof -
  obtain p where p: "vpath p" "fptr d ip s p \<noteq> 0" "b = fptr d ip s p" using assms(2) by (auto simp: tree_def)
  then show u: "data_used d v s b" "b \<noteq> 0" using tree_okD(1) [OF file_okD(5) [OF assms(1)]] by auto
  then show "(of_nat d, b) \<notin> bitmap_keys d v"
    using data_not_bitmap [OF file_okD(1) [OF assms(1)], of "unat b"] by (simp add: data_used_def)
qed

lemma extends_tree:
  assumes "extends W d v ip s s'"
  shows "ftree d ip s \<subseteq> ftree d ip s'"
proof
  fix b assume "b \<in> ftree d ip s"
  then obtain p where "vpath p" "fptr d ip s p \<noteq> 0" "b = fptr d ip s p" by (auto simp: tree_def)
  then show "b \<in> ftree d ip s'" using extendsD(5) [OF assms] in_tree by metis
qed

lemma extends_trans:
  assumes "extends W d v ip s t" and "extends W' d v ip t u"
  shows "extends (W \<union> W') d v ip s u"
  unfolding extends_def
proof (intro conjI allI impI ballI)
  note a = extendsD [OF assms(1)] and b = extendsD [OF assms(2)]
  show "file_ok d v ip u" "fs_frame d ip u = fs_frame d ip s" "i_size (icache u ip) = i_size (icache s ip)"
    using a b by simp_all
  show "fblock d ip u bn = fblock d ip s bn" if "bn < MAXFILE" "bn \<notin> W \<union> W'" for bn
    using a(4) b(4) that by simp
  show "fptr d ip u p = fptr d ip s p" if "vpath p \<and> fptr d ip s p \<noteq> 0" for p
    using a(5) b(5) that by simp
  show "\<not> used d v s (unat c)" if c: "c \<in> ftree d ip u - ftree d ip s" for c
  proof -
    have "unat c < unat (v6_size v)" using tree_data(1) [OF b(1)] c by (auto simp: data_used_def)
    then show ?thesis using a(6,7) b(6) c by blast
  qed
  show "used d v u c \<longleftrightarrow> used d v s c \<or> of_nat c \<in> ftree d ip u" if "c < unat (v6_size v)" for c
    using a(7) b(7) that extends_tree [OF assms(2)] by auto
  show "bio_view u k = bio_view s k" if "k \<notin> bitmap_keys d v \<and> k \<notin> Pair (of_nat d) ` ftree d ip u" for k
  proof -
    have "k \<notin> Pair (of_nat d) ` ftree d ip t" using that extends_tree [OF assms(2)] by auto
    then show ?thesis using a(8) b(8) that by simp
  qed
qed

lemma tree_used: "file_ok d v ip s \<Longrightarrow> c < unat (v6_size v) \<Longrightarrow> of_nat c \<in> ftree d ip s \<Longrightarrow> used d v s c"
  using tree_data(1) [of d v ip s "of_nat c"] unat_of_nat_size [of c v] by (simp add: data_used_def)

lemma extends_refl: "file_ok d v ip s \<Longrightarrow> extends W d v ip s s"
  using tree_used [of d v ip s] by (auto simp: extends_def)

text \<open>A file is the same where its addresses, its blocks and the bitmap are the same.\<close>

lemma file_same:
  assumes f: "file_ok d v ip s" and s': "layout_ok d v s'" "bio_lock s' = (\<lambda>_. None)" "i_dev (icache s' ip) = i_dev (icache s ip)"
      "i_addrs (icache s' ip) = i_addrs (icache s ip)"
    and u: "\<And>c. c < unat (v6_size v) \<Longrightarrow> used d v s' c = used d v s c"
    and w: "\<And>c. c \<in> ftree d ip s \<Longrightarrow> dview d s' c = dview d s c"
  shows "file_ok d v ip s'" and "\<And>p. vpath p \<Longrightarrow> fptr d ip s' p = fptr d ip s p" and "ftree d ip s' = ftree d ip s"
    and "\<And>bn. bn < MAXFILE \<Longrightarrow> fblock d ip s' bn = fblock d ip s bn" and "free_blocks d v s' = free_blocks d v s"
proof -
  note ok = file_okD [OF f]
  show p: "fptr d ip s' p = fptr d ip s p" if "vpath p" for p using ptr_cong [OF w that] by (simp add: s'(4))
  show "ftree d ip s' = ftree d ip s" by (rule tree_cong(1) [OF p])
  show "fblock d ip s' bn = fblock d ip s bn" if "bn < MAXFILE" for bn
    using p [OF vpath_bpath [OF that]] w [OF in_tree [OF vpath_bpath [OF that]]] by (simp add: fblock_def)
  show "free_blocks d v s' = free_blocks d v s" using u by (auto simp: free_blocks_def)
  have "data_used d v s' = data_used d v s" using u by (auto simp: fun_eq_iff data_used_def)
  moreover have "meta_used d v s'" using ok(2) u layoutD(5) [OF ok(1)] by (auto simp: meta_used_def)
  ultimately show "file_ok d v ip s'" using s'(1-3) ok(4,5) tree_cong(2) [OF p] by (simp add: file_ok_def)
qed

text \<open>One free block linked into the tree.\<close>

lemma extends_link:
  assumes f: "file_ok d v ip s" and b: "data_start v \<le> b" "b < unat (v6_size v)" "\<not> used d v s b"
    and s': "layout_ok d v s'" "bio_lock s' = (\<lambda>_. None)" "fs_frame d ip s' = fs_frame d ip s" "i_size (icache s' ip) = i_size (icache s ip)"
    and u: "\<And>c. c < unat (v6_size v) \<Longrightarrow> used d v s' c \<longleftrightarrow> c = b \<or> used d v s c"
    and l: "linked q i (of_nat b) (dview d s) (i_addrs (icache s ip)) (dview d s') (i_addrs (icache s' ip))"
    and w: "\<And>k. k \<notin> bitmap_keys d v \<Longrightarrow> k \<noteq> (of_nat d, of_nat b) \<Longrightarrow> (q \<noteq> [] \<Longrightarrow> k \<noteq> (of_nat d, fptr d ip s q)) \<Longrightarrow>
      bio_view s' k = bio_view s k"
  shows "extends {} d v ip s s'" and "fptr d ip s' (q @ [i]) = of_nat b" and "free_blocks d v s' = free_blocks d v s - {b}"
proof -
  note ok = file_okD [OF f] and ld = linkedD [OF l]
  note lp = linked_ptr [OF ok(5) l] and t = linked_tree [OF ok(5) l]
  show "fptr d ip s' (q @ [i]) = of_nat b" using lp [OF ld(1)] by simp
  have ub: "unat (of_nat b :: u32) = b" by (rule unat_of_nat_size [OF b(2)])
  have mu: "meta_used d v s'" using ok(2) u layoutD(5) [OF ok(1)] by (auto simp: meta_used_def)
  have du: "data_used d v s' c" if "c = of_nat b \<or> data_used d v s c" for c
    using that b u ub by (auto simp: data_used_def)
  note to = linked_tree_ok [OF ok(5) l, of "data_used d v s'", OF du du, OF disjI1 [OF refl] disjI2]
  have dev: "i_dev (icache s' ip) = of_nat d"
  proof -
    have "(icache s')(ip := (icache s' ip)\<lparr>i_addrs := (\<lambda>_. 0), i_size := 0\<rparr>) =
        (icache s)(ip := (icache s ip)\<lparr>i_addrs := (\<lambda>_. 0), i_size := 0\<rparr>)" using s'(3) by (simp add: fs_frame_def)
    from arg_cong [OF fun_cong [OF this, of ip], of i_dev] show ?thesis using ok(4) by simp
  qed
  have fb: "fblock d ip s' bn = fblock d ip s bn" if bn: "bn < MAXFILE" for bn
  proof (cases "bpath bn = q @ [i] \<or> fptr d ip s (bpath bn) = 0")
    case True
    then show ?thesis using lp [OF vpath_bpath [OF bn]] ld(4,5) by (auto simp: fblock_def)
  next
    case False
    let ?c = "fptr d ip s (bpath bn)"
    have c: "?c \<in> ftree d ip s" using False in_tree [OF vpath_bpath [OF bn]] by blast
    have "?c \<noteq> fptr d ip s q" if "q \<noteq> []"
      using tree_okD(2) [OF ok(5) vpath_bpath [OF bn], of q] False ld(1) that vpath_append(1) [OF ld(1)] bpath_leaf [of bn i] by auto
    moreover have "?c \<noteq> of_nat b" using c ld(3) by auto
    ultimately have "dview d s' ?c = dview d s ?c"
      using tree_data(3) [OF f c] w [of "(of_nat d, ?c)"] by (simp add: dview_def)
    then show ?thesis using False lp [OF vpath_bpath [OF bn]] by (simp add: fblock_def)
  qed
  have "file_ok d v ip s'" using s' mu dev to by (simp add: file_ok_def)
  moreover have "bio_view s' k = bio_view s k" if k: "k \<notin> bitmap_keys d v" "k \<notin> Pair (of_nat d) ` ftree d ip s'" for k
    using k ld(6) t by (intro w) auto
  moreover have "used d v s' c \<longleftrightarrow> used d v s c \<or> of_nat c \<in> ftree d ip s'" if "c < unat (v6_size v)" for c
  proof -
    have "(of_nat c :: u32) = of_nat b \<longleftrightarrow> c = b" using ub unat_of_nat_size [OF that] by metis
    then show ?thesis using u [OF that] t tree_used [OF f that] by auto
  qed
  moreover have "\<not> used d v s (unat c)" if "c \<in> ftree d ip s' - ftree d ip s" for c using that t b(3) ub by auto
  moreover have "fptr d ip s' p = fptr d ip s p" if "vpath p" "fptr d ip s p \<noteq> 0" for p using lp [OF that(1)] that(2) ld(4) by auto
  ultimately show "extends {} d v ip s s'" using s'(3,4) fb unfolding extends_def by blast
  show "free_blocks d v s' = free_blocks d v s - {b}" using u by (auto simp: free_blocks_def)
qed

section \<open>Reading does not change the file\<close>

definition quiet :: "nat \<Rightarrow> 'a logst_scheme \<Rightarrow> 'a logst_scheme \<Rightarrow> bool" where
  "quiet d s s' \<longleftrightarrow> txn_frame d s' = txn_frame d s \<and> bio_view s' = bio_view s \<and> bio_lock s' = bio_lock s"

lemma quiet_trans: "quiet d s t \<Longrightarrow> quiet d t u \<Longrightarrow> quiet d s u"
  by (simp add: quiet_def)

lemma more_fields:
  fixes s :: "'a fsst_scheme"
  assumes "txn_frame d s' = txn_frame d s"
  shows "icache s' = icache s" and "this s' = this s" and "con s' = con s" and "fs_frame d ip s' = fs_frame d ip s"
proof -
  have f: "sb s' = sb s" "base (sdcard s') = base (sdcard s)" "broken (sdcard s') = broken (sdcard s)"
      "lgeo (klog s' d) = lgeo (klog s d)" and m: "logst.more s' = logst.more s"
    using assms by (simp_all add: txn_frame_def)
  have g: "icache s' = icache s" "mtable s' = mtable s" "vfsmlist s' = vfsmlist s" "vfssw s' = vfssw s" "rootfs s' = rootfs s"
      "con s' = con s" "xtime s' = xtime s" "this s' = this s" "fsst.more s' = fsst.more s"
    using m by (cases s; cases s'; simp)+
  show "icache s' = icache s" "this s' = this s" "con s' = con s" "fs_frame d ip s' = fs_frame d ip s"
    by (simp_all add: f g fs_frame_def)
qed

lemma quiet_same:
  fixes s :: "'a fsst_scheme"
  assumes "quiet d s s'"
  shows "icache s' = icache s" and "dview d s' = dview d s" and "used d v s' = used d v s" and "bio_lock s' = bio_lock s"
    and "file_ok d v ip s' = file_ok d v ip s" and "fblock d ip s' = fblock d ip s"
    and "free_blocks d v s' = free_blocks d v s" and "this s' = this s"
proof -
  have q: "txn_frame d s' = txn_frame d s" "bio_view s' = bio_view s" "bio_lock s' = bio_lock s"
    using assms by (simp_all add: quiet_def)
  show i: "icache s' = icache s" "this s' = this s" by (rule more_fields [OF q(1)])+
  show v: "dview d s' = dview d s" by (simp add: fun_eq_iff dview_def q)
  show u: "used d v s' = used d v s" by (rule used_same [OF q(2)])
  show "bio_lock s' = bio_lock s" by (rule q)
  have "data_used d v s' = data_used d v s" by (simp add: fun_eq_iff data_used_def u)
  then show "file_ok d v ip s' = file_ok d v ip s"
    using layout_frame(1) [OF q(1)] by (simp add: file_ok_def i v u q meta_used_def)
  show "fblock d ip s' = fblock d ip s" by (simp add: fun_eq_iff fblock_def i v)
  show "free_blocks d v s' = free_blocks d v s" by (simp add: free_blocks_def u)
qed

lemma extends_quiet:
  fixes s :: "'a fsst_scheme"
  assumes "file_ok d v ip s" and "quiet d s s'"
  shows "extends W d v ip s s'"
proof -
  note q = quiet_same [OF assms(2)]
  have "bio_view s' = bio_view s" "fs_frame d ip s' = fs_frame d ip s"
    using assms(2) more_fields(4) [of d s' s] by (auto simp: quiet_def)
  then show ?thesis using assms(1) tree_used [OF assms(1)] by (auto simp: extends_def q)
qed

lemma in_txn_mono: "in_txn d m s \<Longrightarrow> n \<le> m \<Longrightarrow> in_txn d n s"
  by (auto simp: in_txn_def)

lemma data_txn_ok: "layout_ok d v s \<Longrightarrow> data_used d v s b \<Longrightarrow> txn_ok d s (of_nat d, b)"
  using layoutD(4) [of d v s "unat b"] by (simp add: data_used_def)

text \<open>A block of the tree read while no buffer is locked.\<close>

lemma read_tree_block:
  fixes s :: "'a fsst_scheme"
  assumes "in_txn d n s" and "file_ok d v ip s" and "b \<in> ftree d ip s"
  obtains i s1 s2 where "bread (of_nat d) b s = Inr (i, s1)" and "clip BSIZE (b_data (bufs s1 i)) = dview d s b"
    and "in_txn d n s1" and "txn_frame d s1 = txn_frame d s" and "bio_lock s1 = [i \<mapsto> (of_nat d, b)]" and "bio_view s1 = bio_view s"
    and "brelse i s1 = Inr s2" and "in_txn d n s2" and "quiet d s s2"
proof -
  note ok = file_okD [OF assms(2)]
  have t: "txn_ok d s (of_nat d, b)" using data_txn_ok [OF ok(1)] tree_data(1) [OF assms(2,3)] by simp
  have l: "(of_nat d, b) \<notin> ran (bio_lock s)" "card (ran (bio_lock s)) \<le> 2" by (simp_all add: ok(3))
  show thesis
    by (rule tx.read_release [OF assms(1) t l], rule that)
      (simp_all add: quiet_def dview_def ok(3))
qed

section \<open>The block map\<close>

text \<open>
  A step of \<open>v6_bmap\<close> at the path \<open>p\<close>: the block number it returns is the one at \<open>p\<close>, at most \<open>m\<close> blocks
  have been allocated, and \<open>n\<close> more may be logged.
\<close>

definition bmap_post ::
  "nat \<Rightarrow> v6_superblock \<Rightarrow> nat \<Rightarrow> nat \<Rightarrow> nat \<Rightarrow> nat list \<Rightarrow> 'a fsst_scheme \<Rightarrow> u32 \<Rightarrow> 'a fsst_scheme \<Rightarrow> bool" where
  "bmap_post d v ip n m p s a s' \<longleftrightarrow> a = fptr d ip s' p \<and> a \<noteq> 0 \<and> extends {} d v ip s s' \<and> in_txn d n s' \<and>
     card (free_blocks d v s) \<le> card (free_blocks d v s') + m"

lemma finite_free [simp]: "finite (free_blocks d v s)"
  by (rule finite_subset [of _ "{..<searched v}"]) (auto simp: free_blocks_def)

lemma card_free_link: "free_blocks d v s' = free_blocks d v s - {b} \<Longrightarrow> card (free_blocks d v s) \<le> card (free_blocks d v s') + 1"
  using card_Diff1_le [of "free_blocks d v s" b] by (cases "b \<in> free_blocks d v s") (simp_all add: card_Diff_singleton_if)

lemma balloc_fresh:
  fixes s :: "'a fsst_scheme"
  assumes "file_ok d v ip s" and "balloc_post d v n t b u" and "bio_view t = bio_view s"
  shows "data_start v \<le> b" and "b < unat (v6_size v)" and "\<not> used d v s b" and "in_txn d n u" and "bio_lock u = bio_lock t"
    and "\<And>c. c < unat (v6_size v) \<Longrightarrow> used d v u c \<longleftrightarrow> c = b \<or> used d v s c"
    and "(of_nat b :: u32) \<noteq> 0" and "of_nat b \<notin> ftree d ip s" and "dview d u (of_nat b) = (\<lambda>_. 0)"
    and "\<And>c. c \<in> ftree d ip s \<Longrightarrow> dview d u c = dview d s c"
    and "\<And>k. k \<notin> bitmap_keys d v \<Longrightarrow> k \<noteq> (of_nat d, of_nat b) \<Longrightarrow> bio_view u k = bio_view s k"
    and "txn_frame d u = txn_frame d t"
proof -
  note us = used_same [OF assms(3), of d v]
  show bp: "data_start v \<le> b" "b < unat (v6_size v)" "\<not> used d v s b" "in_txn d n u" "bio_lock u = bio_lock t"
    "\<And>c. c < unat (v6_size v) \<Longrightarrow> used d v u c \<longleftrightarrow> c = b \<or> used d v s c"
    "\<And>k. k \<notin> bitmap_keys d v \<Longrightarrow> k \<noteq> (of_nat d, of_nat b) \<Longrightarrow> bio_view u k = bio_view s k"
    "txn_frame d u = txn_frame d t"
    using assms(2) unfolding balloc_post_def us assms(3) by blast+
  have ub: "unat (of_nat b :: u32) = b" using bp(2) by (rule unat_of_nat_size)
  then show "(of_nat b :: u32) \<noteq> 0" using bp(1) layoutD(6) [OF file_okD(1) [OF assms(1)]] by auto
  show nt: "of_nat b \<notin> ftree d ip s"
    using tree_data(1) [OF assms(1), of "of_nat b"] bp(3) by (auto simp: data_used_def ub)
  show "dview d u (of_nat b) = (\<lambda>_. 0)" using assms(2) by (simp add: balloc_post_def dview_def)
  show "dview d u c = dview d s c" if "c \<in> ftree d ip s" for c
    using bp(7) [of "(of_nat d, c)"] tree_data(3) [OF assms(1) that] that nt by (auto simp: dview_def)
qed

lemma free_blockE:
  assumes "free_blocks d v s \<noteq> {}"
  obtains b where "b < searched v" "b < unat (v6_size v)" "\<not> used d v s b"
  using assms by (auto simp: free_blocks_def)

lemma bmap_slot_ok:
  fixes s :: "'a fsst_scheme"
  assumes "in_txn d (Suc (Suc n)) s" and "file_ok d v ip s" and "k < NDIRECT + 2" and "free_blocks d v s \<noteq> {}"
  shows "\<exists>a s'. bmap_slot ip k s = Inr (a, s') \<and> bmap_post d v ip n 1 [k] s a s'"
proof (cases "i_addrs (icache s ip) k = 0")
  case False
  then show ?thesis
    using assms extends_refl [OF assms(2)] in_txn_mono [OF assms(1), of n] by (auto simp: bmap_slot_def bmap_post_def)
next
  case True
  note ok = file_okD [OF assms(2)]
  have lo: "locks_ok d v s" by (simp add: locks_ok_def ok(3))
  obtain b1 where b1: "b1 < searched v" "b1 < unat (v6_size v)" "\<not> used d v s b1"
    by (rule free_blockE [OF assms(4)])
  obtain b s1 where b: "v6_balloc (of_nat d) s = Inr (of_nat b, s1)" "balloc_post d v n s b s1"
    by (rule balloc_ok [OF assms(1) ok(1,2) lo b1])
  note bf = balloc_fresh [OF assms(2) b(2) refl]
  note m = more_fields [OF bf(12)]
  let ?s = "i_upd ip (\<lambda>I. I\<lparr>i_addrs := (i_addrs I)(k := of_nat b)\<rparr>) s1"
  have dv: "dview d ?s = dview d s1" by (simp add: fun_eq_iff dview_def i_upd_same)
  have l: "linked [] k (of_nat b) (dview d s) (i_addrs (icache s ip)) (dview d ?s) (i_addrs (icache ?s ip))"
    using True assms(3) bf(7-10) by (simp add: linked_def dv m)
  have fr: "fs_frame d ip ?s = fs_frame d ip s" using m(4) [of ip] by (simp add: fs_frame_def m i_upd_def)
  have lk: "bio_lock ?s = (\<lambda>_. None)" and la: "layout_ok d v ?s"
    using ok(1,3) bf(5) layout_frame(1) [OF bf(12)] by (simp_all add: i_upd_same)
  have sz: "i_size (icache ?s ip) = i_size (icache s ip)" by (simp add: m)
  have u: "used d v ?s c \<longleftrightarrow> c = b \<or> used d v s c" if "c < unat (v6_size v)" for c
    using bf(6) [OF that] by (simp add: i_upd_same)
  have w: "bio_view ?s x = bio_view s x" if "x \<notin> bitmap_keys d v" "x \<noteq> (of_nat d, of_nat b)" for x
    using bf(11) [OF that] by (simp add: i_upd_same)
  note e = extends_link [OF assms(2) bf(1-3) la lk fr sz u l w]
  have "bmap_post d v ip n 1 [k] s (of_nat b) ?s"
    unfolding bmap_post_def using bf(4,7) card_free_link [OF e(3)] e(1,2) by (simp add: i_upd_same)
  moreover have "bmap_slot ip k s = Inr (of_nat b, ?s)" using True b(1) by (simp add: bmap_slot_def ok(4))
  ultimately show ?thesis by blast
qed

lemma put_le_local: "f i = g i \<Longrightarrow> put_le k f a x i = put_le k g a x i"
proof (induction k arbitrary: f g a x)
  case (Suc k)
  show ?case unfolding put_le.simps by (rule Suc.IH) (use Suc.prems in simp)
qed simp

lemma put_le_clip: "clip n (put_le k (clip n m) a x) = clip n (put_le k m a x)"
  unfolding clip_eq_iff by (intro allI impI put_le_local) (simp add: clip_apply)

lemma bmap_indirect_read:
  fixes s :: "'a fsst_scheme"
  assumes "in_txn d n s" and "file_ok d v ip s" and "vpath (q @ [i])" and "q \<noteq> []" and "fptr d ip s q \<noteq> 0"
  obtains j s1 s2 where "bread (of_nat d) (fptr d ip s q) s = Inr (j, s1)"
    and "clip BSIZE (b_data (bufs s1 j)) = dview d s (fptr d ip s q)"
    and "in_txn d n s1" and "txn_frame d s1 = txn_frame d s" and "bio_lock s1 = [j \<mapsto> (of_nat d, fptr d ip s q)]"
    and "bio_view s1 = bio_view s" and "get32 (b_data (bufs s1 j)) (4 * i) = fptr d ip s (q @ [i])"
    and "fptr d ip s (q @ [i]) \<noteq> 0 \<Longrightarrow> bmap_indirect (of_nat d) (fptr d ip s q) i s = Inr (fptr d ip s (q @ [i]), s2)"
    and "in_txn d n s2" and "quiet d s s2"
proof -
  let ?c = "fptr d ip s q"
  have i: "i < NINDIRECT" and vq: "vpath q" using vpath_append [OF assms(3)] assms(4) by auto
  obtain j s1 s2 where 1: "bread (of_nat d) ?c s = Inr (j, s1)" "clip BSIZE (b_data (bufs s1 j)) = dview d s ?c"
      "in_txn d n s1" "txn_frame d s1 = txn_frame d s" "bio_lock s1 = [j \<mapsto> (of_nat d, ?c)]" "bio_view s1 = bio_view s"
      "brelse j s1 = Inr s2" "in_txn d n s2" "quiet d s s2"
    by (rule read_tree_block [OF assms(1,2) in_tree [OF vq assms(5)]])
  have g: "get32 (b_data (bufs s1 j)) (4 * i) = fptr d ip s (q @ [i])"
    using get32_clip [OF i, of "b_data (bufs s1 j)"] assms(5) by (simp add: ptr_append [OF assms(4)] 1(2))
  have "bmap_indirect (of_nat d) ?c i s = Inr (fptr d ip s (q @ [i]), s2)" if "fptr d ip s (q @ [i]) \<noteq> 0"
    using that 1(1,7) by (simp add: bmap_indirect_def g Let_def)
  then show thesis using that 1 g by blast
qed

lemma bmap_indirect_ok:
  fixes s :: "'a fsst_scheme"
  assumes "in_txn d (Suc (Suc (Suc n))) s" and "file_ok d v ip s" and "vpath (q @ [i])" and "q \<noteq> []" and "fptr d ip s q \<noteq> 0"
    and "free_blocks d v s \<noteq> {}"
  shows "\<exists>a s'. bmap_indirect (of_nat d) (fptr d ip s q) i s = Inr (a, s') \<and> bmap_post d v ip n 1 (q @ [i]) s a s'"
proof -
  let ?c = "fptr d ip s q"
  note ok = file_okD [OF assms(2)]
  have vq: "vpath q" using vpath_append [OF assms(3)] assms(4) by auto
  have c: "?c \<in> ftree d ip s" by (rule in_tree [OF vq assms(5)])
  note cd = tree_data [OF assms(2) c]
  obtain j s1 s2 where 1: "bread (of_nat d) ?c s = Inr (j, s1)" "clip BSIZE (b_data (bufs s1 j)) = dview d s ?c"
      "in_txn d (Suc (Suc (Suc n))) s1" "txn_frame d s1 = txn_frame d s" "bio_lock s1 = [j \<mapsto> (of_nat d, ?c)]" "bio_view s1 = bio_view s"
      "in_txn d (Suc (Suc (Suc n))) s2" "quiet d s s2"
    and g: "get32 (b_data (bufs s1 j)) (4 * i) = fptr d ip s (q @ [i])"
    and p: "fptr d ip s (q @ [i]) \<noteq> 0 \<Longrightarrow> bmap_indirect (of_nat d) ?c i s = Inr (fptr d ip s (q @ [i]), s2)"
    by (rule bmap_indirect_read [OF assms(1-5)], rule that)
  show ?thesis
  proof (cases "fptr d ip s (q @ [i]) = 0")
    case False
    then show ?thesis using p extends_quiet [OF assms(2) 1(8)] in_txn_mono [OF 1(7), of n] quiet_same [OF 1(8)]
      by (auto simp: bmap_post_def)
  next
    case True
    have us: "used d v s1 = used d v s" by (rule used_same [OF 1(6)])
    have "used d v s x" if "x < unat (v6_size v)" "of_nat x = ?c" for x
      using tree_used [OF assms(2) that(1)] c that(2) by simp
    then have lo: "locks_ok d v s1" using cd by (auto simp: locks_ok_def 1(5) us)
    have ms: "layout_ok d v s1" "meta_used d v s1" using ok(1,2) layout_frame(1) [OF 1(4)] by (simp_all add: meta_used_def us)
    obtain b1 where b1: "b1 < searched v" "b1 < unat (v6_size v)" "\<not> used d v s1 b1"
      by (rule free_blockE [OF assms(6)]) (simp add: us)
    obtain b t where b: "v6_balloc (of_nat d) s1 = Inr (of_nat b, t)" "balloc_post d v (Suc n) s1 b t"
      by (rule balloc_ok [OF 1(3) ms lo b1])
    note bf = balloc_fresh [OF assms(2) b(2) 1(6)]
    let ?x = "put32 (b_data (bufs s1 j)) (4 * i) (of_nat b)"
    have dt: "b_data (bufs t j) = b_data (bufs s1 j)" using b(2) by (simp add: balloc_post_def 1(5))
    have lt: "bio_lock t j = Some (of_nat d, ?c)" by (simp add: bf(5) 1(5))
    obtain t2 s' where 2: "log_store j ?x t = Inr t2" "brelse j t2 = Inr s'" "in_txn d n s'" "txn_frame d s' = txn_frame d t"
        "bio_lock s' = (bio_lock t)(j := None)" "bio_view s' = (bio_view t)((of_nat d, ?c) := clip BSIZE ?x)"
      by (rule tx.store_release [OF bf(4) lt, of ?x])
    have tf: "txn_frame d s' = txn_frame d s" using 2(4) bf(12) 1(4) by simp
    note m = more_fields [OF tf]
    have dv: "dview d s' = (dview d t)(?c := clip BSIZE ?x)" by (auto simp: fun_eq_iff dview_def 2(6))
    have cx: "clip BSIZE ?x = clip BSIZE (put32 (dview d s ?c) (4 * i) (of_nat b))"
      unfolding 1(2) [symmetric] put_le_clip ..
    have l: "linked q i (of_nat b) (dview d s) (i_addrs (icache s ip)) (dview d s') (i_addrs (icache s' ip))"
      using True assms(3-5) bf(7-10) c by (auto simp: linked_def dv m cx)
    have lk: "bio_lock s' = (\<lambda>_. None)" and la: "layout_ok d v s'"
      using ok(1) layout_frame(1) [OF tf] by (simp_all add: 2(5) bf(5) 1(5))
    have w: "bio_view s' k = bio_view s k"
      if "k \<notin> bitmap_keys d v" "k \<noteq> (of_nat d, of_nat b)" "q \<noteq> [] \<Longrightarrow> k \<noteq> (of_nat d, ?c)" for k
      using bf(11) [OF that(1,2)] that(3) [OF assms(4)] by (simp add: 2(6))
    have u: "used d v s' x \<longleftrightarrow> x = b \<or> used d v s x" if "x < unat (v6_size v)" for x
      using bf(6) [OF that] cd(3) that by (auto simp: used_def 2(6) bitmap_keys_def)
    have sz: "i_size (icache s' ip) = i_size (icache s ip)" by (simp add: m)
    note e = extends_link [OF assms(2) bf(1-3) la lk m(4) sz u l w]
    have "bmap_post d v ip n 1 (q @ [i]) s (of_nat b) s'"
      unfolding bmap_post_def using 2(3) bf(7) card_free_link [OF e(3)] e(1,2) by simp
    moreover have "bmap_indirect (of_nat d) ?c i s = Inr (of_nat b, s')"
      using True 1(1) b(1) 2(1,2) by (simp add: bmap_indirect_def g dt log_store_def)
    ultimately show ?thesis by blast
  qed
qed

lemma bmap_post_trans:
  assumes "bmap_post d v ip n m p s a t" and "bmap_post d v ip n' m' p' t a' u"
  shows "bmap_post d v ip n' (m + m') p' s a' u"
  using assms extends_trans [of "{}" d v ip s t "{}" u] by (auto simp: bmap_post_def)

lemma bmap_postD:
  assumes "bmap_post d v ip n m p s a t"
  shows "a = fptr d ip t p" and "fptr d ip t p \<noteq> 0" and "file_ok d v ip t" and "in_txn d n t" and "i_dev (icache t ip) = of_nat d"
    and "m < card (free_blocks d v s) \<Longrightarrow> free_blocks d v t \<noteq> {}" and "extends {} d v ip s t"
  using assms file_okD(4) [OF extendsD(1), of "{}" d v ip s t] extendsD(1) [of "{}" d v ip s t]
  by (auto simp: bmap_post_def)

lemma bmap_post_mono: "bmap_post d v ip n m p s a t \<Longrightarrow> n' \<le> n \<Longrightarrow> m \<le> m' \<Longrightarrow> bmap_post d v ip n' m' p s a t"
  using in_txn_mono [of d n t n'] by (auto simp: bmap_post_def)

text \<open>
  \<open>v6_bmap\<close> in a transaction: with three free blocks and room for eight log entries, it returns the
  block of every file block number below \<open>MAXFILE\<close>, whether the tree had it or not.
\<close>

lemma bmap_ok:
  fixes s :: "'a fsst_scheme"
  assumes "in_txn d (n + 8) s" and "file_ok d v ip s" and "bn < MAXFILE" and "3 \<le> card (free_blocks d v s)"
  shows "\<exists>a s'. v6_bmap ip bn s = Inr (a, s') \<and> bmap_post d v ip n 3 (bpath bn) s a s'"
proof -
  have fr: "free_blocks d v s \<noteq> {}" using assms(4) by auto
  have slot: "\<exists>a s1. bmap_slot ip k s = Inr (a, s1) \<and> bmap_post d v ip (n + 6) 1 [k] s a s1" if "k < NDIRECT + 2" for k
    using bmap_slot_ok [of d "n + 6" s v ip k] assms(1,2) that fr by (simp add: add.commute)
  have ind: "\<exists>a' u. bmap_indirect (i_dev (icache t ip)) a i t = Inr (a', u) \<and> bmap_post d v ip x (Suc m) (p @ [i]) s a' u"
    if t: "bmap_post d v ip y m p s a t" and p: "vpath (p @ [i])" "p \<noteq> []" "m < 3" "y = x + 3" for t a p i m x y
  proof -
    note tD = bmap_postD [OF t]
    have "free_blocks d v t \<noteq> {}" using tD(6) assms(4) p(3) by simp
    then obtain a' u where u: "bmap_indirect (of_nat d) (fptr d ip t p) i t = Inr (a', u)" "bmap_post d v ip x 1 (p @ [i]) t a' u"
      using bmap_indirect_ok [of d x t v ip p i] tD(2-4) p by (auto simp: add.commute numeral_3_eq_3)
    then show ?thesis using bmap_post_trans [OF t u(2)] by (simp add: tD(1,5))
  qed
  consider "bn < NDIRECT" | "\<not> bn < NDIRECT" "bn - NDIRECT < NINDIRECT"
    | "\<not> bn < NDIRECT" "\<not> bn - NDIRECT < NINDIRECT" by blast
  then show ?thesis
  proof cases
    case 1
    then obtain a s1 where "bmap_slot ip bn s = Inr (a, s1)" "bmap_post d v ip (n + 6) 1 [bn] s a s1" using slot [of bn] by auto
    then show ?thesis using 1 bmap_post_mono [of d v ip "n + 6" 1 "[bn]" s a s1 n 3] by (simp add: v6_bmap_def bpath_def)
  next
    case 2
    obtain a s1 where s1: "bmap_slot ip NDIRECT s = Inr (a, s1)" "bmap_post d v ip (n + 6) 1 [NDIRECT] s a s1"
      using slot [of NDIRECT] by auto
    obtain a' u where u: "bmap_indirect (i_dev (icache s1 ip)) a (bn - NDIRECT) s1 = Inr (a', u)"
        "bmap_post d v ip (n + 3) 2 [NDIRECT, bn - NDIRECT] s a' u"
      using ind [OF s1(2), of "bn - NDIRECT" "n + 3"] 2 by (auto simp: numeral_2_eq_2)
    then show ?thesis using 2 s1(1) bmap_post_mono [OF u(2), of n 3] by (simp add: v6_bmap_def bpath_def)
  next
    case 3
    let ?m = "bn - NDIRECT - NINDIRECT"
    have lt: "?m < NINDIRECT * NINDIRECT" using 3 assms(3) by (simp add: MAXFILE_def)
    then have di: "?m div NINDIRECT < NINDIRECT" by (rule less_mult_imp_div_less)
    obtain a s1 where s1: "bmap_slot ip (NDIRECT + 1) s = Inr (a, s1)" "bmap_post d v ip (n + 6) 1 [NDIRECT + 1] s a s1"
      using slot [of "NDIRECT + 1"] by auto
    obtain a' s2 where s2: "bmap_indirect (i_dev (icache s1 ip)) a (?m div NINDIRECT) s1 = Inr (a', s2)"
        "bmap_post d v ip (n + 3) 2 [NDIRECT + 1, ?m div NINDIRECT] s a' s2"
      using ind [OF s1(2), of "?m div NINDIRECT" "n + 3"] di by (auto simp: numeral_2_eq_2)
    obtain a'' u where u: "bmap_indirect (i_dev (icache s2 ip)) a' (?m mod NINDIRECT) s2 = Inr (a'', u)"
        "bmap_post d v ip n 3 [NDIRECT + 1, ?m div NINDIRECT, ?m mod NINDIRECT] s a'' u"
      using ind [OF s2(2), of "?m mod NINDIRECT" n] di by (auto simp: numeral_3_eq_3)
    then show ?thesis using 3 lt s1(1) s2(1) by (simp add: v6_bmap_def bpath_def Let_def)
  qed
qed

text \<open>Where the tree has a block, \<open>v6_bmap\<close> only reads.\<close>

lemma bmap_indirect_present:
  fixes s :: "'a fsst_scheme"
  assumes "in_txn d n s" and "file_ok d v ip s" and "vpath (q @ [i])" and "q \<noteq> []" and "fptr d ip s (q @ [i]) \<noteq> 0"
  shows "\<exists>s'. bmap_indirect (i_dev (icache s ip)) (fptr d ip s q) i s = Inr (fptr d ip s (q @ [i]), s') \<and> in_txn d n s' \<and> quiet d s s'"
proof -
  have "fptr d ip s q \<noteq> 0" using assms(5) by (auto simp: ptr_append [OF assms(4)])
  from bmap_indirect_read [OF assms(1-4) this] show ?thesis using file_okD(4) [OF assms(2)] assms(5) by metis
qed

lemma bmap_present:
  fixes s :: "'a fsst_scheme"
  assumes "in_txn d n s" and "file_ok d v ip s" and "bn < MAXFILE" and "fptr d ip s (bpath bn) \<noteq> 0"
  shows "\<exists>s'. v6_bmap ip bn s = Inr (fptr d ip s (bpath bn), s') \<and> in_txn d n s' \<and> quiet d s s'"
proof -
  have slot: "bmap_slot ip k s = Inr (fptr d ip s [k], s)" if "fptr d ip s [k] \<noteq> 0" for k
    using that by (simp add: bmap_slot_def)
  have q0: "quiet d s s" by (simp add: quiet_def)
  note vp = vpath_bpath [OF assms(3)]
  consider "bn < NDIRECT" | "\<not> bn < NDIRECT" "bn - NDIRECT < NINDIRECT"
    | "\<not> bn < NDIRECT" "\<not> bn - NDIRECT < NINDIRECT" by blast
  then show ?thesis
  proof cases
    case 1
    then show ?thesis using slot [of bn] assms q0 by (simp add: v6_bmap_def bpath_def)
  next
    case 2
    then have b: "bpath bn = [NDIRECT] @ [bn - NDIRECT]" by (simp add: bpath_def)
    have s0: "fptr d ip s [NDIRECT] \<noteq> 0" using assms(4) unfolding b by auto
    show ?thesis
      using bmap_indirect_present [OF assms(1,2) vp [unfolded b] _ assms(4) [unfolded b]] 2 slot [OF s0]
      unfolding b by (simp add: v6_bmap_def)
  next
    case 3
    let ?m = "bn - NDIRECT - NINDIRECT"
    let ?p = "[NDIRECT + 1] @ [?m div NINDIRECT]"
    have b: "bpath bn = ?p @ [?m mod NINDIRECT]" using 3 by (simp add: bpath_def Let_def)
    have lt: "?m < NINDIRECT * NINDIRECT" using 3 assms(3) by (simp add: MAXFILE_def)
    then have v: "vpath ?p" by (simp add: less_mult_imp_div_less)
    have p0: "fptr d ip s ?p \<noteq> 0" using assms(4) unfolding b by (subst (asm) ptr_append) (auto split: if_splits)
    then have s0: "fptr d ip s [NDIRECT + 1] \<noteq> 0" by auto
    obtain s1 where s1: "bmap_indirect (i_dev (icache s ip)) (fptr d ip s [NDIRECT + 1]) (?m div NINDIRECT) s = Inr (fptr d ip s ?p, s1)"
        "in_txn d n s1" "quiet d s s1"
      using bmap_indirect_present [OF assms(1,2) v _ p0] by auto
    note q = quiet_same [OF s1(3)]
    obtain s2 where s2: "bmap_indirect (i_dev (icache s1 ip)) (fptr d ip s ?p) (?m mod NINDIRECT) s1 = Inr (fptr d ip s (bpath bn), s2)"
        "in_txn d n s2" "quiet d s1 s2"
      using bmap_indirect_present [of d n s1 v ip ?p "?m mod NINDIRECT"] assms(2,4) s1(2) vp unfolding b by (auto simp: q)
    show ?thesis
      using 3 lt slot [OF s0] s1(1) s2 quiet_trans [OF s1(3) s2(3)] by (simp add: v6_bmap_def Let_def)
  qed
qed

end
