(* ===== verification/V6_Inode.thy ===== *)
theory V6_Inode
  imports V6_File
begin

text \<open>
  The on-disk inode: \<open>v6_iupdate\<close> writes it and \<open>v6_ilock\<close> reads it back. The encoding of an inode in
  its 128 bytes is inverted by the decoding and leaves the other inodes of the block alone.
\<close>

section \<open>Encoding\<close>

lemma addrs_array:
  "get32 (fold (\<lambda>k m. put32 m (a + 4 * k) (f k)) [0..<n] m) (a + 4 * j) = (if j < n then f j else get32 m (a + 4 * j))"
  by (induction n) (auto simp: less_Suc_eq)

lemma addrs_frame:
  "i < a \<or> a + 4 * n \<le> i \<Longrightarrow> fold (\<lambda>k m. put32 m (a + 4 * k) (f k)) [0..<n] m i = m i"
  by (induction n) (auto simp: put_le_frame)

lemma put_addrs_frame: "i < a \<or> a + 52 \<le> i \<Longrightarrow> put_addrs m a f i = m i"
  using addrs_frame [of i a 13 f m] by (simp add: put_addrs_def NDIRECT_def)

lemma get_put_addrs:
  "k < NDIRECT + 2 \<Longrightarrow> get32 (put_addrs m a f) (a + 4 * k) = f k"
  "b + n \<le> a \<or> a + 52 \<le> b \<Longrightarrow> get_le n (put_addrs m a f) b = get_le n m b"
proof -
  show "get32 (put_addrs m a f) (a + 4 * k) = f k" if "k < NDIRECT + 2" using that unfolding put_addrs_def addrs_array by simp
  show "get_le n (put_addrs m a f) b = get_le n m b" if "b + n \<le> a \<or> a + 52 \<le> b"
    using that by (intro get_le_cong put_addrs_frame) auto
qed

lemma get_put_time:
  "get_time (put_time m a t) a = t"
  "b + n \<le> a \<or> a + 16 \<le> b \<Longrightarrow> get_le n (put_time m a t) b = get_le n m b"
  "b + 16 \<le> a \<or> a + n \<le> b \<Longrightarrow> get_time (put_le n m a x) b = get_time m b"
  "b + 16 \<le> a \<or> a + 16 \<le> b \<Longrightarrow> get_time (put_time m a t) b = get_time m b"
  "b + 16 \<le> a \<or> a + 52 \<le> b \<Longrightarrow> get_time (put_addrs m a f) b = get_time m b"
  by (cases t; auto simp: get_time_def put_time_def get_put_le_other get_put_addrs)+

lemma get_put_dinode: "get_dinode (put_dinode m a I) a I = I"
proof -
  have "(\<lambda>k. if k < NDIRECT + 2 then get32 (put_dinode m a I) (a + 72 + 4 * k) else i_addrs I k) = i_addrs I"
    by (simp add: fun_eq_iff put_dinode_def Let_def get_put_addrs(1))
  then show ?thesis
    by (simp add: get_dinode_def) (simp add: put_dinode_def Let_def get_put_addrs get_put_time get_put_le_other)
qed

lemma get_dinode_cong:
  assumes "\<And>i. a \<le> i \<Longrightarrow> i < a + 128 \<Longrightarrow> m i = m' i"
  shows "get_dinode m a J = get_dinode m' a J"
proof -
  have g16: "get16 m b = get16 m' b" if "a \<le> b" "b + 2 \<le> a + 128" for b
    using that by (intro get_le_cong assms) auto
  have g32: "get32 m b = get32 m' b" if "a \<le> b" "b + 4 \<le> a + 128" for b
    using that by (intro get_le_cong assms) auto
  have g64: "get64 m b = get64 m' b" if "a \<le> b" "b + 8 \<le> a + 128" for b
    using that by (intro get_le_cong assms) auto
  have ad: "(if k < NDIRECT + 2 then get32 m (a + 72 + 4 * k) else i_addrs J k) =
      (if k < NDIRECT + 2 then get32 m' (a + 72 + 4 * k) else i_addrs J k)" for k
    using g32 [of "a + 72 + 4 * k"] by (simp add: NDIRECT_def)
  have t: "get_time m b = get_time m' b" if "a \<le> b" "b + 16 \<le> a + 128" for b
    using that by (simp add: get_time_def g64)
  have "get16 m a = get16 m' a" "get16 m (a + 2) = get16 m' (a + 2)" "get16 m (a + 4) = get16 m' (a + 4)"
      "get16 m (a + 6) = get16 m' (a + 6)" "get32 m (a + 8) = get32 m' (a + 8)" "get32 m (a + 12) = get32 m' (a + 12)"
      "get32 m (a + 16) = get32 m' (a + 16)" "get32 m (a + 20) = get32 m' (a + 20)"
    by (rule g16 g32; simp)+
  moreover have "get_time m (a + 24) = get_time m' (a + 24)" "get_time m (a + 40) = get_time m' (a + 40)"
      "get_time m (a + 56) = get_time m' (a + 56)"
    by (rule t; simp)+
  ultimately show ?thesis unfolding get_dinode_def ad by (simp only:)
qed

lemma put_addrs_local:
  assumes "f i = g i"
  shows "put_addrs f a A i = put_addrs g a A i"
proof -
  have "fold (\<lambda>k m. put32 m (a + 4 * k) (A k)) [0..<n] f i = fold (\<lambda>k m. put32 m (a + 4 * k) (A k)) [0..<n] g i" for n
    by (induction n) (use assms in \<open>auto intro: put_le_local\<close>)
  then show ?thesis unfolding put_addrs_def .
qed

lemma put_dinode_local:
  assumes "m i = m' i"
  shows "put_dinode m a I i = put_dinode m' a I i"
  unfolding put_dinode_def Let_def put_time_def
  by (intro put_addrs_local put_le_local) (rule assms)

lemma put_dinode_frame: "i < a \<or> a + 128 \<le> i \<Longrightarrow> put_dinode m a I i = m i"
  by (elim disjE) (simp_all add: put_dinode_def Let_def put_addrs_frame put_time_def put_le_frame)

lemma dinode_off_bound: "dinode_off inum + 128 \<le> BSIZE"
proof -
  have "unat inum mod IPB < IPB" by (simp add: IPB_def)
  then show ?thesis by (simp add: dinode_off_def IPB_def BSIZE_def)
qed

lemma clip_put_dinode: "clip n (put_dinode (clip n m) a I) = clip n (put_dinode m a I)"
  unfolding clip_eq_iff by (intro allI impI put_dinode_local) (simp add: clip_apply)

lemma get_dinode_clip: "get_dinode (clip BSIZE m) (dinode_off inum) J = get_dinode m (dinode_off inum) J"
  using dinode_off_bound [of inum] by (intro get_dinode_cong) (simp add: clip_apply)

text \<open>Two inodes of one block do not overlap.\<close>

lemma dinode_off_apart:
  assumes "IBLOCK x v = IBLOCK y v" and "x \<noteq> y"
  shows "dinode_off x + 128 \<le> dinode_off y \<or> dinode_off y + 128 \<le> dinode_off x"
proof -
  have u: "unat (z div of_nat IPB) = unat z div IPB" for z :: u32 by (simp add: unat_div IPB_def)
  have "x div of_nat IPB = y div of_nat IPB" using assms(1) by (simp add: IBLOCK_def)
  then have "unat x div IPB = unat y div IPB" using u by metis
  then have "unat x mod IPB \<noteq> unat y mod IPB" using assms(2) by (metis div_mult_mod_eq word_unat_eq_iff)
  then show ?thesis by (simp add: dinode_off_def) linarith
qed

lemma other_dinode:
  assumes "IBLOCK x v = IBLOCK y v" and "x \<noteq> y"
  shows "get_dinode (put_dinode m (dinode_off x) I) (dinode_off y) J = get_dinode m (dinode_off y) J"
  using dinode_off_apart [OF assms] by (intro get_dinode_cong put_dinode_frame) auto

section \<open>Inode blocks\<close>

definition iblock_ok :: "nat \<Rightarrow> v6_superblock \<Rightarrow> 'a logst_scheme \<Rightarrow> u32 \<Rightarrow> bool" where
  "iblock_ok d v s inum \<longleftrightarrow> txn_ok d s (of_nat d, IBLOCK inum v) \<and> unat (IBLOCK inum v) < data_start v \<and>
     (of_nat d, IBLOCK inum v) \<notin> bitmap_keys d v"

text \<open>The inode with number \<open>inum\<close> as the card and the log have it, over the in-memory fields of \<open>J\<close>.\<close>

definition disk_inode :: "nat \<Rightarrow> v6_superblock \<Rightarrow> 'a logst_scheme \<Rightarrow> u32 \<Rightarrow> inode \<Rightarrow> inode" where
  "disk_inode d v s inum J = get_dinode (bio_view s (of_nat d, IBLOCK inum v)) (dinode_off inum) J"

lemma iupdate_ok:
  fixes s :: "'a fsst_scheme"
  assumes "in_txn d (Suc n) s" and "layout_ok d v s" and "i_dev (icache s ip) = of_nat d"
    and "iblock_ok d v s (i_inum (icache s ip))" and "bio_lock s = (\<lambda>_. None)"
  obtains s' where "v6_iupdate ip s = Inr s'" and "in_txn d n s'" and "txn_frame d s' = txn_frame d s" and "bio_lock s' = (\<lambda>_. None)"
    and "\<And>k. k \<noteq> (of_nat d, IBLOCK (i_inum (icache s ip)) v) \<Longrightarrow> bio_view s' k = bio_view s k"
    and "disk_inode d v s' (i_inum (icache s ip)) (icache s ip) = icache s ip"
    and "\<And>inum J. inum \<noteq> i_inum (icache s ip) \<Longrightarrow> disk_inode d v s' inum J = disk_inode d v s inum J"
proof -
  let ?I = "icache s ip"
  let ?k = "(of_nat d :: u32, IBLOCK (i_inum ?I) v)"
  have t: "txn_ok d s ?k" using assms(4) by (simp add: iblock_ok_def)
  have l: "?k \<notin> ran (bio_lock s)" "card (ran (bio_lock s)) \<le> 2" by (simp_all add: assms(5))
  show thesis
  proof (rule tx.modify_block [OF assms(1) t l])
    fix j s1
    assume b: "bread (fst ?k) (snd ?k) s = Inr (j, s1)" "clip BSIZE (b_data (bufs s1 j)) = bio_view s ?k"
      and w: "\<And>x. \<exists>s2 s3. log_store j x s1 = Inr s2 \<and> brelse j s2 = Inr s3 \<and> in_txn d n s3 \<and>
        txn_frame d s3 = txn_frame d s \<and> bio_lock s3 = bio_lock s \<and> bio_view s3 = (bio_view s)(?k := clip BSIZE x) \<and>
        (\<forall>j. bio_lock s j \<noteq> None \<longrightarrow> b_data (bufs s3 j) = b_data (bufs s j))"
    let ?x = "put_dinode (b_data (bufs s1 j)) (dinode_off (i_inum ?I)) ?I"
    obtain s2 s3 where 3: "log_store j ?x s1 = Inr s2" "brelse j s2 = Inr s3" "in_txn d n s3"
        "txn_frame d s3 = txn_frame d s" "bio_lock s3 = bio_lock s" "bio_view s3 = (bio_view s)(?k := clip BSIZE ?x)"
      using w [of ?x] by blast
    have x: "clip BSIZE ?x = clip BSIZE (put_dinode (bio_view s ?k) (dinode_off (i_inum ?I)) ?I)"
      unfolding b(2) [symmetric] clip_put_dinode ..
    have "disk_inode d v s3 inum J = disk_inode d v s inum J" if "inum \<noteq> i_inum ?I" for inum J
    proof (cases "IBLOCK (i_inum ?I) v = IBLOCK inum v")
      case True
      then show ?thesis using other_dinode [OF True] that by (simp add: disk_inode_def 3(6) x get_dinode_clip)
    qed (simp add: disk_inode_def 3(6))
    moreover have "disk_inode d v s3 (i_inum ?I) ?I = ?I" by (simp add: disk_inode_def 3(6) get_dinode_clip get_put_dinode)
    moreover have "v6_iupdate ip s = Inr s3"
      using b(1) 3(1,2) layoutD(1) [OF assms(2)] by (simp add: v6_iupdate_def Let_def assms(3) log_store_def)
    ultimately show thesis using that 3 assms(5) by simp
  qed
qed

lemma ilock_ok:
  fixes s :: "'a fsst_scheme"
  assumes "in_txn d n s" and "layout_ok d v s" and "i_dev (icache s ip) = of_nat d"
    and "iblock_ok d v s (i_inum (icache s ip))" and "bio_lock s = (\<lambda>_. None)" and "1 \<le> i_ref (icache s ip)"
    and "\<not> sl_locked (i_lock (icache s ip))" and "\<not> i_valid (icache s ip)"
    and "i_type (disk_inode d v s (i_inum (icache s ip)) (icache s ip)) \<noteq> 0"
  shows "\<exists>s'. v6_ilock ip s = Inr s' \<and> in_txn d n s' \<and> bio_view s' = bio_view s \<and> bio_lock s' = (\<lambda>_. None) \<and>
    icache s' = (icache s)(ip := (disk_inode d v s (i_inum (icache s ip)) (icache s ip))
      \<lparr>i_lock := \<lparr>sl_locked = True, sl_pid = p_pid (this s)\<rparr>, i_valid := True\<rparr>)"
proof -
  let ?lk = "\<lparr>sl_locked = True, sl_pid = p_pid (this s)\<rparr>" and ?inum = "i_inum (icache s ip)"
  let ?s0 = "i_upd ip (\<lambda>I. I\<lparr>i_lock := ?lk\<rparr>) s" and ?k = "(of_nat d :: u32, IBLOCK (i_inum (icache s ip)) v)"
  have t: "txn_ok d ?s0 ?k" using assms(4) by (simp add: iblock_ok_def i_upd_same)
  have l: "?k \<notin> ran (bio_lock ?s0)" "card (ran (bio_lock ?s0)) \<le> 2" by (simp_all add: i_upd_same assms(5))
  have i0: "in_txn d n ?s0" using assms(1) by (simp add: i_upd_same)
  obtain j s1 where 1: "bread (of_nat d) (IBLOCK ?inum v) ?s0 = Inr (j, s1)" "in_txn d n s1" "txn_frame d s1 = txn_frame d ?s0"
      "bio_lock s1 = [j \<mapsto> ?k]" "bio_view s1 = bio_view s"
    using tx.txn_bread [OF i0 t l] by (auto simp: i_upd_same assms(5))
  note m1 = more_fields [OF 1(3)]
  have g: "get_dinode (b_data (bufs s1 j)) (dinode_off ?inum) J = disk_inode d v s ?inum J" for J
    using tx.txn_view [OF 1(2), of j ?k] get_dinode_clip [of "b_data (bufs s1 j)" ?inum J] by (simp add: disk_inode_def 1(4,5))
  let ?s1 = "i_upd ip (\<lambda>I. get_dinode (b_data (bufs s1 j)) (dinode_off (i_inum I)) I) s1"
  have "in_txn d n ?s1" "bio_lock ?s1 j = Some ?k" using 1(2,4) by (simp_all add: i_upd_same)
  from tx.txn_brelse [OF this] obtain s2 where 2: "brelse j ?s1 = Inr s2" "in_txn d n s2" "txn_frame d s2 = txn_frame d ?s1"
      "bio_lock s2 = (\<lambda>_. None)" "bio_view s2 = bio_view s"
    by (auto simp: i_upd_same 1)
  note m2 = more_fields [OF 2(3)]
  let ?D = "disk_inode d v s ?inum (icache s ip)"
  have e: "disk_inode d v s ?inum ((icache s ip)\<lparr>i_lock := ?lk\<rparr>) = ?D\<lparr>i_lock := ?lk\<rparr>"
    by (cases "icache s ip") (simp add: disk_inode_def get_dinode_def cong: if_cong)
  let ?s2 = "i_upd ip (\<lambda>I. I\<lparr>i_valid := True\<rparr>) s2"
  have c: "icache ?s2 = (icache s)(ip := ?D\<lparr>i_lock := ?lk, i_valid := True\<rparr>)" by (simp add: m2 m1 g e)
  have dv: "v6_info (of_nat d) ?s0 = Inr v" using layoutD(1) [of d v ?s0] assms(2) by (simp add: i_upd_same)
  have "v6_ilock ip s = Inr ?s2"
    using assms(3,6-9) 1(1) 2(1) c dv
    by (simp add: v6_ilock_def acquiresleep_def Let_def del: fun_upd_apply) (simp add: m1 m2 g e)
  then show ?thesis using 2 c by (intro exI [of _ ?s2]) (simp add: i_upd_same del: i_upd_fields)
qed

end
