(* ===== verification/V6_Rw.thy ===== *)
theory V6_Rw
  imports V6_Inode
begin

text \<open>
  Reading and writing files: \<open>v6_readi\<close> returns the bytes of a file and changes nothing; \<open>v6_writei\<close>
  puts the given bytes into the given range, extends the file and touches no other byte of it and no
  block of another file.
\<close>

section \<open>Reading\<close>

lemma BSIZE_pos [simp]: "0 < BSIZE"
  by (simp add: BSIZE_def)

definition mapped :: "nat \<Rightarrow> nat \<Rightarrow> 'a fsst_scheme \<Rightarrow> nat \<Rightarrow> bool" where
  "mapped d ip s i \<longleftrightarrow> fptr d ip s (bpath (i div BSIZE)) \<noteq> 0"

lemma chunk_div_mod:
  assumes "i < BSIZE - off mod BSIZE"
  shows "(off + i) div BSIZE = off div BSIZE" and "(off + i) mod BSIZE = off mod BSIZE + i"
proof -
  have "off mod BSIZE + i < BSIZE" using assms by simp
  moreover have "off + i = off div BSIZE * BSIZE + (off mod BSIZE + i)" by simp
  ultimately show "(off + i) div BSIZE = off div BSIZE" "(off + i) mod BSIZE = off mod BSIZE + i"
    by (metis BSIZE_pos add_0_right div_less div_mult_self3 less_irrefl, metis mod_less mod_mult_self3)
qed

lemma file_byte_chunk:
  "i < BSIZE - off mod BSIZE \<Longrightarrow> file_byte d ip s (off + i) = fblock d ip s (off div BSIZE) (off mod BSIZE + i)"
  by (simp add: file_byte_def chunk_div_mod)

lemma map_upt_split: "m \<le> n \<Longrightarrow> map f [0..<n] = map f [0..<m] @ map (\<lambda>i. f (m + i)) [0..<n - m]"
  by (rule nth_equalityI) (auto simp: nth_append)

lemma quiet_bytes:
  fixes s :: "'a fsst_scheme"
  assumes "quiet d s s'"
  shows "file_byte d ip s' = file_byte d ip s" and "mapped d ip s' = mapped d ip s"
  by (simp_all add: fun_eq_iff file_byte_def mapped_def quiet_same [OF assms])

text \<open>One block of \<open>v6_readi\<close>, and the whole loop.\<close>

lemma read_chunk:
  fixes s :: "'a fsst_scheme"
  assumes "in_txn d k s" and "file_ok d v ip s" and "off div BSIZE < MAXFILE" and "mapped d ip s off" and "m \<le> BSIZE - off mod BSIZE"
  obtains s1 j s2 s3 b where "v6_bmap ip (off div BSIZE) s = Inr (b, s1)" and "i_dev (icache s1 ip) = of_nat d"
    and "bread (of_nat d) b s1 = Inr (j, s2)" and "brelse j s2 = Inr s3" and "in_txn d k s3" and "quiet d s s3"
    and "bytes_list (b_data (bufs s2 j)) (off mod BSIZE) m = map (\<lambda>i. file_byte d ip s (off + i)) [0..<m]"
proof -
  let ?bn = "off div BSIZE"
  let ?b = "fptr d ip s (bpath ?bn)"
  have p: "?b \<noteq> 0" using assms(4) by (simp add: mapped_def)
  obtain s1 where s1: "v6_bmap ip ?bn s = Inr (?b, s1)" "in_txn d k s1" "quiet d s s1"
    using bmap_present [OF assms(1-3) p] by blast
  note q1 = quiet_same [OF s1(3)]
  have f1: "file_ok d v ip s1" using assms(2) by (simp add: q1)
  have t1: "?b \<in> ftree d ip s1" using in_tree [OF vpath_bpath [OF assms(3)] p] by (simp add: q1)
  obtain j s2 s3 where s3: "bread (of_nat d) ?b s1 = Inr (j, s2)" "clip BSIZE (b_data (bufs s2 j)) = dview d s1 ?b"
      "brelse j s2 = Inr s3" "in_txn d k s3" "quiet d s1 s3"
    by (rule read_tree_block [OF s1(2) f1 t1])
  have "b_data (bufs s2 j) (off mod BSIZE + i) = file_byte d ip s (off + i)" if "i < m" for i
  proof -
    have "i < BSIZE - off mod BSIZE" "off mod BSIZE + i < BSIZE" using that assms(5) by linarith+
    then show ?thesis
      using fun_cong [OF s3(2), of "off mod BSIZE + i"] p by (simp add: file_byte_chunk fblock_def q1 clip_apply)
  qed
  then have "bytes_list (b_data (bufs s2 j)) (off mod BSIZE) m = map (\<lambda>i. file_byte d ip s (off + i)) [0..<m]"
    by (simp add: bytes_list_def)
  then show thesis using that [OF s1(1) _ s3(1,3,4)] quiet_trans [OF s1(3) s3(5)] file_okD(4) [OF f1] by blast
qed

lemma readi_loop_ok:
  fixes s :: "'a fsst_scheme"
  assumes "in_txn d k s" and "file_ok d v ip s" and "off + n \<le> MAXFILE * BSIZE"
    and "\<And>i. off \<le> i \<Longrightarrow> i < off + n \<Longrightarrow> mapped d ip s i"
  shows "\<exists>s'. readi_loop ip off n s = Inr (map (\<lambda>i. file_byte d ip s (off + i)) [0..<n], s') \<and> in_txn d k s' \<and> quiet d s s'"
  using assms
proof (induction n arbitrary: off s rule: less_induct)
  case (less n)
  show ?case
  proof (cases "n = 0")
    case True
    then show ?thesis using less.prems(1) by (simp add: readi_loop.simps [of ip off] quiet_def)
  next
    case False
    define m where "m = min n (BSIZE - off mod BSIZE)"
    have m: "0 < m" "m \<le> n" "m \<le> BSIZE - off mod BSIZE" using chunk_pos [OF False] by (auto simp: m_def)
    have bn: "off div BSIZE < MAXFILE" using less.prems(3) False by (intro less_mult_imp_div_less) simp
    have mp: "mapped d ip s off" using less.prems(4) [of off] False by simp
    obtain s1 j s2 s3 b where c: "v6_bmap ip (off div BSIZE) s = Inr (b, s1)" "i_dev (icache s1 ip) = of_nat d"
        "bread (of_nat d) b s1 = Inr (j, s2)" "brelse j s2 = Inr s3" "in_txn d k s3" "quiet d s s3"
        "bytes_list (b_data (bufs s2 j)) (off mod BSIZE) m = map (\<lambda>i. file_byte d ip s (off + i)) [0..<m]"
      by (rule read_chunk [OF less.prems(1,2) bn mp m(3)])
    note q = quiet_same [OF c(6)] quiet_bytes [OF c(6)]
    have "\<exists>s'. readi_loop ip (off + m) (n - m) s3 =
        Inr (map (\<lambda>i. file_byte d ip s3 (off + m + i)) [0..<n - m], s') \<and> in_txn d k s' \<and> quiet d s3 s'"
      using m less.prems(2-4) c(5) by (intro less.IH) (simp_all add: q)
    then obtain s' where s': "readi_loop ip (off + m) (n - m) s3 = Inr (map (\<lambda>i. file_byte d ip s (off + (m + i))) [0..<n - m], s')"
        "in_txn d k s'" "quiet d s3 s'" by (auto simp: q add.assoc)
    have "readi_loop ip off n s = Inr (map (\<lambda>i. file_byte d ip s (off + i)) [0..<n], s')"
      using False c(1-4,7) s'(1) map_upt_split [OF m(2), of "\<lambda>i. file_byte d ip s (off + i)"]
      by (simp add: readi_loop.simps [of ip off] m_def [symmetric] Let_def)
    then show ?thesis using s' quiet_trans [OF c(6) s'(3)] by blast
  qed
qed

lemma size_le_MAXFILE: "unat (x :: u32) \<le> MAXFILE * BSIZE"
  using unat_u32_less [of x] by (simp add: MAXFILE_def NDIRECT_def NINDIRECT_def BSIZE_def)

lemma unat_ucast_u64 [simp]: "unat (ucast (x :: u32) :: u64) = unat x"
  using unat_u32_less [of x] by (simp add: unsigned_ucast_eq take_bit_nat_eq_self)

lemma readi_ok:
  fixes s :: "'a fsst_scheme"
  assumes "in_txn d k s" and "file_ok d v ip s" and "i_type (icache s ip) \<noteq> T_DEV"
    and "\<And>i. i < unat (i_size (icache s ip)) \<Longrightarrow> mapped d ip s i"
    and "unat off \<le> unat (i_size (icache s ip))" and "unat off + unat n < 2 ^ 64"
  shows "\<exists>s'. v6_readi ip off n s = Inr (int (min (unat n) (unat (i_size (icache s ip)) - unat off)),
      map (\<lambda>i. file_byte d ip s (unat off + i)) [0..<min (unat n) (unat (i_size (icache s ip)) - unat off)], s') \<and>
    in_txn d k s' \<and> quiet d s s'"
proof -
  let ?sz = "unat (i_size (icache s ip))"
  let ?n = "min (unat n) (?sz - unat off)"
  have u: "unat (ucast (i_size (icache s ip)) :: u64) = ?sz" by simp
  have on: "unat (off + n) = unat off + unat n" using assms(6) by (simp add: unat_word_ariths)
  have r: "unat (if off + n > ucast (i_size (icache s ip)) then ucast (i_size (icache s ip)) - off else n) = ?n"
    using assms(5) on u by (auto simp: word_less_nat_alt unat_sub word_le_nat_alt)
  have c: "\<not> (ucast (i_size (icache s ip)) < off \<or> off + n < off)"
    using assms(5) on u by (auto simp: word_less_nat_alt)
  have le: "unat off + ?n \<le> ?sz" using assms(5) by simp
  have "\<exists>s'. readi_loop ip (unat off) ?n s = Inr (map (\<lambda>i. file_byte d ip s (unat off + i)) [0..<?n], s') \<and> in_txn d k s' \<and> quiet d s s'"
    using assms(1,2,4) le size_le_MAXFILE [of "i_size (icache s ip)"] by (intro readi_loop_ok) auto
  moreover have "v6_readi ip off n s = kbind (readi_loop ip (unat off) ?n s) (\<lambda>(out, s). Inr (int ?n, out, s))"
    unfolding v6_readi_def Let_def r by (simp only: assms(3) c if_False)
  ultimately show ?thesis by auto
qed

section \<open>Writing\<close>

lemma extends_write:
  fixes s :: "'a fsst_scheme"
  assumes f: "file_ok d v ip s" and bn: "bn < MAXFILE" "fptr d ip s (bpath bn) \<noteq> 0"
    and tf: "txn_frame d s' = txn_frame d s" and lk: "bio_lock s' = (\<lambda>_. None)"
    and w: "bio_view s' = (bio_view s)((of_nat d, fptr d ip s (bpath bn)) := x)"
  shows "extends {bn} d v ip s s'" and "\<And>p. vpath p \<Longrightarrow> fptr d ip s' p = fptr d ip s p" and "fblock d ip s' bn = x"
    and "free_blocks d v s' = free_blocks d v s"
proof -
  let ?b = "fptr d ip s (bpath bn)"
  note ok = file_okD [OF f] and m = more_fields [OF tf]
  note vb = vpath_bpath [OF bn(1)]
  have nb: "(of_nat d, ?b) \<notin> bitmap_keys d v" and bt: "?b \<in> ftree d ip s"
    using tree_data(3) [OF f] in_tree [OF vb bn(2)] by auto
  have dv: "dview d s' = (dview d s)(?b := x)" by (auto simp: fun_eq_iff dview_def w)
  show fp: "fptr d ip s' p = fptr d ip s p" if "vpath p" for p
    using written_ptr [OF ok(5) bn _ that, of "dview d s'"] by (simp add: m dv)
  have ft: "ftree d ip s' = ftree d ip s" using fp by (rule tree_cong)
  show fb: "fblock d ip s' bn = x" using bn(2) fp [OF vb] by (simp add: fblock_def dv)
  have us: "used d v s' c = used d v s c" if "c < unat (v6_size v)" for c
    using nb that by (auto simp: used_def w bitmap_keys_def)
  then show "free_blocks d v s' = free_blocks d v s" by (auto simp: free_blocks_def)
  have du: "data_used d v s' = data_used d v s" using us by (auto simp: fun_eq_iff data_used_def)
  have "tree_ok (data_used d v s') (dview d s') (i_addrs (icache s' ip))"
    using ok(5) tree_cong(2) [OF fp] by (simp add: du)
  moreover have "meta_used d v s'" using ok(2) us layoutD(5) [OF ok(1)] by (auto simp: meta_used_def)
  ultimately have f': "file_ok d v ip s'"
    using ok(1,4) lk layout_frame(1) [OF tf] by (simp add: file_ok_def m)
  have ob: "fblock d ip s' bn' = fblock d ip s bn'" if bn': "bn' < MAXFILE" "bn' \<notin> {bn}" for bn'
  proof -
    have "fptr d ip s (bpath bn') \<noteq> ?b"
      using tree_okD(2) [OF ok(5) vb bn(2) vpath_bpath [OF bn'(1)]] bpath_inj [of bn bn'] bn'(2) by auto
    then show ?thesis using fp [OF vpath_bpath [OF bn'(1)]] by (simp add: fblock_def dv)
  qed
  have "bio_view s' k = bio_view s k" if "k \<notin> Pair (of_nat d) ` ftree d ip s" for k
    using that bt by (auto simp: w)
  then show "extends {bn} d v ip s s'"
    unfolding extends_def ft using f' m(4) ob fp us tree_used [OF f] by (auto simp: m)
qed

lemma write_file_block:
  fixes s :: "'a fsst_scheme"
  assumes "in_txn d (Suc n) s" and "file_ok d v ip s" and "bn < MAXFILE" and "fptr d ip s (bpath bn) \<noteq> 0"
  obtains j s1 where "bread (of_nat d) (fptr d ip s (bpath bn)) s = Inr (j, s1)"
    and "clip BSIZE (b_data (bufs s1 j)) = fblock d ip s bn"
    and "\<And>x. \<exists>s2 s3. log_store j x s1 = Inr s2 \<and> brelse j s2 = Inr s3 \<and> in_txn d n s3 \<and>
      extends {bn} d v ip s s3 \<and> (\<forall>p. vpath p \<longrightarrow> fptr d ip s3 p = fptr d ip s p) \<and>
      fblock d ip s3 bn = clip BSIZE x \<and> free_blocks d v s3 = free_blocks d v s"
proof -
  let ?k = "(of_nat d :: u32, fptr d ip s (bpath bn))"
  note ok = file_okD [OF assms(2)]
  have t: "txn_ok d s ?k"
    using data_txn_ok [OF ok(1)] tree_data(1) [OF assms(2) in_tree [OF vpath_bpath [OF assms(3)] assms(4)]] by simp
  have l: "?k \<notin> ran (bio_lock s)" "card (ran (bio_lock s)) \<le> 2" by (simp_all add: ok(3))
  show thesis
  proof (rule tx.modify_block [OF assms(1) t l])
    fix j s1
    assume b: "bread (fst ?k) (snd ?k) s = Inr (j, s1)" "clip BSIZE (b_data (bufs s1 j)) = bio_view s ?k"
      and w: "\<And>x. \<exists>s2 s3. log_store j x s1 = Inr s2 \<and> brelse j s2 = Inr s3 \<and> in_txn d n s3 \<and>
        txn_frame d s3 = txn_frame d s \<and> bio_lock s3 = bio_lock s \<and> bio_view s3 = (bio_view s)(?k := clip BSIZE x) \<and>
        (\<forall>j. bio_lock s j \<noteq> None \<longrightarrow> b_data (bufs s3 j) = b_data (bufs s j))"
    have "\<exists>s2 s3. log_store j x s1 = Inr s2 \<and> brelse j s2 = Inr s3 \<and> in_txn d n s3 \<and>
        extends {bn} d v ip s s3 \<and> (\<forall>p. vpath p \<longrightarrow> fptr d ip s3 p = fptr d ip s p) \<and>
        fblock d ip s3 bn = clip BSIZE x \<and> free_blocks d v s3 = free_blocks d v s" for x
      using w [of x] extends_write [OF assms(2-4), of _ "clip BSIZE x"] ok(3) by metis
    then show thesis using that [of j s1] b assms(4) by (simp add: fblock_def dview_def)
  qed
qed

lemma extends_mono: "extends W d v ip s s' \<Longrightarrow> W \<subseteq> W' \<Longrightarrow> extends W' d v ip s s'"
  unfolding extends_def by blast

lemma extends_mapped:
  assumes "extends W d v ip s s'" and "mapped d ip s i" and "i < MAXFILE * BSIZE"
  shows "mapped d ip s' i"
  using extendsD(5) [OF assms(1), of "bpath (i div BSIZE)"] assms(2,3) vpath_bpath [of "i div BSIZE"]
  by (simp add: mapped_def less_mult_imp_div_less)

text \<open>A range of the file has been replaced, and \<open>m\<close> blocks at most have been allocated.\<close>

definition write_post :: "nat \<Rightarrow> v6_superblock \<Rightarrow> nat \<Rightarrow> nat \<Rightarrow> nat \<Rightarrow> u8 list \<Rightarrow> nat \<Rightarrow> 'a fsst_scheme \<Rightarrow> 'a fsst_scheme \<Rightarrow> bool" where
  "write_post d v ip n m src off s s' \<longleftrightarrow> extends UNIV d v ip s s' \<and> in_txn d n s' \<and>
     (\<forall>i<MAXFILE * BSIZE. file_byte d ip s' i =
        (if off \<le> i \<and> i < off + length src then src ! (i - off) else file_byte d ip s i)) \<and>
     (\<forall>i. off \<le> i \<and> i < off + length src \<longrightarrow> mapped d ip s' i) \<and>
     card (free_blocks d v s) \<le> card (free_blocks d v s') + m"

lemma same_block_range:
  assumes "m \<le> BSIZE - off mod BSIZE"
  shows "off \<le> i \<and> i < off + m \<longleftrightarrow> i div BSIZE = off div BSIZE \<and> off mod BSIZE \<le> i mod BSIZE \<and> i mod BSIZE < off mod BSIZE + m"
    and "off \<le> i \<Longrightarrow> i < off + m \<Longrightarrow> i - off = i mod BSIZE - off mod BSIZE"
proof -
  have e: "i = i div BSIZE * BSIZE + i mod BSIZE" "off = off div BSIZE * BSIZE + off mod BSIZE" by simp_all
  have r: "i div BSIZE = off div BSIZE" "i mod BSIZE = off mod BSIZE + (i - off)" if "off \<le> i" "i < off + m"
    using chunk_div_mod [of "i - off" off] that assms by auto
  have "off \<le> i \<and> i < off + m"
    if "i div BSIZE = off div BSIZE" "off mod BSIZE \<le> i mod BSIZE" "i mod BSIZE < off mod BSIZE + m"
    using e that by (metis add.assoc add_le_cancel_left add_less_cancel_left)
  then show "off \<le> i \<and> i < off + m \<longleftrightarrow> i div BSIZE = off div BSIZE \<and> off mod BSIZE \<le> i mod BSIZE \<and> i mod BSIZE < off mod BSIZE + m"
    using r by auto
  show "i - off = i mod BSIZE - off mod BSIZE" if "off \<le> i" "i < off + m" using r [OF that] by simp
qed

lemma write_chunk:
  fixes s :: "'a fsst_scheme"
  assumes "in_txn d (n + 9) s" and "file_ok d v ip s" and "off div BSIZE < MAXFILE" and "3 \<le> card (free_blocks d v s)"
    and "m \<le> BSIZE - off mod BSIZE" and "m \<le> length src"
  obtains b s1 j s2 s3 s4 where "v6_bmap ip (off div BSIZE) s = Inr (b, s1)" and "i_dev (icache s1 ip) = of_nat d"
    and "bread (of_nat d) b s1 = Inr (j, s2)"
    and "log_write j (buf_store j (memcopy (b_data (bufs s2 j)) (off mod BSIZE) (list_bytes src) 0 m) s2) = Inr s3"
    and "brelse j s3 = Inr s4" and "write_post d v ip n 3 (take m src) off s s4"
proof -
  let ?bn = "off div BSIZE"
  obtain b s1 where s1: "v6_bmap ip ?bn s = Inr (b, s1)" "bmap_post d v ip (Suc n) 3 (bpath ?bn) s b s1"
    using bmap_ok [of d "Suc n" s v ip ?bn] assms(1-4) by (auto simp: numeral_eq_Suc)
  note D = bmap_postD [OF s1(2)]
  obtain j s2 where s2: "bread (of_nat d) b s1 = Inr (j, s2)" "clip BSIZE (b_data (bufs s2 j)) = fblock d ip s1 ?bn"
    and w: "\<And>x. \<exists>s3 s4. log_store j x s2 = Inr s3 \<and> brelse j s3 = Inr s4 \<and> in_txn d n s4 \<and>
      extends {?bn} d v ip s1 s4 \<and> (\<forall>p. vpath p \<longrightarrow> fptr d ip s4 p = fptr d ip s1 p) \<and>
      fblock d ip s4 ?bn = clip BSIZE x \<and> free_blocks d v s4 = free_blocks d v s1"
    by (rule write_file_block [OF D(4,3) assms(3) D(2)], rule that) (simp_all add: D(1))
  let ?x = "memcopy (b_data (bufs s2 j)) (off mod BSIZE) (list_bytes src) 0 m"
  obtain s3 s4 where s4: "log_store j ?x s2 = Inr s3" "brelse j s3 = Inr s4" "in_txn d n s4" "extends {?bn} d v ip s1 s4"
      "\<And>p. vpath p \<Longrightarrow> fptr d ip s4 p = fptr d ip s1 p" "fblock d ip s4 ?bn = clip BSIZE ?x" "free_blocks d v s4 = free_blocks d v s1"
    using w [of ?x] by blast
  have e: "extends {?bn} d v ip s s4" using extends_trans [OF D(7) s4(4)] by simp
  have fb: "fblock d ip s1 ?bn = fblock d ip s ?bn" using extendsD(4) [OF D(7) assms(3)] by simp
  have len: "length (take m src) = m" using assms(6) by simp
  have byte: "file_byte d ip s4 i = (if off \<le> i \<and> i < off + m then take m src ! (i - off) else file_byte d ip s i)"
    if i: "i < MAXFILE * BSIZE" for i
  proof (cases "i div BSIZE = ?bn")
    case True
    have lt: "i mod BSIZE < BSIZE" by simp
    have "b_data (bufs s2 j) (i mod BSIZE) = fblock d ip s ?bn (i mod BSIZE)"
      using fun_cong [OF s2(2), of "i mod BSIZE"] lt by (simp add: clip_apply fb)
    then show ?thesis
      using True same_block_range [OF assms(5), of i] lt assms(6)
      by (auto simp: file_byte_def s4(6) clip_apply memcopy_def list_bytes_def)
  next
    case False
    then have "fblock d ip s4 (i div BSIZE) = fblock d ip s (i div BSIZE)"
      using extendsD(4) [OF e, of "i div BSIZE"] i by (simp add: less_mult_imp_div_less)
    then show ?thesis using False same_block_range(1) [OF assms(5), of i] by (auto simp: file_byte_def)
  qed
  have "mapped d ip s4 i" if "off \<le> i" "i < off + m" for i
    using same_block_range(1) [OF assms(5), of i] that D(2) s4(5) [OF vpath_bpath [OF assms(3)]] by (simp add: mapped_def)
  then have "write_post d v ip n 3 (take m src) off s s4"
    unfolding write_post_def len using byte extends_mono [OF e] s4(3,7) s1(2) by (simp add: bmap_post_def)
  then show thesis using that [OF s1(1) D(5) s2(1) _ s4(2)] s4(1) by (simp add: log_store_def)
qed

text \<open>The number of blocks that a range of bytes touches.\<close>

definition spanned :: "nat \<Rightarrow> nat \<Rightarrow> nat" where
  "spanned off n = (if n = 0 then 0 else Suc ((off + n - 1) div BSIZE - off div BSIZE))"

lemma spanned_chunk:
  assumes "n \<noteq> 0" and "m = min n (BSIZE - off mod BSIZE)"
  shows "spanned off n = Suc (spanned (off + m) (n - m))"
proof (cases "n = m")
  case True
  have "n - 1 < BSIZE - off mod BSIZE" using True assms by auto
  then have "(off + (n - 1)) div BSIZE = off div BSIZE" by (rule chunk_div_mod)
  then show ?thesis using True assms(1) by (simp add: spanned_def)
next
  case False
  then have m: "m = BSIZE - off mod BSIZE" "m < n" using assms(2) by auto
  have o: "off mod BSIZE < BSIZE" "off div BSIZE * BSIZE + off mod BSIZE = off" by simp_all
  have "off + m = Suc (off div BSIZE) * BSIZE" using o unfolding m(1) mult_Suc by linarith
  then have d: "(off + m) div BSIZE = Suc (off div BSIZE)" by (metis BSIZE_pos less_irrefl nonzero_mult_div_cancel_right)
  have "(off + m) div BSIZE \<le> (off + n - 1) div BSIZE" using m(2) by (intro div_le_mono) simp
  then have "Suc (off div BSIZE) \<le> (off + n - 1) div BSIZE" using d by simp
  moreover have "off + m + (n - m) - 1 = off + n - 1" using m(2) by simp
  ultimately show ?thesis using m(2) assms(1) d by (simp add: spanned_def)
qed

lemma write_post_trans:
  assumes "write_post d v ip n m (take k src) off s t" and "write_post d v ip n' m' (drop k src) (off + k) t u"
    and "k \<le> length src" and "off + length src \<le> MAXFILE * BSIZE"
  shows "write_post d v ip n' (m + m') src off s u"
proof -
  have l: "length (take k src) = k" using assms(3) by simp
  note a = assms(1) [unfolded write_post_def l] and b = assms(2) [unfolded write_post_def length_drop]
  have e: "extends UNIV d v ip s u" using extends_trans [of UNIV d v ip s t UNIV u] a b by simp
  have "file_byte d ip u i = (if off \<le> i \<and> i < off + length src then src ! (i - off) else file_byte d ip s i)"
    if "i < MAXFILE * BSIZE" for i
    using a b that assms(3) by (auto simp: nth_append)
  moreover have "mapped d ip u i" if "off \<le> i" "i < off + length src" for i
  proof (cases "i < off + k")
    case True
    then show ?thesis using a b that assms(4) extends_mapped [of UNIV d v ip t u i] by auto
  next
    case False
    then show ?thesis using b that assms(3) by auto
  qed
  ultimately show ?thesis using e a b unfolding write_post_def by auto
qed

lemma writei_loop_ok:
  fixes s :: "'a fsst_scheme"
  assumes "in_txn d (n + 9 * spanned off (length src)) s" and "file_ok d v ip s" and "off + length src \<le> MAXFILE * BSIZE"
    and "3 * spanned off (length src) \<le> card (free_blocks d v s)"
  shows "\<exists>s'. writei_loop ip src off s = Inr s' \<and> write_post d v ip n (3 * spanned off (length src)) src off s s'"
  using assms
proof (induction "length src" arbitrary: src off s rule: less_induct)
  case less
  show ?case
  proof (cases "src = []")
    case True
    then show ?thesis
      using less.prems(1,2) extends_refl [of d v ip s UNIV]
      by (auto simp: writei_loop.simps [of ip "[]"] write_post_def spanned_def)
  next
    case False
    define m where "m = min (length src) (BSIZE - off mod BSIZE)"
    have m: "0 < m" "m \<le> length src" "m \<le> BSIZE - off mod BSIZE"
      using chunk_pos [of "length src" off] False by (auto simp: m_def)
    have sp: "spanned off (length src) = Suc (spanned (off + m) (length src - m))"
      using spanned_chunk [of "length src" m off] False by (simp add: m_def)
    let ?K = "spanned (off + m) (length (drop m src))"
    have bn: "off div BSIZE < MAXFILE" using less.prems(3) False by (intro less_mult_imp_div_less) (cases src; simp)
    have "in_txn d (n + 9 * ?K + 9) s" "3 \<le> card (free_blocks d v s)"
      using less.prems(1,4) sp by (simp_all add: algebra_simps)
    note wc = write_chunk [OF this(1) less.prems(2) bn this(2) m(3,2)]
    obtain b s1 j s2 s3 s4 where c: "v6_bmap ip (off div BSIZE) s = Inr (b, s1)" "i_dev (icache s1 ip) = of_nat d"
        "bread (of_nat d) b s1 = Inr (j, s2)"
        "log_write j (buf_store j (memcopy (b_data (bufs s2 j)) (off mod BSIZE) (list_bytes src) 0 m) s2) = Inr s3"
        "brelse j s3 = Inr s4" "write_post d v ip (n + 9 * ?K) 3 (take m src) off s s4"
      by (rule wc)
    have "\<exists>s'. writei_loop ip (drop m src) (off + m) s4 = Inr s' \<and> write_post d v ip n (3 * ?K) (drop m src) (off + m) s4 s'"
      using c(6) m False less.prems(3,4) sp extendsD(1) [of UNIV d v ip s s4]
      by (intro less.hyps) (simp_all add: write_post_def)
    then obtain s' where s': "writei_loop ip (drop m src) (off + m) s4 = Inr s'" "write_post d v ip n (3 * ?K) (drop m src) (off + m) s4 s'"
      by blast
    have "write_post d v ip n (3 + 3 * ?K) src off s s'"
      by (rule write_post_trans [OF c(6) s'(2) m(2) less.prems(3)])
    moreover have "writei_loop ip src off s = Inr s'"
      using False c(1-5) s'(1) by (simp add: writei_loop.simps [of ip src] m_def [symmetric] Let_def)
    ultimately show ?thesis using sp by (simp add: algebra_simps)
  qed
qed

section \<open>The whole of \<open>v6_writei\<close>\<close>

text \<open>
  What \<open>v6_writei\<close> promises of the file at \<open>ip\<close>: the bytes of the range are the given ones and all others
  are unchanged, the file has no new hole and its size covers the range; every other block, those of
  other files included, holds what it held, apart from the bitmap and the block of the inode.
\<close>

definition written :: "nat \<Rightarrow> v6_superblock \<Rightarrow> nat \<Rightarrow> nat \<Rightarrow> u8 list \<Rightarrow> nat \<Rightarrow> 'a fsst_scheme \<Rightarrow> 'a fsst_scheme \<Rightarrow> bool" where
  "written d v ip n src off s s' \<longleftrightarrow> file_ok d v ip s' \<and> in_txn d n s' \<and> fs_frame d ip s' = fs_frame d ip s \<and>
     (\<forall>i<MAXFILE * BSIZE. file_byte d ip s' i =
        (if off \<le> i \<and> i < off + length src then src ! (i - off) else file_byte d ip s i)) \<and>
     (\<forall>i<MAXFILE * BSIZE. mapped d ip s i \<or> off \<le> i \<and> i < off + length src \<longrightarrow> mapped d ip s' i) \<and>
     unat (i_size (icache s' ip)) = max (unat (i_size (icache s ip))) (off + length src) \<and>
     (\<forall>b\<in>ftree d ip s' - ftree d ip s. \<not> used d v s (unat b)) \<and>
     (\<forall>k. k \<notin> bitmap_keys d v \<and> k \<notin> Pair (of_nat d) ` ftree d ip s' \<and> k \<noteq> (of_nat d, IBLOCK (i_inum (icache s ip)) v) \<longrightarrow>
        bio_view s' k = bio_view s k)"

lemma fs_frame_same:
  fixes s :: "'a fsst_scheme"
  assumes "fs_frame d ip s' = fs_frame d ip s"
  shows "txn_ok d s' = txn_ok d s" and "iblock_ok d v s' = iblock_ok d v s" and "i_inum (icache s' ip) = i_inum (icache s ip)"
    and "i_type (icache s' ip) = i_type (icache s ip)" and "i_dev (icache s' ip) = i_dev (icache s ip)"
proof -
  have e: "sb s' = sb s" "broken (sdcard s') = broken (sdcard s)" "lgeo (klog s' d) = lgeo (klog s d)"
    and c: "(icache s')(ip := (icache s' ip)\<lparr>i_addrs := (\<lambda>_. 0), i_size := 0\<rparr>) =
      (icache s)(ip := (icache s ip)\<lparr>i_addrs := (\<lambda>_. 0), i_size := 0\<rparr>)"
    using assms by (simp_all add: fs_frame_def)
  show t: "txn_ok d s' = txn_ok d s" by (simp add: fun_eq_iff txn_ok_def home_ok_cong(1) [OF e(1,2)] e(3))
  show "iblock_ok d v s' = iblock_ok d v s" by (simp add: fun_eq_iff iblock_ok_def t)
  have "i_inum (icache s' ip) = i_inum (icache s ip) \<and> i_type (icache s' ip) = i_type (icache s ip) \<and>
      i_dev (icache s' ip) = i_dev (icache s ip)"
    using fun_cong [OF c, of ip] by (cases "icache s ip"; cases "icache s' ip") simp
  then show "i_inum (icache s' ip) = i_inum (icache s ip)" "i_type (icache s' ip) = i_type (icache s ip)"
    "i_dev (icache s' ip) = i_dev (icache s ip)" by simp_all
qed

lemma bytes_same:
  assumes "\<And>bn. bn < MAXFILE \<Longrightarrow> fblock d ip s' bn = fblock d ip s bn" and "\<And>p. vpath p \<Longrightarrow> fptr d ip s' p = fptr d ip s p"
    and "i < MAXFILE * BSIZE"
  shows "file_byte d ip s' i = file_byte d ip s i" and "mapped d ip s' i = mapped d ip s i"
proof -
  have bn: "i div BSIZE < MAXFILE" using assms(3) by (rule less_mult_imp_div_less)
  show "file_byte d ip s' i = file_byte d ip s i" "mapped d ip s' i = mapped d ip s i"
    using assms(1) [OF bn] assms(2) [OF vpath_bpath [OF bn]] by (simp_all add: file_byte_def mapped_def)
qed

text \<open>Setting the size and writing the inode leaves the file alone.\<close>

lemma writei_grow:
  fixes s :: "'a fsst_scheme"
  assumes f: "file_ok d v ip s" and t: "in_txn d (Suc n) s" and ib: "iblock_ok d v s (i_inum (icache s ip))"
  obtains s' where "v6_iupdate ip (i_upd ip (\<lambda>I. I\<lparr>i_size := z\<rparr>) s) = Inr s'" and "file_ok d v ip s'" and "in_txn d n s'"
    and "fs_frame d ip s' = fs_frame d ip s" and "\<And>i. i < MAXFILE * BSIZE \<Longrightarrow> file_byte d ip s' i = file_byte d ip s i"
    and "\<And>i. i < MAXFILE * BSIZE \<Longrightarrow> mapped d ip s' i = mapped d ip s i"
    and "i_size (icache s' ip) = z" and "ftree d ip s' = ftree d ip s"
    and "\<And>k. k \<noteq> (of_nat d, IBLOCK (i_inum (icache s ip)) v) \<Longrightarrow> bio_view s' k = bio_view s k"
proof -
  note ok = file_okD [OF f]
  let ?t = "i_upd ip (\<lambda>I. I\<lparr>i_size := z\<rparr>) s"
  have pre: "in_txn d (Suc n) ?t" "layout_ok d v ?t" "i_dev (icache ?t ip) = of_nat d" "iblock_ok d v ?t (i_inum (icache ?t ip))"
      "bio_lock ?t = (\<lambda>_. None)"
    using t ib ok(1,3,4) by (simp_all add: i_upd_same iblock_ok_def)
  obtain s' where s': "v6_iupdate ip ?t = Inr s'" "in_txn d n s'" "txn_frame d s' = txn_frame d ?t" "bio_lock s' = (\<lambda>_. None)"
      "\<And>k. k \<noteq> (of_nat d, IBLOCK (i_inum (icache ?t ip)) v) \<Longrightarrow> bio_view s' k = bio_view ?t k"
    by (rule iupdate_ok [OF pre], rule that)
  note m = more_fields [OF s'(3)]
  have w: "bio_view s' k = bio_view s k" if "k \<noteq> (of_nat d, IBLOCK (i_inum (icache s ip)) v)" for k
    using s'(5) [of k] that by (simp add: i_upd_same)
  have u: "used d v s' c = used d v s c" if "c < unat (v6_size v)" for c
  proof -
    have "(of_nat d, BBLOCK (of_nat c) v) \<in> bitmap_keys d v" using that by (auto simp: bitmap_keys_def)
    then have "(of_nat d :: u32, BBLOCK (of_nat c) v) \<noteq> (of_nat d, IBLOCK (i_inum (icache s ip)) v)"
      using ib unfolding iblock_ok_def by metis
    then show ?thesis unfolding used_def by (subst w) simp_all
  qed
  have dv: "dview d s' c = dview d s c" if "c \<in> ftree d ip s" for c
  proof -
    have "unat c \<noteq> unat (IBLOCK (i_inum (icache s ip)) v)"
      using tree_data(1) [OF f that] ib by (simp add: data_used_def iblock_ok_def)
    then show ?thesis unfolding dview_def by (intro w) auto
  qed
  have la: "layout_ok d v s'" and dev: "i_dev (icache s' ip) = i_dev (icache s ip)"
      and ad: "i_addrs (icache s' ip) = i_addrs (icache s ip)"
    using layout_frame(1) [OF s'(3), of v] pre(2) by (simp_all add: m)
  note fs = file_same [OF f la s'(4) dev ad u dv]
  have "fs_frame d ip s' = fs_frame d ip s" using m(4) [of ip] by (simp add: fs_frame_def i_upd_def)
  moreover have "i_size (icache s' ip) = z" by (simp add: m)
  ultimately show thesis using that s'(1,2) fs bytes_same [OF fs(4,2)] w by blast
qed

lemma writei_ok:
  fixes s :: "'a fsst_scheme"
  assumes t: "in_txn d (n + 9 * spanned (unat off) (length src) + 1) s" and f: "file_ok d v ip s"
    and ib: "iblock_ok d v s (i_inum (icache s ip))" and ty: "i_type (icache s ip) \<noteq> T_DEV"
    and off: "unat off \<le> unat (i_size (icache s ip))" "unat off + length src < 2 ^ 32"
    and fr: "3 * spanned (unat off) (length src) \<le> card (free_blocks d v s)"
  shows "\<exists>s'. v6_writei ip src off s = Inr (int (length src), s') \<and> written d v ip n src (unat off) s s'"
proof -
  let ?n = "of_nat (length src) :: u64" and ?sz = "ucast (i_size (icache s ip)) :: u64"
  have un: "unat ?n = length src" using off(2) by (simp add: unat_of_nat)
  have on: "unat (off + ?n) = unat off + length src" using off(2) un by (simp add: unat_word_ariths)
  have mx: "unat (of_nat (MAXFILE * BSIZE) :: u64) = MAXFILE * BSIZE" 
    by (simp add: unat_of_nat MAXFILE_def NDIRECT_def NINDIRECT_def BSIZE_def)
  have le: "unat off + length src \<le> MAXFILE * BSIZE" using off(2) by (simp add: MAXFILE_def NDIRECT_def NINDIRECT_def BSIZE_def)
  have c: "\<not> (off > ?sz \<or> off + ?n < off)" "\<not> off + ?n > of_nat (MAXFILE * BSIZE)"
    using off(1) on le mx unat_ucast_u64 [of "i_size (icache s ip)"] unfolding word_less_nat_alt by linarith+
  have "in_txn d (Suc n + 9 * spanned (unat off) (length src)) s" using t by simp
  from writei_loop_ok [OF this f le fr] obtain s1 where s1: "writei_loop ip src (unat off) s = Inr s1"
      "write_post d v ip (Suc n) (3 * spanned (unat off) (length src)) src (unat off) s s1" by blast
  have e: "extends UNIV d v ip s s1" and i1: "in_txn d (Suc n) s1" using s1(2) by (simp_all add: write_post_def)
  note ex = extendsD [OF e] and fm = fs_frame_same [OF extendsD(2) [OF e]]
  have ib1: "iblock_ok d v s1 (i_inum (icache s1 ip))" using ib by (simp add: fm)
  have w: "v6_writei ip src off s = kbind (if ?n > 0 \<and> off + ?n > ?sz
        then v6_iupdate ip (i_upd ip (\<lambda>I. I\<lparr>i_size := ucast (off + ?n)\<rparr>) s1) else Inr s1) (\<lambda>s. Inr (int (length src), s))"
    unfolding v6_writei_def Let_def using ty c s1(1) by (simp only: if_False kbind_simps)
  have gt: "?n > 0 \<and> off + ?n > ?sz \<longleftrightarrow> unat (i_size (icache s ip)) < unat off + length src"
    using off(1) un on unat_ucast_u64 [of "i_size (icache s ip)"] unfolding word_less_nat_alt by auto
  have mp: "mapped d ip s1 i" if "i < MAXFILE * BSIZE" "mapped d ip s i \<or> unat off \<le> i \<and> i < unat off + length src" for i
    using that extends_mapped [OF e] s1(2) by (auto simp: write_post_def)
  have wr: "bio_view s1 k = bio_view s k" if "k \<notin> bitmap_keys d v" "k \<notin> Pair (of_nat d) ` ftree d ip s1" for k
    using ex(8) that by blast
  have nu: "\<forall>b\<in>ftree d ip s1 - ftree d ip s. \<not> used d v s (unat b)" using ex(6) by blast
  show ?thesis
  proof (cases "unat (i_size (icache s ip)) < unat off + length src")
    case False
    then have "v6_writei ip src off s = Inr (int (length src), s1)" using w gt by simp
    moreover have "written d v ip n src (unat off) s s1"
      unfolding written_def
      using ex(1-3) nu mp wr s1(2) False in_txn_mono [OF i1, of n] by (auto simp: write_post_def)
    ultimately show ?thesis by blast
  next
    case True
    let ?z = "ucast (off + ?n) :: u32"
    have z: "unat ?z = unat off + length src"
      using on off(2) by (simp add: unsigned_ucast_eq take_bit_nat_eq_self)
    obtain s' where s': "v6_iupdate ip (i_upd ip (\<lambda>I. I\<lparr>i_size := ?z\<rparr>) s1) = Inr s'" "file_ok d v ip s'" "in_txn d n s'"
        "fs_frame d ip s' = fs_frame d ip s1" "\<And>i. i < MAXFILE * BSIZE \<Longrightarrow> file_byte d ip s' i = file_byte d ip s1 i"
        "\<And>i. i < MAXFILE * BSIZE \<Longrightarrow> mapped d ip s' i = mapped d ip s1 i" "i_size (icache s' ip) = ?z"
        "ftree d ip s' = ftree d ip s1" "\<And>k. k \<noteq> (of_nat d, IBLOCK (i_inum (icache s1 ip)) v) \<Longrightarrow> bio_view s' k = bio_view s1 k"
      by (rule writei_grow [OF ex(1) i1 ib1], rule that)
    have "v6_writei ip src off s = Inr (int (length src), s')" using w gt True s'(1) by simp
    moreover have "written d v ip n src (unat off) s s'"
      unfolding written_def s'(8)
      using s' ex(2) nu mp wr s1(2) True by (auto simp: write_post_def fm z)
    ultimately show ?thesis by blast
  qed
qed

end
