(* ===== verification/V6_Example.thy ===== *)
theory V6_Example
  imports V6_Rw
begin

text \<open>
  A small file system, for the witnesses: device \<open>1\<close> has 200 blocks, a log of 130 blocks from block \<open>2\<close>
  on, inodes from block \<open>132\<close> on and its bitmap in block \<open>140\<close>, in which the blocks below \<open>144\<close> are in use. A
  call is in a transaction; inode \<open>1\<close> is an empty file in slot \<open>0\<close> of the inode cache, and inode \<open>2\<close>, in slot
  \<open>1\<close>, a file of five bytes in block \<open>143\<close>.
\<close>

definition v6_example :: v6_superblock where
  "v6_example = \<lparr>v6_size = 200, v6_nblocks = 59, v6_ninodes = 64, v6_nlog = 130, v6_logstart = 2,
     v6_inodestart = 132, v6_bmapstart = 140\<rparr>"

definition card_example :: "u32 \<Rightarrow> bytes" where
  "card_example = (\<lambda>_ _. 0)(3168 := (\<lambda>i. if i < 18 then 255 else 0),
     3192 := (\<lambda>i. if i < 5 then [104, 101, 108, 108, 111] ! i else 0))"

definition proc_example :: proc where
  "proc_example = \<lparr>p_pid = 3, p_pgid = 3, p_sid = 3, p_uid = 1000, p_euid = 1000, p_suid = 1000, p_fsuid = 1000, p_gid = 100,
     p_egid = 100, p_sgid = 100, p_fsgid = 100, p_groups = (\<lambda>_. 0), p_ngroups = 0, cap_effective = 0, cap_inheritable = 0,
     cap_permitted = 0, p_umask = 18, p_killed = False, p_fdflag = 0, p_ofile = (\<lambda>_. None), p_cwd = 0\<rparr>"

definition inode_example :: inode where
  "inode_example = \<lparr>i_dev = 1, i_inum = 1, i_ref = 1, i_lock = \<lparr>sl_locked = True, sl_pid = 3\<rparr>, i_valid = True, i_fs_t = V6FS,
     i_addrs = (\<lambda>_. 0), i_type = T_FILE, i_major = 0, i_minor = 0, i_nlink = 1, i_size = 0, i_mode = 33188, i_uid = 1000,
     i_gid = 100, i_atime = \<lparr>tv_sec = 0, tv_nsec = 0\<rparr>, i_mtime = \<lparr>tv_sec = 0, tv_nsec = 0\<rparr>,
     i_ctime = \<lparr>tv_sec = 0, tv_nsec = 0\<rparr>\<rparr>"

definition inode2_example :: inode where
  "inode2_example = inode_example\<lparr>i_inum := 2, i_addrs := (\<lambda>_. 0)(0 := 143), i_size := 5\<rparr>"

definition fs_example :: fsst where
  "fs_example =
     \<lparr>sdcard = (sdcard iost2)\<lparr>base := card_example\<rparr>, devque = [], bufs = bufs iost2, lru = [0..<NBUF],
      sb = (\<lambda>_. sb0)(1 := sb0\<lparr>sb_lba := 2048, sb_nsecs := 1600, sb_blocksize := 4096, sb_flags := SB_INITIALIZED,
        fs_info := Some v6_example\<rparr>),
      first_bno = 0, nblocks = 1, mbr = \<lambda>_. 0, ndev = 0,
      klog = (\<lambda>_. log0)(1 := log0\<lparr>log_start := 2, log_size := 130, log_dev := 1, log_flag := LOGENABLED, outstanding := 1\<rparr>),
      icache = (\<lambda>_. inode_example\<lparr>i_ref := 0, i_lock := initsleeplock, i_valid := False\<rparr>)
        (0 := inode_example, 1 := inode2_example),
      mtable = (\<lambda>_. \<lparr>m_inode = None, m_rtinode = None, m_pdata = None, m_dev = 0, m_used = False\<rparr>),
      vfsmlist = [\<lparr>vfs_major = 0, vfs_minor = 1, vfs_fs_t = V6FS\<rparr>], vfssw = [V6FS, EXT2FS], rootfs = None,
      con = cons0, xtime = \<lparr>tv_sec = 0, tv_nsec = 0\<rparr>, this = proc_example\<rparr>"

lemma example_fields:
  "bufs fs_example = bufs iost2" "lru fs_example = [0..<NBUF]" "devque fs_example = []"
  "klog fs_example (Suc 0) = log0\<lparr>log_start := 2, log_size := 130, log_dev := 1, log_flag := LOGENABLED, outstanding := 1\<rparr>"
  "icache fs_example 0 = inode_example" "icache fs_example (Suc 0) = inode2_example" "fs_info (sb fs_example (Suc 0)) = Some v6_example" "sb_flags (sb fs_example (Suc 0)) = SB_INITIALIZED"
  "this fs_example = proc_example"
  by (simp_all add: fs_example_def)

lemma example_blk_ok: "blk_ok (bio_env fs_example) (1, w) \<longleftrightarrow> unat w < 200"
  by (auto simp: blk_ok_def bio_env_def fs_example_def sb0_def NMINOR_def iost2_def iost0_def)

lemma example_lgeo: "lgeo (klog fs_example (Suc 0)) = wgeo"
  by (simp add: example_fields lgeo_def)

lemma example_home:
  assumes "132 \<le> unat w" and "unat w < 200"
  shows "home_ok (bio_env fs_example) wgeo (1, w)"
proof -
  have "w \<noteq> of_nat (2 + i)" if "i < 130" for i
    using assms that unat_of_nat_u32 [of "2 + i"] by auto
  then show ?thesis using assms(2) by (auto simp: home_ok_def example_blk_ok logkey_wgeo simp del: of_nat_add)
qed

lemma example_geom: "log_geom (bio_env fs_example) wgeo"
proof -
  have "blk_ok (bio_env fs_example) (logkey wgeo i)" if "i < 130" for i
  proof -
    have "unat (of_nat (2 + i) :: u32) = 2 + i" using that by (intro unat_of_nat_u32) simp
    with that show ?thesis unfolding logkey_wgeo [OF that] example_blk_ok by simp
  qed
  then show ?thesis by (simp add: log_geom_def)
qed

lemma example_bio: "bio_inv fs_example" "bio_lock fs_example = (\<lambda>_. None)" "bio_dirty fs_example = {}"
proof -
  have "parts_disjoint fs_example" by (auto simp: fs_example_def parts_disjoint_def sb0_def)
  then show "bio_inv fs_example"
    by (auto simp: bio_inv_def example_fields bkey_def bufs_iost atLeast_upt)
  show "bio_lock fs_example = (\<lambda>_. None)" "bio_dirty fs_example = {}"
    by (auto simp: bio_lock_def bio_dirty_def example_fields bufs_iost)
qed

lemma example_txn: "n \<le> 123 \<Longrightarrow> in_txn (Suc 0) n fs_example"
  using example_geom
  by (simp add: in_txn_def NLOG_def example_bio example_fields log_wf_def log0_def logged_def lgeo_def
      LOGSIZE_def NBUF_def)

lemma example_view:
  "bio_view fs_example k = kdisk fs_example k"
  "bio_view fs_example (1, 140) = (\<lambda>i. if i < 18 then 255 else 0)"
  "i < 5 \<Longrightarrow> bio_view fs_example (1, 143) i = [104, 101, 108, 108, 111] ! i"
proof -
  have "find (\<lambda>i. bkey fs_example i = k \<and> valid fs_example i) [0..<NBUF] = None" for k
    by (auto simp: find_None_iff example_fields bufs_iost)
  then show v: "bio_view fs_example k = kdisk fs_example k" for k by (simp add: bio_view_def)
  have "x < 18" if "x mod 512 < 18" "(of_nat (x div 512) :: u32) = 0" "x < 4096" for x
    using that of_nat_u32_eq_iff [of "x div 512" 0] by (simp add: div_eq_0_iff)
  moreover have "(of_nat (x div 512) :: u32) \<noteq> 24" if "x < 4096" for x
  proof -
    have "x div 512 < 8" using that by (simp add: div_less_iff_less_mult)
    then show ?thesis using of_nat_u32_eq_iff [of "x div 512" 24] by simp
  qed
  ultimately show "bio_view fs_example (1, 140) = (\<lambda>i. if i < 18 then 255 else 0)"
    unfolding v
    by (auto simp: fun_eq_iff kdisk_def disk_def blk_sector_def block_at_def clip_apply medium_def replay_def fs_example_def
        sb0_def iost2_def iost0_def card_example_def SD_BLOCK_SIZE_def BSIZE_def)
  show "bio_view fs_example (1, 143) i = [104, 101, 108, 108, 111] ! i" if "i < 5"
    using that unfolding v
    by (simp add: kdisk_def disk_def blk_sector_def block_at_def clip_apply medium_def replay_def fs_example_def
        sb0_def iost2_def iost0_def card_example_def SD_BLOCK_SIZE_def BSIZE_def)
qed

lemma example_BBLOCK: "b < 200 \<Longrightarrow> BBLOCK (of_nat b) v6_example = 140"
proof -
  assume "b < 200"
  then have "unat ((of_nat b :: u32) div of_nat BPB) = 0" by (simp add: unat_div unat_of_nat_u32 BPB_def)
  then show ?thesis by (simp add: BBLOCK_def v6_example_def unat_eq_0)
qed

lemma example_used: "b < 200 \<Longrightarrow> used (Suc 0) v6_example fs_example b \<longleftrightarrow> b < 144"
proof -
  assume b: "b < 200"
  have "b div 8 < 18 \<longleftrightarrow> b < 144" by (simp add: div_less_iff_less_mult)
  moreover have "bit (255 :: u8) (b mod 8)"
  proof -
    have "(255 :: u8) = mask 8" by (simp add: mask_eq_exp_minus_1)
    then show ?thesis by (simp only: bit_mask_iff) simp
  qed
  ultimately show ?thesis using b by (simp add: used_def example_BBLOCK example_view(2) map_bit_bit BPB_def)
qed

lemma example_layout: "layout_ok (Suc 0) v6_example fs_example" "meta_used (Suc 0) v6_example fs_example"
  "data_start v6_example = 141"
proof -
  show d: "data_start v6_example = 141" by (simp add: data_start_def v6_example_def BPB_def)
  have sz: "v6_size v6_example = 200" by (simp add: v6_example_def)
  have "txn_ok (Suc 0) fs_example (1, of_nat b)" if "132 \<le> b" "b < 200" for b
    using example_home [of "of_nat b"] that by (simp add: txn_ok_def example_lgeo unat_of_nat_u32)
  from this this [of 140] show "layout_ok (Suc 0) v6_example fs_example"
    by (auto simp: layout_ok_def NLOG_def example_fields d example_BBLOCK sz)
  show "meta_used (Suc 0) v6_example fs_example" by (simp add: meta_used_def d example_used)
qed

lemma example_ptr: "fptr (Suc 0) 0 fs_example p = 0" "ftree (Suc 0) 0 fs_example = {}"
proof -
  show p: "fptr (Suc 0) 0 fs_example p = 0" for p
  proof (cases p)
    case (Cons k js)
    have "follow V 0 js = 0" for V by (cases js) simp_all
    then show ?thesis by (simp add: Cons example_fields inode_example_def)
  qed simp
  show "ftree (Suc 0) 0 fs_example = {}" by (simp add: tree_def p)
qed

lemma example_file: "file_ok (Suc 0) v6_example 0 fs_example"
  by (simp add: file_ok_def example_layout example_bio example_fields tree_ok_def example_ptr [unfolded example_fields])
    (simp add: inode_example_def)

lemma example_iblock:
  assumes "unat i < 64"
  shows "iblock_ok (Suc 0) v6_example fs_example i"
proof -
  have u: "unat (i div of_nat IPB) = unat i div 32" by (simp add: unat_div IPB_def)
  then have "unat (i div of_nat IPB) < 2" using assms by (simp add: div_less_iff_less_mult)
  then have ib: "132 \<le> unat (IBLOCK i v6_example)" "unat (IBLOCK i v6_example) < 134"
    by (simp_all add: IBLOCK_def v6_example_def unat_word_ariths)
  then have "txn_ok (Suc 0) fs_example (1, IBLOCK i v6_example)" using example_home [of "IBLOCK i v6_example"]
    by (simp add: txn_ok_def example_lgeo)
  moreover have "(1, IBLOCK i v6_example) \<notin> bitmap_keys (Suc 0) v6_example"
  proof
    assume "(1, IBLOCK i v6_example) \<in> bitmap_keys (Suc 0) v6_example"
    then obtain b where "b < unat (v6_size v6_example)" "IBLOCK i v6_example = BBLOCK (of_nat b) v6_example"
      by (auto simp: bitmap_keys_def)
    then have "b < 200" "IBLOCK i v6_example = 140" using example_BBLOCK [of b] by (simp_all add: v6_example_def)
    then show False using ib(2) by simp
  qed
  ultimately show ?thesis using ib by (simp add: iblock_ok_def example_layout)
qed

lemma example_size: "v6_size v6_example = 200" "searched v6_example = 32768"
  by (simp_all add: v6_example_def searched_def BPB_def)

lemma example_free: "card (free_blocks (Suc 0) v6_example fs_example) = 56"
proof -
  have "free_blocks (Suc 0) v6_example fs_example = {144..<200}"
    by (auto simp: free_blocks_def example_used example_size)
  then show ?thesis by simp
qed

lemma example_ptr2: "vpath p \<Longrightarrow> fptr (Suc 0) (Suc 0) fs_example p = (if p = [0] then 143 else 0)"
proof -
  have f: "follow V 0 js = 0" for V js by (cases js) simp_all
  assume "vpath p"
  then show ?thesis by (cases p rule: vpath.cases) (auto simp: example_fields inode2_example_def NDIRECT_def f)
qed

lemma example_file2: "file_ok (Suc 0) v6_example (Suc 0) fs_example"
proof -
  have "tree_ok (data_used (Suc 0) v6_example fs_example) (dview (Suc 0) fs_example) (i_addrs (icache fs_example (Suc 0)))"
    unfolding tree_ok_def by (auto simp: example_ptr2 data_used_def example_used example_size example_layout split: if_splits)
  moreover have "i_dev (icache fs_example (Suc 0)) = 1" by (simp add: example_fields inode2_example_def inode_example_def)
  ultimately show ?thesis by (simp add: file_ok_def example_layout example_bio)
qed

lemma example_bytes2:
  assumes "i < 5"
  shows "file_byte (Suc 0) (Suc 0) fs_example i = [104, 101, 108, 108, 111] ! i" and "mapped (Suc 0) (Suc 0) fs_example i"
proof -
  have b: "i div BSIZE = 0" "i mod BSIZE = i" "bpath 0 = [0]" "vpath [0]" using assms by (auto simp: BSIZE_def bpath_def NDIRECT_def)
  show "file_byte (Suc 0) (Suc 0) fs_example i = [104, 101, 108, 108, 111] ! i" "mapped (Suc 0) (Suc 0) fs_example i"
    unfolding file_byte_def fblock_def mapped_def b example_ptr2 [OF b(4)] using example_view(3) [OF assms] by (simp_all add: dview_def)
qed

end
