(* ===== verification/V6_Correct.thy ===== *)
theory V6_Correct
  imports V6_Example
begin

text \<open>
  What the v6 file system promises its callers inside a transaction: block allocation and release,
  the on-disk inode, reading and writing.
\<close>

section \<open>Blocks\<close>

lemma balloc_full:
  fixes s :: "'a logst_scheme"
  assumes "in_txn d (n + 2) s" and "layout_ok d v s" and "meta_used d v s" and "locks_ok d v s"
    and "searched v < unat (v6_size v) + BPB" and "free_blocks d v s = {}"
  shows "v6_balloc (of_nat d) s = Inl (Panic ''balloc: out of blocks'')"
proof -
  let ?m = "(unat (v6_ninodes v) + BPB - 1) div BPB"
  have "(?m - 1) * BPB < unat (v6_size v)" if "0 < ?m"
  proof -
    have "1 * BPB \<le> ?m * BPB" using that by (intro mult_le_mono1) simp
    then show ?thesis using assms(5) unfolding searched_def diff_mult_distrib by linarith
  qed
  then have "balloc_from (of_nat d) v (map (\<lambda>k. k * BPB) [0..<?m]) s = Inl (Panic ''balloc: out of blocks'')"
    using assms by (intro balloc_from_full) (auto simp: free_blocks_def searched_def)
  then show ?thesis using layoutD(1) [OF assms(2)] by (simp add: v6_balloc_def)
qed

text \<open>C8: \<open>v6_balloc\<close>, called with a free block within reach of its search, takes the free block with the
  least number: it sets that block's bit in the bitmap and no other, clears the block, and changes no
  other block. It needs two log entries. With no free block in reach it panics.\<close>

theorem v6_balloc_correct:
  fixes s :: "'a logst_scheme"
  assumes "in_txn d (n + 2) s" and "layout_ok d v s" and "meta_used d v s" and "locks_ok d v s"
    and "searched v < unat (v6_size v) + BPB"
  shows "if free_blocks d v s = {} then v6_balloc (of_nat d) s = Inl (Panic ''balloc: out of blocks'')
     else \<exists>b s'. v6_balloc (of_nat d) s = Inr (of_nat b, s') \<and> balloc_post d v n s b s' \<and> (\<forall>c<b. used d v s c)"
proof (cases "free_blocks d v s = {}")
  case True
  then show ?thesis using balloc_full [OF assms] by simp
next
  case False
  then obtain b1 where b1: "b1 < searched v" "b1 < unat (v6_size v)" "\<not> used d v s b1" by (rule free_blockE)
  have t: "in_txn d (Suc (Suc n)) s" using assms(1) by simp
  obtain b s' where "v6_balloc (of_nat d) s = Inr (of_nat b, s')" "balloc_post d v n s b s'" "\<And>c. c < b \<Longrightarrow> used d v s c"
    by (rule balloc_ok [OF t assms(2-4) b1], rule that)
  then show ?thesis using False by auto
qed

lemma example_balloc: "locks_ok (Suc 0) v6_example fs_example" "searched v6_example < unat (v6_size v6_example) + BPB"
  "free_blocks (Suc 0) v6_example fs_example \<noteq> {}"
proof -
  show "free_blocks (Suc 0) v6_example fs_example \<noteq> {}" using example_free by force
qed (simp_all add: locks_ok_def example_bio example_size BPB_def)

theorem v6_balloc_correct_witness:
  "\<exists>b s'. v6_balloc 1 fs_example = Inr (of_nat b, s') \<and> balloc_post 1 v6_example 8 fs_example b s'"
  using v6_balloc_correct [of "Suc 0" 8 fs_example v6_example] example_txn [of 10] example_layout example_balloc
  by auto

text \<open>C20: A block that \<open>v6_balloc\<close> has handed out can be given back: \<open>v6_bfree\<close> makes the bitmap what it was,
  and a second \<open>v6_bfree\<close> of the block panics.\<close>

theorem v6_balloc_bfree_roundtrip:
  fixes s :: "'a logst_scheme"
  assumes "in_txn d (n + 4) s" and "layout_ok d v s" and "meta_used d v s" and "locks_ok d v s" and "free_blocks d v s \<noteq> {}"
  shows "\<exists>b s1 s2. v6_balloc (of_nat d) s = Inr (of_nat b, s1) \<and> v6_bfree (of_nat d) (of_nat b) s1 = Inr s2 \<and>
     (\<forall>c<unat (v6_size v). used d v s2 c = used d v s c) \<and>
     (\<forall>k. k \<noteq> (of_nat d, of_nat b) \<and> k \<notin> bitmap_keys d v \<longrightarrow> bio_view s2 k = bio_view s k) \<and>
     v6_bfree (of_nat d) (of_nat b) s2 = Inl (Panic ''freeing free block'')"
proof -
  obtain b1 where b1: "b1 < searched v" "b1 < unat (v6_size v)" "\<not> used d v s b1" by (rule free_blockE [OF assms(5)])
  have t: "in_txn d (Suc (Suc (Suc (Suc n)))) s" using assms(1) by (simp add: numeral_eq_Suc)
  obtain b s1 where b: "v6_balloc (of_nat d) s = Inr (of_nat b, s1)" "balloc_post d v (Suc (Suc n)) s b s1"
    by (rule balloc_ok [OF t assms(2-4) b1])
  note p = b(2) [unfolded balloc_post_def]
  have l1: "ran (bio_lock s1) \<inter> bitmap_keys d v = {}" "card (ran (bio_lock s1)) \<le> 2" "layout_ok d v s1" "b < unat (v6_size v)"
    using p assms(2,4) layout_frame(1) [of d s1 s v] by (auto simp: locks_ok_def)
  have "\<exists>s2. v6_bfree (of_nat d) (of_nat b) s1 = Inr s2 \<and> bfree_post d v (Suc n) s1 b s2"
    using p l1 by (intro bfree_ok(2)) auto
  then obtain s2 where s2: "v6_bfree (of_nat d) (of_nat b) s1 = Inr s2" "bfree_post d v (Suc n) s1 b s2" by blast
  note q = s2(2) [unfolded bfree_post_def]
  have "v6_bfree (of_nat d) (of_nat b) s2 = Inl (Panic ''freeing free block'')"
    using q l1 layout_frame(1) [of d s2 s1 v] by (intro bfree_ok(1) [of d n]) auto
  moreover have "used d v s2 c = used d v s c" if "c < unat (v6_size v)" for c using p q that by auto
  ultimately show ?thesis using b(1) s2(1) p q by (intro exI [of _ b] exI [of _ s1] exI [of _ s2]) auto
qed

theorem v6_balloc_bfree_roundtrip_witness:
  "\<exists>b s1 s2. v6_balloc 1 fs_example = Inr (of_nat b, s1) \<and> v6_bfree 1 (of_nat b) s1 = Inr s2 \<and>
     used 1 v6_example s2 150 = used 1 v6_example fs_example 150"
proof -
  obtain b s1 s2 where "v6_balloc 1 fs_example = Inr (of_nat b, s1)" "v6_bfree 1 (of_nat b) s1 = Inr s2"
      "\<forall>c<unat (v6_size v6_example). used (Suc 0) v6_example s2 c = used (Suc 0) v6_example fs_example c"
    using v6_balloc_bfree_roundtrip [of "Suc 0" 8 fs_example v6_example] example_txn [of 12] example_layout example_balloc
    by auto
  then show ?thesis by (intro exI [of _ b] exI [of _ s1] exI [of _ s2]) (simp add: example_size)
qed

section \<open>Inodes\<close>

lemma get_dinode_over:
  "get_dinode m a J = (get_dinode m a I)\<lparr>i_dev := i_dev J, i_inum := i_inum J, i_ref := i_ref J, i_lock := i_lock J,
     i_valid := i_valid J, i_fs_t := i_fs_t J,
     i_addrs := (\<lambda>k. if k < NDIRECT + 2 then i_addrs (get_dinode m a I) k else i_addrs J k)\<rparr>"
  by (cases I; cases J) (simp add: get_dinode_def cong: if_cong)

text \<open>C9: An inode that \<open>v6_iupdate\<close> has written is the inode that \<open>v6_ilock\<close> reads back into a cache slot
  that holds its number and nothing valid: type, device numbers, link count, size, mode, owner, times
  and block addresses all survive, and the other inodes of the block are untouched.\<close>

theorem iupdate_ilock_roundtrip:
  fixes s :: "'a fsst_scheme"
  assumes "in_txn d (n + 1) s" and "layout_ok d v s" and "bio_lock s = (\<lambda>_. None)"
    and "i_dev (icache s ip) = of_nat d" and "iblock_ok d v s (i_inum (icache s ip))" and "i_type (icache s ip) \<noteq> 0"
    and "i_dev J = of_nat d" and "i_inum J = i_inum (icache s ip)" and "1 \<le> i_ref J" and "\<not> sl_locked (i_lock J)" and "\<not> i_valid J"
  shows "\<exists>s1 s2. v6_iupdate ip s = Inr s1 \<and> v6_ilock jp (i_upd jp (\<lambda>_. J) s1) = Inr s2 \<and>
     (\<forall>k<NDIRECT + 2. i_addrs (icache s2 jp) k = i_addrs (icache s ip) k) \<and>
     icache s2 jp = (icache s ip)\<lparr>i_addrs := i_addrs (icache s2 jp), i_ref := i_ref J, i_fs_t := i_fs_t J, i_valid := True,
       i_lock := \<lparr>sl_locked = True, sl_pid = p_pid (this s)\<rparr>\<rparr> \<and>
     (\<forall>inum K. inum \<noteq> i_inum (icache s ip) \<longrightarrow> disk_inode d v s2 inum K = disk_inode d v s inum K)"
proof -
  let ?I = "icache s ip"
  have t: "in_txn d (Suc n) s" using assms(1) by simp
  obtain s1 where s1: "v6_iupdate ip s = Inr s1" "in_txn d n s1" "txn_frame d s1 = txn_frame d s" "bio_lock s1 = (\<lambda>_. None)"
      "disk_inode d v s1 (i_inum ?I) ?I = ?I"
      "\<And>inum J. inum \<noteq> i_inum ?I \<Longrightarrow> disk_inode d v s1 inum J = disk_inode d v s inum J"
    by (rule iupdate_ok [OF t assms(2,4,5,3)], rule that)
  let ?t = "i_upd jp (\<lambda>_. J) s1"
  note m = more_fields [OF s1(3)]
  have di: "disk_inode d v ?t = disk_inode d v s1" by (simp add: fun_eq_iff disk_inode_def i_upd_same)
  have o: "disk_inode d v s1 (i_inum ?I) J = ?I\<lparr>i_dev := i_dev J, i_inum := i_inum J, i_ref := i_ref J, i_lock := i_lock J,
      i_valid := i_valid J, i_fs_t := i_fs_t J, i_addrs := (\<lambda>k. if k < NDIRECT + 2 then i_addrs ?I k else i_addrs J k)\<rparr>"
    unfolding disk_inode_def
    by (rule get_dinode_over [of "bio_view s1 (of_nat d, IBLOCK (i_inum ?I) v)" "dinode_off (i_inum ?I)" J ?I,
          unfolded s1(5) [unfolded disk_inode_def]])
  have A: "\<forall>k<NDIRECT + 2. i_addrs (disk_inode d v s1 (i_inum ?I) J) k = i_addrs ?I k" by (simp add: o)
  have pre: "in_txn d n ?t" "layout_ok d v ?t" "i_dev (icache ?t jp) = of_nat d" "iblock_ok d v ?t (i_inum (icache ?t jp))"
      "bio_lock ?t = (\<lambda>_. None)" "1 \<le> i_ref (icache ?t jp)" "\<not> sl_locked (i_lock (icache ?t jp))" "\<not> i_valid (icache ?t jp)"
      "i_type (disk_inode d v ?t (i_inum (icache ?t jp)) (icache ?t jp)) \<noteq> 0"
    using s1(2,4) assms(2,5-11) layout_frame(1,4) [OF s1(3)] arg_cong [OF o, of i_type]
    by (simp_all add: i_upd_same iblock_ok_def di)
  from ilock_ok [OF pre] obtain s2 where s2: "v6_ilock jp ?t = Inr s2" "bio_view s2 = bio_view ?t"
      "icache s2 jp = (disk_inode d v s1 (i_inum ?I) J)\<lparr>i_lock := \<lparr>sl_locked = True, sl_pid = p_pid (this s)\<rparr>, i_valid := True\<rparr>"
    by (auto simp: di m assms(8))
  have "disk_inode d v s2 inum K = disk_inode d v s1 inum K" for inum K by (simp add: disk_inode_def s2(2) i_upd_same)
  moreover have "icache s2 jp = ?I\<lparr>i_addrs := i_addrs (icache s2 jp), i_ref := i_ref J, i_fs_t := i_fs_t J, i_valid := True,
      i_lock := \<lparr>sl_locked = True, sl_pid = p_pid (this s)\<rparr>\<rparr>"
    using assms(4,7,8) unfolding s2(3) o by (cases ?I) simp
  ultimately show ?thesis using s1(1,6) s2(1) A by (intro exI [of _ s1] exI [of _ s2]) (simp add: s2(3))
qed

definition slot_example :: inode where
  "slot_example = inode_example\<lparr>i_lock := initsleeplock, i_valid := False, i_type := 0, i_size := 7, i_nlink := 0, i_uid := 0\<rparr>"

theorem iupdate_ilock_roundtrip_witness:
  "\<exists>s1 s2. v6_iupdate 0 fs_example = Inr s1 \<and> v6_ilock 5 (i_upd 5 (\<lambda>_. slot_example) s1) = Inr s2 \<and>
     i_type (icache s2 5) = T_FILE \<and> i_size (icache s2 5) = 0 \<and> i_uid (icache s2 5) = 1000"
proof -
  have "\<exists>s1 s2. v6_iupdate 0 fs_example = Inr s1 \<and> v6_ilock 5 (i_upd 5 (\<lambda>_. slot_example) s1) = Inr s2 \<and>
     (\<forall>k<NDIRECT + 2. i_addrs (icache s2 5) k = i_addrs (icache fs_example 0) k) \<and>
     icache s2 5 = (icache fs_example 0)\<lparr>i_addrs := i_addrs (icache s2 5), i_ref := i_ref slot_example,
       i_fs_t := i_fs_t slot_example, i_valid := True, i_lock := \<lparr>sl_locked = True, sl_pid = p_pid (this fs_example)\<rparr>\<rparr> \<and>
     (\<forall>inum K. inum \<noteq> i_inum (icache fs_example 0) \<longrightarrow>
        disk_inode (Suc 0) v6_example s2 inum K = disk_inode (Suc 0) v6_example fs_example inum K)"
  proof (rule iupdate_ilock_roundtrip)
    show "in_txn (Suc 0) (5 + 1) fs_example" by (rule example_txn) simp
    show "iblock_ok (Suc 0) v6_example fs_example (i_inum (icache fs_example 0))"
      by (rule example_iblock) (simp add: example_fields inode_example_def)
  qed (simp_all add: example_layout example_bio example_fields inode_example_def slot_example_def initsleeplock_def T_FILE_def)
  then obtain s1 s2 where s: "v6_iupdate 0 fs_example = Inr s1" "v6_ilock 5 (i_upd 5 (\<lambda>_. slot_example) s1) = Inr s2"
    "icache s2 5 = (icache fs_example 0)\<lparr>i_addrs := i_addrs (icache s2 5), i_ref := i_ref slot_example,
       i_fs_t := i_fs_t slot_example, i_valid := True, i_lock := \<lparr>sl_locked = True, sl_pid = p_pid (this fs_example)\<rparr>\<rparr>"
    by blast
  show ?thesis
    by (intro exI [of _ s1] exI [of _ s2] conjI s(1,2); subst s(3)) (simp_all add: example_fields inode_example_def)
qed

section \<open>Reading and writing\<close>

text \<open>C7: \<open>v6_readi\<close> of a file whose blocks below its size are all allocated returns the bytes of the range, cut
  off at the end of the file, and leaves the file system as it is, also outside a transaction; an
  offset beyond the end or a range that wraps around gives \<open>-1\<close>.\<close>

theorem v6_readi_correct:
  fixes s :: "'a fsst_scheme"
  assumes "in_txn d k s" and "file_ok d v ip s" and "i_type (icache s ip) \<noteq> T_DEV"
    and "\<And>i. i < unat (i_size (icache s ip)) \<Longrightarrow> mapped d ip s i"
  shows "\<exists>s'. v6_readi ip off n s =
       (if unat off \<le> unat (i_size (icache s ip)) \<and> unat off + unat n < 2 ^ 64
        then let m = min (unat n) (unat (i_size (icache s ip)) - unat off)
             in Inr (int m, map (\<lambda>i. file_byte d ip s (unat off + i)) [0..<m], s')
        else Inr (- 1, [], s')) \<and> in_txn d k s' \<and> quiet d s s'"
proof (cases "unat off \<le> unat (i_size (icache s ip)) \<and> unat off + unat n < 2 ^ 64")
  case True
  then show ?thesis using readi_ok [OF assms] by (simp add: Let_def)
next
  case False
  have "off > ucast (i_size (icache s ip)) \<or> off + n < off"
  proof (cases "unat off + unat n < 2 ^ 64")
    case True
    then show ?thesis using False unat_ucast_u64 [of "i_size (icache s ip)"] by (simp add: word_less_nat_alt)
  next
    case w: False
    have b: "unat off < 2 ^ 64" "unat n < 2 ^ 64" using unsigned_less [of off] unsigned_less [of n] by simp_all
    have "(unat off + unat n) mod 2 ^ 64 = (unat off + unat n - 2 ^ 64) mod 2 ^ 64" using w by (intro le_mod_geq) linarith
    also have "\<dots> = unat off + unat n - 2 ^ 64" using b by (intro mod_less) linarith
    finally have "unat (off + n) = unat off + unat n - 2 ^ 64" by (simp add: unat_word_ariths)
    then have "off + n < off" unfolding word_less_nat_alt using w b by linarith
    then show ?thesis ..
  qed
  then have "v6_readi ip off n s = Inr (- 1, [], s)" using assms(3) by (simp add: v6_readi_def Let_def)
  then show ?thesis using False assms(1) by (auto simp: quiet_def)
qed

theorem v6_readi_correct_witness:
  "\<exists>s'. v6_readi 1 1 10 fs_example = Inr (4, [101, 108, 108, 111], s')"
proof -
  have sz: "unat (i_size (icache fs_example (Suc 0))) = 5" by (simp add: example_fields inode2_example_def)
  have e: "map (\<lambda>i. file_byte (Suc 0) (Suc 0) fs_example (Suc 0 + i)) [0..<4] = [101, 108, 108, 111]"
    by (simp add: upt_rec example_bytes2)
  have ty: "i_type (icache fs_example (Suc 0)) \<noteq> T_DEV"
    by (simp add: example_fields inode2_example_def inode_example_def T_DEV_def T_FILE_def)
  show ?thesis
    using v6_readi_correct [of "Suc 0" 0 fs_example v6_example "Suc 0" 1 10] example_txn [of 0] example_file2 ty
      example_bytes2(2) e by (auto simp: sz Let_def)
qed

text \<open>C3: \<open>v6_writei\<close> puts the given bytes at the given offset: afterwards the file holds them there and is as it
  was elsewhere, its size covers them, and no other block has changed but the bitmap and the inode's
  block; in particular no other file has. It needs nine log entries per block touched and one for the
  inode, and three free blocks per block touched. An offset beyond the end of the file gives \<open>-1\<close>.\<close>

theorem v6_writei_correct:
  fixes s :: "'a fsst_scheme"
  assumes "in_txn d (n + 9 * spanned (unat off) (length src) + 1) s" and "file_ok d v ip s"
    and "iblock_ok d v s (i_inum (icache s ip))" and "i_type (icache s ip) \<noteq> T_DEV" and "unat off + length src < 2 ^ 32"
    and "3 * spanned (unat off) (length src) \<le> card (free_blocks d v s)"
  shows "if unat off \<le> unat (i_size (icache s ip))
     then \<exists>s'. v6_writei ip src off s = Inr (int (length src), s') \<and> written d v ip n src (unat off) s s'
     else v6_writei ip src off s = Inr (- 1, s)"
proof (cases "unat off \<le> unat (i_size (icache s ip))")
  case True
  then show ?thesis using writei_ok [OF assms(1-4) True assms(5,6)] by simp
next
  case False
  then have "off > ucast (i_size (icache s ip))"
    using unat_ucast_u64 [of "i_size (icache s ip)"] unfolding word_less_nat_alt by linarith
  then show ?thesis using False assms(4) by (simp add: v6_writei_def Let_def)
qed

lemma example_writei:
  "in_txn (Suc 0) (20 + 9 * spanned (unat (3 :: u64)) (length [1, 2, 3 :: u8]) + 1) fs_example"
  "iblock_ok (Suc 0) v6_example fs_example (i_inum (icache fs_example (Suc 0)))"
  "i_type (icache fs_example (Suc 0)) \<noteq> T_DEV" "unat (i_size (icache fs_example (Suc 0))) = 5"
  "3 * spanned (unat (3 :: u64)) (length [1, 2, 3 :: u8]) \<le> card (free_blocks (Suc 0) v6_example fs_example)"
proof -
  show "iblock_ok (Suc 0) v6_example fs_example (i_inum (icache fs_example (Suc 0)))"
    by (rule example_iblock) (simp add: example_fields inode2_example_def)
  have "spanned (unat (3 :: u64)) (length [1, 2, 3 :: u8]) = 1" by (simp add: spanned_def BSIZE_def)
  then show "in_txn (Suc 0) (20 + 9 * spanned (unat (3 :: u64)) (length [1, 2, 3 :: u8]) + 1) fs_example"
    "3 * spanned (unat (3 :: u64)) (length [1, 2, 3 :: u8]) \<le> card (free_blocks (Suc 0) v6_example fs_example)"
    by (simp_all add: example_txn example_free)
qed (simp_all add: example_fields inode2_example_def inode_example_def T_DEV_def T_FILE_def)

theorem v6_writei_correct_witness:
  "\<exists>s'. v6_writei 1 [1, 2, 3] 3 fs_example = Inr (3, s') \<and> written 1 v6_example 1 20 [1, 2, 3] 3 fs_example s'"
  using v6_writei_correct [of "Suc 0" 20 3 "[1, 2, 3]" fs_example v6_example "Suc 0", OF example_writei(1) example_file2
      example_writei(2,3) _ example_writei(5)] by (simp add: example_writei(4))

text \<open>C4: What \<open>v6_writei\<close> has written, \<open>v6_readi\<close> reads: at the offset of the write it returns the bytes that
  were written.\<close>

theorem v6_write_read_roundtrip:
  fixes s :: "'a fsst_scheme"
  assumes "in_txn d (n + 9 * spanned (unat off) (length src) + 1) s" and "file_ok d v ip s"
    and "iblock_ok d v s (i_inum (icache s ip))" and "i_type (icache s ip) \<noteq> T_DEV" and "unat off + length src < 2 ^ 32"
    and "3 * spanned (unat off) (length src) \<le> card (free_blocks d v s)"
    and "unat off \<le> unat (i_size (icache s ip))" and "\<And>i. i < unat (i_size (icache s ip)) \<Longrightarrow> mapped d ip s i"
  shows "\<exists>s1 s2. v6_writei ip src off s = Inr (int (length src), s1) \<and>
     v6_readi ip off (of_nat (length src)) s1 = Inr (int (length src), src, s2)"
proof -
  obtain s1 where s1: "v6_writei ip src off s = Inr (int (length src), s1)" "written d v ip n src (unat off) s s1"
    using writei_ok [OF assms(1-4,7,5,6)] by blast
  note w = s1(2) [unfolded written_def]
  have un: "unat (of_nat (length src) :: u64) = length src" using assms(5) by (simp add: unat_of_nat)
  have sz: "unat (i_size (icache s1 ip)) = max (unat (i_size (icache s ip))) (unat off + length src)" using w by blast
  have le: "unat off + length src \<le> MAXFILE * BSIZE" "unat (i_size (icache s ip)) \<le> MAXFILE * BSIZE"
    using assms(5) size_le_MAXFILE by (simp_all add: MAXFILE_def NDIRECT_def NINDIRECT_def BSIZE_def)
  have mp: "mapped d ip s1 i" if "i < unat (i_size (icache s1 ip))" for i
    using w assms(7,8) that le unfolding sz by (cases "i < unat (i_size (icache s ip))") auto
  have pre: "in_txn d n s1" "file_ok d v ip s1" "i_type (icache s1 ip) \<noteq> T_DEV" "unat off \<le> unat (i_size (icache s1 ip))"
      "unat off + unat (of_nat (length src) :: u64) < 2 ^ 64"
    using w assms(4,5,7) fs_frame_same(4) [of d ip s1 s] un by (auto simp: sz)
  have m: "min (length src) (unat (i_size (icache s1 ip)) - unat off) = length src" by (simp add: sz)
  from readi_ok [OF pre(1-3) mp pre(4,5)] obtain s2 where
    "v6_readi ip off (of_nat (length src)) s1 = Inr (int (length src), map (\<lambda>i. file_byte d ip s1 (unat off + i)) [0..<length src], s2)"
    unfolding un m by blast
  moreover have "map (\<lambda>i. file_byte d ip s1 (unat off + i)) [0..<length src] = src"
    using w le by (intro nth_equalityI) auto
  ultimately show ?thesis using s1(1) by auto
qed

theorem v6_write_read_roundtrip_witness:
  "\<exists>s1 s2. v6_writei 1 [1, 2, 3] 3 fs_example = Inr (3, s1) \<and> v6_readi 1 3 3 s1 = Inr (3, [1, 2, 3], s2)"
  using v6_write_read_roundtrip [of "Suc 0" 20 3 "[1, 2, 3]" fs_example v6_example "Suc 0", OF example_writei(1) example_file2
      example_writei(2,3) _ example_writei(5) _ example_bytes2(2)] by (simp add: example_writei(4))

end
