(* ===== verification/Proc.thy ===== *)
theory Proc
  imports File Sigset
begin

text \<open>
  Processes, \<open>kern/proc.c\<close>: the process table with its run queue and sleep queues, creation and exit of
  processes, scheduling, sleeping and waking, and signals. A process is an index into
  \<open>ptable.proc\<close>; \<open>proc_addr\<close> is the address of an entry, which is used as a sleep channel. A call is
  made by the process \<open>cur\<close> on the CPU \<open>c\<close>. A function that holds \<open>ptable.lock\<close> is atomic, except where
  \<open>swtch\<close> gives up the CPU: there the operation ends, and \<open>t_context\<close> says where the process goes on
  when \<open>scheduler\<close> picks it again. \<open>proc_initx\<close>, \<open>fork\<close> and \<open>exit\<close>, which hold the lock only in parts, are put
  together from their parts, between which other CPUs run in \<open>Proc_Reach\<close>.

  The queues are lists of entries; that \<open>proc_alloc\<close> clears the links of the entry it takes has no effect on
  them, which is right as long as no free entry is in a queue. The bytes of a new trap frame that \<open>proc_alloc\<close> leaves as they are on the
  new page are 0. The name and the timers of a process are not modelled.

  What \<open>kalloc\<close> and the functions of \<open>vm.c\<close> and \<open>mmap.c\<close> return to \<open>fork\<close> and \<open>proc_initx\<close> are arguments; 0 is
  failure. The lock \<open>ptable.lock\<close> is state only in the signal handlers, which are called both with and
  without it.
\<close>

section \<open>State\<close>

definition NPROC :: nat where "NPROC = 128"
definition NCPU :: nat where "NCPU = 4"
definition SQSIZE :: nat where "SQSIZE = 256"

definition HASH :: "u64 \<Rightarrow> nat" where
  "HASH x = unat (drop_bit 5 x AND (of_nat SQSIZE - 1))"

datatype procstate = UNUSED | EMBRYO | SLEEPING | RUNNABLE | RUNNING | ZOMBIE

text \<open>Where a process that is not running goes on: the return address in its context.\<close>

datatype resume = Forkret | InYield | InSleep | InStop int | InSuspend u64

record sigact =
  sa_handler :: u64
  sa_mask :: u64
  sa_flags :: u32
  sa_restorer :: u64

record k_sigaction =
  k_handler :: u64
  k_flags :: u64
  k_restorer :: u64
  k_mask :: u64

record signal =
  sig_mask :: u64
  sig_pending :: u64
  sig_actions :: "nat \<Rightarrow> sigact"

text \<open>A trap frame is its 304 bytes; the fields used are at these offsets.\<close>

definition TF_SIZE :: nat where "TF_SIZE = 304"
definition TF_ELR :: nat where "TF_ELR = 8"
definition TF_SP :: nat where "TF_SP = 16"
definition TF_X0 :: nat where "TF_X0 = 32"

record task =
  t_base :: u64
  t_sz :: u64
  t_stksz :: u64
  t_pgdir :: u64
  t_kstack :: u64
  t_state :: procstate
  t_id :: proc
  t_parent :: "nat option"
  t_child :: "nat list"
  t_tf :: bytes
  t_oldtf :: u64
  t_context :: resume
  t_chan :: u64
  t_xstate :: u32
  t_nregions :: int
  t_signal :: signal
  t_paused :: bool

record cpu =
  cpu_proc :: "nat option"
  cpu_idle :: "nat option"
  in_sched :: bool

record ptable =
  tasks :: "nat \<Rightarrow> task"
  slpque :: "nat \<Rightarrow> nat list"
  sched_que :: "nat list"
  last_pid :: int
  initproc :: "nat option"
  first_run :: bool
  cpus :: "nat \<Rightarrow> cpu"
  proc_addr :: "nat \<Rightarrow> u64"
  umem :: "nat \<Rightarrow> u64 \<Rightarrow> u8"

definition proc0 :: proc where
  "proc0 = \<lparr>p_pid = 0, p_pgid = 0, p_sid = 0, p_uid = 0, p_euid = 0, p_suid = 0, p_fsuid = 0, p_gid = 0, p_egid = 0, p_sgid = 0,
     p_fsgid = 0, p_groups = (\<lambda>_. 0), p_ngroups = 0, cap_effective = 0, cap_inheritable = 0, cap_permitted = 0, p_umask = 0,
     p_killed = False, p_fdflag = 0, p_ofile = (\<lambda>_. None), p_cwd = 0\<rparr>"

definition sigaction0 :: sigact where
  "sigaction0 = \<lparr>sa_handler = 0, sa_mask = 0, sa_flags = 0, sa_restorer = 0\<rparr>"

definition task0 :: task where
  "task0 = \<lparr>t_base = 0, t_sz = 0, t_stksz = 0, t_pgdir = 0, t_kstack = 0, t_state = UNUSED, t_id = proc0, t_parent = None,
     t_child = [], t_tf = (\<lambda>_. 0), t_oldtf = 0, t_context = Forkret, t_chan = 0, t_xstate = 0, t_nregions = 0,
     t_signal = \<lparr>sig_mask = 0, sig_pending = 0, sig_actions = (\<lambda>_. sigaction0)\<rparr>, t_paused = False\<rparr>"

definition t_upd :: "nat \<Rightarrow> (task \<Rightarrow> task) \<Rightarrow> ptable \<Rightarrow> ptable" where
  "t_upd p f pt = pt\<lparr>tasks := (tasks pt)(p := f (tasks pt p))\<rparr>"

definition c_upd :: "nat \<Rightarrow> (cpu \<Rightarrow> cpu) \<Rightarrow> ptable \<Rightarrow> ptable" where
  "c_upd c f pt = pt\<lparr>cpus := (cpus pt)(c := f (cpus pt c))\<rparr>"

definition push_run :: "nat \<Rightarrow> ptable \<Rightarrow> ptable" where
  "push_run p pt = pt\<lparr>sched_que := sched_que pt @ [p]\<rparr>"

definition proc_init :: "ptable \<Rightarrow> ptable" where
  "proc_init pt = pt\<lparr>sched_que := [], slpque := (\<lambda>h. if h < SQSIZE then [] else slpque pt h)\<rparr>"

section \<open>Creation\<close>

text \<open>\<open>++pid\<close> on the 32 bits of a \<open>pid_t\<close>.\<close>

definition next_pid :: "int \<Rightarrow> int" where
  "next_pid n = (if n = 2 ^ 31 - 1 then - (2 ^ 31) else n + 1)"

definition proc_alloc :: "u64 \<Rightarrow> ptable \<Rightarrow> nat option \<times> ptable" where
  "proc_alloc kstack pt =
     (case find (\<lambda>i. t_state (tasks pt i) = UNUSED) [0..<NPROC] of
        None \<Rightarrow> (None, pt)
      | Some p \<Rightarrow>
          let pt = t_upd p (\<lambda>_. task0) pt
          in if kstack = 0 then (None, pt)
             else (Some p, t_upd p (\<lambda>T. T\<lparr>t_kstack := kstack, t_id := (t_id T)\<lparr>p_pid := next_pid (last_pid pt)\<rparr>, t_state := EMBRYO\<rparr>)
                             (pt\<lparr>last_pid := next_pid (last_pid pt)\<rparr>)))"

text \<open>The assignments of \<open>proc_initx\<close>, which are made without the lock.\<close>

definition initx_task :: "u64 \<Rightarrow> task \<Rightarrow> task" where
  "initx_task pgdir T = T\<lparr>t_pgdir := pgdir, t_stksz := 0, t_sz := 4096, t_base := 0,
     t_id := (t_id T)\<lparr>p_pgid := p_pid (t_id T), p_sid := p_pid (t_id T), p_fdflag := 0, p_umask := 2,
       p_uid := 0, p_euid := 0, p_suid := 0, p_fsuid := 0, p_gid := 0, p_egid := 0, p_sgid := 0, p_fsgid := 0,
       p_ngroups := 0, p_groups := (\<lambda>_. 0)\<rparr>,
     t_nregions := 0, t_tf := put64 (t_tf T) TF_ELR 0\<rparr>"

definition proc_initx :: "u64 \<Rightarrow> u64 \<Rightarrow> u64 \<Rightarrow> bool \<Rightarrow> ptable \<Rightarrow> (nat \<times> ptable) kres" where
  "proc_initx kstack va pgdir mapped pt =
     (case proc_alloc kstack pt of
        (None, pt) \<Rightarrow> Inl (Panic ''assert(p && va)'')
      | (Some p, pt) \<Rightarrow>
          if va = 0 then Inl (Panic ''assert(p && va)'')
          else if pgdir = 0 then Inl (Panic ''assert(p->pgdir)'')
          else if \<not> mapped then Inl (Panic ''assert(ret == 0)'')
          else Inr (p, t_upd p (initx_task pgdir) pt))"

text \<open>The ends of \<open>idle_init\<close> and \<open>user_init\<close>.\<close>

definition idle_start :: "nat \<Rightarrow> nat \<Rightarrow> ptable \<Rightarrow> ptable" where
  "idle_start c p pt = c_upd c (\<lambda>C. C\<lparr>cpu_idle := Some p\<rparr>) pt"

definition idle_init :: "nat \<Rightarrow> u64 \<Rightarrow> u64 \<Rightarrow> u64 \<Rightarrow> bool \<Rightarrow> ptable \<Rightarrow> ptable kres" where
  "idle_init c kstack va pgdir mapped pt =
     kbind (proc_initx kstack va pgdir mapped pt) (\<lambda>(p, pt).
     Inr (idle_start c p pt))"

definition CAP_INIT_EFF_SET :: u32 where "CAP_INIT_EFF_SET = NOT (push_bit 8 1)"

definition user_start :: "nat \<Rightarrow> nat \<Rightarrow> ptable \<Rightarrow> ptable" where
  "user_start ip p pt = push_run p (t_upd p (\<lambda>T. T\<lparr>t_id := (t_id T)\<lparr>cap_effective := CAP_INIT_EFF_SET,
     cap_inheritable := CAP_INIT_EFF_SET, cap_permitted := CAP_INIT_EFF_SET, p_cwd := ip\<rparr>\<rparr>) pt)"

definition user_init :: "u64 \<Rightarrow> u64 \<Rightarrow> u64 \<Rightarrow> bool \<Rightarrow> filest \<times> ptable \<Rightarrow> (filest \<times> ptable) kres" where
  "user_init kstack va pgdir mapped = (\<lambda>(fs, pt).
     kbind (proc_initx kstack va pgdir mapped pt) (\<lambda>(p, pt).
     kbind (namei [47] fs) (\<lambda>(cwd, fs).
     case cwd of
       None \<Rightarrow> Inl (Panic ''assert(p->cwd)'')
     | Some ip \<Rightarrow> Inr (fs, user_start ip p pt))))"

section \<open>Scheduling\<close>

text \<open>What a process does first when it is picked: the code after \<open>swtch\<close>.\<close>

definition resumed :: "task \<Rightarrow> task" where
  "resumed T = (case t_context T of
       Forkret \<Rightarrow> T
     | InYield \<Rightarrow> T\<lparr>t_state := RUNNING\<rparr>
     | InSleep \<Rightarrow> T\<lparr>t_state := RUNNING\<rparr>
     | InStop sig \<Rightarrow> T\<lparr>t_state := RUNNING,
         t_signal := (t_signal T)\<lparr>sig_pending := snd (sigdelset (sig_pending (t_signal T)) sig)\<rparr>\<rparr>
     | InSuspend m \<Rightarrow> T\<lparr>t_state := RUNNING, t_signal := (t_signal T)\<lparr>sig_mask := m\<rparr>\<rparr>)"

definition scheduler :: "nat \<Rightarrow> ptable \<Rightarrow> ptable kres" where
  "scheduler c pt =
     (let next = (case sched_que pt of [] \<Rightarrow> cpu_idle (cpus pt c) | p # _ \<Rightarrow> Some p);
          pt = pt\<lparr>sched_que := tl (sched_que pt)\<rparr>
      in case next of
           None \<Rightarrow> Inl (Fault ''idle'')
         | Some p \<Rightarrow> Inr (t_upd p resumed (c_upd c (\<lambda>C. C\<lparr>cpu_proc := Some p, in_sched := False\<rparr>) pt)))"

definition swtch_out :: "nat \<Rightarrow> nat \<Rightarrow> resume \<Rightarrow> ptable \<Rightarrow> ptable" where
  "swtch_out c p r pt = c_upd c (\<lambda>C. C\<lparr>in_sched := True\<rparr>) (t_upd p (\<lambda>T. T\<lparr>t_context := r\<rparr>) pt)"

definition yield :: "nat \<Rightarrow> nat \<Rightarrow> ptable \<Rightarrow> ptable" where
  "yield c cur pt =
     (let pt = (if Some cur \<noteq> cpu_idle (cpus pt c) then push_run cur pt else pt)
      in swtch_out c cur InYield (t_upd cur (\<lambda>T. T\<lparr>t_state := RUNNABLE\<rparr>) pt))"

definition sleep_on :: "nat \<Rightarrow> nat \<Rightarrow> u64 \<Rightarrow> resume \<Rightarrow> ptable \<Rightarrow> ptable kres" where
  "sleep_on c cur chan r pt =
     (if Some cur = cpu_idle (cpus pt c) then Inl (Panic ''assert(p != thiscpu()->idle)'')
      else Inr (swtch_out c cur r (t_upd cur (\<lambda>T. T\<lparr>t_chan := chan, t_state := SLEEPING\<rparr>)
             (pt\<lparr>slpque := (slpque pt)(HASH chan := slpque pt (HASH chan) @ [cur])\<rparr>))))"

definition sleep :: "nat \<Rightarrow> nat \<Rightarrow> u64 \<Rightarrow> ptable \<Rightarrow> ptable kres" where
  "sleep c cur chan pt = sleep_on c cur chan InSleep pt"

definition wake_one :: "u64 \<Rightarrow> nat \<Rightarrow> ptable \<Rightarrow> ptable" where
  "wake_one chan p pt =
     (if t_chan (tasks pt p) = chan then
        t_upd p (\<lambda>T. T\<lparr>t_state := RUNNABLE\<rparr>)
          (push_run p (pt\<lparr>slpque := (slpque pt)(HASH chan := remove1 p (slpque pt (HASH chan)))\<rparr>))
      else pt)"

definition wakeup1 :: "u64 \<Rightarrow> ptable \<Rightarrow> ptable" where
  "wakeup1 chan pt = fold (wake_one chan) (slpque pt (HASH chan)) pt"

definition wakeup :: "u64 \<Rightarrow> ptable \<Rightarrow> ptable" where
  "wakeup chan pt = wakeup1 chan pt"

section \<open>Fork\<close>

text \<open>\<open>ret\<close> is the result of \<open>emmc_init\<close>.\<close>

definition forkret :: "int \<Rightarrow> nat \<Rightarrow> nat \<Rightarrow> filest \<times> ptable \<Rightarrow> (filest \<times> ptable) kres" where
  "forkret ret c cur = (\<lambda>(fs, pt).
     if first_run pt \<and> Some cur \<noteq> cpu_idle (cpus pt c) then
       kbind (dev_init ret fs) (\<lambda>fs.
       kbind (iinit ROOTDEV fs) (\<lambda>fs.
       kbind (initlog (unat ROOTDEV) fs) (\<lambda>fs.
       Inr (fs, pt\<lparr>first_run := False\<rparr>))))
     else Inr (fs, pt))"

text \<open>The child's copy of the parent; \<open>umask\<close> is not among the fields that \<open>fork\<close> copies.\<close>

definition fork_id :: "proc \<Rightarrow> proc \<Rightarrow> proc" where
  "fork_id cp np = np\<lparr>p_ofile := (\<lambda>fd. if fd < NOFILE then p_ofile cp fd else p_ofile np fd), p_cwd := p_cwd cp,
     p_pgid := p_pgid cp, p_sid := p_sid cp, p_fdflag := p_fdflag cp, p_uid := p_uid cp, p_euid := p_euid cp,
     p_suid := p_suid cp, p_fsuid := p_fsuid cp, p_gid := p_gid cp, p_egid := p_egid cp, p_sgid := p_sgid cp,
     p_fsgid := p_fsgid cp, p_ngroups := p_ngroups cp,
     p_groups := (\<lambda>i. if int i < p_ngroups cp then p_groups cp i else p_groups np i),
     cap_effective := cap_effective cp, cap_inheritable := cap_inheritable cp, cap_permitted := cap_permitted cp\<rparr>"

definition fork_task :: "nat \<Rightarrow> task \<Rightarrow> u64 \<Rightarrow> task \<Rightarrow> task" where
  "fork_task cur cp pgdir np = np\<lparr>t_pgdir := pgdir, t_parent := Some cur, t_base := t_base cp, t_sz := t_sz cp,
     t_stksz := t_stksz cp, t_nregions := t_nregions cp, t_tf := put64 (t_tf cp) TF_X0 0, t_id := fork_id (t_id cp) (t_id np),
     t_signal := t_signal cp\<rparr>"

definition dup_file :: "nat option \<Rightarrow> filest \<Rightarrow> filest kres" where
  "dup_file q fs = (case q of None \<Rightarrow> Inr fs | Some f \<Rightarrow> kbind (filedup f fs) (\<lambda>(_, fs). Inr fs))"

text \<open>
  The part of \<open>fork\<close> between the two sections with the lock, after \<open>proc_alloc\<close>. \<open>Some e\<close> is an error, after
  which the new entry is free again.
\<close>

definition fork_copy :: "nat \<Rightarrow> nat \<Rightarrow> u64 \<Rightarrow> int \<Rightarrow> filest \<times> ptable \<Rightarrow> (int option \<times> filest \<times> ptable) kres" where
  "fork_copy cur np pgdir regions = (\<lambda>(fs, pt).
     let cp = tasks pt cur in
     if pgdir = 0 then Inr (Some (- ENOMEM), fs, t_upd np (\<lambda>T. T\<lparr>t_pgdir := 0, t_state := UNUSED\<rparr>) pt)
     else if t_nregions cp \<noteq> 0 \<and> regions < 0 then
       Inr (Some regions, fs, t_upd np (\<lambda>T. T\<lparr>t_pgdir := pgdir, t_state := UNUSED\<rparr>) pt)
     else
       kbind (kfold (\<lambda>fd. dup_file (p_ofile (t_id cp) fd)) [0..<NOFILE] fs) (\<lambda>fs.
       let (_, fs) = idup (p_cwd (t_id cp)) fs
       in Inr (None, fs, t_upd np (fork_task cur cp pgdir) pt)))"

definition fork_start :: "nat \<Rightarrow> nat \<Rightarrow> ptable \<Rightarrow> ptable" where
  "fork_start cur np pt = t_upd np (\<lambda>T. T\<lparr>t_state := RUNNABLE\<rparr>)
     (push_run np (t_upd cur (\<lambda>T. T\<lparr>t_child := t_child T @ [np]\<rparr>) pt))"

definition fork :: "nat \<Rightarrow> u64 \<Rightarrow> u64 \<Rightarrow> int \<Rightarrow> filest \<times> ptable \<Rightarrow> (int \<times> filest \<times> ptable) kres" where
  "fork cur kstack pgdir regions = (\<lambda>(fs, pt).
     case proc_alloc kstack pt of
       (None, pt) \<Rightarrow> Inr (- ENOMEM, fs, pt)
     | (Some np, pt) \<Rightarrow>
         kbind (fork_copy cur np pgdir regions (fs, pt)) (\<lambda>(e, fs, pt).
         case e of
           Some e \<Rightarrow> Inr (e, fs, pt)
         | None \<Rightarrow> Inr (p_pid (t_id (tasks pt np)), fs, fork_start cur np pt)))"

section \<open>Wait and exit\<close>

definition WNOHANG :: u32 where "WNOHANG = 1"
definition WUNTRACED :: u32 where "WUNTRACED = 2"

definition wait_matches :: "int \<Rightarrow> nat \<Rightarrow> ptable \<Rightarrow> nat \<Rightarrow> bool" where
  "wait_matches pid cur pt p =
     (let P = t_id (tasks pt p) in
      t_parent (tasks pt p) = Some cur \<and>
      (if pid > 0 then p_pid P = pid
       else if pid = 0 then p_pgid P = p_pgid (t_id (tasks pt cur))
       else pid \<noteq> - 1 \<longrightarrow> p_pgid P = - pid))"

definition wait_ready :: "u32 \<Rightarrow> task \<Rightarrow> bool" where
  "wait_ready opts T = (t_state T = ZOMBIE \<or> opts AND WUNTRACED \<noteq> 0 \<and> t_state T = SLEEPING \<or> opts AND WNOHANG \<noteq> 0)"

datatype wait_result = Reaped int u32 | NoChild | Waiting

text \<open>One round of the loop of \<open>wait4\<close>; a caller that has to wait makes the next round when it is woken.\<close>

definition wait4 :: "nat \<Rightarrow> nat \<Rightarrow> int \<Rightarrow> u32 \<Rightarrow> ptable \<Rightarrow> (wait_result \<times> ptable) kres" where
  "wait4 c cur pid opts pt =
     (if t_child (tasks pt cur) = [] then Inr (NoChild, pt)
      else case find (\<lambda>p. wait_matches pid cur pt p \<and> wait_ready opts (tasks pt p)) (t_child (tasks pt cur)) of
        Some p \<Rightarrow>
          Inr (Reaped (p_pid (t_id (tasks pt p))) (push_bit 8 (t_xstate (tasks pt p))),
            t_upd p (\<lambda>T. T\<lparr>t_state := UNUSED\<rparr>) (t_upd cur (\<lambda>T. T\<lparr>t_child := remove1 p (t_child T)\<rparr>) pt))
      | None \<Rightarrow> kbind (sleep c cur (proc_addr pt cur) pt) (\<lambda>pt. Inr (Waiting, pt)))"

definition close_file :: "nat \<Rightarrow> filest \<Rightarrow> filest kres" where
  "close_file fd fs =
     (case p_ofile (this fs) fd of
        None \<Rightarrow> Inr fs
      | Some f \<Rightarrow>
          kbind (fileclose f fs) (\<lambda>fs. Inr (fs\<lparr>this := (this fs)\<lparr>p_ofile := (p_ofile (this fs))(fd := None)\<rparr>\<rparr>)))"

text \<open>The null pointer that \<open>exit\<close> leaves in \<open>cwd\<close> is not represented; a zombie's \<open>cwd\<close> is not read.\<close>

definition exit_files :: "nat \<Rightarrow> filest \<times> ptable \<Rightarrow> (filest \<times> ptable) kres" where
  "exit_files cur = (\<lambda>(fs, pt).
     kbind (kfold close_file [0..<NOFILE] (fs\<lparr>this := t_id (tasks pt cur)\<rparr>)) (\<lambda>fs.
     kbind (begin_op fs) (\<lambda>fs.
     kbind (iput (p_cwd (this fs)) fs) (\<lambda>fs.
     kbind (end_op fs) (\<lambda>fs.
     Inr (fs, t_upd cur (\<lambda>T. T\<lparr>t_id := (t_id T)\<lparr>p_ofile := p_ofile (this fs)\<rparr>\<rparr>) pt))))))"

text \<open>A child is handed to \<open>initproc\<close>, through a pointer that is null unless somebody sets it.\<close>

definition reparent :: "nat \<Rightarrow> nat \<Rightarrow> ptable \<Rightarrow> ptable kres" where
  "reparent cur p pt =
     (if t_parent (tasks pt p) \<noteq> Some cur then Inl (Panic ''assert(p->parent == cp)'')
      else case initproc pt of
        None \<Rightarrow> Inl (Fault ''initproc'')
      | Some i \<Rightarrow>
          let pt = t_upd p (\<lambda>T. T\<lparr>t_parent := Some i\<rparr>) pt;
              pt = t_upd cur (\<lambda>T. T\<lparr>t_child := remove1 p (t_child T)\<rparr>) pt;
              pt = t_upd i (\<lambda>T. T\<lparr>t_child := t_child T @ [p]\<rparr>) pt
          in Inr (if t_state (tasks pt p) = ZOMBIE then wakeup1 (proc_addr pt i) pt else pt))"

definition exit_task :: "nat \<Rightarrow> nat \<Rightarrow> u32 \<Rightarrow> ptable \<Rightarrow> ptable kres" where
  "exit_task c cur err pt =
     (let pt = (case t_parent (tasks pt cur) of None \<Rightarrow> wakeup1 0 pt | Some q \<Rightarrow> wakeup1 (proc_addr pt q) pt) in
      kbind (kfold (reparent cur) (t_child (tasks pt cur)) pt) (\<lambda>pt.
      Inr (swtch_out c cur InYield (t_upd cur (\<lambda>T. T\<lparr>t_xstate := err AND 127, t_state := ZOMBIE\<rparr>) pt))))"

definition exit :: "nat \<Rightarrow> nat \<Rightarrow> u32 \<Rightarrow> filest \<times> ptable \<Rightarrow> (filest \<times> ptable) kres" where
  "exit c cur err = (\<lambda>(fs, pt).
     if initproc pt = Some cur then Inl (Panic ''init exit'')
     else kbind (exit_files cur (fs, pt)) (\<lambda>(fs, pt).
          kbind (exit_task c cur err pt) (\<lambda>pt. Inr (fs, pt))))"

section \<open>Signals\<close>

definition SIGKILL :: int where "SIGKILL = 9"
definition SIGCONT :: int where "SIGCONT = 18"
definition SIGSTOP :: int where "SIGSTOP = 19"
definition SIGTERM :: int where "SIGTERM = 15"
definition SIGINT :: int where "SIGINT = 2"
definition SIG_DFL :: u64 where "SIG_DFL = 0"
definition SIG_IGN :: u64 where "SIG_IGN = 1"

definition stop_signals :: "int list" where "stop_signals = [19, 20, 21, 22]"
definition term_signals :: "int list" where
  "term_signals = [6, 7, 8, 4, 3, 11, 31, 5, 24, 25, 14, 1, 2, 29, 9, 13, 27, 30, 15, 16, 10, 12, 26]"

definition sig_upd :: "nat \<Rightarrow> (signal \<Rightarrow> signal) \<Rightarrow> ptable \<Rightarrow> ptable" where
  "sig_upd p f pt = t_upd p (\<lambda>T. T\<lparr>t_signal := f (t_signal T)\<rparr>) pt"

text \<open>
  The handlers. \<open>held\<close> says whether the caller holds \<open>ptable.lock\<close>: \<open>acquire\<close> of a lock that is held spins
  for ever. \<open>stop_handler\<close> puts the calling process to sleep, whichever process the signal is for.
\<close>

definition term_handler :: "bool \<Rightarrow> nat \<Rightarrow> ptable \<Rightarrow> ptable kres" where
  "term_handler held p pt =
     (if held then Inl (Deadlock ''ptable.lock'')
      else Inr (t_upd p (\<lambda>T. T\<lparr>t_id := (t_id T)\<lparr>p_killed := True\<rparr>,
             t_state := (if t_state T = SLEEPING then RUNNABLE else t_state T)\<rparr>) pt))"

definition cont_handler :: "nat \<Rightarrow> ptable \<Rightarrow> ptable" where
  "cont_handler p pt = wakeup1 (proc_addr pt p) pt"

definition stop_handler :: "bool \<Rightarrow> nat \<Rightarrow> nat \<Rightarrow> nat \<Rightarrow> int \<Rightarrow> ptable \<Rightarrow> ptable kres" where
  "stop_handler held c cur p sig pt =
     (if held then Inl (Deadlock ''ptable.lock'') else sleep_on c cur (proc_addr pt p) (InStop sig) pt)"

text \<open>
  \<open>user_handler\<close> writes through user addresses, so into the address space of the calling process. The
  code of \<open>sigret_syscall.S\<close> is \<open>mov x8, 139; svc 0\<close>.
\<close>

definition sigret_code :: "u8 list" where
  "sigret_code = [0x68, 0x11, 0x80, 0xd2, 0x01, 0x00, 0x00, 0xd4]"

definition put_user :: "nat \<Rightarrow> u64 \<Rightarrow> u8 list \<Rightarrow> ptable \<Rightarrow> ptable" where
  "put_user cur a xs pt = pt\<lparr>umem := (umem pt)(cur :=
     (\<lambda>b. if unat (b - a) < length xs then xs ! unat (b - a) else umem pt cur b))\<rparr>"

definition get_user :: "nat \<Rightarrow> u64 \<Rightarrow> nat \<Rightarrow> ptable \<Rightarrow> u8 list" where
  "get_user cur a n pt = map (\<lambda>i. umem pt cur (a + of_nat i)) [0..<n]"

definition user_handler :: "nat \<Rightarrow> nat \<Rightarrow> int \<Rightarrow> ptable \<Rightarrow> ptable" where
  "user_handler cur p sig pt =
     (let tf = t_tf (tasks pt p);
          sp = get64 tf TF_SP - of_nat TF_SIZE;
          pt = put_user cur sp (bytes_list tf 0 TF_SIZE) pt;
          pt = t_upd p (\<lambda>T. T\<lparr>t_oldtf := sp\<rparr>) pt;
          ret = sp - of_nat (length sigret_code);
          pt = put_user cur ret sigret_code pt;
          sp = ret - 8;
          pt = put_user cur sp (bytes_list (put64 (\<lambda>_. 0) 0 ret) 0 8) pt;
          tf = put64 tf TF_X0 (of_int sig);
          tf = put64 tf TF_SP sp;
          tf = put64 tf TF_ELR (sa_handler (sig_actions (t_signal (tasks pt p)) (nat sig)))
      in t_upd p (\<lambda>T. T\<lparr>t_tf := tf\<rparr>) pt)"

definition sigreturn :: "nat \<Rightarrow> ptable \<Rightarrow> int \<times> ptable" where
  "sigreturn cur pt =
     (0, t_upd cur (\<lambda>T. T\<lparr>t_tf := list_bytes (get_user cur (t_oldtf T) TF_SIZE pt)\<rparr>) pt)"

definition handle_signal :: "bool \<Rightarrow> nat \<Rightarrow> nat \<Rightarrow> nat \<Rightarrow> int \<Rightarrow> ptable \<Rightarrow> ptable kres" where
  "handle_signal held c cur p sig pt =
     (let h = sa_handler (sig_actions (t_signal (tasks pt p)) (nat sig));
          clear = (\<lambda>pt. Inr (sig_upd p (\<lambda>S. S\<lparr>sig_pending := snd (sigdelset (sig_pending S) sig)\<rparr>) pt))
      in if sig = 0 then Inr pt
         else if sig < 0 \<or> sig \<ge> NSIG then Inl (Fault ''actions[sig]'')
         else if h = SIG_IGN then clear pt
         else if h = SIG_DFL then
           (if sig \<in> set stop_signals then stop_handler held c cur p sig pt
            else if sig = SIGCONT then clear (cont_handler p pt)
            else if sig \<in> set term_signals then kbind (term_handler held p pt) clear
            else clear pt)
         else clear (user_handler cur p sig pt))"

definition send_signal :: "nat \<Rightarrow> nat \<Rightarrow> nat \<Rightarrow> int \<Rightarrow> ptable \<Rightarrow> ptable kres" where
  "send_signal c cur p sig pt =
     (let pt = (if sig = SIGKILL then t_upd p (\<lambda>T. T\<lparr>t_id := (t_id T)\<lparr>p_killed := True\<rparr>\<rparr>) pt
                else if sigismember (sig_pending (t_signal (tasks pt p))) sig = 0
                then sig_upd p (\<lambda>S. S\<lparr>sig_pending := snd (sigaddset (sig_pending S) sig)\<rparr>) pt else pt)
      in if t_state (tasks pt p) = SLEEPING then
           if t_paused (tasks pt p) \<and> sig \<in> {SIGTERM, SIGINT, SIGKILL} then
             handle_signal True c cur p SIGCONT (t_upd p (\<lambda>T. T\<lparr>t_paused := False\<rparr>) pt)
           else if \<not> t_paused (tasks pt p) \<and> \<not> p_killed (t_id (tasks pt p)) then handle_signal True c cur p sig pt
           else Inr pt
         else Inr pt)"

definition kill :: "nat \<Rightarrow> nat \<Rightarrow> int \<Rightarrow> int \<Rightarrow> ptable \<Rightarrow> (int \<times> ptable) kres" where
  "kill c cur pid sig pt =
     (let pgid = (if pid = 0 then p_pgid (t_id (tasks pt cur)) else - pid);
          target = (\<lambda>p. let P = t_id (tasks pt p) in
            if pid = 0 \<or> pid < - 1 then pgid > 0 \<and> p_pgid P = pgid
            else if pid = - 1 then p_pid P > 1 \<and> p \<noteq> cur else p_pid P = pid);
          ps = filter target [0..<NPROC]
      in kbind (kfold (\<lambda>p. send_signal c cur p sig) ps pt) (\<lambda>pt.
         Inr (if ps = [] then - ESRCH else 0, pt)))"

definition check_pending_signal :: "nat \<Rightarrow> nat \<Rightarrow> ptable \<Rightarrow> ptable kres" where
  "check_pending_signal c cur pt =
     (case find (\<lambda>sig. sigismember (sig_pending (t_signal (tasks pt cur))) sig = 1) (map int [0..<nat NSIG]) of
        None \<Rightarrow> Inr pt
      | Some sig \<Rightarrow> handle_signal False c cur cur sig pt)"

definition sigsuspend :: "nat \<Rightarrow> nat \<Rightarrow> u64 \<Rightarrow> ptable \<Rightarrow> ptable kres" where
  "sigsuspend c cur msk pt =
     (let msk = snd (sigdelset msk SIGKILL); msk = snd (sigdelset msk SIGSTOP);
          old = sig_mask (t_signal (tasks pt cur));
          pt = t_upd cur (\<lambda>T. T\<lparr>t_paused := True\<rparr>) pt;
          pt = sig_upd cur (\<lambda>S. S\<lparr>sig_mask := snd (siginitset (sig_mask S) msk)\<rparr>) pt
      in sleep_on c cur (proc_addr pt cur) (InSuspend old) pt)"

definition sigaction :: "nat \<Rightarrow> nat \<Rightarrow> k_sigaction option \<Rightarrow> ptable \<Rightarrow> k_sigaction \<times> ptable" where
  "sigaction cur sig act pt =
     (let A = sig_actions (t_signal (tasks pt cur)) sig;
          old = \<lparr>k_handler = sa_handler A, k_flags = scast (sa_flags A), k_restorer = sa_restorer A, k_mask = sa_mask A\<rparr>
      in case act of
           None \<Rightarrow> (old, pt)
         | Some a \<Rightarrow>
             let m = snd (sigdelset (k_mask a) SIGKILL); m = snd (sigdelset m SIGSTOP);
                 A = \<lparr>sa_handler = k_handler a, sa_mask = k_mask a, sa_flags = ucast (k_flags a), sa_restorer = k_restorer a\<rparr>
             in (old, sig_upd cur (\<lambda>S. S\<lparr>sig_actions := (sig_actions S)(sig := A), sig_mask := m\<rparr>) pt))"

definition sigpending :: "nat \<Rightarrow> ptable \<Rightarrow> u64" where
  "sigpending cur pt = sig_pending (t_signal (tasks pt cur))"

abbreviation SIG_BLOCK :: int where "SIG_BLOCK \<equiv> 0"
abbreviation SIG_UNBLOCK :: int where "SIG_UNBLOCK \<equiv> 1"
abbreviation SIG_SETMASK :: int where "SIG_SETMASK \<equiv> 2"

definition sigprocmask :: "nat \<Rightarrow> int \<Rightarrow> u64 option \<Rightarrow> ptable \<Rightarrow> int \<times> u64 \<times> ptable" where
  "sigprocmask cur how msk pt =
     (let old = sig_mask (t_signal (tasks pt cur)); put = (\<lambda>m. sig_upd cur (\<lambda>S. S\<lparr>sig_mask := m\<rparr>) pt)
      in case msk of
           None \<Rightarrow> (0, old, pt)
         | Some m \<Rightarrow>
             if how = SIG_BLOCK then (0, old, put (snd (sigorset old m)))
             else if how = SIG_UNBLOCK then (0, old, put (snd (sigandset old (snd (signotset m)))))
             else if how = SIG_SETMASK then (0, old, put (snd (siginitset old m)))
             else (- EINVAL, old, pt))"

definition flush_signal_handlers :: "nat \<Rightarrow> ptable \<Rightarrow> ptable" where
  "flush_signal_handlers p pt = t_upd p (\<lambda>T. T\<lparr>t_signal := (t_signal T)\<lparr>sig_actions := (\<lambda>i.
       if int i < NSIG then (sig_actions (t_signal T) i)
         \<lparr>sa_handler := (if sa_handler (sig_actions (t_signal T) i) \<noteq> SIG_IGN then SIG_DFL else SIG_IGN), sa_flags := 0,
          sa_mask := snd (sigemptyset (sa_mask (sig_actions (t_signal T) i)))\<rparr>
       else sig_actions (t_signal T) i)\<rparr>, t_paused := False\<rparr>) pt"

section \<open>Process groups\<close>

text \<open>The pointer \<open>p\<close> of \<open>setpgid\<close> has no value when no process has the number.\<close>

definition setpgid :: "nat \<Rightarrow> int \<Rightarrow> int \<Rightarrow> ptable \<Rightarrow> (int \<times> ptable) kres" where
  "setpgid cur pid pgid pt =
     (let C = t_id (tasks pt cur);
          pid = (if pid = 0 then p_pid C else pid);
          pgid = (if pgid = 0 then pid else pgid);
          q = (if pid \<noteq> p_pid C then find (\<lambda>i. p_pid (t_id (tasks pt i)) = pid) [0..<NPROC] else Some cur)
      in if pgid < 0 then Inr (- EINVAL, pt)
         else case q of
           None \<Rightarrow> Inl (Fault ''p'')
         | Some p \<Rightarrow>
             if t_parent (tasks pt p) = Some cur \<and> p_sid (t_id (tasks pt p)) \<noteq> p_sid C then Inr (- EPERM, pt)
             else if t_parent (tasks pt p) \<noteq> Some cur \<and> p \<noteq> cur then Inr (- ESRCH, pt)
             else if pgid \<noteq> pid \<and> \<not> list_ex (\<lambda>i. p_sid (t_id (tasks pt i)) = p_sid C) [0..<NPROC]
             then Inr (if t_parent (tasks pt p) = Some cur then - EPERM else - ESRCH, pt)
             else Inr (0, t_upd cur (\<lambda>T. T\<lparr>t_id := (t_id T)\<lparr>p_pgid := pgid\<rparr>\<rparr>) pt))"

definition getpgid :: "nat \<Rightarrow> int \<Rightarrow> ptable \<Rightarrow> int" where
  "getpgid cur pid pt =
     (if pid = 0 then p_pgid (t_id (tasks pt cur))
      else case find (\<lambda>i. p_pid (t_id (tasks pt i)) = pid) [0..<NPROC] of
        None \<Rightarrow> - ESRCH
      | Some p \<Rightarrow> p_pgid (t_id (tasks pt p)))"

definition get_procs :: "ptable \<Rightarrow> u16" where
  "get_procs pt = of_nat (length (filter (\<lambda>i. t_state (tasks pt i) \<noteq> UNUSED) [0..<NPROC]))"

abbreviation POLLIN :: u16 where "POLLIN \<equiv> 1"
abbreviation POLLOUT :: u16 where "POLLOUT \<equiv> 4"

definition ppoll :: "nat \<Rightarrow> nat \<Rightarrow> int list option \<Rightarrow> ptable \<Rightarrow> (u16 list \<times> ptable) kres" where
  "ppoll c cur fds pt =
     (case fds of
        None \<Rightarrow> kbind (sleep c cur (proc_addr pt cur) (t_upd cur (\<lambda>T. T\<lparr>t_paused := True\<rparr>) pt)) (\<lambda>pt. Inr ([], pt))
      | Some l \<Rightarrow> Inr (map (\<lambda>fd. if fd = 0 then POLLIN else POLLOUT) l, pt))"

end
