(* ===== verification/Sched.thy ===== *)
theory Sched
  imports Proc
begin

text \<open>
  The invariant of the scheduler, which says where every process is: a sleeping process is in the
  queue of its channel, a process that could run is in the run queue, on exactly one CPU, an idle
  process, or still being created by one call, and a process that is unused or a zombie is nowhere; and the moves that keep it.
\<close>

section \<open>The invariant\<close>

text \<open>The invariant is about states, channels, run queue, sleep queues and CPUs only.\<close>

definition live :: "procstate \<Rightarrow> bool" where
  "live s \<longleftrightarrow> s = EMBRYO \<or> s = RUNNABLE \<or> s = RUNNING"

definition at_cpu :: "(nat \<Rightarrow> nat option) \<Rightarrow> nat \<Rightarrow> bool" where
  "at_cpu r p \<longleftrightarrow> (\<exists>c<NCPU. r c = Some p)"

definition once :: "(nat \<Rightarrow> nat option) \<Rightarrow> (nat \<Rightarrow> nat option) \<Rightarrow> bool" where
  "once r i \<longleftrightarrow> (\<forall>c<NCPU. \<forall>d<NCPU. \<forall>p. r c = Some p \<and> i d = Some p \<longrightarrow> c = d)"

text \<open>
  A process that is being created is in no queue between the moment \<open>proc_alloc\<close> releases \<open>ptable.lock\<close> and the
  moment its creator has the lock again. The creator, which holds the pointer to the new entry, is the call of
  \<open>user_init\<close>, the call of \<open>idle_init\<close> on a CPU, or a \<open>fork\<close> of a process, before and after it has copied the
  parent.
\<close>

datatype agent = UserInit | IdleInit nat | Forking nat | Copied nat

definition made :: "('a \<Rightarrow> nat option) \<Rightarrow> nat \<Rightarrow> bool" where
  "made k p \<longleftrightarrow> (\<exists>a. k a = Some p)"

definition alone :: "('a \<Rightarrow> nat option) \<Rightarrow> bool" where
  "alone k \<longleftrightarrow> (\<forall>a b p. k a = Some p \<and> k b = Some p \<longrightarrow> a = b)"

text \<open>
  \<open>S\<close> and \<open>ch\<close> are the states and channels, \<open>R\<close> the run queue, \<open>Q\<close> the sleep queues, \<open>r\<close> the process each CPU
  runs, if it is not in the scheduler, \<open>i\<close> its idle process, and \<open>k\<close> the entries that are being created.
\<close>

definition sinv :: "(nat \<Rightarrow> procstate) \<Rightarrow> (nat \<Rightarrow> u64) \<Rightarrow> nat list \<Rightarrow> (nat \<Rightarrow> nat list) \<Rightarrow>
    (nat \<Rightarrow> nat option) \<Rightarrow> (nat \<Rightarrow> nat option) \<Rightarrow> (agent \<Rightarrow> nat option) \<Rightarrow> bool" where
  "sinv S ch R Q r i k \<longleftrightarrow> once r r \<and> once i i \<and> once r i \<and> alone k \<and> distinct R \<and> (\<forall>h. distinct (Q h)) \<and>
     (\<forall>p. at_cpu r p \<or> at_cpu i p \<longrightarrow> p < NPROC \<and> live (S p)) \<and>
     (\<forall>p\<in>set R. p < NPROC \<and> live (S p) \<and> S p \<noteq> RUNNING \<and> \<not> at_cpu r p \<and> \<not> at_cpu i p) \<and>
     (\<forall>p. made k p \<longrightarrow> p < NPROC \<and> S p = EMBRYO \<and> p \<notin> set R \<and> \<not> at_cpu r p \<and> \<not> at_cpu i p) \<and>
     (\<forall>h. \<forall>p\<in>set (Q h). p < NPROC \<and> S p = SLEEPING \<and> HASH (ch p) = h) \<and>
     (\<forall>p<NPROC. S p = SLEEPING \<longrightarrow> p \<in> set (Q (HASH (ch p)))) \<and>
     (\<forall>p<NPROC. live (S p) \<longrightarrow> p \<in> set R \<or> at_cpu r p \<or> at_cpu i p \<or> made k p) \<and>
     (\<forall>p<NPROC. S p = RUNNING \<longrightarrow> at_cpu r p)"

definition runs_on :: "ptable \<Rightarrow> nat \<Rightarrow> nat option" where
  "runs_on pt c = (if in_sched (cpus pt c) then None else cpu_proc (cpus pt c))"

definition idle_of :: "ptable \<Rightarrow> nat \<Rightarrow> nat option" where
  "idle_of pt c = cpu_idle (cpus pt c)"

abbreviation states :: "ptable \<Rightarrow> nat \<Rightarrow> procstate" where "states pt \<equiv> (\<lambda>p. t_state (tasks pt p))"
abbreviation chans :: "ptable \<Rightarrow> nat \<Rightarrow> u64" where "chans pt \<equiv> (\<lambda>p. t_chan (tasks pt p))"

definition sched_inv :: "(agent \<Rightarrow> nat option) \<Rightarrow> ptable \<Rightarrow> bool" where
  "sched_inv k pt \<longleftrightarrow> sinv (states pt) (chans pt) (sched_que pt) (slpque pt) (runs_on pt) (idle_of pt) k"

lemma live_simps [simp]: "live EMBRYO" "live RUNNABLE" "live RUNNING" "\<not> live UNUSED" "\<not> live SLEEPING" "\<not> live ZOMBIE"
  by (simp_all add: live_def)

section \<open>Moves\<close>

lemma at_cpu_enter: "c < NCPU \<Longrightarrow> r c = None \<Longrightarrow> at_cpu (r(c \<mapsto> p)) q \<longleftrightarrow> q = p \<or> at_cpu r q"
  unfolding at_cpu_def by (metis fun_upd_apply option.distinct(1) option.inject)

lemma at_cpu_leave:
  assumes "c < NCPU" and "r c = Some p" and "once r r"
  shows "at_cpu (r(c := None)) q \<longleftrightarrow> q \<noteq> p \<and> at_cpu r q"
proof -
  have "d = c" if "d < NCPU" "r d = Some p" for d using assms that unfolding once_def by blast
  then show ?thesis unfolding at_cpu_def by (metis assms(2) fun_upd_apply option.distinct(1) option.inject)
qed

lemma once_enter:
  assumes "once r r" and "\<not> at_cpu r p"
  shows "once (r(c \<mapsto> p)) (r(c \<mapsto> p))"
  using assms by (auto simp: once_def at_cpu_def)

lemma once_enter2: "once r i \<Longrightarrow> \<not> at_cpu i p \<Longrightarrow> once (r(c \<mapsto> p)) i"
  by (auto simp: once_def at_cpu_def)

lemma once_leave: "once r r \<Longrightarrow> once (r(c := None)) (r(c := None))" "once r i \<Longrightarrow> once (r(c := None)) i"
  by (auto simp: once_def)

text \<open>The parts of the invariant, for one process at a time.\<close>

lemma sinvD:
  assumes "sinv S ch R Q r i k"
  shows "once r r" and "once i i" and "once r i" and "distinct R" and "distinct (Q h)"
    and "at_cpu r p \<or> at_cpu i p \<Longrightarrow> p < NPROC \<and> live (S p)"
    and "p \<in> set R \<Longrightarrow> p < NPROC \<and> live (S p) \<and> S p \<noteq> RUNNING \<and> \<not> at_cpu r p \<and> \<not> at_cpu i p"
    and "p \<in> set (Q h) \<Longrightarrow> p < NPROC \<and> S p = SLEEPING \<and> HASH (ch p) = h"
    and "p < NPROC \<Longrightarrow> S p = SLEEPING \<Longrightarrow> p \<in> set (Q (HASH (ch p)))"
    and "p < NPROC \<Longrightarrow> live (S p) \<Longrightarrow> p \<in> set R \<or> at_cpu r p \<or> at_cpu i p \<or> made k p"
    and "p < NPROC \<Longrightarrow> S p = RUNNING \<Longrightarrow> at_cpu r p"
    and "alone k" and "made k p \<Longrightarrow> p < NPROC \<and> S p = EMBRYO \<and> p \<notin> set R \<and> \<not> at_cpu r p \<and> \<not> at_cpu i p"
  using assms unfolding sinv_def by blast+

lemma made_enter: "k a = None \<Longrightarrow> made (k(a \<mapsto> p)) q \<longleftrightarrow> q = p \<or> made k q"
  unfolding made_def by (metis fun_upd_apply option.distinct(1) option.inject)

lemma made_leave:
  assumes "k a = Some p" and "alone k"
  shows "made (k(a := None)) q \<longleftrightarrow> q \<noteq> p \<and> made k q"
proof -
  have "b = a" if "k b = Some p" for b using assms that unfolding alone_def by blast
  then show ?thesis unfolding made_def by (metis assms(1) fun_upd_apply option.distinct(1) option.inject)
qed

lemma alone_enter: "alone k \<Longrightarrow> \<not> made k p \<Longrightarrow> alone (k(a \<mapsto> p))"
  by (auto simp: alone_def made_def)

lemma alone_leave: "alone k \<Longrightarrow> alone (k(a := None))"
  by (auto simp: alone_def)

lemma alone_move:
  assumes "alone k" and "k a = Some p" and "k b = None"
  shows "alone (k(a := None, b \<mapsto> p))" and "made (k(a := None, b \<mapsto> p)) q \<longleftrightarrow> made k q"
proof -
  have k: "(k(a := None)) b = None" using assms(3) by auto
  have n: "\<not> made (k(a := None)) p" using made_leave [of k a p, OF assms(2,1)] by simp
  show "alone (k(a := None, b \<mapsto> p))" by (rule alone_enter [OF alone_leave [OF assms(1)] n])
  show "made (k(a := None, b \<mapsto> p)) q \<longleftrightarrow> made k q"
    unfolding made_enter [of "k(a := None)", OF k] made_leave [of k a p, OF assms(2,1)] using assms(2) by (auto simp: made_def)
qed

lemma sinv_pick:
  assumes i: "sinv S ch (p # R) Q r i k" and c: "c < NCPU" "r c = None" and x: "live x"
  shows "sinv (S(p := x)) ch R Q (r(c \<mapsto> p)) i k"
proof -
  have p: "\<not> at_cpu r p" "\<not> at_cpu i p" "S p \<noteq> SLEEPING" "\<not> made k p" using sinvD(7,13) [OF i, of p] by auto
  have o: "once (r(c \<mapsto> p)) (r(c \<mapsto> p))" "once (r(c \<mapsto> p)) i"
    using once_enter [OF sinvD(1) [OF i] p(1)] once_enter2 [OF sinvD(3) [OF i] p(2)] .
  show ?thesis using i x o p(3,4) unfolding sinv_def at_cpu_enter [of c r, OF c] by auto
qed

lemma sinv_pick_idle:
  assumes v: "sinv S ch [] Q r i k" and c: "c < NCPU" "r c = None" "i c = Some p" and x: "live x"
  shows "sinv (S(p := x)) ch [] Q (r(c \<mapsto> p)) i k"
proof -
  have ai: "at_cpu i p" using c by (auto simp: at_cpu_def)
  have p: "\<not> at_cpu r p" "S p \<noteq> SLEEPING" "p < NPROC"
    using sinvD(3) [OF v] c sinvD(6) [OF v, of p] ai by (auto simp: once_def at_cpu_def)
  have m: "\<not> made k p" using sinvD(13) [OF v, of p] ai by blast
  have o: "once (r(c \<mapsto> p)) (r(c \<mapsto> p))" using once_enter [OF sinvD(1) [OF v] p(1)] .
  have o2: "once (r(c \<mapsto> p)) i" using sinvD(2,3) [OF v] c by (auto simp: once_def)
  show ?thesis using v x o o2 p(2,3) m unfolding sinv_def at_cpu_enter [of c r, OF c(1,2)] by auto
qed

lemma sinv_cur:
  assumes v: "sinv S ch R Q r i k" and c: "c < NCPU" "r c = Some p"
  shows "p < NPROC" and "live (S p)" and "p \<notin> set R" and "p \<notin> set (Q h)" and "i c \<noteq> Some p \<Longrightarrow> \<not> at_cpu i p"
    and "\<not> made k p"
proof -
  have a: "at_cpu r p" using c by (auto simp: at_cpu_def)
  show "p < NPROC" "live (S p)" using sinvD(6) [OF v, of p] a by auto
  then show "p \<notin> set (Q h)" using sinvD(8) [OF v, of p h] by auto
  show "p \<notin> set R" "\<not> made k p" using sinvD(7,13) [OF v, of p] a by blast+
  show "\<not> at_cpu i p" if "i c \<noteq> Some p" using sinvD(3) [OF v] c that by (auto simp: once_def at_cpu_def)
qed

lemma sinv_leave:
  assumes v: "sinv S ch R Q r i k" and c: "c < NCPU" "r c = Some p"
  shows "i c \<noteq> Some p \<Longrightarrow> sinv (S(p := RUNNABLE)) ch (R @ [p]) Q (r(c := None)) i k"
    and "i c = Some p \<Longrightarrow> sinv (S(p := RUNNABLE)) ch R Q (r(c := None)) i k"
    and "i c \<noteq> Some p \<Longrightarrow> sinv (S(p := ZOMBIE)) ch R Q (r(c := None)) i k"
    and "i c \<noteq> Some p \<Longrightarrow>
      sinv (S(p := SLEEPING)) (ch(p := w)) R (Q(HASH w := Q (HASH w) @ [p])) (r(c := None)) i k"
proof -
  note p = sinv_cur [OF v c] and l = at_cpu_leave [of c r p, OF c sinvD(1) [OF v]]
  note o = once_leave(1) [OF sinvD(1) [OF v], of c] once_leave(2) [OF sinvD(3) [OF v], of c]
  show "sinv (S(p := RUNNABLE)) ch (R @ [p]) Q (r(c := None)) i k" if "i c \<noteq> Some p"
    using v o p that unfolding sinv_def l by auto
  show "sinv (S(p := ZOMBIE)) ch R Q (r(c := None)) i k" if "i c \<noteq> Some p"
    using v o p that unfolding sinv_def l by auto
  show "sinv (S(p := SLEEPING)) (ch(p := w)) R (Q(HASH w := Q (HASH w) @ [p])) (r(c := None)) i k" if "i c \<noteq> Some p"
  proof -
    have n: "\<not> at_cpu i p" by (rule p(5) [OF that])
    have d: "distinct ((Q(HASH w := Q (HASH w) @ [p])) h)" for h using sinvD(5) [OF v] p(4) by simp
    have q: "x < NPROC \<and> (S(p := SLEEPING)) x = SLEEPING \<and> HASH ((ch(p := w)) x) = h"
      if "x \<in> set ((Q(HASH w := Q (HASH w) @ [p])) h)" for x h
      using that p(1) p(4) [of h] sinvD(8) [OF v, of x h] by (cases "x = p") (auto split: if_splits)
    have q': "x \<in> set ((Q(HASH w := Q (HASH w) @ [p])) (HASH ((ch(p := w)) x)))"
      if "x < NPROC" "(S(p := SLEEPING)) x = SLEEPING" for x
      using that sinvD(9) [OF v, of x] by (cases "x = p") auto
    have a: "x < NPROC \<and> live ((S(p := SLEEPING)) x)" if "x \<noteq> p \<and> at_cpu r x \<or> at_cpu i x" for x
      using that n sinvD(6) [OF v, of x] by (cases "x = p") auto
    show ?thesis unfolding sinv_def l using o sinvD(2,4) [OF v] d q q' a p(3,6) sinvD(7,10-13) [OF v] by auto
  qed
  have "at_cpu i p" if "i c = Some p" using that c(1) by (auto simp: at_cpu_def)
  then show "sinv (S(p := RUNNABLE)) ch R Q (r(c := None)) i k" if "i c = Some p"
    using v o p that unfolding sinv_def l by auto
qed

lemma sinv_wake:
  assumes v: "sinv S ch R Q r i k" and p: "p \<in> set (Q h)"
  shows "sinv (S(p := RUNNABLE)) ch (R @ [p]) (Q(h := remove1 p (Q h))) r i k"
proof -
  have q: "p < NPROC" "S p = SLEEPING" "HASH (ch p) = h" using sinvD(8) [OF v p] by auto
  have n: "\<not> at_cpu r p" "\<not> at_cpu i p" "p \<notin> set R" "\<not> made k p" using sinvD(6,7,13) [OF v, of p] q(2) by auto
  have e: "x \<in> set ((Q(h := remove1 p (Q h))) h') \<longleftrightarrow> x \<noteq> p \<and> x \<in> set (Q h')" for x h'
    using sinvD(8) [OF v, of p h'] q(3) sinvD(5) [OF v, of h] by (auto simp: set_remove1_eq)
  have d: "distinct ((Q(h := remove1 p (Q h))) h')" for h' using sinvD(5) [OF v] by (simp add: distinct_remove1)
  show ?thesis
    unfolding sinv_def e using sinvD(1-4) [OF v] d sinvD(6-13) [OF v] q n
    by (auto simp: set_remove1_eq sinvD(5) [OF v])
qed

lemma sinv_free:
  assumes v: "sinv S ch R Q r i k" and p: "\<not> live (S p)" "S p \<noteq> SLEEPING"
  shows "sinv (S(p := UNUSED)) (ch(p := w)) R Q r i k"
proof -
  have n: "\<not> at_cpu r p" "\<not> at_cpu i p" "p \<notin> set R" "\<not> made k p" "p \<notin> set (Q h)" for h
    using sinvD(6,7,13) [OF v, of p] sinvD(8) [OF v, of p h] p by auto
  show ?thesis using v n unfolding sinv_def by auto
qed

lemma sinv_new:
  assumes v: "sinv S ch R Q r i k" and p: "p < NPROC" "\<not> live (S p)" "S p \<noteq> SLEEPING" and a: "k a = None"
  shows "sinv (S(p := EMBRYO)) (ch(p := w)) R Q r i (k(a \<mapsto> p))"
proof -
  have n: "\<not> at_cpu r p" "\<not> at_cpu i p" "p \<notin> set R" "\<not> made k p" "p \<notin> set (Q h)" for h
    using sinvD(6,7,13) [OF v, of p] sinvD(8) [OF v, of p h] p by auto
  show ?thesis using v p n alone_enter [OF sinvD(12) [OF v] n(4)] unfolding sinv_def made_enter [of k a, OF a] by auto
qed

text \<open>The creator finishes: the process enters the run queue, or is the idle process of a CPU, or is given up.\<close>

lemma sinv_made:
  assumes v: "sinv S ch R Q r i k" and a: "k a = Some p"
  shows "live x \<Longrightarrow> x \<noteq> RUNNING \<Longrightarrow> sinv (S(p := x)) ch (R @ [p]) Q r i (k(a := None))"
    and "c < NCPU \<Longrightarrow> i c = None \<Longrightarrow> sinv S ch R Q r (i(c \<mapsto> p)) (k(a := None))"
    and "sinv (S(p := UNUSED)) ch R Q r i (k(a := None))"
    and "k b = None \<Longrightarrow> sinv S ch R Q r i (k(a := None, b \<mapsto> p))"
proof -
  have m: "made k p" using a by (auto simp: made_def)
  note p = sinvD(13) [OF v m]
  have q: "p \<notin> set (Q h)" for h using sinvD(8) [OF v, of p h] p by auto
  note l = made_leave [of k a p, OF a sinvD(12) [OF v]] and o = alone_leave [OF sinvD(12) [OF v], of a]
  show "sinv (S(p := x)) ch (R @ [p]) Q r i (k(a := None))" if "live x" "x \<noteq> RUNNING"
  proof -
    have "x \<noteq> SLEEPING" using that by auto
    then show ?thesis using v o p q that unfolding sinv_def l by auto
  qed
  show "sinv (S(p := UNUSED)) ch R Q r i (k(a := None))" using v o p q unfolding sinv_def l by auto
  show "sinv S ch R Q r (i(c \<mapsto> p)) (k(a := None))" if c: "c < NCPU" "i c = None"
  proof -
    have "once r (i(c \<mapsto> p))" using sinvD(3) [OF v] p by (auto simp: once_def at_cpu_def)
    then show ?thesis
      using v o p once_enter [OF sinvD(2) [OF v], of p c] unfolding sinv_def l at_cpu_enter [of c i, OF c] by auto
  qed
  show "sinv S ch R Q r i (k(a := None, b \<mapsto> p))" if "k b = None"
    using v unfolding sinv_def alone_move(2) [of k a p b, OF sinvD(12) [OF v] a that] using alone_move(1) [of k a p b, OF sinvD(12) [OF v] a that] by auto
qed

end
