(* ===== verification/Proc_Inv.thy ===== *)
theory Proc_Inv
  imports Sched
begin

text \<open>
  The scheduler as a state machine: processes on several CPUs run, give up the CPU, sleep, are woken,
  are created, exit, are reaped and get signals. Every operation keeps the invariant of \<open>Sched\<close>.
\<close>

section \<open>The operations keep the invariant\<close>

lemma upd_simps [simp]:
  "tasks (t_upd p f pt) = (tasks pt)(p := f (tasks pt p))" "sched_que (t_upd p f pt) = sched_que pt"
  "slpque (t_upd p f pt) = slpque pt" "cpus (t_upd p f pt) = cpus pt" "runs_on (t_upd p f pt) = runs_on pt"
  "idle_of (t_upd p f pt) = idle_of pt" "proc_addr (t_upd p f pt) = proc_addr pt" "initproc (t_upd p f pt) = initproc pt"
  "tasks (push_run p pt) = tasks pt" "sched_que (push_run p pt) = sched_que pt @ [p]" "slpque (push_run p pt) = slpque pt"
  "cpus (push_run p pt) = cpus pt" "runs_on (push_run p pt) = runs_on pt" "idle_of (push_run p pt) = idle_of pt"
  "proc_addr (push_run p pt) = proc_addr pt" "initproc (push_run p pt) = initproc pt"
  "tasks (c_upd c g pt) = tasks pt" "sched_que (c_upd c g pt) = sched_que pt" "slpque (c_upd c g pt) = slpque pt"
  "cpus (c_upd c g pt) = (cpus pt)(c := g (cpus pt c))"
  by (simp_all add: t_upd_def push_run_def c_upd_def fun_eq_iff runs_on_def idle_of_def)

lemma cpus_simps [simp]:
  "runs_on (pt\<lparr>sched_que := q\<rparr>) = runs_on pt" "idle_of (pt\<lparr>sched_que := q\<rparr>) = idle_of pt"
  "runs_on (pt\<lparr>slpque := w\<rparr>) = runs_on pt" "idle_of (pt\<lparr>slpque := w\<rparr>) = idle_of pt"
  "runs_on (pt\<lparr>last_pid := n\<rparr>) = runs_on pt" "idle_of (pt\<lparr>last_pid := n\<rparr>) = idle_of pt"
  "runs_on (pt\<lparr>umem := u\<rparr>) = runs_on pt" "idle_of (pt\<lparr>umem := u\<rparr>) = idle_of pt"
  by (simp_all add: fun_eq_iff runs_on_def idle_of_def)

lemma swtch_out_simps [simp]:
  "tasks (swtch_out c p r pt) = (tasks pt)(p := (tasks pt p)\<lparr>t_context := r\<rparr>)" "sched_que (swtch_out c p r pt) = sched_que pt"
  "slpque (swtch_out c p r pt) = slpque pt" "runs_on (swtch_out c p r pt) = (runs_on pt)(c := None)"
  "idle_of (swtch_out c p r pt) = idle_of pt"
  by (simp_all add: swtch_out_def fun_eq_iff runs_on_def idle_of_def)

lemma fun_upd_field: "(\<lambda>x. g ((f(p := a)) x)) = (\<lambda>x. g (f x))(p := g a)"
  by (simp add: fun_eq_iff)

lemmas upd_fields = fun_upd_field fun_upd_same fun_upd_idem

lemma sched_inv_same:
  assumes "sched_inv k pt" and "states pt' = states pt" and "chans pt' = chans pt" and "sched_que pt' = sched_que pt"
    and "slpque pt' = slpque pt" and "runs_on pt' = runs_on pt" and "idle_of pt' = idle_of pt"
  shows "sched_inv k pt'"
  using assms unfolding sched_inv_def by simp

lemma sched_inv_t_upd:
  assumes "sched_inv k pt" and "t_state (f (tasks pt p)) = t_state (tasks pt p)" and "t_chan (f (tasks pt p)) = t_chan (tasks pt p)"
  shows "sched_inv k (t_upd p f pt)"
  using assms(2,3) by (intro sched_inv_same [OF assms(1)]) (auto simp: fun_eq_iff)

lemma resumed_fields: "live (t_state T) \<Longrightarrow> live (t_state (resumed T))" "t_chan (resumed T) = t_chan T"
  by (simp_all add: resumed_def split: resume.splits)

lemma scheduler_inv:
  assumes v: "sched_inv k pt" and c: "c < NCPU" "in_sched (cpus pt c)" and s: "scheduler c pt = Inr pt'"
  shows "sched_inv k pt'"
proof -
  have r: "runs_on pt c = None" using c by (simp add: runs_on_def)
  have q: "runs_on (c_upd c (\<lambda>C. C\<lparr>cpu_proc := Some p, in_sched := False\<rparr>) pt0) = (runs_on pt0)(c \<mapsto> p)"
    "idle_of (c_upd c (\<lambda>C. C\<lparr>cpu_proc := Some p, in_sched := False\<rparr>) pt0) = idle_of pt0" for p pt0
    by (simp_all add: fun_eq_iff runs_on_def idle_of_def)
  note v' = v [unfolded sched_inv_def]
  show ?thesis
  proof (cases "sched_que pt")
    case Nil
    then obtain p where p: "idle_of pt c = Some p" using s by (auto simp: scheduler_def idle_of_def split: option.splits)
    have l: "live (t_state (tasks pt p))" using sinvD(6) [OF v', of p] p c(1) by (auto simp: at_cpu_def)
    have "pt' = t_upd p resumed (c_upd c (\<lambda>C. C\<lparr>cpu_proc := Some p, in_sched := False\<rparr>) (pt\<lparr>sched_que := []\<rparr>))"
      using s p Nil by (simp add: scheduler_def idle_of_def)
    then show ?thesis
      using sinv_pick_idle [OF v' [unfolded Nil] c(1) r p resumed_fields(1) [OF l]]
      by (simp add: sched_inv_def q upd_fields resumed_fields del: fun_upd_apply)
  next
    case (Cons p R)
    have l: "live (t_state (tasks pt p))" using sinvD(7) [OF v' [unfolded Cons], of p] by simp
    have "pt' = t_upd p resumed (c_upd c (\<lambda>C. C\<lparr>cpu_proc := Some p, in_sched := False\<rparr>) (pt\<lparr>sched_que := R\<rparr>))"
      using s Cons by (simp add: scheduler_def)
    then show ?thesis
      using sinv_pick [OF v' [unfolded Cons] c(1) r resumed_fields(1) [OF l]]
      by (simp add: sched_inv_def q upd_fields resumed_fields del: fun_upd_apply)
  qed
qed

lemma yield_inv:
  assumes v: "sched_inv k pt" and c: "c < NCPU" "runs_on pt c = Some cur"
  shows "sched_inv k (yield c cur pt)"
  using sinv_leave(1,2) [OF v [unfolded sched_inv_def] c]
  by (cases "idle_of pt c = Some cur")
    (simp_all add: sched_inv_def yield_def Let_def idle_of_def [symmetric] upd_fields del: fun_upd_apply)

lemma sleep_on_inv:
  assumes v: "sched_inv k pt" and c: "c < NCPU" "runs_on pt c = Some cur" and s: "sleep_on c cur chan x pt = Inr pt'"
  shows "sched_inv k pt'"
  using sinv_leave(4) [OF v [unfolded sched_inv_def] c, of chan] s
  by (auto simp: sched_inv_def sleep_on_def idle_of_def [symmetric] upd_fields simp del: fun_upd_apply split: if_splits)

lemma wake_one_inv:
  assumes v: "sched_inv k pt" and p: "p \<in> set (slpque pt (HASH chan))"
  shows "sched_inv k (wake_one chan p pt)"
  using v sinv_wake [OF v [unfolded sched_inv_def] p]
  by (auto simp: wake_one_def sched_inv_def upd_fields simp del: fun_upd_apply)

lemma wake_fold_inv:
  assumes "sched_inv k pt" and "distinct xs" and "set xs \<subseteq> set (slpque pt (HASH chan))"
  shows "sched_inv k (fold (wake_one chan) xs pt)"
  using assms
proof (induction xs arbitrary: pt)
  case (Cons p xs)
  have "set xs \<subseteq> set (slpque (wake_one chan p pt) (HASH chan))"
  proof
    fix x assume "x \<in> set xs"
    then have "x \<noteq> p" "x \<in> set (slpque pt (HASH chan))" using Cons.prems(2,3) by auto
    then show "x \<in> set (slpque (wake_one chan p pt) (HASH chan))" by (simp add: wake_one_def in_set_remove1)
  qed
  then show ?case using Cons wake_one_inv [OF Cons.prems(1), of p chan] by simp
qed simp

lemma wakeup1_inv: "sched_inv k pt \<Longrightarrow> sched_inv k (wakeup1 chan pt)"
  unfolding wakeup1_def using sinvD(5) [of "states pt"] by (intro wake_fold_inv) (auto simp: sched_inv_def)

lemma wake_one_same [simp]:
  "runs_on (wake_one chan p pt) = runs_on pt" "idle_of (wake_one chan p pt) = idle_of pt" "initproc (wake_one chan p pt) = initproc pt"
  "proc_addr (wake_one chan p pt) = proc_addr pt"
  by (simp_all add: wake_one_def)

lemma wakeup1_same [simp]:
  "runs_on (wakeup1 chan pt) = runs_on pt" "idle_of (wakeup1 chan pt) = idle_of pt" "initproc (wakeup1 chan pt) = initproc pt"
  "proc_addr (wakeup1 chan pt) = proc_addr pt"
proof -
  have "runs_on (fold (wake_one chan) xs q) = runs_on q" "idle_of (fold (wake_one chan) xs q) = idle_of q"
    "initproc (fold (wake_one chan) xs q) = initproc q" "proc_addr (fold (wake_one chan) xs q) = proc_addr q" for xs q
    by (induction xs arbitrary: q) simp_all
  then show "runs_on (wakeup1 chan pt) = runs_on pt" "idle_of (wakeup1 chan pt) = idle_of pt"
    "initproc (wakeup1 chan pt) = initproc pt" "proc_addr (wakeup1 chan pt) = proc_addr pt" by (simp_all add: wakeup1_def)
qed

text \<open>\<open>proc_alloc\<close> takes a free entry, which then belongs to the caller \<open>a\<close>.\<close>

lemma proc_alloc_cases:
  assumes "proc_alloc kstack pt = (q, pt')"
  obtains "q = None" and "pt' = pt"
    | p where "q = None" and "p < NPROC" and "t_state (tasks pt p) = UNUSED" and "pt' = t_upd p (\<lambda>_. task0) pt"
    | p where "q = Some p" and "p < NPROC" and "t_state (tasks pt p) = UNUSED"
      and "pt' = t_upd p (\<lambda>_. task0\<lparr>t_kstack := kstack, t_id := proc0\<lparr>p_pid := next_pid (last_pid pt)\<rparr>, t_state := EMBRYO\<rparr>)
        (pt\<lparr>last_pid := next_pid (last_pid pt)\<rparr>)"
proof (cases "find (\<lambda>i. t_state (tasks pt i) = UNUSED) [0..<NPROC]")
  case None
  then show thesis using assms that(1) by (simp add: proc_alloc_def)
next
  case (Some p)
  then have p: "p < NPROC" "t_state (tasks pt p) = UNUSED" by (auto simp: find_Some_iff)
  show thesis
  proof (cases "kstack = 0")
    case True
    then show thesis using assms Some by (intro that(2) [OF _ p]) (simp_all add: proc_alloc_def)
  next
    case False
    then show thesis using assms Some by (intro that(3) [OF _ p]) (simp_all add: proc_alloc_def Let_def t_upd_def task0_def)
  qed
qed

lemma proc_alloc_inv:
  assumes v: "sched_inv k pt" and a: "proc_alloc kstack pt = (q, pt')"
  shows "q = None \<Longrightarrow> sched_inv k pt'" and "q = Some p \<Longrightarrow> k a = None \<Longrightarrow> sched_inv (k(a \<mapsto> p)) pt'"
    and "runs_on pt' = runs_on pt" and "idle_of pt' = idle_of pt"
proof -
  note v' = v [unfolded sched_inv_def]
  show "sched_inv k pt'" if "q = None"
    using a
  proof (cases rule: proc_alloc_cases)
    case (2 p)
    then show ?thesis using sinv_free [OF v', of p "t_chan task0"]
      by (simp add: sched_inv_def upd_fields task0_def del: fun_upd_apply)
  qed (use v that in simp_all)
  show "sched_inv (k(a \<mapsto> p)) pt'" if "q = Some p" "k a = None"
    using a
  proof (cases rule: proc_alloc_cases)
    case (3 p')
    then show ?thesis using that sinv_new [OF v', of p a "t_chan task0"]
      by (simp add: sched_inv_def upd_fields task0_def del: fun_upd_apply)
  qed (use that in simp_all)
  show "runs_on pt' = runs_on pt" "idle_of pt' = idle_of pt" using a by (cases rule: proc_alloc_cases; simp)+
qed

lemma kfold_invariant:
  "kfold f xs s = Inr s' \<Longrightarrow> P s \<Longrightarrow> (\<And>x s s'. P s \<Longrightarrow> f x s = Inr s' \<Longrightarrow> P s') \<Longrightarrow> P s'"
proof (induction xs arbitrary: s)
  case (Cons x xs)
  from Cons.prems(1) obtain t where "f x s = Inr t" "kfold f xs t = Inr s'" by auto
  then show ?case using Cons.IH [of t] Cons.prems(2,3) by blast
qed simp

text \<open>The parts of \<open>fork\<close>.\<close>

lemma fork_copy_cases:
  assumes "fork_copy cur np pgdir regions (fs, pt) = Inr (e, fs', pt')"
  obtains g x where "e = Some x" and "pt' = t_upd np (\<lambda>T. T\<lparr>t_pgdir := g, t_state := UNUSED\<rparr>) pt"
    | "e = None" and "pt' = t_upd np (fork_task cur (tasks pt cur) pgdir) pt"
  using assms by (auto simp: fork_copy_def Let_def split: if_splits prod.splits)

lemma fork_task_fields [simp]:
  "t_state (fork_task cur cp g T) = t_state T" "t_chan (fork_task cur cp g T) = t_chan T" "t_parent (fork_task cur cp g T) = Some cur"
  "t_child (fork_task cur cp g T) = t_child T" "p_pid (t_id (fork_task cur cp g T)) = p_pid (t_id T)"
  by (simp_all add: fork_task_def fork_id_def)

lemma fork_copy_inv:
  assumes v: "sched_inv k pt" and a: "k a = Some np" "k b = None" and f: "fork_copy cur np pgdir regions (fs, pt) = Inr (e, fs', pt')"
  shows "e = None \<Longrightarrow> sched_inv (k(a := None, b \<mapsto> np)) pt'" and "e = Some x \<Longrightarrow> sched_inv (k(a := None)) pt'"
proof -
  note v' = v [unfolded sched_inv_def]
  show "sched_inv (k(a := None, b \<mapsto> np)) pt'" if "e = None"
    using f
  proof (cases rule: fork_copy_cases)
    case 2
    have "sched_inv (k(a := None, b \<mapsto> np)) pt" using sinv_made(4) [OF v' a] by (simp add: sched_inv_def)
    then show ?thesis unfolding 2(2) by (rule sched_inv_t_upd) simp_all
  qed (use that in simp)
  show "sched_inv (k(a := None)) pt'" if "e = Some x"
    using f
  proof (cases rule: fork_copy_cases)
    case 1
    then show ?thesis using sinv_made(3) [OF v' a(1)] by (simp add: sched_inv_def upd_fields del: fun_upd_apply)
  qed (use that in simp)
qed

lemma fork_start_inv:
  assumes v: "sched_inv k pt" and a: "k a = Some np"
  shows "sched_inv (k(a := None)) (fork_start cur np pt)"
proof -
  have "states (fork_start cur np pt) = (states pt)(np := RUNNABLE)" "chans (fork_start cur np pt) = chans pt"
    "sched_que (fork_start cur np pt) = sched_que pt @ [np]" "slpque (fork_start cur np pt) = slpque pt"
    "runs_on (fork_start cur np pt) = runs_on pt" "idle_of (fork_start cur np pt) = idle_of pt"
    by (simp_all add: fork_start_def t_upd_def fun_eq_iff runs_on_def idle_of_def)
  then show ?thesis using sinv_made(1) [OF v [unfolded sched_inv_def] a, of RUNNABLE] by (simp add: sched_inv_def)
qed

lemma sched_inv_free:
  assumes v: "sched_inv k pt" and z: "t_state (tasks pt p) = ZOMBIE \<or> t_state (tasks pt p) = UNUSED"
  shows "sched_inv k (t_upd p (\<lambda>T. T\<lparr>t_state := UNUSED\<rparr>) pt)"
  using sinv_free [OF v [unfolded sched_inv_def], of p "t_chan (tasks pt p)"] z
  by (elim disjE) (simp_all add: sched_inv_def upd_fields del: fun_upd_apply)

text \<open>A step that frees an entry whose process is not a zombie.\<close>

definition frees_live :: "ptable \<Rightarrow> ptable \<Rightarrow> bool" where
  "frees_live pt pt' \<longleftrightarrow> (\<exists>p. t_state (tasks pt' p) = UNUSED \<and> t_state (tasks pt p) \<noteq> UNUSED \<and> t_state (tasks pt p) \<noteq> ZOMBIE)"

lemma wait4_cases:
  assumes w: "wait4 c cur pid opts pt = Inr (r, pt')"
  obtains "pt' = pt" | "sleep_on c cur (proc_addr pt cur) InSleep pt = Inr pt'"
    | p where "p \<in> set (t_child (tasks pt cur))" and "wait_ready opts (tasks pt p)"
      and "pt' = t_upd p (\<lambda>T. T\<lparr>t_state := UNUSED\<rparr>) (t_upd cur (\<lambda>T. T\<lparr>t_child := remove1 p (t_child T)\<rparr>) pt)"
proof (cases "find (\<lambda>p. wait_matches pid cur pt p \<and> wait_ready opts (tasks pt p)) (t_child (tasks pt cur))")
  case None
  then show thesis using w that(1,2) by (auto simp: wait4_def sleep_def split: if_splits)
next
  case (Some p)
  then have "p \<in> set (t_child (tasks pt cur))" "wait_ready opts (tasks pt p)" by (auto simp: find_Some_iff)
  then show thesis using w Some that(3) by (simp add: wait4_def split: if_splits)
qed

lemma wait4_inv:
  assumes v: "sched_inv k pt" and c: "c < NCPU" "runs_on pt c = Some cur" and nl: "\<not> frees_live pt pt'"
    and w: "wait4 c cur pid opts pt = Inr (r, pt')"
  shows "sched_inv k pt'"
proof (cases rule: wait4_cases [OF w])
  case 2
  then show ?thesis by (rule sleep_on_inv [OF v c])
next
  case (3 p)
  have u: "sched_inv k (t_upd cur (\<lambda>T. T\<lparr>t_child := remove1 p (t_child T)\<rparr>) pt)" by (rule sched_inv_t_upd [OF v]) simp_all
  have "t_state (tasks pt' p) = UNUSED" using 3(3) by simp
  then have "t_state (tasks pt p) = ZOMBIE \<or> t_state (tasks pt p) = UNUSED" using nl by (metis frees_live_def)
  then show ?thesis unfolding 3(3) by (intro sched_inv_free [OF u]) auto
qed (use v in simp)

lemma reparent_inv:
  assumes v: "sched_inv k pt" and r: "reparent cur p pt = Inr pt'"
  shows "sched_inv k pt' \<and> runs_on pt' = runs_on pt \<and> idle_of pt' = idle_of pt"
proof -
  obtain j where j: "initproc pt = Some j" using r by (auto simp: reparent_def split: if_splits option.splits)
  let ?u = "t_upd j (\<lambda>T. T\<lparr>t_child := t_child T @ [p]\<rparr>) (t_upd cur (\<lambda>T. T\<lparr>t_child := remove1 p (t_child T)\<rparr>)
      (t_upd p (\<lambda>T. T\<lparr>t_parent := Some j\<rparr>) pt))"
  have u: "sched_inv k ?u" by (intro sched_inv_t_upd v) simp_all
  have "pt' = ?u \<or> pt' = wakeup1 (proc_addr pt j) ?u"
    using r j by (auto simp: reparent_def Let_def split: if_splits)
  then show ?thesis using u wakeup1_inv [OF u] by auto
qed

lemma exit_task_inv:
  assumes v: "sched_inv k pt" and c: "c < NCPU" "runs_on pt c = Some cur" "idle_of pt c \<noteq> Some cur"
    and e: "exit_task c cur err pt = Inr pt'"
  shows "sched_inv k pt'"
proof -
  define t where "t = (case t_parent (tasks pt cur) of None \<Rightarrow> wakeup1 0 pt | Some q \<Rightarrow> wakeup1 (proc_addr pt q) pt)"
  have t: "sched_inv k t \<and> runs_on t = runs_on pt \<and> idle_of t = idle_of pt"
    using wakeup1_inv [OF v] by (auto simp: t_def split: option.splits)
  from e obtain u where u: "kfold (reparent cur) (t_child (tasks t cur)) t = Inr u"
    and pt': "pt' = swtch_out c cur InYield (t_upd cur (\<lambda>T. T\<lparr>t_xstate := err AND 127, t_state := ZOMBIE\<rparr>) u)"
    by (auto simp: exit_task_def Let_def t_def [symmetric])
  have i: "sched_inv k u \<and> runs_on u = runs_on pt \<and> idle_of u = idle_of pt"
    by (rule kfold_invariant [OF u]) (use t reparent_inv in auto)
  then have "sinv (states u) (chans u) (sched_que u) (slpque u) (runs_on pt) (idle_of pt) k" by (metis sched_inv_def)
  from sinv_leave(3) [OF this c] show ?thesis using i by (simp add: pt' sched_inv_def upd_fields del: fun_upd_apply)
qed

lemma sig_upd_inv: "sched_inv k pt \<Longrightarrow> sched_inv k (sig_upd p f pt)"
  unfolding sig_upd_def by (rule sched_inv_t_upd) simp_all

lemma sig_upd_same [simp]: "runs_on (sig_upd p f pt) = runs_on pt" "idle_of (sig_upd p f pt) = idle_of pt"
  by (simp_all add: sig_upd_def)

lemma user_handler_inv:
  assumes "sched_inv k pt"
  shows "sched_inv k (user_handler cur p sig pt)" and "runs_on (user_handler cur p sig pt) = runs_on pt"
    and "idle_of (user_handler cur p sig pt) = idle_of pt"
proof -
  show "sched_inv k (user_handler cur p sig pt)"
    by (rule sched_inv_same [OF assms]) (simp_all add: user_handler_def Let_def put_user_def fun_eq_iff)
qed (simp_all add: user_handler_def Let_def put_user_def)

definition clear_sig :: "nat \<Rightarrow> int \<Rightarrow> ptable \<Rightarrow> ptable" where
  "clear_sig p sig pt = sig_upd p (\<lambda>S. S\<lparr>sig_pending := snd (sigdelset (sig_pending S) sig)\<rparr>) pt"

lemma handle_signal_eq:
  "handle_signal held c cur p sig pt =
     (let h = sa_handler (sig_actions (t_signal (tasks pt p)) (nat sig))
      in if sig = 0 then Inr pt
         else if sig < 0 \<or> sig \<ge> NSIG then Inl (Fault ''actions[sig]'')
         else if h = SIG_IGN then Inr (clear_sig p sig pt)
         else if h = SIG_DFL then
           (if sig \<in> set stop_signals then stop_handler held c cur p sig pt
            else if sig = SIGCONT then Inr (clear_sig p sig (cont_handler p pt))
            else if sig \<in> set term_signals then kbind (term_handler held p pt) (\<lambda>q. Inr (clear_sig p sig q))
            else Inr (clear_sig p sig pt))
         else Inr (clear_sig p sig (user_handler cur p sig pt)))"
  unfolding handle_signal_def clear_sig_def Let_def by (rule refl)

lemma signal_branches:
  assumes "(if a then Inr x0 else if b then Inl e else if i then Inr x1
      else if d then (if f then X else if g then Inr x2 else if t then Y else Inr x1) else Inr x3) = Inr y"
  shows "y = x0 \<or> y = x1 \<or> y = x2 \<or> y = x3 \<or> Y = Inr y \<or> X = Inr y"
  using assms by (simp split: if_split_asm)

lemma handle_signal_cases:
  assumes "handle_signal held c cur p sig pt = Inr pt'"
  obtains "pt' = pt" | "pt' = clear_sig p sig pt" | "pt' = clear_sig p sig (cont_handler p pt)"
    | "pt' = clear_sig p sig (user_handler cur p sig pt)"
    | q where "term_handler held p pt = Inr q" "pt' = clear_sig p sig q" | "stop_handler held c cur p sig pt = Inr pt'"
proof -
  have "pt' = pt \<or> pt' = clear_sig p sig pt \<or> pt' = clear_sig p sig (cont_handler p pt) \<or>
      pt' = clear_sig p sig (user_handler cur p sig pt) \<or>
      kbind (term_handler held p pt) (\<lambda>q. Inr (clear_sig p sig q)) = Inr pt' \<or> stop_handler held c cur p sig pt = Inr pt'"
    using assms unfolding handle_signal_eq Let_def by (rule signal_branches)
  then show thesis by (elim disjE kbind_InrE) (erule that(1-4,6) | (erule that(5), drule Inr_inject, erule sym))+
qed

lemma handle_signal_inv:
  assumes v: "sched_inv k pt" and c: "c < NCPU" "runs_on pt c = Some cur" and h: "held \<or> p = cur"
    and e: "handle_signal held c cur p sig pt = Inr pt'"
  shows "sched_inv k pt'" and "held \<Longrightarrow> runs_on pt' = runs_on pt \<and> idle_of pt' = idle_of pt"
proof -
  have clr: "sched_inv k q \<Longrightarrow> sched_inv k (clear_sig p sig q)" "runs_on (clear_sig p sig q) = runs_on q"
    "idle_of (clear_sig p sig q) = idle_of q" for q
    by (simp_all add: clear_sig_def sig_upd_inv)
  have l: "live (t_state (tasks pt cur))" using sinv_cur(2) [OF v [unfolded sched_inv_def] c] .
  from e have "sched_inv k pt' \<and> (held \<longrightarrow> runs_on pt' = runs_on pt \<and> idle_of pt' = idle_of pt)"
  proof (cases rule: handle_signal_cases)
    case (5 q)
    then have "q = t_upd p (\<lambda>T. T\<lparr>t_id := (t_id T)\<lparr>p_killed := True\<rparr>,
        t_state := (if t_state T = SLEEPING then RUNNABLE else t_state T)\<rparr>) pt" "p = cur" "\<not> held"
      using h by (auto simp: term_handler_def split: if_splits)
    moreover have "t_state (tasks pt cur) \<noteq> SLEEPING" using l by auto
    ultimately have "sched_inv k q" using sched_inv_t_upd [OF v] by simp
    then show ?thesis using 5 \<open>\<not> held\<close> clr by simp
  next
    case 6
    then show ?thesis using sleep_on_inv [OF v c] by (auto simp: stop_handler_def split: if_splits)
  qed (use v wakeup1_inv [OF v] user_handler_inv [OF v] clr in \<open>simp_all add: cont_handler_def\<close>)
  then show "sched_inv k pt'" "held \<Longrightarrow> runs_on pt' = runs_on pt \<and> idle_of pt' = idle_of pt" by auto
qed

definition mark_sig :: "nat \<Rightarrow> int \<Rightarrow> ptable \<Rightarrow> ptable" where
  "mark_sig p sig pt = (if sig = SIGKILL then t_upd p (\<lambda>T. T\<lparr>t_id := (t_id T)\<lparr>p_killed := True\<rparr>\<rparr>) pt
     else if sigismember (sig_pending (t_signal (tasks pt p))) sig = 0
     then sig_upd p (\<lambda>S. S\<lparr>sig_pending := snd (sigaddset (sig_pending S) sig)\<rparr>) pt else pt)"

lemma mark_sig_inv:
  assumes v: "sched_inv k pt"
  shows "sched_inv k (mark_sig p sig pt)" and "runs_on (mark_sig p sig pt) = runs_on pt" and "idle_of (mark_sig p sig pt) = idle_of pt"
proof -
  have "sched_inv k (t_upd p (\<lambda>T. T\<lparr>t_id := (t_id T)\<lparr>p_killed := True\<rparr>\<rparr>) pt)" by (rule sched_inv_t_upd [OF v]) simp_all
  then show "sched_inv k (mark_sig p sig pt)" using v sig_upd_inv [OF v] by (simp add: mark_sig_def)
qed (simp_all add: mark_sig_def)

lemma send_signal_eq:
  "send_signal c cur p sig pt =
     (let u = mark_sig p sig pt
      in if t_state (tasks u p) = SLEEPING then
           if t_paused (tasks u p) \<and> sig \<in> {SIGTERM, SIGINT, SIGKILL} then
             handle_signal True c cur p SIGCONT (t_upd p (\<lambda>T. T\<lparr>t_paused := False\<rparr>) u)
           else if \<not> t_paused (tasks u p) \<and> \<not> p_killed (t_id (tasks u p)) then handle_signal True c cur p sig u
           else Inr u
         else Inr u)"
  unfolding send_signal_def mark_sig_def Let_def by (rule refl)

lemma send_signal_cases:
  assumes "send_signal c cur p sig pt = Inr pt'"
  obtains "pt' = mark_sig p sig pt"
    | "handle_signal True c cur p SIGCONT (t_upd p (\<lambda>T. T\<lparr>t_paused := False\<rparr>) (mark_sig p sig pt)) = Inr pt'"
    | "handle_signal True c cur p sig (mark_sig p sig pt) = Inr pt'"
proof -
  have branches: "(if a then if b then X else if d then Y else Inr u else Inr u) = Inr y \<Longrightarrow> y = u \<or> X = Inr y \<or> Y = Inr y"
    for a b d and u y :: ptable and X Y :: "ptable kres"
    by (simp split: if_split_asm)
  show thesis using assms [unfolded send_signal_eq Let_def, THEN branches] that by blast
qed

lemma send_signal_inv:
  assumes v: "sched_inv k pt" and c: "c < NCPU" "runs_on pt c = Some cur" and e: "send_signal c cur p sig pt = Inr pt'"
  shows "sched_inv k pt' \<and> runs_on pt' = runs_on pt \<and> idle_of pt' = idle_of pt"
proof -
  note u = mark_sig_inv [OF v, of p sig]
  have w: "sched_inv k (t_upd p (\<lambda>T. T\<lparr>t_paused := False\<rparr>) (mark_sig p sig pt))"
    by (rule sched_inv_t_upd [OF u(1)]) simp_all
  from e show ?thesis
  proof (cases rule: send_signal_cases)
    case 2
    then show ?thesis using handle_signal_inv [OF w c(1), of cur True p SIGCONT pt'] c(2) u by simp
  next
    case 3
    then show ?thesis using handle_signal_inv [OF u(1) c(1), of cur True p sig pt'] c(2) u by simp
  qed (use u in simp)
qed

lemma kill_kfold:
  assumes "kill c cur pid sig pt = Inr (r, pt')"
  obtains ps where "kfold (\<lambda>p. send_signal c cur p sig) ps pt = Inr pt'"
  using assms unfolding kill_def Let_def by (elim kbind_InrE) (drule Inr_inject, drule Pair_inject, blast+)

lemma kill_inv:
  assumes v: "sched_inv k pt" and c: "c < NCPU" "runs_on pt c = Some cur" and e: "kill c cur pid sig pt = Inr (r, pt')"
  shows "sched_inv k pt'"
proof -
  obtain ps where k: "kfold (\<lambda>p. send_signal c cur p sig) ps pt = Inr pt'" using e by (rule kill_kfold)
  have "sched_inv k pt' \<and> runs_on pt' = runs_on pt"
  proof (rule kfold_invariant [OF k])
    fix p s s' assume s: "sched_inv k s \<and> runs_on s = runs_on pt" "send_signal c cur p sig s = Inr s'"
    then show "sched_inv k s' \<and> runs_on s' = runs_on pt" using send_signal_inv [of k s c cur p sig s'] c by simp
  qed (use v in simp)
  then show ?thesis by (rule conjunct1)
qed

lemma term_handler_inv:
  assumes v: "sched_inv k pt" and c: "c < NCPU" "runs_on pt c = Some cur" and e: "term_handler False cur pt = Inr pt'"
  shows "sched_inv k pt'"
proof -
  have "t_state (tasks pt cur) \<noteq> SLEEPING" using sinv_cur(2) [OF v [unfolded sched_inv_def] c] by auto
  then show ?thesis using e by (auto simp: term_handler_def intro!: sched_inv_t_upd [OF v])
qed

lemma initx_task_fields [simp]:
  "t_state (initx_task g T) = t_state T" "t_chan (initx_task g T) = t_chan T" "t_parent (initx_task g T) = t_parent T"
  "t_child (initx_task g T) = t_child T" "p_pid (t_id (initx_task g T)) = p_pid (t_id T)"
  by (simp_all add: initx_task_def)

lemma push_made_inv:
  assumes v: "sched_inv k pt" and a: "k a = Some p"
  shows "sched_inv (k(a := None)) (push_run p pt)"
proof -
  have "made k p" using a by (auto simp: made_def)
  then have "(states pt)(p := EMBRYO) = states pt" using sinvD(13) [OF v [unfolded sched_inv_def]] by auto
  then show ?thesis using sinv_made(1) [OF v [unfolded sched_inv_def] a, of EMBRYO] by (simp add: sched_inv_def)
qed

lemma idle_start_inv:
  assumes v: "sched_inv k pt" and c: "c < NCPU" "idle_of pt c = None" and a: "k a = Some p"
  shows "sched_inv (k(a := None)) (idle_start c p pt)"
proof -
  have "runs_on (idle_start c p pt) = runs_on pt" "idle_of (idle_start c p pt) = (idle_of pt)(c \<mapsto> p)"
    by (simp_all add: idle_start_def fun_eq_iff runs_on_def idle_of_def)
  then show ?thesis using sinv_made(2) [OF v [unfolded sched_inv_def] a c] by (simp add: sched_inv_def idle_start_def)
qed

end
