(* ===== verification/Proc_Family.thy ===== *)
theory Proc_Family
  imports Proc_Inv
begin

text \<open>
  Parents, children and process numbers: the child lists and the parent pointers say the same, and process
  numbers identify the processes that are in use. The operations that create and end processes keep this;
  the others do not touch it.
\<close>

section \<open>The family tree\<close>

definition active :: "procstate \<Rightarrow> bool" where
  "active s \<longleftrightarrow> s \<noteq> UNUSED \<and> s \<noteq> ZOMBIE"

text \<open>
  A process is in the list of its parent from the end of \<open>fork\<close> until \<open>wait4\<close> frees it. While it is being
  created its parent pointer is null, or the caller of \<open>fork\<close> once that has copied itself.
\<close>

definition creator :: "agent \<Rightarrow> nat option" where
  "creator a = (case a of Copied c \<Rightarrow> Some c | _ \<Rightarrow> None)"

definition tree :: "(nat \<Rightarrow> procstate) \<Rightarrow> (nat \<Rightarrow> nat option) \<Rightarrow> (nat \<Rightarrow> nat list) \<Rightarrow> (agent \<Rightarrow> nat option) \<Rightarrow> bool" where
  "tree S par ch k \<longleftrightarrow> (\<forall>q. distinct (ch q)) \<and>
     (\<forall>q p. p \<in> set (ch q) \<longleftrightarrow> p < NPROC \<and> S p \<noteq> UNUSED \<and> \<not> made k p \<and> par p = Some q) \<and>
     (\<forall>q. \<not> active (S q) \<longrightarrow> ch q = []) \<and> (\<forall>a p. k a = Some p \<longrightarrow> ch p = [] \<and> par p = creator a)"

definition numbered :: "(nat \<Rightarrow> procstate) \<Rightarrow> (nat \<Rightarrow> int) \<Rightarrow> int \<Rightarrow> bool" where
  "numbered S pid n \<longleftrightarrow> 0 \<le> n \<and> (\<forall>p<NPROC. S p \<noteq> UNUSED \<longrightarrow> 0 < pid p \<and> pid p \<le> n) \<and>
     (\<forall>p<NPROC. \<forall>q<NPROC. S p \<noteq> UNUSED \<and> S q \<noteq> UNUSED \<and> pid p = pid q \<longrightarrow> p = q)"

abbreviation parents :: "ptable \<Rightarrow> nat \<Rightarrow> nat option" where "parents pt \<equiv> (\<lambda>p. t_parent (tasks pt p))"
abbreviation children :: "ptable \<Rightarrow> nat \<Rightarrow> nat list" where "children pt \<equiv> (\<lambda>p. t_child (tasks pt p))"
abbreviation pids :: "ptable \<Rightarrow> nat \<Rightarrow> int" where "pids pt \<equiv> (\<lambda>p. p_pid (t_id (tasks pt p)))"

definition family_ok :: "(agent \<Rightarrow> nat option) \<Rightarrow> ptable \<Rightarrow> bool" where
  "family_ok k pt \<longleftrightarrow> tree (states pt) (parents pt) (children pt) k \<and> numbered (states pt) (pids pt) (last_pid pt)"

lemma fun_upd_pid: "(\<lambda>x. p_pid (t_id ((f(p := a)) x))) = (\<lambda>x. p_pid (t_id (f x)))(p := p_pid (t_id a))"
  by (simp add: fun_eq_iff)

lemma active_simps [simp]:
  "active EMBRYO" "active RUNNABLE" "active RUNNING" "active SLEEPING" "\<not> active UNUSED" "\<not> active ZOMBIE"
  by (simp_all add: active_def)

lemma live_active: "live s \<Longrightarrow> active s"
  by (auto simp: live_def)

lemma treeD:
  assumes "tree S par ch k"
  shows "distinct (ch q)" and "p \<in> set (ch q) \<longleftrightarrow> p < NPROC \<and> S p \<noteq> UNUSED \<and> \<not> made k p \<and> par p = Some q"
    and "\<not> active (S q) \<Longrightarrow> ch q = []" and "k a = Some p \<Longrightarrow> ch p = [] \<and> par p = creator a"
  using assms unfolding tree_def by blast+

text \<open>A free entry is cleared, and gets a new number.\<close>

lemma tree_clear:
  assumes v: "tree S par ch k" and p: "S p = UNUSED" "\<not> made k p"
  shows "tree S (par(p := a)) (ch(p := [])) k"
proof -
  have "ch(p := []) = ch" using treeD(3) [OF v, of p] p by (simp add: fun_upd_idem)
  then show ?thesis using v p unfolding tree_def by (auto simp: made_def)
qed

lemma tree_alloc:
  assumes v: "tree S par ch k" and p: "S p = UNUSED" and k: "k a = None" "\<not> made k p" "creator a = None"
  shows "tree (S(p := EMBRYO)) (par(p := None)) (ch(p := [])) (k(a \<mapsto> p))"
proof -
  have "ch(p := []) = ch" using treeD(3) [OF v, of p] p by (simp add: fun_upd_idem)
  then show ?thesis using v p k unfolding tree_def made_enter [of k a, OF k(1)] by (auto simp: made_def)
qed

lemma numbered_alloc:
  assumes v: "numbered S pid n" and p: "S p = UNUSED"
  shows "numbered (S(p := EMBRYO)) (pid(p := n + 1)) (n + 1)"
proof -
  have i: "0 < pid q \<and> pid q \<le> n" if "q < NPROC" "S q \<noteq> UNUSED" for q using v that unfolding numbered_def by blast
  have "(pid(p := n + 1)) a = (pid(p := n + 1)) b \<longrightarrow> a = b"
    if "a < NPROC" "b < NPROC" "(S(p := EMBRYO)) a \<noteq> UNUSED" "(S(p := EMBRYO)) b \<noteq> UNUSED" for a b
    using that i [of a] i [of b] v by (cases "a = p"; cases "b = p") (auto simp: numbered_def)
  moreover have "0 < (pid(p := n + 1)) q \<and> (pid(p := n + 1)) q \<le> n + 1" if "q < NPROC" "(S(p := EMBRYO)) q \<noteq> UNUSED" for q
    using that i [of q] v by (cases "q = p") (auto simp: numbered_def)
  moreover have "0 \<le> n + 1" using v by (auto simp: numbered_def)
  ultimately show ?thesis unfolding numbered_def by blast
qed

lemma numbered_sub:
  assumes "numbered S pid n" and "\<And>p. S' p \<noteq> UNUSED \<Longrightarrow> S p \<noteq> UNUSED \<and> pid' p = pid p"
  shows "numbered S' pid' n"
  using assms unfolding numbered_def by metis

lemma numbered_upd: "numbered S pid n \<Longrightarrow> s = UNUSED \<or> S p \<noteq> UNUSED \<Longrightarrow> numbered (S(p := s)) pid n"
  by (erule numbered_sub) (auto split: if_splits)

text \<open>The steps of the creator: the copy of the parent, the end of \<open>fork\<close> and of the initialisers, and failure.\<close>

lemma tree_copy:
  assumes v: "tree S par ch k" and k: "alone k" "k (Forking c) = Some p" "k (Copied c) = None"
  shows "tree S (par(p := Some c)) ch (k(Forking c := None, Copied c \<mapsto> p))"
proof -
  have o: "b = Forking c" if "k b = Some p" for b using k that unfolding alone_def by blast
  have m: "made k p" "ch p = []" using k(2) treeD(4) [OF v k(2)] by (auto simp: made_def)
  show ?thesis
    using v m o unfolding tree_def alone_move(2) [of k "Forking c" p "Copied c", OF k]
    by (auto simp: creator_def k)
qed

lemma tree_fork:
  assumes v: "tree S par ch k" and k: "alone k" "k (Copied c) = Some p" and p: "p < NPROC" "S p \<noteq> UNUSED" and c: "active (S c)" "\<not> made k c"
  shows "tree (S(p := RUNNABLE)) par (ch(c := ch c @ [p])) (k(Copied c := None))"
proof -
  have m: "made k p" and r: "par p = Some c" "ch p = []" using k(2) treeD(4) [OF v k(2)] by (auto simp: made_def creator_def)
  have n: "p \<notin> set (ch q)" for q using treeD(2) [OF v, of p q] m by simp
  have a: "\<not> active ((S(p := RUNNABLE)) q) \<Longrightarrow> q \<noteq> c \<and> \<not> active (S q)" for q using c(1) by (cases "q = p") auto
  have mc: "k a \<noteq> Some c" for a using c(2) by (auto simp: made_def)
  have "(\<forall>q. distinct ((ch(c := ch c @ [p])) q))" using treeD(1) [OF v] n by auto
  moreover have "x \<in> set ((ch(c := ch c @ [p])) q) \<longleftrightarrow> x < NPROC \<and> (S(p := RUNNABLE)) x \<noteq> UNUSED \<and>
      \<not> made (k(Copied c := None)) x \<and> par x = Some q" for x q
    unfolding made_leave [of k "Copied c" p, OF k(2,1)] using treeD(2) [OF v, of x q] treeD(2) [OF v, of x c] n p r m by auto
  moreover have "(\<forall>q. \<not> active ((S(p := RUNNABLE)) q) \<longrightarrow> (ch(c := ch c @ [p])) q = [])" using a treeD(3) [OF v] by simp
  moreover have "(ch(c := ch c @ [p])) x = [] \<and> par x = creator b" if "(k(Copied c := None)) b = Some x" for b x
    using that treeD(4) [OF v, of b x] mc by (auto split: if_splits)
  ultimately show ?thesis unfolding tree_def by blast
qed

lemma tree_enter:
  assumes v: "tree S par ch k" and k: "alone k" "k a = Some p" "creator a = None"
  shows "tree S par ch (k(a := None))"
proof -
  have "par p = None" using treeD(4) [OF v k(2)] k(3) by simp
  then show ?thesis using v unfolding tree_def made_leave [of k a p, OF k(2,1)] by auto
qed

lemma tree_drop:
  assumes v: "tree S par ch k" and k: "alone k" "k a = Some p"
  shows "tree (S(p := UNUSED)) par ch (k(a := None))"
proof -
  have "made k p" "ch p = []" using k(2) treeD(4) [OF v k(2)] by (auto simp: made_def)
  then show ?thesis using v unfolding tree_def made_leave [of k a p, OF k(2,1)] by auto
qed

text \<open>\<open>wait4\<close> and \<open>exit\<close>.\<close>

lemma tree_reap:
  assumes v: "tree S par ch k" and p: "p \<in> set (ch c)" "S p = ZOMBIE"
  shows "tree (S(p := UNUSED)) par (ch(c := remove1 p (ch c))) k"
proof -
  have e: "ch p = []" using treeD(3) [OF v, of p] p(2) by simp
  have "x \<in> set ((ch(c := remove1 p (ch c))) q) \<longleftrightarrow> x \<noteq> p \<and> x \<in> set (ch q)" for x q
    using treeD(1) [OF v, of c] treeD(2) [OF v, of p c] treeD(2) [OF v, of p q] p(1) by (auto simp: set_remove1_eq)
  moreover have "(ch(c := remove1 p (ch c))) q = []" if "\<not> active ((S(p := UNUSED)) q)" for q
    using that e treeD(3) [OF v, of q] by (cases "q = p") auto
  moreover have "(ch(c := remove1 p (ch c))) x = []" if "ch x = []" for x using that by auto
  ultimately show ?thesis using v unfolding tree_def by (auto simp: distinct_remove1)
qed

lemma tree_zombie: "tree S par ch k \<Longrightarrow> active (S p) \<Longrightarrow> ch p = [] \<Longrightarrow> tree (S(p := ZOMBIE)) par ch k"
  unfolding tree_def by (auto simp: active_def)

lemma family_states:
  assumes "\<And>p. active (S' p) \<longleftrightarrow> active (S p)" and "\<And>p. S' p = UNUSED \<longleftrightarrow> S p = UNUSED"
  shows "tree S' par ch k \<longleftrightarrow> tree S par ch k" and "numbered S' pid n \<longleftrightarrow> numbered S pid n"
  unfolding tree_def numbered_def assms by (rule refl)+

section \<open>Operations that leave it alone\<close>

text \<open>The states change only between those of an active process.\<close>

definition calm :: "ptable \<Rightarrow> ptable \<Rightarrow> bool" where
  "calm pt pt' \<longleftrightarrow> parents pt' = parents pt \<and> children pt' = children pt \<and> pids pt' = pids pt \<and>
     last_pid pt' = last_pid pt \<and> initproc pt' = initproc pt \<and>
     (\<forall>p. states pt' p = states pt p \<or> active (states pt p) \<and> active (states pt' p))"

lemma calm_refl [simp]: "calm pt pt"
  by (simp add: calm_def)

lemma calm_state:
  assumes "calm pt pt'"
  shows "active (states pt' p) \<longleftrightarrow> active (states pt p)" and "states pt' p = UNUSED \<longleftrightarrow> states pt p = UNUSED"
proof -
  have "states pt' p = states pt p \<or> active (states pt p) \<and> active (states pt' p)" using assms by (simp add: calm_def)
  then show "active (states pt' p) \<longleftrightarrow> active (states pt p)" "states pt' p = UNUSED \<longleftrightarrow> states pt p = UNUSED" by auto
qed

lemma calm_trans:
  assumes "calm a b" and "calm b d"
  shows "calm a d"
proof -
  have "states b p = states a p \<or> active (states a p) \<and> active (states b p)"
    "states d p = states b p \<or> active (states b p) \<and> active (states d p)" for p
    using assms by (simp_all add: calm_def)
  then have "states d p = states a p \<or> active (states a p) \<and> active (states d p)" for p by metis
  then show ?thesis using assms by (simp add: calm_def)
qed

lemma calm_initproc: "calm pt pt' \<Longrightarrow> initproc pt' = initproc pt"
  by (simp add: calm_def)

lemma calm_active: "calm pt pt' \<Longrightarrow> active (states pt p) \<Longrightarrow> active (states pt' p)"
  by (simp add: calm_state)

lemma calm_family:
  assumes c: "calm pt pt'"
  shows "family_ok k pt' \<longleftrightarrow> family_ok k pt"
proof -
  have "parents pt' = parents pt" "children pt' = children pt" "pids pt' = pids pt" "last_pid pt' = last_pid pt"
    using c by (simp_all add: calm_def)
  then have "family_ok k pt' \<longleftrightarrow> tree (states pt') (parents pt) (children pt) k \<and> numbered (states pt') (pids pt) (last_pid pt)"
    unfolding family_ok_def by simp
  also have "\<dots> \<longleftrightarrow> family_ok k pt"
    unfolding family_ok_def family_states [of "states pt'" "states pt", OF calm_state [OF c]] ..
  finally show ?thesis .
qed

lemma calm_t_upd:
  assumes "\<And>T. t_parent (f T) = t_parent T" and "\<And>T. t_child (f T) = t_child T" and "\<And>T. p_pid (t_id (f T)) = p_pid (t_id T)"
    and "t_state (f (tasks pt p)) = t_state (tasks pt p) \<or> active (t_state (tasks pt p)) \<and> active (t_state (f (tasks pt p)))"
  shows "calm pt (t_upd p f pt)"
  using assms by (auto simp: calm_def t_upd_def fun_eq_iff)

lemma calm_same:
  "tasks pt' = tasks pt \<Longrightarrow> last_pid pt' = last_pid pt \<Longrightarrow> initproc pt' = initproc pt \<Longrightarrow> calm pt pt'"
  by (simp add: calm_def)

lemma calm_wake_fold: "\<forall>x\<in>set xs. active (states pt x) \<Longrightarrow> calm pt (fold (wake_one chan) xs pt)"
proof (induction xs arbitrary: pt)
  case (Cons x xs)
  have c: "calm pt (wake_one chan x pt)"
    using Cons.prems by (auto simp: wake_one_def calm_def t_upd_def push_run_def fun_eq_iff)
  then have "calm (wake_one chan x pt) (fold (wake_one chan) xs (wake_one chan x pt))"
    using Cons calm_active by simp
  from calm_trans [OF c this] show ?case by simp
qed simp

lemma calm_wakeup1: "sched_inv k pt \<Longrightarrow> calm pt (wakeup1 chan pt)"
  unfolding wakeup1_def sched_inv_def by (intro calm_wake_fold) (use sinvD(8) in fastforce)

lemma calm_swtch_out: "calm pt q \<Longrightarrow> calm pt (swtch_out c p r q)"
  by (erule calm_trans) (auto simp: calm_def swtch_out_def t_upd_def c_upd_def fun_eq_iff)

lemma running_active: "sched_inv k pt \<Longrightarrow> c < NCPU \<Longrightarrow> runs_on pt c = Some cur \<Longrightarrow> active (states pt cur)"
  using sinv_cur(2) live_active unfolding sched_inv_def by blast

lemma calm_yield:
  assumes "active (states pt cur)"
  shows "calm pt (yield c cur pt)"
  unfolding yield_def Let_def using assms
  by (intro calm_swtch_out) (auto simp: calm_def t_upd_def push_run_def fun_eq_iff)

lemma calm_sleep_on:
  assumes "active (states pt cur)" and "sleep_on c cur chan r pt = Inr pt'"
  shows "calm pt pt'"
proof -
  have "calm pt (t_upd cur (\<lambda>T. T\<lparr>t_chan := chan, t_state := SLEEPING\<rparr>)
      (pt\<lparr>slpque := (slpque pt)(HASH chan := slpque pt (HASH chan) @ [cur])\<rparr>))"
    using assms(1) by (auto simp: calm_def t_upd_def fun_eq_iff)
  then show ?thesis using assms(2) by (auto simp: sleep_on_def intro: calm_swtch_out split: if_splits)
qed

lemma calm_scheduler:
  assumes v: "sched_inv k pt" and c: "c < NCPU" and e: "scheduler c pt = Inr pt'"
  shows "calm pt pt'"
proof -
  obtain p where p: "pt' = t_upd p resumed (c_upd c (\<lambda>C. C\<lparr>cpu_proc := Some p, in_sched := False\<rparr>) (pt\<lparr>sched_que := tl (sched_que pt)\<rparr>))"
      "(case sched_que pt of [] \<Rightarrow> cpu_idle (cpus pt c) | p # _ \<Rightarrow> Some p) = Some p"
    using e by (auto simp: scheduler_def Let_def split: option.splits)
  have "live (states pt p)"
  proof (cases "sched_que pt")
    case Nil
    then show ?thesis using p(2) c sinvD(6) [OF v [unfolded sched_inv_def], of p] by (auto simp: at_cpu_def idle_of_def)
  next
    case (Cons a R)
    then show ?thesis using p(2) sinvD(7) [OF v [unfolded sched_inv_def], of p] by simp
  qed
  then have l: "active (states pt p)" "active (t_state (resumed (tasks pt p)))"
    using resumed_fields(1) [of "tasks pt p"] live_active by auto
  have r: "t_parent (resumed T) = t_parent T" "t_child (resumed T) = t_child T" "t_id (resumed T) = t_id T" for T
    by (simp_all add: resumed_def split: resume.splits)
  show ?thesis unfolding p(1) using l by (auto simp: calm_def t_upd_def c_upd_def fun_eq_iff r)
qed

section \<open>Signals\<close>

lemma calm_sig_upd: "calm pt (sig_upd p f pt)"
  by (auto simp: calm_def sig_upd_def t_upd_def fun_eq_iff)

lemma calm_clear_sig: "calm pt q \<Longrightarrow> calm pt (clear_sig p sig q)"
  unfolding clear_sig_def by (erule calm_trans) (rule calm_sig_upd)

lemma calm_user_handler: "calm pt (user_handler cur p sig pt)"
  by (auto simp: calm_def user_handler_def Let_def put_user_def t_upd_def fun_eq_iff)

lemma calm_term_handler: "term_handler held p pt = Inr q \<Longrightarrow> calm pt q"
  by (auto simp: term_handler_def split: if_splits intro!: calm_t_upd)

lemma calm_handle_signal:
  assumes v: "sched_inv k pt" and a: "active (states pt cur)" and e: "handle_signal held c cur p sig pt = Inr pt'"
  shows "calm pt pt'"
  using e
proof (cases rule: handle_signal_cases)
  case 6
  then show ?thesis using calm_sleep_on [OF a] by (auto simp: stop_handler_def split: if_splits)
qed (use v calm_wakeup1 calm_user_handler calm_term_handler in \<open>auto simp: cont_handler_def intro!: calm_clear_sig\<close>)

lemma calm_mark_sig: "calm pt (mark_sig p sig pt)"
  using calm_sig_upd by (auto simp: mark_sig_def intro!: calm_t_upd)

lemma calm_send_signal:
  assumes v: "sched_inv k pt" and a: "active (states pt cur)" and e: "send_signal c cur p sig pt = Inr pt'"
  shows "calm pt pt'"
  using e
proof (cases rule: send_signal_cases)
  case 2
  let ?w = "t_upd p (\<lambda>T. T\<lparr>t_paused := False\<rparr>) (mark_sig p sig pt)"
  have w: "calm pt ?w" by (rule calm_trans [OF calm_mark_sig calm_t_upd]) simp_all
  have "sched_inv k ?w" by (rule sched_inv_t_upd [OF mark_sig_inv(1) [OF v]]) simp_all
  from calm_handle_signal [OF this calm_active [OF w a] 2] show ?thesis by (rule calm_trans [OF w])
next
  case 3
  from calm_handle_signal [OF mark_sig_inv(1) [OF v] calm_active [OF calm_mark_sig a] 3]
  show ?thesis by (rule calm_trans [OF calm_mark_sig])
qed (simp add: calm_mark_sig)

lemma calm_kill:
  assumes v: "sched_inv k pt" and c: "c < NCPU" "runs_on pt c = Some cur" and e: "kill c cur pid sig pt = Inr (r, pt')"
  shows "calm pt pt'"
proof -
  obtain ps where k: "kfold (\<lambda>p. send_signal c cur p sig) ps pt = Inr pt'" using e by (rule kill_kfold)
  have "sched_inv k pt' \<and> runs_on pt' = runs_on pt \<and> calm pt pt'"
  proof (rule kfold_invariant [OF k])
    fix p s s' assume s: "sched_inv k s \<and> runs_on s = runs_on pt \<and> calm pt s" "send_signal c cur p sig s = Inr s'"
    have "active (states s cur)" using running_active [of k s c cur] c s(1) by simp
    then have "calm s s'" using calm_send_signal s by blast
    then show "sched_inv k s' \<and> runs_on s' = runs_on pt \<and> calm pt s'"
      using send_signal_inv [of k s c cur p sig s'] c s calm_trans by simp blast
  qed (use v in simp)
  then show ?thesis by simp
qed

lemma calm_forkret: "forkret ret c cur (fs, pt) = Inr (fs', pt') \<Longrightarrow> calm pt pt'"
  by (auto simp: forkret_def split: if_splits intro!: calm_same)

section \<open>Creation and exit\<close>

lemma next_pid_simp: "n < 2 ^ 31 - 1 \<Longrightarrow> next_pid n = n + 1"
  by (simp add: next_pid_def)

lemma unused_not_made: "sched_inv k pt \<Longrightarrow> states pt p = UNUSED \<Longrightarrow> \<not> made k p"
  unfolding sched_inv_def using sinvD(13) by fastforce

lemma proc_alloc_family:
  assumes v: "sched_inv k pt" and f: "family_ok k pt" and a: "proc_alloc kstack pt = (q, pt')"
  shows "initproc pt' = initproc pt" and "q = None \<Longrightarrow> family_ok k pt' \<and> last_pid pt' = last_pid pt"
    and "q = Some p \<Longrightarrow> k b = None \<Longrightarrow> creator b = None \<Longrightarrow> last_pid pt < 2 ^ 31 - 1 \<Longrightarrow>
      family_ok (k(b \<mapsto> p)) pt' \<and> last_pid pt' = last_pid pt + 1"
proof -
  note t = f [unfolded family_ok_def, THEN conjunct1] and n = f [unfolded family_ok_def, THEN conjunct2]
  show "initproc pt' = initproc pt" using a by (cases rule: proc_alloc_cases) simp_all
  show "family_ok k pt' \<and> last_pid pt' = last_pid pt" if "q = None"
    using a
  proof (cases rule: proc_alloc_cases)
    case (2 p)
    have "tree (states pt) ((parents pt)(p := None)) ((children pt)(p := [])) k"
      using 2 by (intro tree_clear [OF t] unused_not_made [OF v])
    moreover have "states pt' = states pt" "parents pt' = (parents pt)(p := None)" "children pt' = (children pt)(p := [])"
        "last_pid pt' = last_pid pt" "\<And>x. states pt' x \<noteq> UNUSED \<Longrightarrow> states pt x \<noteq> UNUSED \<and> pids pt' x = pids pt x"
      using 2 by (auto simp: t_upd_def task0_def fun_eq_iff)
    ultimately show ?thesis using numbered_sub [OF n, of "states pt'" "pids pt'"] by (simp add: family_ok_def)
  qed (use f that in simp_all)
  show "family_ok (k(b \<mapsto> p)) pt' \<and> last_pid pt' = last_pid pt + 1"
    if "q = Some p" "k b = None" "creator b = None" "last_pid pt < 2 ^ 31 - 1"
    using a
  proof (cases rule: proc_alloc_cases)
    case (3 p')
    then have p: "p' = p" "states pt p = UNUSED" using that(1) by auto
    have "states pt' = (states pt)(p := EMBRYO)" "parents pt' = (parents pt)(p := None)" "children pt' = (children pt)(p := [])"
        "pids pt' = (pids pt)(p := last_pid pt + 1)" "last_pid pt' = last_pid pt + 1"
      using that(4) by (auto simp: 3(4) p(1) t_upd_def task0_def fun_eq_iff next_pid_simp)
    then show ?thesis
      using tree_alloc [OF t p(2) that(2) unused_not_made [OF v p(2)] that(3)] numbered_alloc [OF n p(2)]
      by (simp add: family_ok_def)
  qed (use that in simp_all)
qed

text \<open>The creator's next steps.\<close>

lemma push_made_family:
  assumes v: "sched_inv k pt" and f: "family_ok k pt" and a: "k UserInit = Some p"
  shows "family_ok (k(UserInit := None)) (push_run p pt)"
proof -
  have c: "calm pt (push_run p pt)" by (rule calm_same) (simp_all add: push_run_def)
  have "family_ok (k(UserInit := None)) pt"
    using f tree_enter [OF _ sinvD(12) [OF v [unfolded sched_inv_def]] a] by (simp add: family_ok_def creator_def)
  then show ?thesis unfolding calm_family [OF c] .
qed

lemma idle_start_family:
  assumes v: "sched_inv k pt" and f: "family_ok k pt" and a: "k (IdleInit c) = Some p"
  shows "family_ok (k(IdleInit c := None)) (idle_start c p pt)"
proof -
  have c: "calm pt (idle_start c p pt)" unfolding idle_start_def by (rule calm_same) (simp_all add: c_upd_def)
  have "family_ok (k(IdleInit c := None)) pt"
    using f tree_enter [OF _ sinvD(12) [OF v [unfolded sched_inv_def]] a] by (simp add: family_ok_def creator_def)
  then show ?thesis unfolding calm_family [OF c] .
qed

lemma fork_copy_family:
  assumes v: "sched_inv k pt" and f: "family_ok k pt" and a: "k (Forking cur) = Some np" "k (Copied cur) = None"
    and e: "fork_copy cur np pgdir regions (fs, pt) = Inr (e, fs', pt')"
  shows "e = None \<Longrightarrow> family_ok (k(Forking cur := None, Copied cur \<mapsto> np)) pt'"
    and "e = Some x \<Longrightarrow> family_ok (k(Forking cur := None)) pt'" and "last_pid pt' = last_pid pt" and "initproc pt' = initproc pt"
proof -
  note t = f [unfolded family_ok_def, THEN conjunct1] and n = f [unfolded family_ok_def, THEN conjunct2]
  note al = sinvD(12) [OF v [unfolded sched_inv_def]]
  show "family_ok (k(Forking cur := None, Copied cur \<mapsto> np)) pt'" if "e = None"
    using e
  proof (cases rule: fork_copy_cases)
    case 2
    have "states pt' = states pt" "parents pt' = (parents pt)(np := Some cur)" "children pt' = children pt" "pids pt' = pids pt"
        "last_pid pt' = last_pid pt"
      by (simp_all add: 2 t_upd_def fun_eq_iff)
    then show ?thesis using tree_copy [OF t al a] n by (simp add: family_ok_def)
  qed (use that in simp)
  show "family_ok (k(Forking cur := None)) pt'" if "e = Some x"
    using e
  proof (cases rule: fork_copy_cases)
    case 1
    have "states pt' = (states pt)(np := UNUSED)" "parents pt' = parents pt" "children pt' = children pt" "pids pt' = pids pt"
        "last_pid pt' = last_pid pt"
      by (simp_all add: 1 t_upd_def fun_eq_iff)
    then show ?thesis using tree_drop [OF t al a(1)] numbered_upd [OF n, of UNUSED np]
      by (simp add: family_ok_def)
  qed (use that in simp)
  show "last_pid pt' = last_pid pt" "initproc pt' = initproc pt"
    using e by (cases rule: fork_copy_cases; simp add: t_upd_def)+
qed

lemma fork_start_family:
  assumes v: "sched_inv k pt" and f: "family_ok k pt" and a: "k (Copied cur) = Some np" and c: "c < NCPU" "runs_on pt c = Some cur"
  shows "family_ok (k(Copied cur := None)) (fork_start cur np pt)" and "last_pid (fork_start cur np pt) = last_pid pt"
    and "initproc (fork_start cur np pt) = initproc pt"
proof -
  note v' = v [unfolded sched_inv_def]
  note t = f [unfolded family_ok_def, THEN conjunct1] and n = f [unfolded family_ok_def, THEN conjunct2]
  have "made k np" using a by (auto simp: made_def)
  then have p: "np < NPROC" "states pt np \<noteq> UNUSED" using sinvD(13) [OF v', of np] by auto
  have m: "active (states pt cur)" "\<not> made k cur" using running_active [OF v c] sinv_cur(6) [OF v' c] by auto
  have "states (fork_start cur np pt) = (states pt)(np := RUNNABLE)" "parents (fork_start cur np pt) = parents pt"
      "children (fork_start cur np pt) = (children pt)(cur := children pt cur @ [np])" "pids (fork_start cur np pt) = pids pt"
      "last_pid (fork_start cur np pt) = last_pid pt"
    by (simp_all add: fork_start_def t_upd_def push_run_def fun_eq_iff)
  then show "family_ok (k(Copied cur := None)) (fork_start cur np pt)"
    using tree_fork [OF t sinvD(12) [OF v'] a p m] numbered_upd [OF n, of RUNNABLE np] p(2)
    by (simp add: family_ok_def)
  show "last_pid (fork_start cur np pt) = last_pid pt" "initproc (fork_start cur np pt) = initproc pt"
    by (simp_all add: fork_start_def t_upd_def push_run_def)
qed

lemma wait4_family:
  assumes f: "family_ok k pt" and c: "active (states pt cur)" and nl: "\<not> frees_live pt pt'"
    and w: "wait4 c cur pid opts pt = Inr (r, pt')"
  shows "family_ok k pt' \<and> last_pid pt' = last_pid pt \<and> initproc pt' = initproc pt"
proof (cases rule: wait4_cases [OF w])
  case 2
  have "calm pt pt'" by (rule calm_sleep_on [OF c 2])
  then show ?thesis using calm_family [of pt pt'] f by (simp add: calm_def)
next
  case (3 p)
  note t = f [unfolded family_ok_def, THEN conjunct1] and n = f [unfolded family_ok_def, THEN conjunct2]
  have "t_state (tasks pt' p) = UNUSED" using 3(3) by simp
  then have "states pt p = ZOMBIE \<or> states pt p = UNUSED" using nl by (metis frees_live_def)
  then have z: "states pt p = ZOMBIE" using treeD(2) [OF t, of p cur] 3(1) by auto
  have "states pt' = (states pt)(p := UNUSED)" "parents pt' = parents pt"
      "children pt' = (children pt)(cur := remove1 p (children pt cur))" "pids pt' = pids pt" "last_pid pt' = last_pid pt"
      "initproc pt' = initproc pt"
    by (auto simp: 3 t_upd_def fun_eq_iff)
  then show ?thesis using tree_reap [OF t 3(1) z] numbered_upd [OF n, of UNUSED p]
    by (simp add: family_ok_def)
qed (use f in simp)

lemma reparent_none: "initproc pt = None \<Longrightarrow> kfold (reparent cur) xs pt = Inr u \<Longrightarrow> xs = [] \<and> u = pt"
  by (cases xs) (auto simp: reparent_def split: if_splits)

lemma exit_task_family:
  assumes v: "sched_inv k pt" and f: "family_ok k pt" and i: "initproc pt = None" and c: "active (states pt cur)"
    and e: "exit_task c cur err pt = Inr pt'"
  shows "family_ok k pt' \<and> last_pid pt' = last_pid pt \<and> initproc pt' = initproc pt"
proof -
  define t where "t = (case t_parent (tasks pt cur) of None \<Rightarrow> wakeup1 0 pt | Some q \<Rightarrow> wakeup1 (proc_addr pt q) pt)"
  define z where "z = t_upd cur (\<lambda>T. T\<lparr>t_xstate := err AND 127, t_state := ZOMBIE\<rparr>) t"
  have t: "calm pt t" using calm_wakeup1 [OF v] by (simp add: t_def split: option.splits)
  then have i': "initproc t = None" "last_pid t = last_pid pt" using i by (simp_all add: calm_def)
  from e obtain u where u: "kfold (reparent cur) (t_child (tasks t cur)) t = Inr u"
    and pt': "pt' = swtch_out c cur InYield (t_upd cur (\<lambda>T. T\<lparr>t_xstate := err AND 127, t_state := ZOMBIE\<rparr>) u)"
    by (auto simp: exit_task_def Let_def t_def [symmetric])
  have n: "children t cur = []" "u = t" using reparent_none [OF i'(1) u] by auto
  have ft: "tree (states t) (parents t) (children t) k" "numbered (states t) (pids t) (last_pid t)"
    using f [folded calm_family [OF t]] by (simp_all only: family_ok_def)
  have "states z = (states t)(cur := ZOMBIE)" "parents z = parents t" "children z = children t" "pids z = pids t"
      "last_pid z = last_pid t" "initproc z = initproc t"
    by (simp_all add: z_def t_upd_def fun_eq_iff)
  then have z: "family_ok k z" "last_pid z = last_pid pt" "initproc z = initproc pt"
    using tree_zombie [OF ft(1) calm_active [OF t c] n(1)] calm_active [OF t c] i i'
      numbered_upd [OF ft(2), of ZOMBIE cur]
    by (auto simp: family_ok_def active_def)
  have "calm z pt'" unfolding pt' n(2) z_def [symmetric] by (rule calm_swtch_out [OF calm_refl])
  then show ?thesis using z calm_family [of z pt'] by (simp add: calm_def)
qed

end
