(* ===== verification/Proc_Reach.thy ===== *)
theory Proc_Reach
  imports Proc_Family
begin

text \<open>
  The process table as a state machine. \<open>boot\<close> is the state after \<open>proc_init\<close>. A step is a part of a call on one CPU
  that no other CPU can see half done: a section with \<open>ptable.lock\<close> held, or a change that a process makes to its
  own entry, or the creator of a process to the new entry, without the lock. Calls that have several such parts,
  \<open>fork\<close>, \<open>exit\<close>, \<open>user_init\<close>, \<open>idle_init\<close>, \<open>sigsuspend\<close>, \<open>ppoll\<close> and \<open>check_pending_signal\<close>, are sequences
  of steps between which all other CPUs may take steps. The file system may be in any state at each step.
\<close>

section \<open>Steps\<close>

definition boot :: "(nat \<Rightarrow> u64) \<Rightarrow> (nat \<Rightarrow> u64 \<Rightarrow> u8) \<Rightarrow> ptable" where
  "boot addr mem = proc_init \<lparr>tasks = (\<lambda>_. task0), slpque = (\<lambda>_. []), sched_que = [], last_pid = 0, initproc = None,
     first_run = True, cpus = (\<lambda>_. \<lparr>cpu_proc = None, cpu_idle = None, in_sched = True\<rparr>), proc_addr = addr, umem = mem\<rparr>"

text \<open>The table, and for every call that is creating a process the entry that \<open>proc_alloc\<close> gave it.\<close>

record kernel =
  ptab :: ptable
  making :: "agent \<Rightarrow> nat option"

definition booted :: "(nat \<Rightarrow> u64) \<Rightarrow> (nat \<Rightarrow> u64 \<Rightarrow> u8) \<Rightarrow> kernel" where
  "booted addr mem = \<lparr>ptab = boot addr mem, making = (\<lambda>_. None)\<rparr>"

definition running :: "kernel \<Rightarrow> nat \<Rightarrow> nat \<Rightarrow> bool" where
  "running m c cur \<longleftrightarrow> c < NCPU \<and> runs_on (ptab m) c = Some cur"

definition not_forking :: "kernel \<Rightarrow> nat \<Rightarrow> bool" where
  "not_forking m cur \<longleftrightarrow> making m (Forking cur) = None \<and> making m (Copied cur) = None"

text \<open>Who may call \<open>proc_alloc\<close>: \<open>user_init\<close>, \<open>idle_init\<close> on a CPU that has no idle process yet, or a running process.\<close>

definition may_create :: "kernel \<Rightarrow> agent \<Rightarrow> bool" where
  "may_create m a = (case a of
       UserInit \<Rightarrow> making m UserInit = None
     | IdleInit c \<Rightarrow> making m (IdleInit c) = None \<and> c < NCPU \<and> idle_of (ptab m) c = None
     | Forking cur \<Rightarrow> not_forking m cur \<and> (\<exists>c. running m c cur)
     | Copied cur \<Rightarrow> False)"

text \<open>
  A change of a process's own entry outside its state, channel, parent, child list and number, or of user
  memory: this is what \<open>sigaction\<close>, \<open>sigprocmask\<close>, \<open>sigreturn\<close>, \<open>setpgid\<close>, the calls that set identities and
  the closing of files in \<open>exit\<close> do.
\<close>

definition local_to :: "nat \<Rightarrow> ptable \<Rightarrow> ptable \<Rightarrow> bool" where
  "local_to p pt pt' \<longleftrightarrow> (\<exists>T u. pt' = pt\<lparr>tasks := (tasks pt)(p := T), umem := u\<rparr> \<and> t_state T = t_state (tasks pt p) \<and>
     t_chan T = t_chan (tasks pt p) \<and> t_parent T = t_parent (tasks pt p) \<and> t_child T = t_child (tasks pt p) \<and>
     p_pid (t_id T) = p_pid (t_id (tasks pt p)))"

text \<open>
  What a step did that the theorems count: \<open>Take\<close>, it took a process from the run queue; \<open>Alloc\<close>, it gave out an
  entry and a number; \<open>Unsafe\<close>, it is a \<open>wait4\<close> that freed a child which is not a zombie, or it ran the default
  handler of \<open>SIGCONT\<close>, which calls \<open>wakeup1\<close> without the lock.
\<close>

datatype event = Take | Alloc | Unsafe | Quiet

text \<open>
  \<open>yield\<close>, \<open>sleep\<close> and signals may come between any two steps of a process, also in the middle of its \<open>fork\<close>. An
  idle process, which only spins, does not exit.
\<close>

inductive pstep :: "event \<Rightarrow> kernel \<Rightarrow> kernel \<Rightarrow> bool" where
  step_alloc: "may_create m a \<Longrightarrow> proc_alloc kstack (ptab m) = (Some p, pt') \<Longrightarrow>
    pstep Alloc m \<lparr>ptab = pt', making = (making m)(a \<mapsto> p)\<rparr>"
| step_alloc_fails: "may_create m a \<Longrightarrow> proc_alloc kstack (ptab m) = (None, pt') \<Longrightarrow> pstep Quiet m (m\<lparr>ptab := pt'\<rparr>)"
| step_made: "making m a = Some p \<Longrightarrow> local_to p (ptab m) pt' \<Longrightarrow> pstep Quiet m (m\<lparr>ptab := pt'\<rparr>)"
| step_user_start: "making m UserInit = Some p \<Longrightarrow>
    pstep Quiet m \<lparr>ptab = push_run p (ptab m), making = (making m)(UserInit := None)\<rparr>"
| step_idle_start: "making m (IdleInit c) = Some p \<Longrightarrow> c < NCPU \<Longrightarrow> idle_of (ptab m) c = None \<Longrightarrow>
    pstep Quiet m \<lparr>ptab = idle_start c p (ptab m), making = (making m)(IdleInit c := None)\<rparr>"
| step_fork_copy: "running m c cur \<Longrightarrow> making m (Forking cur) = Some np \<Longrightarrow> making m (Copied cur) = None \<Longrightarrow>
    fork_copy cur np pgdir regions (fs, ptab m) = Inr (None, fs', pt') \<Longrightarrow>
    pstep Quiet m \<lparr>ptab = pt', making = (making m)(Forking cur := None, Copied cur \<mapsto> np)\<rparr>"
| step_fork_fails: "running m c cur \<Longrightarrow> making m (Forking cur) = Some np \<Longrightarrow> making m (Copied cur) = None \<Longrightarrow>
    fork_copy cur np pgdir regions (fs, ptab m) = Inr (Some e, fs', pt') \<Longrightarrow>
    pstep Quiet m \<lparr>ptab = pt', making = (making m)(Forking cur := None)\<rparr>"
| step_fork_start: "running m c cur \<Longrightarrow> making m (Copied cur) = Some np \<Longrightarrow>
    pstep Quiet m \<lparr>ptab = fork_start cur np (ptab m), making = (making m)(Copied cur := None)\<rparr>"
| step_scheduler: "c < NCPU \<Longrightarrow> in_sched (cpus (ptab m) c) \<Longrightarrow> idle_of (ptab m) c \<noteq> None \<Longrightarrow> scheduler c (ptab m) = Inr pt' \<Longrightarrow>
    pstep (if sched_que (ptab m) = [] then Quiet else Take) m (m\<lparr>ptab := pt'\<rparr>)"
| step_forkret: "running m c cur \<Longrightarrow> forkret ret c cur (fs, ptab m) = Inr (fs', pt') \<Longrightarrow> pstep Quiet m (m\<lparr>ptab := pt'\<rparr>)"
| step_yield: "running m c cur \<Longrightarrow> pstep Quiet m (m\<lparr>ptab := yield c cur (ptab m)\<rparr>)"
| step_sleep: "running m c cur \<Longrightarrow> sleep_on c cur chan r (ptab m) = Inr pt' \<Longrightarrow> r \<noteq> Forkret \<Longrightarrow> pstep Quiet m (m\<lparr>ptab := pt'\<rparr>)"
| step_wakeup: "pstep Quiet m (m\<lparr>ptab := wakeup chan (ptab m)\<rparr>)"
| step_wait4: "running m c cur \<Longrightarrow> wait4 c cur pid opts (ptab m) = Inr (w, pt') \<Longrightarrow>
    pstep (if frees_live (ptab m) pt' then Unsafe else Quiet) m (m\<lparr>ptab := pt'\<rparr>)"
| step_exit: "running m c cur \<Longrightarrow> idle_of (ptab m) c \<noteq> Some cur \<Longrightarrow> not_forking m cur \<Longrightarrow>
    exit_task c cur err (ptab m) = Inr pt' \<Longrightarrow> pstep Quiet m (m\<lparr>ptab := pt'\<rparr>)"
| step_kill: "running m c cur \<Longrightarrow> kill c cur pid sig (ptab m) = Inr (r, pt') \<Longrightarrow> pstep Quiet m (m\<lparr>ptab := pt'\<rparr>)"
| step_term: "running m c cur \<Longrightarrow> term_handler False cur (ptab m) = Inr pt' \<Longrightarrow> pstep Quiet m (m\<lparr>ptab := pt'\<rparr>)"
| step_cont: "running m c cur \<Longrightarrow> pstep Unsafe m (m\<lparr>ptab := cont_handler cur (ptab m)\<rparr>)"
| step_local: "running m c cur \<Longrightarrow> local_to cur (ptab m) pt' \<Longrightarrow> pstep Quiet m (m\<lparr>ptab := pt'\<rparr>)"

text \<open>Any number of steps, with what they did.\<close>

inductive psteps :: "event list \<Rightarrow> kernel \<Rightarrow> kernel \<Rightarrow> bool" where
  psteps_refl: "psteps [] m m"
| psteps_step: "psteps es a b \<Longrightarrow> pstep e b d \<Longrightarrow> psteps (es @ [e]) a d"

lemma psteps_trans: "psteps fs b d \<Longrightarrow> psteps es a b \<Longrightarrow> psteps (es @ fs) a d"
proof (induction rule: psteps.induct)
  case (psteps_step gs b' d' e f)
  then show ?case using psteps.psteps_step [of "es @ gs" a d' e f] by simp
qed simp

lemma psteps_one: "pstep e a b \<Longrightarrow> psteps [e] a b"
  using psteps_step [OF psteps_refl] by simp

section \<open>Steps that change a process locally\<close>

lemma local_same: "local_to p pt pt"
  unfolding local_to_def by (intro exI [of _ "tasks pt p"] exI [of _ "umem pt"]) simp

lemma local_t_upd:
  "t_state (f (tasks pt p)) = t_state (tasks pt p) \<Longrightarrow> t_chan (f (tasks pt p)) = t_chan (tasks pt p) \<Longrightarrow>
   t_parent (f (tasks pt p)) = t_parent (tasks pt p) \<Longrightarrow> t_child (f (tasks pt p)) = t_child (tasks pt p) \<Longrightarrow>
   p_pid (t_id (f (tasks pt p))) = p_pid (t_id (tasks pt p)) \<Longrightarrow> local_to p pt (t_upd p f pt)"
  unfolding local_to_def t_upd_def by (intro exI [of _ "f (tasks pt p)"] exI [of _ "umem pt"]) simp

lemma local_trans:
  assumes "local_to p a b" and "local_to p b d"
  shows "local_to p a d"
proof -
  obtain T u where T: "b = a\<lparr>tasks := (tasks a)(p := T), umem := u\<rparr>" "t_state T = t_state (tasks a p)" "t_chan T = t_chan (tasks a p)"
      "t_parent T = t_parent (tasks a p)" "t_child T = t_child (tasks a p)" "p_pid (t_id T) = p_pid (t_id (tasks a p))"
    using assms(1) unfolding local_to_def by blast
  obtain U v where U: "d = b\<lparr>tasks := (tasks b)(p := U), umem := v\<rparr>" "t_state U = t_state (tasks b p)" "t_chan U = t_chan (tasks b p)"
      "t_parent U = t_parent (tasks b p)" "t_child U = t_child (tasks b p)" "p_pid (t_id U) = p_pid (t_id (tasks b p))"
    using assms(2) unfolding local_to_def by blast
  show ?thesis unfolding local_to_def by (intro exI [of _ U] exI [of _ v]) (use T U in simp)
qed

lemma local_sig_upd: "local_to p pt (sig_upd p f pt)"
  unfolding sig_upd_def by (rule local_t_upd) simp_all

lemma local_user_handler: "local_to p pt (user_handler cur p sig pt)"
  unfolding local_to_def
  by (intro exI [of _ "tasks (user_handler cur p sig pt) p"] exI [of _ "umem (user_handler cur p sig pt)"])
    (simp add: user_handler_def Let_def put_user_def t_upd_def)

lemma local_ops:
  "local_to cur pt (snd (sigaction cur n act pt))" "sigprocmask cur how m pt = (r, old, pt') \<Longrightarrow> local_to cur pt pt'"
  "local_to cur pt (snd (sigreturn cur pt))" "local_to cur pt (flush_signal_handlers cur pt)"
  "setpgid cur pid pgid pt = Inr (r', pt') \<Longrightarrow> local_to cur pt pt'"
  "local_to cur pt (t_upd cur (\<lambda>T. T\<lparr>t_id := (t_id T)\<lparr>p_ofile := F\<rparr>\<rparr>) pt)" "local_to cur pt (t_upd cur (initx_task g) pt)"
  "local_to cur pt (t_upd cur (\<lambda>T. T\<lparr>t_paused := b\<rparr>) pt)" "local_to cur pt (clear_sig cur sig pt)"
proof -
  show "local_to cur pt (snd (sigaction cur n act pt))"
    by (cases act) (simp_all add: sigaction_def Let_def local_same local_sig_upd)
  show "local_to cur pt pt'" if "sigprocmask cur how m pt = (r, old, pt')"
    using that local_sig_upd local_same by (auto simp: sigprocmask_def Let_def split: option.splits if_splits)
  show "local_to cur pt (snd (sigreturn cur pt))" unfolding sigreturn_def snd_conv by (rule local_t_upd) simp_all
  show "local_to cur pt (flush_signal_handlers cur pt)" unfolding flush_signal_handlers_def by (rule local_t_upd) simp_all
  have g: "local_to cur pt (t_upd cur (\<lambda>T. T\<lparr>t_id := (t_id T)\<lparr>p_pgid := g\<rparr>\<rparr>) pt)" for g by (rule local_t_upd) simp_all
  show "local_to cur pt pt'" if "setpgid cur pid pgid pt = Inr (r', pt')"
    using that g local_same unfolding setpgid_def Let_def by (auto split: if_split_asm option.splits)
  show "local_to cur pt (clear_sig cur sig pt)" unfolding clear_sig_def by (rule local_sig_upd)
qed (rule local_t_upd; simp)+

lemma local_keeps:
  assumes "local_to p pt pt'"
  shows "sched_inv k pt \<Longrightarrow> sched_inv k pt'" and "calm pt pt'" and "sched_que pt' = sched_que pt" and "runs_on pt' = runs_on pt"
    and "idle_of pt' = idle_of pt"
proof -
  from assms obtain T u where T: "pt' = pt\<lparr>tasks := (tasks pt)(p := T), umem := u\<rparr>" "t_state T = t_state (tasks pt p)"
      "t_chan T = t_chan (tasks pt p)" "t_parent T = t_parent (tasks pt p)" "t_child T = t_child (tasks pt p)"
      "p_pid (t_id T) = p_pid (t_id (tasks pt p))"
    unfolding local_to_def by blast
  show s: "sched_que pt' = sched_que pt" "runs_on pt' = runs_on pt" "idle_of pt' = idle_of pt"
    by (simp_all add: T(1) runs_on_def idle_of_def fun_eq_iff)
  show "sched_inv k pt \<Longrightarrow> sched_inv k pt'" by (erule sched_inv_same) (use T s in \<open>auto simp: fun_eq_iff\<close>)
  show "calm pt pt'" using T(2-) by (auto simp: T(1) calm_def fun_eq_iff)
qed

section \<open>The invariants hold in every reachable state\<close>

lemma may_create_agent: "may_create m a \<Longrightarrow> making m a = None \<and> creator a = None"
  by (cases a) (auto simp: may_create_def creator_def not_forking_def)

lemma pstep_inv:
  assumes "pstep e m m'" and "e \<noteq> Unsafe" and v: "sched_inv (making m) (ptab m)"
  shows "sched_inv (making m') (ptab m')"
  using assms(1,2)
proof cases
  case (step_alloc a kstack p pt')
  then show ?thesis using proc_alloc_inv(2) [OF v, of kstack "Some p" pt' p a] may_create_agent [of m a] by simp
next
  case step_alloc_fails
  then show ?thesis using proc_alloc_inv(1) [OF v] by simp
next
  case step_fork_copy
  then show ?thesis using fork_copy_inv(1) [OF v] by simp
next
  case step_fork_fails
  then show ?thesis using fork_copy_inv(2) [OF v] by simp
next
  case step_wait4
  then show ?thesis using wait4_inv [OF v] assms(2) by (auto simp: running_def split: if_splits)
next
  case step_forkret
  then show ?thesis by (auto simp: forkret_def runs_on_def idle_of_def split: if_splits intro!: sched_inv_same [OF v])
qed (use v in \<open>auto simp: running_def wakeup_def intro: scheduler_inv yield_inv sleep_on_inv wakeup1_inv exit_task_inv kill_inv
    term_handler_inv local_keeps(1) push_made_inv idle_start_inv fork_start_inv\<close>)

text \<open>The numbers given out so far are counted by the \<open>Alloc\<close> events.\<close>

definition family_inv :: "kernel \<Rightarrow> bool" where
  "family_inv m \<longleftrightarrow> family_ok (making m) (ptab m) \<and> initproc (ptab m) = None"

lemma pstep_family:
  assumes "pstep e m m'" and ne: "e \<noteq> Unsafe" and v: "sched_inv (making m) (ptab m)" and f: "family_inv m"
    and n: "e = Alloc \<Longrightarrow> last_pid (ptab m) < 2 ^ 31 - 1"
  shows "family_inv m' \<and> last_pid (ptab m') = last_pid (ptab m) + of_bool (e = Alloc)"
proof -
  note f' = f [unfolded family_inv_def, THEN conjunct1] and i = f [unfolded family_inv_def, THEN conjunct2]
  have calm: "family_inv (m\<lparr>ptab := q\<rparr>)" "last_pid q = last_pid (ptab m)" if "calm (ptab m) q" for q
    using f calm_family [OF that] that by (simp_all add: family_inv_def calm_def)
  note act = running_active [OF v]
  from assms(1) show ?thesis
  proof cases
    case (step_alloc a kstack p pt')
    then show ?thesis
      using proc_alloc_family(1) [OF v f'] proc_alloc_family(3) [OF v f', of kstack "Some p" pt' p a] may_create_agent [of m a] n i by (simp add: family_inv_def)
  next
    case step_alloc_fails
    then show ?thesis using proc_alloc_family(1,2) [OF v f'] i by (simp add: family_inv_def)
  next
    case step_user_start
    then show ?thesis using push_made_family [OF v f'] i by (simp add: family_inv_def push_run_def)
  next
    case step_idle_start
    then show ?thesis using idle_start_family [OF v f'] i by (simp add: family_inv_def idle_start_def c_upd_def)
  next
    case step_fork_copy
    then show ?thesis using fork_copy_family(1,3,4) [OF v f'] i by (simp add: family_inv_def)
  next
    case step_fork_fails
    then show ?thesis using fork_copy_family(2,3,4) [OF v f'] i by (simp add: family_inv_def)
  next
    case (step_fork_start c cur np)
    then show ?thesis using fork_start_family [OF v f', of cur np c] i by (simp add: family_inv_def running_def)
  next
    case (step_wait4 c cur)
    then show ?thesis using wait4_family [OF f' act] ne i by (auto simp: family_inv_def running_def split: if_splits)
  next
    case (step_exit c cur)
    then show ?thesis using exit_task_family [OF v f' i act, of c cur] i by (auto simp: family_inv_def running_def)
  qed (use v act ne in \<open>auto simp: running_def wakeup_def intro!: calm intro: calm_scheduler calm_yield calm_sleep_on calm_kill calm_wakeup1
      calm_term_handler calm_forkret local_keeps(2)\<close>)
qed

lemma booted_inv: "sched_inv (making (booted addr mem)) (ptab (booted addr mem))"
  by (simp add: sched_inv_def sinv_def once_def alone_def made_def at_cpu_def booted_def boot_def proc_init_def runs_on_def idle_of_def task0_def)

lemma booted_family: "family_inv (booted addr mem)" "last_pid (ptab (booted addr mem)) = 0"
  by (simp_all add: family_inv_def family_ok_def tree_def numbered_def booted_def boot_def proc_init_def task0_def)

lemma psteps_inv:
  "psteps es m m' \<Longrightarrow> Unsafe \<notin> set es \<Longrightarrow> sched_inv (making m) (ptab m) \<Longrightarrow> sched_inv (making m') (ptab m')"
  by (induction rule: psteps.induct) (auto intro: pstep_inv)

lemma psteps_family:
  "psteps es m m' \<Longrightarrow> Unsafe \<notin> set es \<Longrightarrow> sched_inv (making m) (ptab m) \<Longrightarrow> family_inv m \<Longrightarrow>
   last_pid (ptab m) + int (count_list es Alloc) < 2 ^ 31 \<Longrightarrow>
   family_inv m' \<and> last_pid (ptab m') = last_pid (ptab m) + int (count_list es Alloc)"
proof (induction rule: psteps.induct)
  case (psteps_step es a b e d)
  have u: "Unsafe \<notin> set es" "e \<noteq> Unsafe" using psteps_step.prems(1) by auto
  have b: "family_inv b \<and> last_pid (ptab b) = last_pid (ptab a) + int (count_list es Alloc)"
    using psteps_step.IH u psteps_step.prems by (simp split: if_splits)
  have i: "sched_inv (making b) (ptab b)" using psteps_inv [OF psteps_step.hyps(1) u(1) psteps_step.prems(2)] .
  from pstep_family [OF psteps_step.hyps(2) u(2) i] b psteps_step.prems(4) show ?case by (simp split: if_splits)
qed simp

section \<open>Whole calls\<close>

text \<open>The calls with several parts are runs of the machine.\<close>

lemma alloc_runs_on:
  assumes "proc_alloc kstack pt = (q, pt')"
  shows "runs_on pt' = runs_on pt" "idle_of pt' = idle_of pt"
  using assms by (cases rule: proc_alloc_cases; simp)+

lemma fork_copy_runs_on:
  assumes "fork_copy cur np pgdir regions (fs, pt) = Inr (e, fs', pt')"
  shows "runs_on pt' = runs_on pt"
  using assms by (cases rule: fork_copy_cases; simp)

lemma fork_performs:
  assumes r: "running m c cur" and n: "not_forking m cur" and f: "fork cur kstack pgdir regions (fs, ptab m) = Inr (x, fs', pt')"
  shows "\<exists>es. es \<in> {[Quiet], [Alloc, Quiet], [Alloc, Quiet, Quiet]} \<and> psteps es m (m\<lparr>ptab := pt'\<rparr>)"
proof (cases "proc_alloc kstack (ptab m)")
  case (Pair q pt1)
  have k: "making m (Forking cur) = None" "making m (Copied cur) = None" "may_create m (Forking cur)"
    using r n by (auto simp: not_forking_def may_create_def)
  show ?thesis
  proof (cases q)
    case None
    then have "pt' = pt1" using f Pair by (simp add: fork_def)
    then show ?thesis using psteps_one [OF step_alloc_fails [OF k(3)]] Pair None by blast
  next
    case (Some np)
    define m1 where "m1 = \<lparr>ptab = pt1, making = (making m)(Forking cur \<mapsto> np)\<rparr>"
    have s1: "psteps [Alloc] m m1" unfolding m1_def by (rule psteps_one, rule step_alloc [OF k(3)]) (use Pair Some in simp)
    have m1: "running m1 c cur" "making m1 (Forking cur) = Some np" "making m1 (Copied cur) = None"
      using r k alloc_runs_on [OF Pair] by (simp_all add: m1_def running_def)
    obtain e fs2 pt2 where f2: "fork_copy cur np pgdir regions (fs, ptab m1) = Inr (e, fs2, pt2)"
        "case e of Some e \<Rightarrow> pt' = pt2 | None \<Rightarrow> pt' = fork_start cur np pt2"
      using f Pair Some by (auto simp: fork_def m1_def split: option.splits)
    show ?thesis
    proof (cases e)
      case (Some e')
      have "pstep Quiet m1 \<lparr>ptab = pt2, making = (making m1)(Forking cur := None)\<rparr>"
        using f2 Some by (intro step_fork_fails [OF m1]) simp
      from psteps_step [OF s1 this] have "psteps [Alloc, Quiet] m (m\<lparr>ptab := pt'\<rparr>)"
        using f2(2) Some k(1) by (cases m) (simp add: m1_def fun_upd_idem)
      then show ?thesis by blast
    next
      case None
      define m2 where "m2 = \<lparr>ptab = pt2, making = (making m1)(Forking cur := None, Copied cur \<mapsto> np)\<rparr>"
      have "pstep Quiet m1 m2" unfolding m2_def using f2 None by (intro step_fork_copy [OF m1]) simp
      from psteps_step [OF s1 this] have s2: "psteps [Alloc, Quiet] m m2" by simp
      have "pstep Quiet m2 \<lparr>ptab = fork_start cur np (ptab m2), making = (making m2)(Copied cur := None)\<rparr>"
        using m1 fork_copy_runs_on [OF f2(1)] by (intro step_fork_start [of _ c]) (simp_all add: m2_def running_def)
      from psteps_step [OF s2 this] have "psteps [Alloc, Quiet, Quiet] m (m\<lparr>ptab := pt'\<rparr>)"
        using f2(2) None k(1,2) by (cases m) (simp add: m2_def m1_def fun_upd_idem fun_upd_twist)
      then show ?thesis by blast
    qed
  qed
qed

lemma initx_performs:
  assumes a: "may_create m a" and f: "proc_initx kstack va pgdir mapped (ptab m) = Inr (p, pt')"
  shows "psteps [Alloc, Quiet] m \<lparr>ptab = pt', making = (making m)(a \<mapsto> p)\<rparr> \<and> idle_of pt' = idle_of (ptab m)"
proof -
  obtain pt1 where u: "proc_alloc kstack (ptab m) = (Some p, pt1)" "pt' = t_upd p (initx_task pgdir) pt1"
    using f by (auto simp: proc_initx_def split: prod.splits option.splits if_splits)
  have "pstep Alloc m \<lparr>ptab = pt1, making = (making m)(a \<mapsto> p)\<rparr>" by (rule step_alloc [OF a u(1)])
  from psteps_step [OF psteps_one [OF this] step_made [of _ a p pt']]
  show ?thesis using u(2) local_ops(7) alloc_runs_on [OF u(1)] by simp
qed

lemma user_init_performs:
  assumes n: "making m UserInit = None" and f: "user_init kstack va pgdir mapped (fs, ptab m) = Inr (fs', pt')"
  shows "psteps [Alloc, Quiet, Quiet, Quiet] m (m\<lparr>ptab := pt'\<rparr>)"
proof -
  obtain p pt1 ip where i: "proc_initx kstack va pgdir mapped (ptab m) = Inr (p, pt1)" "pt' = user_start ip p pt1"
    using f by (auto simp: user_init_def split: option.splits)
  have u: "may_create m UserInit" using n by (simp add: may_create_def)
  define g :: "task \<Rightarrow> task" where "g = (\<lambda>T. T\<lparr>t_id := (t_id T)\<lparr>cap_effective := CAP_INIT_EFF_SET,
     cap_inheritable := CAP_INIT_EFF_SET, cap_permitted := CAP_INIT_EFF_SET, p_cwd := ip\<rparr>\<rparr>)"
  have g: "pt' = push_run p (t_upd p g pt1)" "local_to p pt1 (t_upd p g pt1)"
    unfolding i(2) user_start_def g_def by (rule refl, rule local_t_upd) simp_all
  define m1 where "m1 = \<lparr>ptab = t_upd p g pt1, making = (making m)(UserInit \<mapsto> p)\<rparr>"
  have "psteps [Alloc, Quiet, Quiet] m m1"
    using psteps_step [OF conjunct1 [OF initx_performs [OF u i(1)]] step_made [of _ UserInit p "t_upd p g pt1"]] g(2) by (simp add: m1_def)
  from psteps_step [OF this step_user_start [of m1 p]] show ?thesis
    using n g(1) by (cases m) (simp add: m1_def fun_upd_idem)
qed

lemma idle_init_performs:
  assumes n: "making m (IdleInit c) = None" and c: "c < NCPU" "idle_of (ptab m) c = None"
    and f: "idle_init c kstack va pgdir mapped (ptab m) = Inr pt'"
  shows "psteps [Alloc, Quiet, Quiet] m (m\<lparr>ptab := pt'\<rparr>)"
proof -
  obtain p pt1 where i: "proc_initx kstack va pgdir mapped (ptab m) = Inr (p, pt1)" "pt' = idle_start c p pt1"
    using f by (auto simp: idle_init_def)
  have u: "may_create m (IdleInit c)" using n c by (simp add: may_create_def)
  note x = initx_performs [OF u i(1)]
  from psteps_step [OF conjunct1 [OF x] step_idle_start [of _ c p]] show ?thesis
    using n c i(2) conjunct2 [OF x] by (cases m) (simp add: fun_upd_idem)
qed

lemma local_then:
  assumes "running m c cur" and "local_to cur (ptab m) q" and "running (m\<lparr>ptab := q\<rparr>) c cur \<Longrightarrow> pstep e (m\<lparr>ptab := q\<rparr>) m'"
  shows "psteps [Quiet, e] m m'"
proof -
  have "running (m\<lparr>ptab := q\<rparr>) c cur" using assms(1) local_keeps(4) [OF assms(2)] by (simp add: running_def)
  from psteps_step [OF psteps_one [OF step_local [OF assms(1,2)]] assms(3) [OF this]] show ?thesis by simp
qed

lemma exit_performs:
  assumes r: "running m c cur" "idle_of (ptab m) c \<noteq> Some cur" "not_forking m cur"
    and f: "exit c cur err (fs, ptab m) = Inr (fs', pt')"
  shows "psteps [Quiet, Quiet] m (m\<lparr>ptab := pt'\<rparr>)"
proof -
  obtain F u where u: "u = t_upd cur (\<lambda>T. T\<lparr>t_id := (t_id T)\<lparr>p_ofile := F\<rparr>\<rparr>) (ptab m)" "exit_task c cur err u = Inr pt'"
    using f by (auto simp: exit_def exit_files_def split: if_splits)
  have l: "local_to cur (ptab m) u" unfolding u(1) by (rule local_ops(6))
  have "psteps [Quiet, Quiet] m (m\<lparr>ptab := u, ptab := pt'\<rparr>)"
    by (rule local_then [OF r(1) l], rule step_exit [where c = c and cur = cur])
      (use r u in \<open>simp_all add: not_forking_def\<close>)
  then show ?thesis by simp
qed

lemma sigsuspend_performs:
  assumes r: "running m c cur" and f: "sigsuspend c cur msk (ptab m) = Inr pt'"
  shows "psteps [Quiet, Quiet] m (m\<lparr>ptab := pt'\<rparr>)"
proof -
  obtain M u where u: "u = sig_upd cur M (t_upd cur (\<lambda>T. T\<lparr>t_paused := True\<rparr>) (ptab m))"
      "sleep_on c cur (proc_addr u cur) (InSuspend (sig_mask (t_signal (tasks (ptab m) cur)))) u = Inr pt'"
    using f by (auto simp: sigsuspend_def Let_def)
  have l: "local_to cur (ptab m) u" unfolding u(1) by (rule local_trans [OF local_ops(8) local_sig_upd])
  have "psteps [Quiet, Quiet] m (m\<lparr>ptab := u, ptab := pt'\<rparr>)"
    by (rule local_then [OF r l], rule step_sleep [where r = "InSuspend (sig_mask (t_signal (tasks (ptab m) cur)))"]) (use u(2) in simp_all)
  then show ?thesis by simp
qed

lemma ppoll_performs:
  assumes r: "running m c cur" and f: "ppoll c cur fds (ptab m) = Inr (x, pt')"
  shows "psteps [Quiet, Quiet] m (m\<lparr>ptab := pt'\<rparr>)"
proof (cases fds)
  case None
  let ?u = "t_upd cur (\<lambda>T. T\<lparr>t_paused := True\<rparr>) (ptab m)"
  have "psteps [Quiet, Quiet] m (m\<lparr>ptab := ?u, ptab := pt'\<rparr>)"
    by (rule local_then [OF r local_ops(8)], rule step_sleep [where r = InSleep and chan = "proc_addr (ptab m) cur"])
      (use None f in \<open>auto simp: ppoll_def sleep_def\<close>)
  then show ?thesis by simp
next
  case (Some l)
  then have "pt' = ptab m" using f by (simp add: ppoll_def)
  then show ?thesis using local_then [OF r local_same step_local [OF _ local_same]] by simp
qed

text \<open>Only the default handler of \<open>SIGCONT\<close> is unsafe.\<close>

lemma check_pending_signal_performs:
  assumes r: "running m c cur" and f: "check_pending_signal c cur (ptab m) = Inr pt'"
  shows "\<exists>es. set es \<subseteq> {Quiet, Unsafe} \<and> psteps es m (m\<lparr>ptab := pt'\<rparr>)"
proof (cases "find (\<lambda>sig. sigismember (sig_pending (t_signal (tasks (ptab m) cur))) sig = 1) (map int [0..<nat NSIG])")
  case None
  then have "m\<lparr>ptab := pt'\<rparr> = m" using f by (cases m) (simp add: check_pending_signal_def)
  then show ?thesis using psteps_refl [of m] by (intro exI [of _ "[]"]) simp
next
  case (Some sig)
  have clear: "psteps [e, Quiet] m (m\<lparr>ptab := clear_sig cur sig q\<rparr>)" if "pstep e m (m\<lparr>ptab := q\<rparr>)" "runs_on q = runs_on (ptab m)" for e q
  proof -
    have "pstep Quiet (m\<lparr>ptab := q\<rparr>) (m\<lparr>ptab := q, ptab := clear_sig cur sig q\<rparr>)"
      by (rule step_local [of _ c cur]) (use r that(2) local_ops(9) in \<open>simp_all add: running_def\<close>)
    from psteps_step [OF psteps_one [OF that(1)] this] show ?thesis by simp
  qed
  have "handle_signal False c cur cur sig (ptab m) = Inr pt'" using f Some by (simp add: check_pending_signal_def)
  then show ?thesis
  proof (cases rule: handle_signal_cases)
    case 3
    then show ?thesis using clear [OF step_cont [OF r]] by (intro exI [of _ "[Unsafe, Quiet]"]) (simp add: cont_handler_def)
  next
    case (5 q)
    then show ?thesis using clear [OF step_term [OF r 5(1)]] by (intro exI [of _ "[Quiet, Quiet]"]) (auto simp: term_handler_def)
  next
    case 6
    then show ?thesis using psteps_one [OF step_sleep [OF r]] by (intro exI [of _ "[Quiet]"]) (auto simp: stop_handler_def)
  next
    case 4
    then show ?thesis using clear [OF step_local [OF r local_user_handler]] local_keeps(4) [OF local_user_handler]
      by (intro exI [of _ "[Quiet, Quiet]"]) simp
  qed (use psteps_one [OF step_local [OF r]] local_same local_ops(9) in \<open>force intro: exI [of _ "[Quiet]"]\<close>)+
qed

section \<open>The run queue\<close>

definition appends :: "ptable \<Rightarrow> ptable \<Rightarrow> bool" where
  "appends pt pt' \<longleftrightarrow> (\<exists>ys. sched_que pt' = sched_que pt @ ys)"

lemma appends_refl [simp]: "sched_que pt' = sched_que pt \<Longrightarrow> appends pt pt'"
  by (simp add: appends_def)

lemma appends_trans: "appends a b \<Longrightarrow> appends b d \<Longrightarrow> appends a d"
  by (auto simp: appends_def)

lemma appends_push: "appends pt q \<Longrightarrow> appends pt (push_run p q)"
  by (auto simp: appends_def)

lemma appends_t_upd: "appends pt q \<Longrightarrow> appends pt (t_upd p f q)"
  by (auto simp: appends_def)

lemma appends_swtch: "appends pt q \<Longrightarrow> appends pt (swtch_out c p r q)"
  by (auto simp: appends_def)

lemma appends_wakeup1: "appends pt (wakeup1 chan pt)"
proof -
  have "appends pt (fold (wake_one chan) xs pt)" for xs
  proof (induction xs arbitrary: pt)
    case (Cons x xs)
    have "appends pt (wake_one chan x pt)" by (auto simp: appends_def wake_one_def)
    from appends_trans [OF this Cons.IH] show ?case by simp
  qed simp
  then show ?thesis by (simp add: wakeup1_def)
qed

lemma appends_sleep_on: "sleep_on c cur chan r pt = Inr pt' \<Longrightarrow> appends pt pt'"
  by (auto simp: sleep_on_def split: if_splits intro!: appends_swtch appends_t_upd)

lemma appends_handle_signal:
  assumes "handle_signal held c cur p sig pt = Inr pt'"
  shows "appends pt pt'"
  using assms
proof (cases rule: handle_signal_cases)
  case 6
  then show ?thesis using appends_sleep_on by (auto simp: stop_handler_def split: if_splits)
qed (use appends_wakeup1 in \<open>auto simp: clear_sig_def sig_upd_def cont_handler_def term_handler_def user_handler_def Let_def
    put_user_def split: if_splits intro!: appends_t_upd\<close>)

lemma appends_send_signal:
  assumes "send_signal c cur p sig pt = Inr pt'"
  shows "appends pt pt'"
proof -
  have m: "appends pt (mark_sig p sig pt)" by (auto simp: mark_sig_def sig_upd_def intro!: appends_t_upd)
  from assms show ?thesis
    by (cases rule: send_signal_cases) (use m appends_handle_signal appends_trans appends_t_upd in blast)+
qed

lemma appends_kill:
  assumes "kill c cur pid sig pt = Inr (r, pt')"
  shows "appends pt pt'"
proof -
  obtain ps where k: "kfold (\<lambda>p. send_signal c cur p sig) ps pt = Inr pt'" using assms by (rule kill_kfold)
  show ?thesis by (rule kfold_invariant [OF k]) (use appends_send_signal appends_trans in auto)
qed

lemma appends_alloc: "proc_alloc kstack pt = (q, pt') \<Longrightarrow> sched_que pt' = sched_que pt"
  by (auto simp: proc_alloc_def Let_def t_upd_def split: option.splits if_splits)

lemma appends_reparent: "reparent cur p pt = Inr pt' \<Longrightarrow> appends pt pt'"
  by (auto simp: reparent_def Let_def split: if_splits option.splits
      intro!: appends_trans [OF _ appends_wakeup1] appends_t_upd)

lemma appends_exit_task:
  assumes "exit_task c cur err pt = Inr pt'"
  shows "appends pt pt'"
proof -
  define t where "t = (case t_parent (tasks pt cur) of None \<Rightarrow> wakeup1 0 pt | Some q \<Rightarrow> wakeup1 (proc_addr pt q) pt)"
  have t: "appends pt t" using appends_wakeup1 by (simp add: t_def split: option.splits)
  from assms obtain w where w: "kfold (reparent cur) (t_child (tasks t cur)) t = Inr w"
    and pt': "pt' = swtch_out c cur InYield (t_upd cur (\<lambda>T. T\<lparr>t_xstate := err AND 127, t_state := ZOMBIE\<rparr>) w)"
    by (auto simp: exit_task_def Let_def t_def [symmetric])
  have "appends pt w" by (rule kfold_invariant [OF w]) (use t appends_reparent appends_trans in auto)
  then show ?thesis unfolding pt' by (auto simp: appends_def)
qed

lemma appends_fork:
  assumes "fork_copy cur np pgdir regions (fs, pt) = Inr (e, fs', pt')"
  shows "appends pt pt'"
  using assms by (cases rule: fork_copy_cases) simp_all

lemma pstep_queue:
  assumes "pstep e m m'"
  shows "if e = Take then sched_que (ptab m') = tl (sched_que (ptab m)) else appends (ptab m) (ptab m')"
  using assms
proof cases
  case step_scheduler
  then show ?thesis by (auto simp: scheduler_def Let_def split: option.splits)
next
  case step_wait4
  then show ?thesis by (auto elim!: wait4_cases intro!: appends_t_upd intro: appends_sleep_on)
next
  case step_forkret
  then show ?thesis by (auto simp: forkret_def split: if_splits)
qed (auto simp: yield_def wakeup_def cont_handler_def fork_start_def idle_start_def term_handler_def appends_alloc
    local_keeps(3) intro: appends_sleep_on appends_wakeup1 appends_fork appends_exit_task appends_kill
    intro!: appends_swtch appends_t_upd appends_push)

text \<open>The queue is first in, first out, whatever the interleaving of steps.\<close>

lemma psteps_queue:
  assumes "psteps es m m'" and "count_list es Take \<le> length (sched_que (ptab m))"
  shows "\<exists>ys. sched_que (ptab m') = drop (count_list es Take) (sched_que (ptab m)) @ ys"
  using assms
proof (induction rule: psteps.induct)
  case (psteps_step es a b e d)
  then obtain ys where q: "sched_que (ptab b) = drop (count_list es Take) (sched_que (ptab a)) @ ys" by (auto split: if_splits)
  show ?case
  proof (cases "e = Take")
    case True
    then have "drop (count_list es Take) (sched_que (ptab a)) \<noteq> []" using psteps_step.prems by simp
    then show ?thesis using pstep_queue [OF psteps_step.hyps(2)] True q by (simp add: drop_Suc tl_drop)
  qed (use pstep_queue [OF psteps_step.hyps(2)] q in \<open>auto simp: appends_def\<close>)
qed simp

lemma scheduler_head:
  assumes "sched_que pt = p # R"
  shows "\<exists>pt'. scheduler c pt = Inr pt' \<and> runs_on pt' c = Some p"
  using assms by (simp add: scheduler_def runs_on_def)

end
