(* ===== verification/Proc_Correct.thy ===== *)
theory Proc_Correct
  imports Proc_Reach V6_Example
begin

text \<open>
  What the operations on processes do: \<open>wakeup\<close> wakes exactly the sleepers of its channel, the run queue
  is first in, first out, \<open>sigreturn\<close> undoes \<open>user_handler\<close>, the invariants hold in every reachable state;
  and the calls that break them.
\<close>

section \<open>An example\<close>

text \<open>A file system whose root directory is inode 1, and the process table after three steps.\<close>

definition files_example :: filest where
  "files_example =
     pgst.extend (fsst.extend (fs_example\<lparr>rootfs := Some \<lparr>vfs_major = 0, vfs_minor = 1, vfs_fs_t = V6FS\<rparr>\<rparr>)
       (pgst.fields (\<lambda>_. \<lparr>cp_page = (\<lambda>_. 0), cp_dev = 0, cp_inum = 0, cp_ref_count = 0, cp_offset = 0, cp_lock = initsleeplock\<rparr>) 0))
     (filest.fields (\<lambda>_. \<lparr>f_type = FD_NONE, f_ref = 0, f_pipe = 0, f_ip = None, f_off = 0, f_flags = 0,
        f_readable = False, f_writable = False\<rparr>) (\<lambda>_. pipe0))"

lemma files_example_fields [simp]:
  "rootfs files_example = Some \<lparr>vfs_major = 0, vfs_minor = 1, vfs_fs_t = V6FS\<rparr>" "icache files_example 0 = inode_example"
  by (simp_all add: files_example_def fs_example_def fsst.defs pgst.defs filest.defs)

lemma zero_less_NINODE: "0 < NINODE"
  by (simp add: NINODE_def)

lemma files_example_root: "namei [47] files_example = Inr (Some 0, i_upd 0 (\<lambda>I. I\<lparr>i_ref := i_ref I + 1\<rparr>) files_example)"
proof -
  have "iget_slot ROOTDEV V6_ROOTINO files_example = Some 0"
    unfolding iget_slot_def upt_conv_Cons [OF zero_less_NINODE]
    by (simp add: inode_example_def ROOTDEV_def V6_ROOTINO_def)
  moreover have "skipelem [47] = None" by (simp add: skipelem_def)
  ultimately show ?thesis
    by (simp add: namei_def namex_def v6_getroot_def iget_def namex_loop.simps inode_example_def T_MOUNT_def T_FILE_def)
qed

definition table_example :: ptable where
  "table_example = boot (\<lambda>p. 0x80000 + 0x800 * of_nat p) (\<lambda>_ _. 0)"

abbreviation (input) kernel_example :: kernel where
  "kernel_example \<equiv> booted (\<lambda>p. 0x80000 + 0x800 * of_nat p) (\<lambda>_ _. 0)"

lemma kernel_example: "kernel_example = \<lparr>ptab = table_example, making = (\<lambda>_. None)\<rparr>"
  by (simp add: booted_def table_example_def)

lemma proc_alloc_first:
  assumes "p < NPROC" and "t_state (tasks pt p) = UNUSED" and "\<And>i. i < p \<Longrightarrow> t_state (tasks pt i) \<noteq> UNUSED" and "kstack \<noteq> 0"
    and "last_pid pt < 2 ^ 31 - 1"
  shows "proc_alloc kstack pt = (Some p, t_upd p (\<lambda>_. task0\<lparr>t_kstack := kstack, t_id := proc0\<lparr>p_pid := last_pid pt + 1\<rparr>, t_state := EMBRYO\<rparr>)
     (pt\<lparr>last_pid := last_pid pt + 1\<rparr>))"
proof -
  have "find (\<lambda>i. t_state (tasks pt i) = UNUSED) [0..<NPROC] = Some p" using assms by (auto simp: find_Some_iff)
  then show ?thesis using assms(4,5) by (simp add: proc_alloc_def t_upd_def task0_def next_pid_simp)
qed

text \<open>The new entry of \<open>proc_initx\<close>, and what it leaves alone.\<close>

definition fresh :: "task \<Rightarrow> bool" where
  "fresh T \<longleftrightarrow> t_state T = EMBRYO \<and> t_context T = Forkret \<and> p_ofile (t_id T) = (\<lambda>_. None) \<and> t_child T = [] \<and>
     t_parent T = None \<and> t_nregions T = 0"

lemma proc_initx_first:
  assumes "p < NPROC" and "t_state (tasks pt p) = UNUSED" and "\<And>i. i < p \<Longrightarrow> t_state (tasks pt i) \<noteq> UNUSED"
    and "kstack \<noteq> 0" "last_pid pt < 2 ^ 31 - 1" "va \<noteq> 0" "pgdir \<noteq> 0"
  shows "\<exists>T. proc_initx kstack va pgdir True pt = Inr (p, t_upd p (\<lambda>_. T) (pt\<lparr>last_pid := last_pid pt + 1\<rparr>)) \<and> fresh T"
proof -
  define T where "T = task0\<lparr>t_kstack := kstack, t_id := proc0\<lparr>p_pid := last_pid pt + 1\<rparr>, t_state := EMBRYO\<rparr>"
  have "proc_alloc kstack pt = (Some p, t_upd p (\<lambda>_. T) (pt\<lparr>last_pid := last_pid pt + 1\<rparr>))"
    unfolding T_def by (rule proc_alloc_first) (use assms in auto)
  then have "proc_initx kstack va pgdir True pt = Inr (p, t_upd p (\<lambda>_. initx_task pgdir T) (pt\<lparr>last_pid := last_pid pt + 1\<rparr>))"
    using assms(6,7) by (simp add: proc_initx_def t_upd_def)
  moreover have "fresh (initx_task pgdir T)" by (simp add: T_def fresh_def initx_task_def task0_def proc0_def)
  ultimately show ?thesis by blast
qed

text \<open>\<open>user_init\<close> and \<open>idle_init\<close> on CPU 0.\<close>

lemma example_boot:
  obtains pt T U where "psteps [Alloc, Quiet, Quiet, Quiet, Alloc, Quiet, Quiet] kernel_example \<lparr>ptab = pt, making = (\<lambda>_. None)\<rparr>"
    and "fresh T" and "fresh U" and "tasks pt = (\<lambda>_. task0)(0 := T, 1 := U)"
    and "sched_que pt = [0]" and "cpus pt 0 = \<lparr>cpu_proc = None, cpu_idle = Some 1, in_sched = True\<rparr>" and "last_pid pt = 2"
    and "slpque pt = (\<lambda>_. [])"
proof -
  have b: "tasks table_example = (\<lambda>_. task0)" "sched_que table_example = []" "slpque table_example = (\<lambda>_. [])" "last_pid table_example = 0"
      "cpus table_example = (\<lambda>_. \<lparr>cpu_proc = None, cpu_idle = None, in_sched = True\<rparr>)"
    by (simp_all add: table_example_def boot_def proc_init_def fun_eq_iff)
  obtain T where T: "proc_initx 4096 8192 12288 True table_example = Inr (0, t_upd 0 (\<lambda>_. T) (table_example\<lparr>last_pid := 1\<rparr>))" "fresh T"
    using proc_initx_first [of 0 table_example 4096 8192 12288] b by (auto simp: task0_def NPROC_def)
  define T' where "T' = T\<lparr>t_id := (t_id T)\<lparr>cap_effective := CAP_INIT_EFF_SET, cap_inheritable := CAP_INIT_EFF_SET,
      cap_permitted := CAP_INIT_EFF_SET, p_cwd := 0\<rparr>\<rparr>"
  define pt1 where "pt1 = push_run 0 (t_upd 0 (\<lambda>_. T') (table_example\<lparr>last_pid := 1\<rparr>))"
  have u: "\<exists>fs. user_init 4096 8192 12288 True (files_example, table_example) = Inr (fs, pt1)"
    by (simp add: user_init_def user_start_def T files_example_root pt1_def T'_def t_upd_def)
  have f: "fresh T'" using T(2) by (simp add: fresh_def T'_def)
  have t1: "tasks pt1 = (\<lambda>_. task0)(0 := T')" "cpus pt1 = cpus table_example" "sched_que pt1 = [0]" "slpque pt1 = (\<lambda>_. [])" "last_pid pt1 = 1"
    by (simp_all add: pt1_def b t_upd_def push_run_def)
  obtain U where U: "proc_initx 16384 20480 24576 True pt1 = Inr (1, t_upd 1 (\<lambda>_. U) (pt1\<lparr>last_pid := 2\<rparr>))" "fresh U"
    using proc_initx_first [of 1 pt1 16384 20480 24576] f by (auto simp: t1 task0_def NPROC_def fresh_def)
  define pt2 where "pt2 = c_upd 0 (\<lambda>C. C\<lparr>cpu_idle := Some 1\<rparr>) (t_upd 1 (\<lambda>_. U) (pt1\<lparr>last_pid := 2\<rparr>))"
  have i: "idle_init 0 16384 20480 24576 True pt1 = Inr pt2" by (simp add: idle_init_def idle_start_def U pt2_def)
  have s1: "psteps [Alloc, Quiet, Quiet, Quiet] kernel_example \<lparr>ptab = pt1, making = (\<lambda>_. None)\<rparr>"
    using u user_init_performs [of kernel_example] by (auto simp: kernel_example)
  have "psteps [Alloc, Quiet, Quiet] \<lparr>ptab = pt1, making = (\<lambda>_. None)\<rparr> \<lparr>ptab = pt2, making = (\<lambda>_. None)\<rparr>"
    using idle_init_performs [of "\<lparr>ptab = pt1, making = (\<lambda>_. None)\<rparr>" 0] i by (simp add: idle_of_def t1 b NCPU_def)
  from psteps_trans [OF this s1] show thesis using that [of pt2 T' U] f U(2) by (simp add: pt2_def c_upd_def t_upd_def t1 b)
qed

text \<open>The first process runs.\<close>

abbreviation (input) boot_events :: "event list" where
  "boot_events \<equiv> [Alloc, Quiet, Quiet, Quiet, Alloc, Quiet, Quiet, Take]"

lemma example_running:
  obtains pt T U where "psteps boot_events kernel_example \<lparr>ptab = pt, making = (\<lambda>_. None)\<rparr>" and "fresh T" and "fresh U"
    and "tasks pt = (\<lambda>_. task0)(0 := T, 1 := U)"
    and "sched_que pt = []" and "cpus pt 0 = \<lparr>cpu_proc = Some 0, cpu_idle = Some 1, in_sched = False\<rparr>" and "last_pid pt = 2"
    and "slpque pt = (\<lambda>_. [])"
proof -
  from example_boot obtain pt T U where pt: "psteps [Alloc, Quiet, Quiet, Quiet, Alloc, Quiet, Quiet] kernel_example \<lparr>ptab = pt, making = (\<lambda>_. None)\<rparr>"
      "fresh T" "fresh U" "tasks pt = (\<lambda>_. task0)(0 := T, 1 := U)"
      "sched_que pt = [0]" "cpus pt 0 = \<lparr>cpu_proc = None, cpu_idle = Some 1, in_sched = True\<rparr>" "last_pid pt = 2" "slpque pt = (\<lambda>_. [])"
    by blast
  define q where "q = c_upd 0 (\<lambda>C. C\<lparr>cpu_proc := Some 0, in_sched := False\<rparr>) (pt\<lparr>sched_que := []\<rparr>)"
  have "scheduler 0 pt = Inr q"
    using pt by (simp add: scheduler_def q_def t_upd_def c_upd_def fun_upd_idem resumed_def fresh_def)
  with psteps_step [OF pt(1) step_scheduler [of 0 _ q]] have "psteps boot_events kernel_example \<lparr>ptab = q, making = (\<lambda>_. None)\<rparr>"
    using pt by (simp add: idle_of_def NCPU_def)
  then show thesis using that [of q T U] pt by (simp add: q_def c_upd_def)
qed

text \<open>It sleeps on channel \<open>0x900\<close>.\<close>

lemma example_asleep:
  obtains pt where "psteps (boot_events @ [Quiet]) kernel_example \<lparr>ptab = pt, making = (\<lambda>_. None)\<rparr>"
    and "t_state (tasks pt 0) = SLEEPING" and "t_chan (tasks pt 0) = 0x900"
    and "slpque pt (HASH 0x900) = [0]" and "sched_que pt = []"
proof -
  from example_running obtain q T U where q: "psteps boot_events kernel_example \<lparr>ptab = q, making = (\<lambda>_. None)\<rparr>" "sched_que q = []" "slpque q = (\<lambda>_. [])"
      "cpus q 0 = \<lparr>cpu_proc = Some 0, cpu_idle = Some 1, in_sched = False\<rparr>" by blast
  obtain r where r: "sleep_on 0 0 0x900 InSleep q = Inr r" "t_state (tasks r 0) = SLEEPING" "t_chan (tasks r 0) = 0x900"
      "slpque r (HASH 0x900) = [0]" "sched_que r = []"
    using q by (simp add: sleep_on_def)
  have "psteps (boot_events @ [Quiet]) kernel_example \<lparr>ptab = r, making = (\<lambda>_. None)\<rparr>"
    using psteps_step [OF q(1) step_sleep [of _ 0 0 "0x900" InSleep r]] q r(1) by (simp add: running_def runs_on_def NCPU_def)
  then show thesis using that [of r] r by simp
qed

text \<open>It forks, which makes process 2 its child.\<close>

lemma example_forked:
  obtains pt es where "psteps (boot_events @ es) kernel_example \<lparr>ptab = pt, making = (\<lambda>_. None)\<rparr>"
    and "es \<in> {[Quiet], [Alloc, Quiet], [Alloc, Quiet, Quiet]}" and "sched_que pt = [2]" and "t_state (tasks pt 2) = RUNNABLE"
    and "t_child (tasks pt 0) = [2]" and "t_parent (tasks pt 2) = Some 0" and "p_pid (t_id (tasks pt 2)) = 3"
    and "cpus pt 0 = \<lparr>cpu_proc = Some 0, cpu_idle = Some 1, in_sched = False\<rparr>"
proof -
  from example_running obtain q T U where q: "psteps boot_events kernel_example \<lparr>ptab = q, making = (\<lambda>_. None)\<rparr>" "fresh T" "fresh U" "tasks q = (\<lambda>_. task0)(0 := T, 1 := U)"
      "sched_que q = []" "cpus q 0 = \<lparr>cpu_proc = Some 0, cpu_idle = Some 1, in_sched = False\<rparr>" "last_pid q = 2" by blast
  define q1 where "q1 = t_upd 2 (\<lambda>_. task0\<lparr>t_kstack := 28672, t_id := proc0\<lparr>p_pid := 3\<rparr>, t_state := EMBRYO\<rparr>) (q\<lparr>last_pid := 3\<rparr>)"
  have u: "t_state (tasks q i) \<noteq> UNUSED" if "i < 2" for i
    using that q(2-4) by (cases "i = 0"; cases "i = 1") (auto simp: fresh_def)
  have a: "proc_alloc 28672 q = (Some 2, q1)"
    using proc_alloc_first [of 2 q 28672] u q(4,7) by (simp add: q1_def NPROC_def task0_def)
  have t0: "tasks q1 0 = T" using q(4) by (simp add: q1_def t_upd_def)
  define r where "r = fork_start 0 2 (t_upd 2 (fork_task 0 T 32768) q1)"
  have n: "t_nregions T = 0" using q(2) by (simp add: fresh_def)
  have pid: "p_pid (t_id (tasks q1 2)) = 3" by (simp add: q1_def t_upd_def)
  have d: "kfold (\<lambda>fd. dup_file (p_ofile (t_id T) fd)) xs fs = Inr fs" for xs fs
    using q(2) by (induction xs) (simp_all add: fresh_def dup_file_def)
  have "fork 0 28672 32768 0 (files_example, q) = Inr (3, snd (idup (p_cwd (t_id T)) files_example), r)"
    using n by (simp add: fork_def fork_copy_def a t0 Let_def d r_def split_def pid)
  then obtain es where "es \<in> {[Quiet], [Alloc, Quiet], [Alloc, Quiet, Quiet]}"
      "psteps es \<lparr>ptab = q, making = (\<lambda>_. None)\<rparr> \<lparr>ptab = r, making = (\<lambda>_. None)\<rparr>"
    using fork_performs [of "\<lparr>ptab = q, making = (\<lambda>_. None)\<rparr>" 0 0 28672 32768 0 files_example] q(6)
    by (auto simp: running_def runs_on_def not_forking_def NCPU_def)
  then show thesis using that [of es r] q psteps_trans [OF _ q(1)]
    by (simp add: r_def fork_start_def q1_def t_upd_def push_run_def fork_task_def fork_id_def fresh_def)
qed

section \<open>Invariants\<close>

text \<open>C10: In every state the kernel can reach from \<open>proc_init\<close>, with calls on all its CPUs interleaved at every point
  where \<open>ptable.lock\<close> is free and with the file system in any state, every process is in one place: a sleeping
  process is in the sleep queue of its channel, a process that could run is in the run queue, on exactly one
  CPU, the idle process of one or still being made by one call, no process is in a queue twice, and an unused
  entry or a zombie is nowhere. This is so as long as no \<open>wait4\<close> has freed a child that is not a zombie and the
  default handler of \<open>SIGCONT\<close>, which moves processes without the lock, has not run.\<close>

theorem reachable_sched_inv:
  assumes "psteps es (booted addr mem) m" and "Unsafe \<notin> set es"
  shows "sched_inv (making m) (ptab m)"
  using psteps_inv [OF assms booted_inv] .

theorem reachable_sched_inv_witness:
  "\<exists>pt es. psteps es (booted (\<lambda>p. 0x80000 + 0x800 * of_nat p) (\<lambda>_ _. 0)) \<lparr>ptab = pt, making = (\<lambda>_. None)\<rparr> \<and> Unsafe \<notin> set es \<and>
     t_state (tasks pt 0) = SLEEPING \<and> slpque pt (HASH 0x900) = [0] \<and> sched_inv (\<lambda>_. None) pt"
proof (rule example_asleep)
  fix pt assume p: "psteps (boot_events @ [Quiet]) kernel_example \<lparr>ptab = pt, making = (\<lambda>_. None)\<rparr>"
    "t_state (tasks pt 0) = SLEEPING" "slpque pt (HASH 0x900) = [0]"
  from reachable_sched_inv [OF p(1)] show ?thesis using p
    by (intro exI [of _ pt] exI [of _ "boot_events @ [Quiet]"]) simp
qed

text \<open>C21: In every reachable state the child lists and the parent pointers say the same: a process is in a child list
  exactly when it is in use, no longer being made, and the owner of the list is its parent, and it is there
  once. No unused entry, zombie or process being made has children, process numbers identify the entries in
  use, and \<open>initproc\<close> is still the null pointer. This is so under the condition of the first invariant and until
  the process numbers, which are 32 bits wide, have all been given out.\<close>

theorem reachable_family:
  assumes "psteps es (booted addr mem) m" and "Unsafe \<notin> set es" and "count_list es Alloc < 2 ^ 31"
  shows "family_ok (making m) (ptab m) \<and> initproc (ptab m) = None"
proof -
  have "int (count_list es Alloc) < 2 ^ 31" using assms(3) by simp
  then show ?thesis
    using psteps_family [OF assms(1,2) booted_inv booted_family(1)] by (simp add: family_inv_def booted_family(2))
qed

theorem reachable_family_witness:
  "\<exists>pt es. psteps es (booted (\<lambda>p. 0x80000 + 0x800 * of_nat p) (\<lambda>_ _. 0)) \<lparr>ptab = pt, making = (\<lambda>_. None)\<rparr> \<and> Unsafe \<notin> set es \<and>
     count_list es Alloc < 2 ^ 31 \<and> t_child (tasks pt 0) = [2] \<and>
     t_parent (tasks pt 2) = Some 0 \<and> family_ok (\<lambda>_. None) pt \<and> initproc pt = None"
proof (rule example_forked)
  fix pt es assume p: "psteps (boot_events @ es) kernel_example \<lparr>ptab = pt, making = (\<lambda>_. None)\<rparr>"
    "es \<in> {[Quiet], [Alloc, Quiet], [Alloc, Quiet, Quiet]}" "t_child (tasks pt 0) = [2]" "t_parent (tasks pt 2) = Some 0"
  have e: "Unsafe \<notin> set (boot_events @ es)" "count_list (boot_events @ es) Alloc < 2 ^ 31" using p(2) by auto
  show ?thesis using reachable_family [OF p(1) e] p e by (intro exI [of _ pt] exI [of _ "boot_events @ es"]) simp
qed

section \<open>The run queue\<close>

lemma queued_live: "sched_inv k pt \<Longrightarrow> p \<in> set (sched_que pt) \<Longrightarrow> live (t_state (tasks pt p))"
  using sinvD(7) unfolding sched_inv_def by blast

text \<open>C12: The run queue is fair: from any reachable state, however the calls of all CPUs interleave, after \<open>k\<close>
  processes have been taken from the run queue the next CPU that schedules runs the process that was at
  position \<open>k\<close>. As for the invariant, no \<open>wait4\<close> has freed a child that is not a zombie and the default handler
  of \<open>SIGCONT\<close> has not run: then \<open>proc_alloc\<close> clears only entries that are in no queue, and the queues are lists.\<close>

theorem run_queue_fifo:
  assumes "psteps es0 (booted addr mem) m" and "psteps es m m'" and "Unsafe \<notin> set es0 \<union> set es"
    and "k = count_list es Take" and "k < length (sched_que (ptab m))"
  shows "(\<exists>pt''. scheduler c (ptab m') = Inr pt'' \<and> runs_on pt'' c = Some (sched_que (ptab m) ! k)) \<and>
    (\<forall>q \<in> set (sched_que (ptab m')). t_state (tasks (ptab m') q) \<noteq> UNUSED)"
proof
  obtain ys where "sched_que (ptab m') = drop k (sched_que (ptab m)) @ ys" using psteps_queue [OF assms(2)] assms(4,5) by auto
  then have "sched_que (ptab m') = sched_que (ptab m) ! k # drop (Suc k) (sched_que (ptab m)) @ ys"
    using assms(5) by (simp add: Cons_nth_drop_Suc [symmetric])
  then show "\<exists>pt''. scheduler c (ptab m') = Inr pt'' \<and> runs_on pt'' c = Some (sched_que (ptab m) ! k)" by (rule scheduler_head)
  have "sched_inv (making m') (ptab m')"
    by (rule psteps_inv [OF psteps_trans [OF assms(2,1)] _ booted_inv]) (use assms(3) in simp)
  then show "\<forall>q \<in> set (sched_que (ptab m')). t_state (tasks (ptab m') q) \<noteq> UNUSED" by (metis queued_live live_simps(4))
qed

theorem run_queue_fifo_witness:
  "\<exists>es0 es m m' pt''. psteps es0 (booted (\<lambda>p. 0x80000 + 0x800 * of_nat p) (\<lambda>_ _. 0)) m \<and> psteps es m m' \<and> Unsafe \<notin> set es0 \<union> set es \<and>
     sched_que (ptab m) = [2, 0] \<and> count_list es Take = 1 \<and> scheduler 1 (ptab m') = Inr pt'' \<and> runs_on pt'' 1 = Some 0"
proof (rule example_forked)
  fix q es assume q: "psteps (boot_events @ es) kernel_example \<lparr>ptab = q, making = (\<lambda>_. None)\<rparr>"
    "es \<in> {[Quiet], [Alloc, Quiet], [Alloc, Quiet, Quiet]}" "sched_que q = [2]"
    "cpus q 0 = \<lparr>cpu_proc = Some 0, cpu_idle = Some 1, in_sched = False\<rparr>"
  let ?m = "\<lparr>ptab = yield 0 0 q, making = (\<lambda>_. None)\<rparr>"
  have y: "sched_que (ptab ?m) = [2, 0]" "cpus (ptab ?m) 0 = \<lparr>cpu_proc = Some 0, cpu_idle = Some 1, in_sched = True\<rparr>"
    using q by (simp_all add: yield_def swtch_out_def)
  have s0: "psteps ((boot_events @ es) @ [Quiet]) kernel_example ?m"
    using psteps_step [OF q(1) step_yield [of _ 0 0]] q(4) by (simp add: running_def runs_on_def NCPU_def)
  obtain r where r: "scheduler 0 (ptab ?m) = Inr r" using y(1) scheduler_head by blast
  have s: "psteps [Take] ?m (?m\<lparr>ptab := r\<rparr>)"
    using psteps_one [OF step_scheduler [OF _ _ _ r]] y by (simp add: idle_of_def NCPU_def)
  have u: "Unsafe \<notin> set ((boot_events @ es) @ [Quiet]) \<union> set [Take]" using q(2) by auto
  have "1 = count_list [Take] Take" "1 < length (sched_que (ptab ?m))" using y(1) by simp_all
  from run_queue_fifo [OF s0 s u this, of 1] obtain pt'' where t: "scheduler 1 (ptab (?m\<lparr>ptab := r\<rparr>)) = Inr pt''" "runs_on pt'' 1 = Some 0"
    using y(1) by auto
  show ?thesis
    by (rule exI, rule exI, rule exI, rule exI, rule exI, intro conjI, rule s0, rule s, rule u, rule y(1), simp, rule t(1), rule t(2))
qed

section \<open>Waking\<close>

lemma wake_fold_eq:
  "fold (wake_one chan) xs pt = pt
     \<lparr>tasks := (\<lambda>p. if p \<in> set xs \<and> t_chan (tasks pt p) = chan then (tasks pt p)\<lparr>t_state := RUNNABLE\<rparr> else tasks pt p),
      slpque := (slpque pt)(HASH chan := fold remove1 (filter (\<lambda>p. t_chan (tasks pt p) = chan) xs) (slpque pt (HASH chan))),
      sched_que := sched_que pt @ filter (\<lambda>p. t_chan (tasks pt p) = chan) xs\<rparr>"
proof (induction xs arbitrary: pt)
  case (Cons x xs)
  have c: "t_chan (tasks (wake_one chan x pt) p) = t_chan (tasks pt p)" for p by (simp add: wake_one_def)
  show ?case unfolding fold_Cons comp_apply Cons.IH c
    by (auto simp: wake_one_def t_upd_def push_run_def fun_eq_iff)
qed simp

lemma fold_remove1: "distinct xs \<Longrightarrow> fold remove1 ys xs = filter (\<lambda>x. x \<notin> set ys) xs"
proof (induction ys arbitrary: xs)
  case (Cons y ys)
  have "fold remove1 ys (remove1 y xs) = filter (\<lambda>x. x \<notin> set ys) (filter ((\<noteq>) y) xs)"
    using Cons.IH [OF distinct_remove1 [OF Cons.prems]] Cons.prems by (simp add: distinct_remove1_removeAll removeAll_filter_not_eq)
  then show ?case by (simp add: conj_commute) (metis (mono_tags, lifting))
qed simp

lemma sleepers:
  assumes "sched_inv k pt"
  shows "set (filter (\<lambda>p. t_chan (tasks pt p) = chan) (slpque pt (HASH chan))) =
      {p. p < NPROC \<and> t_state (tasks pt p) = SLEEPING \<and> t_chan (tasks pt p) = chan}"
  using sinvD(8,9) [OF assms [unfolded sched_inv_def]] by auto

text \<open>C11: \<open>wakeup\<close> moves exactly the processes that sleep on its channel, in the order in which they fell
  asleep, from the sleep queue to the end of the run queue and makes them runnable, and changes nothing
  else; sleepers of another channel in the same queue stay.\<close>

theorem wakeup_correct:
  assumes "sched_inv k pt"
  shows "\<exists>ws. ws = filter (\<lambda>p. t_chan (tasks pt p) = chan) (slpque pt (HASH chan)) \<and> distinct ws \<and>
    set ws = {p. p < NPROC \<and> t_state (tasks pt p) = SLEEPING \<and> t_chan (tasks pt p) = chan} \<and>
    wakeup chan pt = pt
      \<lparr>tasks := (\<lambda>p. if p \<in> set ws then (tasks pt p)\<lparr>t_state := RUNNABLE\<rparr> else tasks pt p),
       slpque := (slpque pt)(HASH chan := filter (\<lambda>p. t_chan (tasks pt p) \<noteq> chan) (slpque pt (HASH chan))),
       sched_que := sched_que pt @ ws\<rparr>"
proof -
  let ?xs = "slpque pt (HASH chan)" and ?P = "\<lambda>p. t_chan (tasks pt p) = chan"
  have d: "distinct ?xs" using sinvD(5) [OF assms [unfolded sched_inv_def]] .
  have "fold remove1 (filter ?P ?xs) ?xs = filter (\<lambda>p. \<not> ?P p) ?xs"
    unfolding fold_remove1 [OF d] by (rule filter_cong) auto
  then have "wakeup chan pt = pt
      \<lparr>tasks := (\<lambda>p. if p \<in> set (filter ?P ?xs) then (tasks pt p)\<lparr>t_state := RUNNABLE\<rparr> else tasks pt p),
       slpque := (slpque pt)(HASH chan := filter (\<lambda>p. \<not> ?P p) ?xs), sched_que := sched_que pt @ filter ?P ?xs\<rparr>"
    unfolding wakeup_def wakeup1_def wake_fold_eq by simp
  then show ?thesis using distinct_filter [OF d, of ?P] sleepers [OF assms, of chan] by blast
qed

theorem wakeup_correct_witness:
  "\<exists>pt. sched_inv (\<lambda>_. None) pt \<and> t_state (tasks pt 0) = SLEEPING \<and> t_chan (tasks pt 0) = 0x900 \<and>
     t_state (tasks (wakeup 0x900 pt) 0) = RUNNABLE \<and> sched_que (wakeup 0x900 pt) = [0]"
proof (rule example_asleep)
  fix pt assume p: "psteps (boot_events @ [Quiet]) kernel_example \<lparr>ptab = pt, making = (\<lambda>_. None)\<rparr>"
    "t_state (tasks pt 0) = SLEEPING" "t_chan (tasks pt 0) = 0x900" "slpque pt (HASH 0x900) = [0]" "sched_que pt = []"
  have i: "sched_inv (\<lambda>_. None) pt" using psteps_inv [OF p(1) _ booted_inv] by simp
  from wakeup_correct [OF i, of "0x900"] show ?thesis using p i by (intro exI [of _ pt]) auto
qed

section \<open>Signal handlers\<close>

text \<open>What the kernel writes at a user address is read back, and writes below it do not disturb it.\<close>

lemma get_put_user:
  assumes "length xs < 2 ^ 64"
  shows "get_user cur a (length xs) (put_user cur a xs pt) = xs"
proof (rule nth_equalityI)
  fix i assume "i < length (get_user cur a (length xs) (put_user cur a xs pt))"
  then have "i < length xs" by (simp add: get_user_def)
  moreover have "unat (of_nat i :: u64) = i" using \<open>i < length xs\<close> assms by (simp add: unat_of_nat)
  ultimately show "get_user cur a (length xs) (put_user cur a xs pt) ! i = xs ! i"
    by (simp add: get_user_def put_user_def)
qed (simp add: get_user_def)

lemma get_put_user_below:
  assumes "unat d + n \<le> 2 ^ 64" and "length xs \<le> unat d"
  shows "get_user cur a n (put_user cur (a - d) xs pt) = get_user cur a n pt"
proof -
  have "\<not> unat (a + of_nat i - (a - d)) < length xs" if "i < n" for i
  proof -
    have "unat (of_nat i + d :: u64) = i + unat d"
      using that assms(1) by (simp add: unat_word_ariths unat_of_nat)
    then show ?thesis using assms(2) by (simp add: algebra_simps)
  qed
  then show ?thesis by (simp add: get_user_def put_user_def)
qed

lemma TF_small: "TF_SIZE < 18446744073709551616"
  by (simp add: TF_SIZE_def)

lemma umem_get_user: "umem pt' cur = umem pt cur \<Longrightarrow> get_user cur a n pt' = get_user cur a n pt"
  by (simp add: get_user_def)

lemma user_handler_frame:
  assumes tf_def: "tf = t_tf (tasks pt p)" and sp_def: "sp = get64 (t_tf (tasks pt p)) TF_SP - 304"
  shows "get_user cur sp TF_SIZE (user_handler cur p sig pt) = bytes_list tf 0 TF_SIZE"
    and "t_oldtf (tasks (user_handler cur p sig pt) p) = sp"
    and "t_tf (tasks (user_handler cur p sig pt) p) =
      put64 (put64 (put64 tf TF_X0 (of_int sig)) TF_SP (sp - 16)) TF_ELR (sa_handler (sig_actions (t_signal (tasks pt p)) (nat sig)))"
proof -
  define q where "q = put_user cur sp (bytes_list tf 0 TF_SIZE) pt"
  define r where "r = put_user cur (sp - 16) (bytes_list (put64 (\<lambda>_. 0) 0 (sp - 8)) 0 8)
      (put_user cur (sp - 8) sigret_code (t_upd p (\<lambda>T. T\<lparr>t_oldtf := sp\<rparr>) q))"
  have u: "user_handler cur p sig pt = t_upd p (\<lambda>T. T\<lparr>t_tf := put64 (put64 (put64 tf TF_X0 (of_int sig)) TF_SP (sp - 16))
      TF_ELR (sa_handler (sig_actions (t_signal (tasks r p)) (nat sig)))\<rparr>) r"
    unfolding user_handler_def Let_def r_def q_def tf_def sp_def by (simp add: TF_SIZE_def sigret_code_def diff_diff_eq)
  have r: "t_signal (tasks r p) = t_signal (tasks pt p)" "t_oldtf (tasks r p) = sp" by (simp_all add: r_def q_def put_user_def t_upd_def)
  then show "t_oldtf (tasks (user_handler cur p sig pt) p) = sp"
      "t_tf (tasks (user_handler cur p sig pt) p) =
        put64 (put64 (put64 tf TF_X0 (of_int sig)) TF_SP (sp - 16)) TF_ELR (sa_handler (sig_actions (t_signal (tasks pt p)) (nat sig)))"
    by (simp_all add: u)
  have "get_user cur sp TF_SIZE (user_handler cur p sig pt) = get_user cur sp TF_SIZE r"
    unfolding u by (rule umem_get_user) (simp add: t_upd_def)
  also have "\<dots> = get_user cur sp TF_SIZE (put_user cur (sp - 8) sigret_code (t_upd p (\<lambda>T. T\<lparr>t_oldtf := sp\<rparr>) q))"
    unfolding r_def by (rule get_put_user_below) (simp_all add: TF_SIZE_def bytes_list_def)
  also have "\<dots> = get_user cur sp TF_SIZE (t_upd p (\<lambda>T. T\<lparr>t_oldtf := sp\<rparr>) q)"
    by (rule get_put_user_below) (simp_all add: TF_SIZE_def sigret_code_def)
  also have "\<dots> = get_user cur sp TF_SIZE q" by (rule umem_get_user) (simp add: t_upd_def)
  also have "\<dots> = bytes_list tf 0 TF_SIZE"
    using get_put_user [of "bytes_list tf 0 TF_SIZE" cur sp pt] by (simp add: q_def bytes_list_def TF_small)
  finally show "get_user cur sp TF_SIZE (user_handler cur p sig pt) = bytes_list tf 0 TF_SIZE" .
qed

text \<open>C23: \<open>user_handler\<close> starts the handler with the signal number in its first register, and a later
  \<open>sigreturn\<close> puts back every byte of the trap frame as it was before the signal, whatever the handler did
  in between, as long as it left the saved frame on its stack alone. The statement is about the frame when
  \<open>sigreturn\<close> returns; the trap handler then stores the result of the call in the first register.\<close>

theorem sigreturn_restores:
  assumes "pt1 = user_handler cur cur sig pt" and "t_oldtf (tasks pt2 cur) = t_oldtf (tasks pt1 cur)"
    and "get_user cur (t_oldtf (tasks pt1 cur)) TF_SIZE pt2 = get_user cur (t_oldtf (tasks pt1 cur)) TF_SIZE pt1"
  shows "get64 (t_tf (tasks pt1 cur)) TF_ELR = sa_handler (sig_actions (t_signal (tasks pt cur)) (nat sig)) \<and>
    get64 (t_tf (tasks pt1 cur)) TF_X0 = of_int sig \<and>
    get64 (t_tf (tasks pt1 cur)) TF_SP = get64 (t_tf (tasks pt cur)) TF_SP - 320 \<and>
    bytes_list (t_tf (tasks (snd (sigreturn cur pt2)) cur)) 0 TF_SIZE = bytes_list (t_tf (tasks pt cur)) 0 TF_SIZE"
proof -
  let ?h = "sa_handler (sig_actions (t_signal (tasks pt cur)) (nat sig))" and ?sp = "get64 (t_tf (tasks pt cur)) TF_SP"
  have o: "t_oldtf (tasks pt1 cur) = ?sp - 304" unfolding assms(1) by (rule user_handler_frame [OF refl refl])
  have g: "get_user cur (?sp - 304) TF_SIZE pt1 = bytes_list (t_tf (tasks pt cur)) 0 TF_SIZE"
    unfolding assms(1) by (rule user_handler_frame [OF refl refl])
  have t: "t_tf (tasks pt1 cur) = put64 (put64 (put64 (t_tf (tasks pt cur)) TF_X0 (of_int sig)) TF_SP (?sp - 304 - 16)) TF_ELR ?h"
    unfolding assms(1) by (rule user_handler_frame [OF refl refl])
  have "get64 (t_tf (tasks pt1 cur)) TF_ELR = ?h" "get64 (t_tf (tasks pt1 cur)) TF_X0 = of_int sig"
      "get64 (t_tf (tasks pt1 cur)) TF_SP = ?sp - 320"
    unfolding t by (simp_all add: get_put_le_other TF_X0_def TF_SP_def TF_ELR_def)
  moreover have "t_tf (tasks (snd (sigreturn cur pt2)) cur) = list_bytes (bytes_list (t_tf (tasks pt cur)) 0 TF_SIZE)"
    unfolding sigreturn_def snd_conv using assms(2,3) by (simp add: o g)
  then have "bytes_list (t_tf (tasks (snd (sigreturn cur pt2)) cur)) 0 TF_SIZE = bytes_list (t_tf (tasks pt cur)) 0 TF_SIZE"
    by (simp add: bytes_list_def list_bytes_def)
  ultimately show ?thesis by blast
qed

theorem sigreturn_restores_witness:
  "bytes_list (t_tf (tasks (snd (sigreturn 0 (put_user 0 64 [7, 7] (user_handler 0 0 10 table_example)))) 0)) 0 TF_SIZE =
     bytes_list (t_tf (tasks table_example 0)) 0 TF_SIZE"
proof -
  have "get64 (t_tf (tasks table_example 0)) TF_SP = 0"
    by (simp add: table_example_def boot_def proc_init_def task0_def numeral_eq_Suc)
  then have o: "t_oldtf (tasks (user_handler 0 0 10 table_example) 0) = - 304"
    using user_handler_frame(2) [OF refl refl, of 0 0 10 table_example] by simp
  have "get_user 0 (- 304) TF_SIZE (put_user 0 64 [7, 7] (user_handler 0 0 10 table_example)) =
      get_user 0 (- 304) TF_SIZE (user_handler 0 0 10 table_example)"
    using get_put_user_below [of "- 368" TF_SIZE "[7, 7]" 0 "- 304"] by (simp add: TF_SIZE_def)
  then show ?thesis
    using sigreturn_restores [OF refl, of "put_user 0 64 [7, 7] (user_handler 0 0 10 table_example)" 0 10 table_example] o
    by (simp add: put_user_def)
qed

section \<open>Calls that break the rules\<close>

text \<open>C35: \<open>wait4\<close> with \<open>WNOHANG\<close> does not look at the state of a child: it reports a child that is in the run queue as
  ended, frees its entry, and leaves the freed entry in the run queue, so that the invariant of the scheduler
  is gone.\<close>

theorem wait4_nohang_frees_live:
  assumes c: "t_child (tasks pt cur) = p # ps" "t_parent (tasks pt p) = Some cur" and q: "p \<in> set (sched_que pt)"
    and o: "opts AND WNOHANG \<noteq> 0"
  shows "\<exists>w pt'. wait4 c cur (- 1) opts pt = Inr (Reaped (p_pid (t_id (tasks pt p))) w, pt') \<and>
    t_state (tasks pt' p) = UNUSED \<and> p \<in> set (sched_que pt') \<and> (\<nexists>k. sched_inv k pt')"
proof -
  let ?u = "t_upd p (\<lambda>T. T\<lparr>t_state := UNUSED\<rparr>) (t_upd cur (\<lambda>T. T\<lparr>t_child := remove1 p (t_child T)\<rparr>) pt)"
  have "wait4 c cur (- 1) opts pt =
      Inr (Reaped (p_pid (t_id (tasks pt p))) (push_bit 8 (t_xstate (tasks pt p))), ?u)"
    using c o by (simp add: wait4_def wait_matches_def wait_ready_def)
  moreover have "\<not> sched_inv k ?u" for k using queued_live [of k ?u p] q by auto
  ultimately show ?thesis using q by simp
qed

theorem wait4_nohang_frees_live_witness:
  "\<exists>pt pt' es w. psteps es (booted (\<lambda>p. 0x80000 + 0x800 * of_nat p) (\<lambda>_ _. 0)) \<lparr>ptab = pt, making = (\<lambda>_. None)\<rparr> \<and> Unsafe \<notin> set es \<and>
     wait4 0 0 (- 1) WNOHANG pt = Inr (Reaped 3 w, pt') \<and> (\<nexists>k. sched_inv k pt')"
proof (rule example_forked)
  fix pt es assume p: "psteps (boot_events @ es) kernel_example \<lparr>ptab = pt, making = (\<lambda>_. None)\<rparr>"
    "es \<in> {[Quiet], [Alloc, Quiet], [Alloc, Quiet, Quiet]}" "sched_que pt = [2]" "t_child (tasks pt 0) = [2]"
    "t_parent (tasks pt 2) = Some 0" "p_pid (t_id (tasks pt 2)) = 3"
  from wait4_nohang_frees_live [of pt 0 2 "[]" WNOHANG 0] p
  obtain w pt' where w: "wait4 0 0 (- 1) WNOHANG pt = Inr (Reaped 3 w, pt')" "\<nexists>k. sched_inv k pt'" by (auto simp: WNOHANG_def)
  have "Unsafe \<notin> set (boot_events @ es)" using p(2) by auto
  then show ?thesis using p(1) w by blast
qed

text \<open>A signal whose default is to stop or terminate, sent to a sleeping process, hangs the sender.\<close>

lemma send_signal_deadlock:
  assumes "t_state (tasks pt p) = SLEEPING" and "\<not> t_paused (tasks pt p)" and "\<not> p_killed (t_id (tasks pt p))"
    and "sa_handler (sig_actions (t_signal (tasks pt p)) (nat sig)) = SIG_DFL" and "sig \<in> set stop_signals \<union> set term_signals"
    and "sig \<noteq> SIGKILL"
  shows "send_signal c cur p sig pt = Inl (Deadlock ''ptable.lock'')"
proof -
  let ?u = "mark_sig p sig pt"
  have "0 < sig \<and> sig < NSIG \<and> sig \<noteq> SIGCONT" using assms(5) by (auto simp: stop_signals_def term_signals_def NSIG_def SIGCONT_def)
  moreover have "t_state (tasks ?u p) = SLEEPING" "\<not> t_paused (tasks ?u p)" "\<not> p_killed (t_id (tasks ?u p))"
      "sa_handler (sig_actions (t_signal (tasks ?u p)) (nat sig)) = SIG_DFL"
    using assms by (auto simp: mark_sig_def sig_upd_def)
  ultimately show ?thesis
    using assms(5) unfolding send_signal_eq Let_def handle_signal_eq
    by (auto simp: SIG_DFL_def SIG_IGN_def stop_handler_def term_handler_def)
qed

text \<open>\<open>SIGKILL\<close> sets \<open>killed\<close> and nothing else, except on a paused process: neither a running nor a sleeping process ends.\<close>

lemma sigkill_only_marks:
  assumes "\<not> t_paused (tasks pt p)"
  shows "send_signal c cur p SIGKILL pt = Inr (t_upd p (\<lambda>T. T\<lparr>t_id := (t_id T)\<lparr>p_killed := True\<rparr>\<rparr>) pt)"
  using assms by (simp add: send_signal_eq mark_sig_def Let_def)

text \<open>A process with children cannot exit: the kernel writes through the null pointer \<open>initproc\<close>.\<close>

lemma exit_with_children_faults:
  assumes "sched_inv k pt" and "family_ok k pt" and "initproc pt = None" and "t_child (tasks pt cur) \<noteq> []"
  shows "exit_task c cur err pt = Inl (Fault ''initproc'')"
proof -
  define t where "t = (case t_parent (tasks pt cur) of None \<Rightarrow> wakeup1 0 pt | Some q \<Rightarrow> wakeup1 (proc_addr pt q) pt)"
  have t: "calm pt t" using calm_wakeup1 [OF assms(1)] by (simp add: t_def split: option.splits)
  then have eq: "children t = children pt" "parents t = parents pt" "initproc t = None" using assms(3) by (auto simp: calm_def)
  obtain p ps where p: "t_child (tasks pt cur) = p # ps" using assms(4) by (cases "t_child (tasks pt cur)") auto
  have "t_parent (tasks pt p) = Some cur" using treeD(2) [OF conjunct1 [OF assms(2) [unfolded family_ok_def]], of p cur] p by simp
  then have "t_child (tasks t cur) = p # ps" "reparent cur p t = Inl (Fault ''initproc'')"
    using p eq fun_cong [OF eq(1), of cur] fun_cong [OF eq(2), of p] by (simp_all add: reparent_def)
  then show ?thesis by (simp add: exit_task_def Let_def t_def [symmetric])
qed

text \<open>\<open>user_handler\<close> leaves the link register \<open>x30\<close>, to which the handler returns, as the interrupted code had it.\<close>

lemma user_handler_keeps_x30:
  "get64 (t_tf (tasks (user_handler cur p sig pt) p)) (TF_X0 + 8 * 30) = get64 (t_tf (tasks pt p)) (TF_X0 + 8 * 30)"
  unfolding user_handler_frame(3) [OF refl refl] by (simp add: get_put_le_other TF_X0_def TF_SP_def TF_ELR_def)

end
