(* ===== verification/Cred.thy ===== *)
theory Cred
  imports Task Errno
begin

text \<open>
  The system calls of \<open>kern/sysproc.c\<close> that change the identity of a process: user and group numbers,
  supplementary groups, the capabilities that follow the user number, and the file creation mask.
  The arguments are the values that \<open>argint\<close>, \<open>argu64\<close> and \<open>argptr\<close> fetch; a null pointer is \<open>None\<close>.
\<close>

section \<open>User numbers\<close>

definition cap_emulate_setxuid :: "u32 \<Rightarrow> u32 \<Rightarrow> u32 \<Rightarrow> proc \<Rightarrow> proc" where
  "cap_emulate_setxuid old_ruid old_euid old_suid p =
     (let p = (if (old_ruid = 0 \<or> old_euid = 0 \<or> old_suid = 0) \<and> (p_uid p \<noteq> 0 \<and> p_euid p \<noteq> 0 \<and> p_suid p \<noteq> 0)
               then p\<lparr>cap_permitted := 0, cap_effective := 0\<rparr> else p);
          p = (if old_euid = 0 \<and> p_euid p \<noteq> 0 then p\<lparr>cap_effective := 0\<rparr> else p)
      in if old_euid \<noteq> 0 \<and> p_euid p = 0 then p\<lparr>cap_effective := cap_permitted p\<rparr> else p)"

definition setuid_to :: "u32 \<Rightarrow> u32 \<Rightarrow> u32 \<Rightarrow> u32 \<Rightarrow> u32 \<Rightarrow> proc \<Rightarrow> int \<times> proc" where
  "setuid_to uid new_suid old_ruid old_euid old_suid p =
     (0, cap_emulate_setxuid old_ruid old_euid old_suid (p\<lparr>p_fsuid := uid, p_euid := uid, p_suid := new_suid\<rparr>))"

definition sys_setuid :: "u32 \<Rightarrow> proc \<Rightarrow> int \<times> proc" where
  "sys_setuid uid p =
     (let old_euid = p_euid p; old_ruid = p_uid p; old_suid = p_suid p in
      if capable p CAP_SETUID then
        (if uid \<noteq> old_ruid then setuid_to uid uid old_ruid old_euid old_suid (p\<lparr>p_uid := uid\<rparr>)
         else if uid \<noteq> p_uid p \<and> uid \<noteq> old_suid then (- EPERM, p)
         else setuid_to uid old_suid old_ruid old_euid old_suid p)
      else setuid_to uid old_suid old_ruid old_euid old_suid p)"

definition sys_setreuid :: "u32 \<Rightarrow> u32 \<Rightarrow> proc \<Rightarrow> int \<times> proc" where
  "sys_setreuid ruid euid p =
     (let old_ruid = p_uid p; old_euid = p_euid p; old_suid = p_suid p;
          new_ruid = (if ruid \<noteq> - 1 then ruid else old_ruid);
          new_euid = (if euid \<noteq> - 1 then euid else old_euid)
      in if ruid \<noteq> - 1 \<and> old_ruid \<noteq> ruid \<and> p_euid p \<noteq> ruid \<and> \<not> capable p CAP_SETUID then (- EPERM, p)
         else if euid \<noteq> - 1 \<and> old_euid \<noteq> euid \<and> p_suid p \<noteq> euid \<and> \<not> capable p CAP_SETUID then (- EPERM, p)
         else
           let p = (if new_ruid \<noteq> old_ruid then p\<lparr>p_uid := ruid\<rparr> else p);
               p = p\<lparr>p_euid := new_euid, p_fsuid := new_euid\<rparr>;
               p = (if ruid \<noteq> - 1 \<or> euid \<noteq> - 1 \<and> euid \<noteq> old_ruid then p\<lparr>p_suid := p_euid p\<rparr> else p);
               p = p\<lparr>p_fsuid := p_euid p\<rparr>
           in (0, cap_emulate_setxuid old_ruid old_euid old_suid p))"

text \<open>Whether an unprivileged process may take the number \<open>x\<close>.\<close>

definition own_id :: "u32 \<Rightarrow> u32 \<Rightarrow> u32 \<Rightarrow> u32 \<Rightarrow> bool" where
  "own_id x r e s = (x = - 1 \<or> x = r \<or> x = e \<or> x = s)"

definition sys_setresuid :: "u32 \<Rightarrow> u32 \<Rightarrow> u32 \<Rightarrow> proc \<Rightarrow> int \<times> proc" where
  "sys_setresuid ruid euid suid p =
     (let old_ruid = p_uid p; old_euid = p_euid p; old_suid = p_suid p;
          own = (\<lambda>x. own_id x (p_uid p) (p_euid p) (p_suid p))
      in if \<not> capable p CAP_SETUID \<and> (\<not> own ruid \<or> \<not> own euid \<or> \<not> own suid) then (- EPERM, p)
         else
           let p = (if ruid \<noteq> - 1 then p\<lparr>p_uid := ruid\<rparr> else p);
               p = (if euid \<noteq> - 1 then p\<lparr>p_euid := euid, p_fsuid := euid\<rparr> else p);
               p = (if suid \<noteq> - 1 then p\<lparr>p_suid := suid\<rparr> else p)
           in (0, cap_emulate_setxuid old_ruid old_euid old_suid p))"

definition CAP_FS_MASK :: u32 where "CAP_FS_MASK = 0x1f"

definition sys_setfsuid :: "u32 \<Rightarrow> proc \<Rightarrow> u32 \<times> proc" where
  "sys_setfsuid fsuid p =
     (let old_fsuid = p_fsuid p;
          p = (if fsuid = p_uid p \<or> fsuid = p_euid p \<or> fsuid = p_suid p \<or> fsuid = p_fsuid p \<or> capable p CAP_SETUID
               then p\<lparr>p_fsuid := fsuid\<rparr> else p);
          p = (if old_fsuid = 0 \<and> p_fsuid p \<noteq> 0 then p\<lparr>cap_effective := cap_effective p AND NOT CAP_FS_MASK\<rparr> else p);
          p = (if old_fsuid \<noteq> 0 \<and> p_fsuid p = 0
               then p\<lparr>cap_effective := cap_effective p OR (cap_permitted p AND CAP_FS_MASK)\<rparr> else p)
      in (old_fsuid, p))"

section \<open>Group numbers\<close>

definition sys_setgid :: "u32 \<Rightarrow> proc \<Rightarrow> int \<times> proc" where
  "sys_setgid gid p =
     (if capable p CAP_SETGID then (0, p\<lparr>p_gid := gid, p_egid := gid, p_sgid := gid\<rparr>)
      else if gid = p_gid p \<or> gid = p_sgid p then (0, p\<lparr>p_egid := gid\<rparr>)
      else (- EPERM, p))"

definition sys_setregid :: "u32 \<Rightarrow> u32 \<Rightarrow> proc \<Rightarrow> int \<times> proc" where
  "sys_setregid rgid egid p =
     (let old_rgid = p_gid p; old_egid = p_egid p;
          new_rgid = (if rgid \<noteq> - 1 then rgid else old_rgid);
          new_egid = (if egid \<noteq> - 1 then egid else old_egid)
      in if rgid \<noteq> - 1 \<and> \<not> (old_rgid = rgid \<or> p_egid p = rgid \<or> capable p CAP_SETGID) then (- EPERM, p)
         else if egid \<noteq> - 1 \<and> \<not> (old_rgid = egid \<or> p_egid p = egid \<or> p_sgid p = egid \<or> capable p CAP_SETGID)
         then (- EPERM, p)
         else
           let p = (if rgid \<noteq> - 1 \<or> egid \<noteq> - 1 \<and> egid \<noteq> old_rgid then p\<lparr>p_sgid := new_egid\<rparr> else p)
           in (0, p\<lparr>p_fsgid := new_egid, p_egid := new_egid, p_gid := new_rgid\<rparr>))"

definition sys_setresgid :: "u32 \<Rightarrow> u32 \<Rightarrow> u32 \<Rightarrow> proc \<Rightarrow> int \<times> proc" where
  "sys_setresgid rgid egid sgid p =
     (let own = (\<lambda>x. own_id x (p_gid p) (p_egid p) (p_sgid p))
      in if \<not> capable p CAP_SETGID \<and> (\<not> own rgid \<or> \<not> own egid \<or> \<not> own sgid) then (- EPERM, p)
         else
           let p = (if egid \<noteq> - 1 then p\<lparr>p_egid := egid, p_fsgid := egid\<rparr> else p);
               p = (if rgid \<noteq> - 1 then p\<lparr>p_gid := rgid\<rparr> else p);
               p = (if sgid \<noteq> - 1 then p\<lparr>p_sgid := sgid\<rparr> else p)
           in (0, p))"

definition sys_setfsgid :: "u32 \<Rightarrow> proc \<Rightarrow> u32 \<times> proc" where
  "sys_setfsgid fsgid p =
     (let old_fsgid = p_fsgid p
      in (old_fsgid, if fsgid = p_gid p \<or> fsgid = p_egid p \<or> fsgid = p_sgid p \<or> fsgid = p_fsgid p \<or> capable p CAP_SETGID
                     then p\<lparr>p_fsgid := fsgid\<rparr> else p))"

text \<open>\<open>gids\<close> is the user memory at the pointer.\<close>

definition sys_setgroups :: "u64 \<Rightarrow> (nat \<Rightarrow> u32) option \<Rightarrow> proc \<Rightarrow> int \<times> proc" where
  "sys_setgroups n gids p =
     (if n > of_nat NGROUPS then (- EINVAL, p)
      else if \<not> capable p CAP_SETGID then (- EPERM, p)
      else case gids of
        None \<Rightarrow>
          (0, if n = 0 then p\<lparr>p_groups := (\<lambda>i. if int i < p_ngroups p then 0 else p_groups p i), p_ngroups := 0\<rparr> else p)
      | Some g \<Rightarrow>
          (0, if n > 0 then p\<lparr>p_groups := (\<lambda>i. if i < unat n then g i else p_groups p i), p_ngroups := uint n\<rparr> else p))"

definition sys_umask :: "u32 \<Rightarrow> proc \<Rightarrow> u32 \<times> proc" where
  "sys_umask msk p = (p_umask p, p\<lparr>p_umask := msk AND 0x1ff\<rparr>)"

section \<open>No way up\<close>

text \<open>The calls of an unprivileged process, other than \<open>setuid\<close>.\<close>

datatype cred_call = SetReuid u32 u32 | SetResuid u32 u32 u32 | SetFsuid u32 | SetGid u32 | SetRegid u32 u32
  | SetResgid u32 u32 u32 | SetFsgid u32 | SetGroups u64 "(nat \<Rightarrow> u32) option" | Umask u32

fun cred_step :: "cred_call \<Rightarrow> proc \<Rightarrow> proc" where
  "cred_step (SetReuid r e) p = snd (sys_setreuid r e p)"
| "cred_step (SetResuid r e s) p = snd (sys_setresuid r e s p)"
| "cred_step (SetFsuid f) p = snd (sys_setfsuid f p)"
| "cred_step (SetGid g) p = snd (sys_setgid g p)"
| "cred_step (SetRegid r e) p = snd (sys_setregid r e p)"
| "cred_step (SetResgid r e s) p = snd (sys_setresgid r e s p)"
| "cred_step (SetFsgid f) p = snd (sys_setfsgid f p)"
| "cred_step (SetGroups n g) p = snd (sys_setgroups n g p)"
| "cred_step (Umask m) p = snd (sys_umask m p)"

definition uids :: "proc \<Rightarrow> u32 set" where "uids p = {p_uid p, p_euid p, p_suid p, p_fsuid p}"
definition gids :: "proc \<Rightarrow> u32 set" where "gids p = {p_gid p, p_egid p, p_sgid p, p_fsgid p}"

definition unprivileged :: "proc \<Rightarrow> bool" where
  "unprivileged p \<longleftrightarrow> 0 \<notin> uids p \<and> \<not> capable p CAP_SETUID \<and> \<not> capable p CAP_SETGID"

text \<open>\<open>q\<close> has no identity that \<open>p\<close> did not have.\<close>

definition confined :: "proc \<Rightarrow> proc \<Rightarrow> bool" where
  "confined p q \<longleftrightarrow> uids q \<subseteq> uids p \<and> gids q \<subseteq> gids p \<and> p_groups q = p_groups p \<and> p_ngroups q = p_ngroups p \<and>
     cap_effective q = cap_effective p \<and> cap_permitted q = cap_permitted p \<and> cap_inheritable q = cap_inheritable p"

lemma confined_trans: "confined p q \<Longrightarrow> confined q r \<Longrightarrow> confined p r"
  unfolding confined_def by auto

lemma confined_unprivileged: "confined p q \<Longrightarrow> unprivileged p \<Longrightarrow> unprivileged q"
  unfolding confined_def unprivileged_def capable_def by auto

lemma cap_emulate_keeps:
  assumes "old_ruid \<noteq> 0" "old_euid \<noteq> 0" "old_suid \<noteq> 0" "p_euid p \<noteq> 0"
  shows "cap_emulate_setxuid old_ruid old_euid old_suid p = p"
  using assms by (simp add: cap_emulate_setxuid_def)

lemma confined_uids:
  assumes "unprivileged p" and "{a, b, c, d} \<subseteq> uids p"
  shows "confined p (cap_emulate_setxuid (p_uid p) (p_euid p) (p_suid p) (p\<lparr>p_uid := a, p_euid := b, p_suid := c, p_fsuid := d\<rparr>))"
proof -
  have "p_uid p \<noteq> 0" "p_euid p \<noteq> 0" "p_suid p \<noteq> 0" "b \<noteq> 0" using assms by (auto simp: unprivileged_def uids_def)
  then have "cap_emulate_setxuid (p_uid p) (p_euid p) (p_suid p) (p\<lparr>p_uid := a, p_euid := b, p_suid := c, p_fsuid := d\<rparr>) =
      p\<lparr>p_uid := a, p_euid := b, p_suid := c, p_fsuid := d\<rparr>" by (intro cap_emulate_keeps) simp_all
  then show ?thesis using assms(2) by (simp add: confined_def uids_def gids_def)
qed

lemma setreuid_confined:
  assumes "unprivileged p"
  shows "confined p (snd (sys_setreuid r e p))"
proof (cases "r \<noteq> - 1 \<and> p_uid p \<noteq> r \<and> p_euid p \<noteq> r \<or> e \<noteq> - 1 \<and> p_euid p \<noteq> e \<and> p_suid p \<noteq> e")
  case True
  moreover have "\<not> capable p CAP_SETUID" using assms by (simp add: unprivileged_def)
  ultimately have "snd (sys_setreuid r e p) = p" unfolding sys_setreuid_def Let_def by (elim disjE conjE) simp_all
  then show ?thesis by (simp add: confined_def)
next
  case False
  then have n: "\<not> (r \<noteq> - 1 \<and> p_uid p \<noteq> r \<and> p_euid p \<noteq> r \<and> \<not> capable p CAP_SETUID)"
      "\<not> (e \<noteq> - 1 \<and> p_euid p \<noteq> e \<and> p_suid p \<noteq> e \<and> \<not> capable p CAP_SETUID)" by auto
  define a b c where "a = (if r \<noteq> - 1 then r else p_uid p)" and "b = (if e \<noteq> - 1 then e else p_euid p)"
    and "c = (if r \<noteq> - 1 \<or> e \<noteq> - 1 \<and> e \<noteq> p_uid p then b else p_suid p)"
  have m: "{a, b, c, b} \<subseteq> uids p" using False by (auto simp: uids_def a_def b_def c_def)
  have "snd (sys_setreuid r e p) =
      cap_emulate_setxuid (p_uid p) (p_euid p) (p_suid p) (p\<lparr>p_uid := a, p_euid := b, p_suid := c, p_fsuid := b\<rparr>)"
    unfolding sys_setreuid_def Let_def if_not_P [OF n(1)] if_not_P [OF n(2)] snd_conv a_def b_def c_def
    by (rule arg_cong [of _ _ "cap_emulate_setxuid _ _ _"]) (cases "r = p_uid p"; cases "r = - 1"; cases "e = - 1"; simp)
  then show ?thesis using confined_uids [OF assms m] by simp
qed

lemma setresuid_confined:
  assumes "unprivileged p"
  shows "confined p (snd (sys_setresuid r e s p))"
proof (cases "own_id r (p_uid p) (p_euid p) (p_suid p) \<and> own_id e (p_uid p) (p_euid p) (p_suid p) \<and> own_id s (p_uid p) (p_euid p) (p_suid p)")
  case False
  moreover have "\<not> capable p CAP_SETUID" using assms by (simp add: unprivileged_def)
  ultimately have "snd (sys_setresuid r e s p) = p" unfolding sys_setresuid_def Let_def by simp
  then show ?thesis by (simp add: confined_def)
next
  case True
  then have n: "\<not> (\<not> capable p CAP_SETUID \<and> (\<not> own_id r (p_uid p) (p_euid p) (p_suid p) \<or>
      \<not> own_id e (p_uid p) (p_euid p) (p_suid p) \<or> \<not> own_id s (p_uid p) (p_euid p) (p_suid p)))" by simp
  define a b c d where "a = (if r \<noteq> - 1 then r else p_uid p)" and "b = (if e \<noteq> - 1 then e else p_euid p)"
    and "c = (if s \<noteq> - 1 then s else p_suid p)" and "d = (if e \<noteq> - 1 then e else p_fsuid p)"
  have m: "{a, b, c, d} \<subseteq> uids p" using True by (auto simp: uids_def a_def b_def c_def d_def own_id_def)
  have "snd (sys_setresuid r e s p) =
      cap_emulate_setxuid (p_uid p) (p_euid p) (p_suid p) (p\<lparr>p_uid := a, p_euid := b, p_suid := c, p_fsuid := d\<rparr>)"
    unfolding sys_setresuid_def Let_def if_not_P [OF n] snd_conv a_def b_def c_def d_def
    by (rule arg_cong [of _ _ "cap_emulate_setxuid _ _ _"]) (cases "r = - 1"; cases "e = - 1"; cases "s = - 1"; simp)
  then show ?thesis using confined_uids [OF assms m] by simp
qed

lemma cred_step_confined:
  assumes "unprivileged p"
  shows "confined p (cred_step k p)"
proof (cases k)
  case (SetRegid r e)
  then show ?thesis using assms by (auto simp: sys_setregid_def Let_def unprivileged_def confined_def gids_def uids_def)
next
  case (SetResgid r e s)
  then show ?thesis using assms
    by (auto simp: sys_setresgid_def own_id_def Let_def unprivileged_def confined_def gids_def uids_def)
qed (use assms setreuid_confined setresuid_confined in \<open>auto simp: sys_setfsuid_def sys_setgid_def sys_setfsgid_def
    sys_setgroups_def sys_umask_def Let_def unprivileged_def confined_def gids_def uids_def split: option.splits\<close>)

lemma cred_steps_confined: "unprivileged p \<Longrightarrow> confined p (fold cred_step ks p)"
proof (induction ks arbitrary: p)
  case (Cons k ks)
  note c = cred_step_confined [OF Cons.prems, of k]
  from confined_trans [OF c Cons.IH [OF confined_unprivileged [OF c Cons.prems]]] show ?case by simp
qed (simp add: confined_def)

text \<open>A privileged process that sets all its user numbers to \<open>u\<close> keeps no capability.\<close>

lemma setresuid_drops:
  assumes "capable p CAP_SETUID" and "p_uid p = 0 \<or> p_euid p = 0 \<or> p_suid p = 0" and "u \<noteq> 0" "u \<noteq> - 1"
  shows "fst (sys_setresuid u u u p) = 0" and "uids (snd (sys_setresuid u u u p)) = {u}"
    and "cap_effective (snd (sys_setresuid u u u p)) = 0" and "cap_permitted (snd (sys_setresuid u u u p)) = 0"
proof -
  have "sys_setresuid u u u p = (0, (p\<lparr>p_uid := u, p_euid := u, p_fsuid := u, p_suid := u\<rparr>)\<lparr>cap_permitted := 0, cap_effective := 0\<rparr>)"
    unfolding sys_setresuid_def Let_def cap_emulate_setxuid_def using assms by (elim disjE) simp_all
  then show "fst (sys_setresuid u u u p) = 0" "uids (snd (sys_setresuid u u u p)) = {u}"
      "cap_effective (snd (sys_setresuid u u u p)) = 0" "cap_permitted (snd (sys_setresuid u u u p)) = 0"
    by (simp_all add: uids_def)
qed

text \<open>The superuser that drops its privileges with \<open>setresuid\<close> is unprivileged from then on.\<close>

lemma setresuid_unprivileged:
  assumes "capable p CAP_SETUID" and "p_uid p = 0 \<or> p_euid p = 0 \<or> p_suid p = 0" and "u \<noteq> 0" "u \<noteq> - 1"
  shows "unprivileged (snd (sys_setresuid u u u p))"
  using setresuid_drops [OF assms] assms(3) by (simp add: unprivileged_def capable_def)

text \<open>C19: A process that has neither \<open>CAP_SETUID\<close> nor \<open>CAP_SETGID\<close> and none of whose four user numbers is 0 never
  gains an identity: after any sequence of the calls other than \<open>setuid\<close> its user and group numbers are among those it had, and its
  supplementary groups and capabilities are unchanged.\<close>

theorem no_escalation:
  assumes "unprivileged p"
  shows "uids (fold cred_step calls p) \<subseteq> uids p \<and> gids (fold cred_step calls p) \<subseteq> gids p \<and>
    p_groups (fold cred_step calls p) = p_groups p \<and> p_ngroups (fold cred_step calls p) = p_ngroups p \<and>
    cap_effective (fold cred_step calls p) = cap_effective p \<and> cap_permitted (fold cred_step calls p) = cap_permitted p \<and>
    unprivileged (fold cred_step calls p)"
  using cred_steps_confined [OF assms, of calls] confined_unprivileged [OF _ assms] by (simp add: confined_def)

definition proc_user :: proc where
  "proc_user = \<lparr>p_pid = 7, p_pgid = 7, p_sid = 7, p_uid = 1000, p_euid = 1001, p_suid = 1001, p_fsuid = 1001, p_gid = 100,
     p_egid = 100, p_sgid = 100, p_fsgid = 100, p_groups = (\<lambda>_. 0), p_ngroups = 0, cap_effective = 0, cap_inheritable = 0,
     cap_permitted = 0, p_umask = 18, p_killed = False, p_fdflag = 0, p_ofile = (\<lambda>_. None), p_cwd = 0\<rparr>"

theorem no_escalation_witness:
  "uids (fold cred_step [SetReuid (- 1) 1000, SetResuid 1001 (- 1) (- 1), SetReuid 0 0, SetGid 5] proc_user) \<subseteq> {1000, 1001} \<and>
    cred_step (SetReuid 1001 (- 1)) proc_user \<noteq> proc_user"
proof -
  have "unprivileged proc_user" by (simp add: unprivileged_def uids_def capable_def proc_user_def)
  from no_escalation [OF this, of "[SetReuid (- 1) 1000, SetResuid 1001 (- 1) (- 1), SetReuid 0 0, SetGid 5]"]
  have "uids (fold cred_step [SetReuid (- 1) 1000, SetResuid 1001 (- 1) (- 1), SetReuid 0 0, SetGid 5] proc_user) \<subseteq> uids proc_user"
    by blast
  moreover have "uids proc_user = {1000, 1001}" by (auto simp: uids_def proc_user_def)
  moreover have "p_uid (cred_step (SetReuid 1001 (- 1)) proc_user) = 1001"
    by (simp add: sys_setreuid_def Let_def proc_user_def cap_emulate_setxuid_def capable_def)
  ultimately show ?thesis by (auto simp: proc_user_def)
qed

text \<open>C37: \<open>setuid\<close> checks nothing for a process without \<open>CAP_SETUID\<close>: any such process can give itself any
  effective user number. With that of the superuser it gets every permitted capability.\<close>

theorem setuid_escalates:
  assumes "\<not> capable p CAP_SETUID"
  shows "fst (sys_setuid uid p) = 0 \<and> p_euid (snd (sys_setuid uid p)) = uid \<and> p_fsuid (snd (sys_setuid uid p)) = uid \<and>
    p_uid (snd (sys_setuid uid p)) = p_uid p \<and> p_suid (snd (sys_setuid uid p)) = p_suid p \<and>
    (uid = 0 \<and> p_euid p \<noteq> 0 \<longrightarrow> cap_effective (snd (sys_setuid uid p)) = cap_permitted p)"
  using assms by (auto simp: sys_setuid_def setuid_to_def Let_def cap_emulate_setxuid_def)

theorem setuid_escalates_witness:
  "p_euid proc_user = 1001 \<and> fst (sys_setuid 7 proc_user) = 0 \<and> p_euid (snd (sys_setuid 7 proc_user)) = 7 \<and>
   fst (sys_setuid 0 proc_user) = 0 \<and> p_euid (snd (sys_setuid 0 proc_user)) = 0 \<and>
   cap_effective (snd (sys_setuid 0 proc_user)) = cap_permitted proc_user"
  using setuid_escalates [of proc_user 7] setuid_escalates [of proc_user 0] by (simp add: capable_def proc_user_def)

end
