(* ===== verification/Kmalloc.thy ===== *)
theory Kmalloc
  imports K_Prelude
begin

text \<open>
  The allocator of small objects, \<open>kern/kmalloc.c\<close>: Kernighan and Ritchie's first fit on a circular list of
  free blocks in the order of their addresses. An address is the number of a unit of 16 bytes, the
  size of a \<open>Header\<close>; \<open>h_ptr\<close> and \<open>h_size\<close> are the two words of the unit, whatever it is used for. The
  pages that \<open>kalloc\<close> will return are an argument. A call that does not return, because it follows a
  null pointer or runs in a circle, is \<open>None\<close>.
\<close>

section \<open>The code\<close>

record kheap =
  h_ptr :: "nat \<Rightarrow> nat"
  h_size :: "nat \<Rightarrow> nat"
  freep :: "nat option"
  kbase :: nat

definition set_ptr :: "nat \<Rightarrow> nat \<Rightarrow> kheap \<Rightarrow> kheap" where
  "set_ptr x v h = h\<lparr>h_ptr := (h_ptr h)(x := v)\<rparr>"

definition set_size :: "nat \<Rightarrow> nat \<Rightarrow> kheap \<Rightarrow> kheap" where
  "set_size x v h = h\<lparr>h_size := (h_size h)(x := v)\<rparr>"

partial_function (option) kmfree_find :: "nat \<Rightarrow> nat \<Rightarrow> kheap \<Rightarrow> nat option" where
  [code]: "kmfree_find bp p h =
     (if bp > p \<and> bp < h_ptr h p then Some p
      else if p \<ge> h_ptr h p \<and> (bp > p \<or> bp < h_ptr h p) then Some p
      else kmfree_find bp (h_ptr h p) h)"

definition kmfree_link :: "nat \<Rightarrow> nat \<Rightarrow> kheap \<Rightarrow> kheap" where
  "kmfree_link bp p h =
     (let h = (if bp + h_size h bp = h_ptr h p
               then set_ptr bp (h_ptr h (h_ptr h p)) (set_size bp (h_size h bp + h_size h (h_ptr h p)) h)
               else set_ptr bp (h_ptr h p) h);
          h = (if p + h_size h p = bp then set_ptr p (h_ptr h bp) (set_size p (h_size h p + h_size h bp) h)
               else set_ptr p bp h)
      in h\<lparr>freep := Some p\<rparr>)"

text \<open>\<open>kmfree\<close> is given the address behind the header, \<open>bp + 1\<close>.\<close>

definition kmfree :: "nat \<Rightarrow> kheap \<Rightarrow> kheap option" where
  "kmfree ap h =
     (let bp = ap - 1 in
      case freep h of
        None \<Rightarrow> None
      | Some p \<Rightarrow> (case kmfree_find bp p h of None \<Rightarrow> None | Some p \<Rightarrow> Some (kmfree_link bp p h)))"

definition PGUNITS :: nat where "PGUNITS = 256"

definition morecore :: "nat list \<Rightarrow> kheap \<Rightarrow> (nat option \<times> nat list \<times> kheap) option" where
  "morecore pages h =
     (case pages of
        [] \<Rightarrow> Some (None, [], h)
      | p # pages \<Rightarrow>
          let h = h\<lparr>h_ptr := (\<lambda>x. if p \<le> x \<and> x < p + PGUNITS then 0 else h_ptr h x),
                    h_size := (\<lambda>x. if p \<le> x \<and> x < p + PGUNITS then 0 else h_size h x)\<rparr>
          in case kmfree (p + 1) (set_size p PGUNITS h) of None \<Rightarrow> None | Some h \<Rightarrow> Some (freep h, pages, h))"

definition take_block :: "nat \<Rightarrow> nat \<Rightarrow> nat \<Rightarrow> kheap \<Rightarrow> nat \<times> kheap" where
  "take_block nunits prevp p h =
     (if h_size h p = nunits then (p, (set_ptr prevp (h_ptr h p) h)\<lparr>freep := Some prevp\<rparr>)
      else
        let h = set_size p (h_size h p - nunits) h; q = p + h_size h p
        in (q, (set_size q nunits h)\<lparr>freep := Some prevp\<rparr>))"

partial_function (option) kmalloc_loop ::
    "nat \<Rightarrow> nat \<Rightarrow> nat \<Rightarrow> nat list \<Rightarrow> kheap \<Rightarrow> (nat option \<times> nat list \<times> kheap) option" where
  [code]: "kmalloc_loop nunits prevp p pages h =
     (if h_size h p \<ge> nunits then (case take_block nunits prevp p h of (q, h) \<Rightarrow> Some (Some (q + 1), pages, h))
      else if freep h = Some p then
        Option.bind (morecore pages h) (\<lambda>(r, pages, h).
          case r of None \<Rightarrow> Some (None, pages, h) | Some p \<Rightarrow> kmalloc_loop nunits p (h_ptr h p) pages h)
      else kmalloc_loop nunits p (h_ptr h p) pages h)"

definition kmalloc :: "nat \<Rightarrow> nat list \<Rightarrow> kheap \<Rightarrow> (nat option \<times> nat list \<times> kheap) kres option" where
  "kmalloc nbytes pages h =
     (if nbytes > 4096 then Some (Inl (Panic ''kmalloc''))
      else
        let nunits = (nbytes + 16 - 1) div 16 + 1;
            h = (if freep h = None then (set_size (kbase h) 0 (set_ptr (kbase h) (kbase h) h))\<lparr>freep := Some (kbase h)\<rparr> else h);
            prevp = the (freep h)
        in map_option Inr (kmalloc_loop nunits prevp (h_ptr h prevp) pages h))"

section \<open>Well-formed heaps\<close>

text \<open>The blocks of the list, from the lowest address, which is that of the static \<open>base\<close>, up.\<close>

fun chain :: "kheap \<Rightarrow> nat list \<Rightarrow> nat \<Rightarrow> bool" where
  "chain h [] z = True"
| "chain h [x] z = (h_ptr h x = z)"
| "chain h (x # y # xs) z = (h_ptr h x = y \<and> chain h (y # xs) z)"

fun gaps :: "kheap \<Rightarrow> nat list \<Rightarrow> bool" where
  "gaps h [] = True"
| "gaps h [x] = True"
| "gaps h (x # y # xs) = (x + h_size h x < y \<and> gaps h (y # xs))"

definition heap_ok :: "kheap \<Rightarrow> nat list \<Rightarrow> bool" where
  "heap_ok h ns \<longleftrightarrow> ns \<noteq> [] \<and> hd ns = kbase h \<and> h_size h (kbase h) = 0 \<and> chain h ns (kbase h) \<and> gaps h ns \<and>
     (\<forall>x\<in>set (tl ns). 0 < h_size h x) \<and> (\<exists>p\<in>set ns. freep h = Some p)"

definition block :: "kheap \<Rightarrow> nat \<Rightarrow> nat set" where
  "block h x = {x..<x + h_size h x}"

definition free_units :: "kheap \<Rightarrow> nat list \<Rightarrow> nat set" where
  "free_units h ns = (\<Union>x\<in>set ns. block h x)"

lemma chain_append: "chain h (xs @ y # ys) z \<longleftrightarrow> chain h xs y \<and> chain h (y # ys) z"
  by (induction xs rule: induct_list012) auto

lemmas chain_append' = chain_append [of h "x # xs" for h x xs, simplified]

lemma gaps_append: "gaps h (xs @ y # ys) \<longleftrightarrow> gaps h (xs @ [y]) \<and> gaps h (y # ys)"
  by (induction xs rule: induct_list012) auto

lemma gaps_less: "gaps h (x # xs) \<Longrightarrow> y \<in> set xs \<Longrightarrow> x + h_size h x < y"
proof (induction xs arbitrary: x)
  case (Cons z xs)
  then have z: "x + h_size h x < z" "gaps h (z # xs)" by simp_all
  show ?case
  proof (cases "y = z")
    case False
    then have "z + h_size h z < y" using Cons.prems(2) by (intro Cons.IH z(2)) simp
    then show ?thesis using z(1) by linarith
  qed (use z in simp)
qed simp

lemma gaps_sorted: "gaps h xs \<Longrightarrow> sorted xs \<and> distinct xs"
proof (induction xs)
  case (Cons x xs)
  have "x < y" if "y \<in> set xs" for y using gaps_less [OF Cons.prems that] by simp
  moreover have "gaps h xs" using Cons.prems by (cases xs) auto
  ultimately show ?case using Cons.IH by (auto intro: less_imp_le)
qed simp

lemma chain_cong: "(\<And>x. x \<in> set xs \<Longrightarrow> h_ptr h x = h_ptr h' x) \<Longrightarrow> chain h xs z = chain h' xs z"
  by (induction xs rule: induct_list012) auto

lemma gaps_cong: "(\<And>x. x \<in> set xs \<Longrightarrow> h_size h x = h_size h' x) \<Longrightarrow> gaps h xs = gaps h' xs"
  by (induction xs rule: induct_list012) auto

text \<open>The block before an address in the order of the list, and the search for it from anywhere in the circle.\<close>

lemma find_steps:
  assumes "chain h (xs @ [p]) z" and "\<And>x. x \<in> set xs \<Longrightarrow> \<not> (bp > x \<and> bp < h_ptr h x)"
    and "\<And>x. x \<in> set xs \<Longrightarrow> \<not> (x \<ge> h_ptr h x \<and> (bp > x \<or> bp < h_ptr h x))"
  shows "kmfree_find bp (hd (xs @ [p])) h = kmfree_find bp p h"
  using assms
proof (induction xs)
  case (Cons x xs)
  have c: "h_ptr h x = hd (xs @ [p])" "chain h (xs @ [p]) z" using Cons.prems(1) by (cases xs; simp)+
  have "kmfree_find bp x h = kmfree_find bp (h_ptr h x) h"
    using Cons.prems(2,3) [of x] by (subst kmfree_find.simps) auto
  then show ?case using Cons.IH c Cons.prems(2,3) by simp
qed simp

lemma heap_base:
  assumes "heap_ok h ns"
  shows "kbase h \<in> set ns" and "x \<in> set ns \<Longrightarrow> kbase h \<le> x" and "sorted ns" and "distinct ns"
proof -
  have g: "sorted ns \<and> distinct ns" using assms gaps_sorted by (auto simp: heap_ok_def)
  obtain ms where m: "ns = kbase h # ms" using assms by (cases ns) (auto simp: heap_ok_def)
  show "kbase h \<in> set ns" "x \<in> set ns \<Longrightarrow> kbase h \<le> x" using m g by auto
  show "sorted ns" "distinct ns" using g by auto
qed

lemma find_pred:
  assumes ok: "heap_ok h (xs @ p # ys)" and b: "p < bp" "\<And>y. y \<in> set ys \<Longrightarrow> bp < y"
  shows "kmfree_find bp p h = Some p"
proof -
  have c: "chain h (p # ys) (kbase h)" "kbase h \<le> p"
    using ok heap_base(2) [OF ok, of p] by (simp_all add: heap_ok_def chain_append)
  show ?thesis using c b by (cases ys) (simp_all add: kmfree_find.simps [of bp p])
qed

lemma ring_step:
  assumes "heap_ok h (us @ x # n # vs)"
  shows "h_ptr h x = n" and "x < n"
  using assms heap_base(3,4) [OF assms] by (auto simp: heap_ok_def chain_append sorted_append dest: le_neq_implies_less)

lemma heap_split:
  assumes "heap_ok h ns" and "kbase h < bp" and "bp \<notin> set ns"
  obtains xs p ys where "ns = xs @ p # ys" and "p < bp" and "\<And>y. y \<in> set ys \<Longrightarrow> bp < y"
proof -
  have "\<exists>x\<in>set ns. x < bp" using heap_base(1) [OF assms(1)] assms(2) by blast
  from split_list_last_prop [OF this] obtain xs p ys where e: "ns = xs @ p # ys" "p < bp" "\<forall>y\<in>set ys. \<not> y < bp" by blast
  have "bp < y" if "y \<in> set ys" for y using e(3) that assms(3) e(1) by (cases "y = bp") auto
  then show thesis using that e by blast
qed

text \<open>From a block below the address the search goes up to \<open>p\<close>, from one above it goes round.\<close>

lemma find_up:
  assumes ok: "heap_ok h (us @ x # ws @ p # ys)" and b: "p < bp" "\<And>y. y \<in> set ys \<Longrightarrow> bp < y"
  shows "kmfree_find bp x h = Some p"
proof -
  have lt: "y < h_ptr h y \<and> h_ptr h y \<le> p" if yw: "y \<in> set (x # ws)" for y
  proof -
    obtain as bs where y: "x # ws = as @ y # bs" using split_list [OF yw] by blast
    obtain n ns where n: "bs @ p # ys = n # ns" by (cases "bs @ p # ys") auto
    have e: "us @ x # ws @ p # ys = (us @ as) @ y # n # ns" using y n by (metis append_Cons append_assoc)
    have "n \<le> p" using heap_base(3) [OF ok] n by (cases bs) (auto simp: e sorted_append)
    then show ?thesis using ring_step [OF ok [unfolded e]] by simp
  qed
  have "chain h ((x # ws) @ [p]) (hd (ys @ [kbase h]))"
    using ok by (cases ys) (auto simp: heap_ok_def chain_append chain_append')
  from find_steps [OF this, of bp] lt b(1) have "kmfree_find bp x h = kmfree_find bp p h" by force
  then show ?thesis using find_pred [of h "us @ x # ws" p ys bp] ok b by simp
qed

lemma find_round:
  assumes ok: "heap_ok h (xs @ q # vs)" and b: "kbase h < bp" "\<And>y. y \<in> set (q # vs) \<Longrightarrow> bp < y"
  shows "kmfree_find bp q h = kmfree_find bp (kbase h) h"
proof -
  have c: "chain h ((q # vs) @ [kbase h]) (h_ptr h (kbase h))" using ok by (simp add: heap_ok_def chain_append chain_append')
  have no: "\<not> (bp > x \<and> bp < h_ptr h x)" "\<not> (x \<ge> h_ptr h x \<and> (bp > x \<or> bp < h_ptr h x))" if x: "x \<in> set (q # vs)" for x
  proof -
    obtain as bs where y: "q # vs = as @ x # bs" using split_list [OF x] by blast
    have "h_ptr h x = kbase h \<or> x < h_ptr h x"
    proof (cases bs)
      case Nil
      then show ?thesis using c y by (auto simp: chain_append)
    next
      case (Cons n ns)
      then have "xs @ q # vs = (xs @ as) @ x # n # ns" using y by simp
      then show ?thesis using ring_step [of h "xs @ as" x n ns] ok by auto
    qed
    then show "\<not> (bp > x \<and> bp < h_ptr h x)" "\<not> (x \<ge> h_ptr h x \<and> (bp > x \<or> bp < h_ptr h x))"
      using b(1) b(2) [OF x] by auto
  qed
  show ?thesis using find_steps [OF c] no by auto
qed

lemma find_from:
  assumes ok: "heap_ok h (xs @ p # ys)" and b: "p < bp" "\<And>y. y \<in> set ys \<Longrightarrow> bp < y" and q: "q \<in> set (xs @ p # ys)"
  shows "kmfree_find bp q h = Some p"
proof -
  have up: "kmfree_find bp x h = Some p" if x: "x \<in> set (xs @ [p])" for x
  proof (cases "x = p")
    case False
    then have "x \<in> set xs" using x by simp
    from split_list [OF this] obtain us ws where "xs = us @ x # ws" by blast
    then show ?thesis using find_up [of h us x ws p ys bp] ok b by simp
  qed (use find_pred [OF ok b] in simp)
  show ?thesis
  proof (cases "q \<in> set (xs @ [p])")
    case False
    then have "q \<in> set ys" using q by simp
    from split_list [OF this] obtain us vs where e: "ys = us @ q # vs" by blast
    have k: "kbase h \<in> set (xs @ [p])" "kbase h \<le> p"
      using ok heap_base(2) [OF ok, of p] by (cases xs; auto simp: heap_ok_def)+
    have "kmfree_find bp q h = kmfree_find bp (kbase h) h"
      by (rule find_round [of h "xs @ p # us" q vs bp]) (use ok k(2) b(1) in \<open>simp_all add: e\<close>, use b(2) e in auto)
    then show ?thesis using up [OF k(1)] by simp
  qed (rule up)
qed

section \<open>Freeing\<close>

definition same_but :: "nat set \<Rightarrow> kheap \<Rightarrow> kheap \<Rightarrow> bool" where
  "same_but X h h' \<longleftrightarrow> kbase h' = kbase h \<and> (\<forall>x. x \<notin> X \<longrightarrow> h_ptr h' x = h_ptr h x \<and> h_size h' x = h_size h x)"

lemma same_but_trans: "same_but X h h' \<Longrightarrow> same_but Y h' h'' \<Longrightarrow> same_but (X \<union> Y) h h''"
  by (simp add: same_but_def)

lemma same_but_chain: "same_but X h h' \<Longrightarrow> X \<inter> set xs = {} \<Longrightarrow> chain h' xs z = chain h xs z"
  by (rule chain_cong) (auto simp: same_but_def)

lemma same_but_gaps: "same_but X h h' \<Longrightarrow> X \<inter> set xs = {} \<Longrightarrow> gaps h' xs = gaps h xs"
  by (rule gaps_cong) (auto simp: same_but_def)

lemma same_but_units: "same_but X h h' \<Longrightarrow> X \<inter> set xs = {} \<Longrightarrow> free_units h' xs = free_units h xs"
  unfolding free_units_def block_def by (rule SUP_cong) (auto simp: same_but_def)

lemma free_units_simps [simp]:
  "free_units h [] = {}" "free_units h (x # xs) = block h x \<union> free_units h xs" "free_units h (xs @ ys) = free_units h xs \<union> free_units h ys"
  by (auto simp: free_units_def)

text \<open>Both halves of \<open>kmfree_link\<close>: the block is joined to the one above it, then to the one below.\<close>

definition link_above :: "nat \<Rightarrow> nat \<Rightarrow> kheap \<Rightarrow> kheap" where
  "link_above bp p h = (if bp + h_size h bp = h_ptr h p
     then set_ptr bp (h_ptr h (h_ptr h p)) (set_size bp (h_size h bp + h_size h (h_ptr h p)) h) else set_ptr bp (h_ptr h p) h)"

definition link_below :: "nat \<Rightarrow> nat \<Rightarrow> kheap \<Rightarrow> kheap" where
  "link_below bp p h = (if p + h_size h p = bp then set_ptr p (h_ptr h bp) (set_size p (h_size h p + h_size h bp) h) else set_ptr p bp h)"

lemma kmfree_link_eq: "kmfree_link bp p h = (link_below bp p (link_above bp p h))\<lparr>freep := Some p\<rparr>"
  unfolding kmfree_link_def link_above_def link_below_def Let_def by (rule refl)

lemma link_above_ok:
  assumes c: "chain h (p # ys) k" "gaps h (p # ys)" and p: "k \<le> p" "p < bp" and s: "0 < h_size h bp"
    and y: "\<And>y. y \<in> set ys \<Longrightarrow> bp + h_size h bp \<le> y"
  obtains ws where "chain (link_above bp p h) (bp # ws) k" and "gaps (link_above bp p h) (bp # ws)" and "set ws \<subseteq> set ys"
    and "free_units (link_above bp p h) (bp # ws) = block h bp \<union> free_units h ys" and "same_but {bp} h (link_above bp p h)"
    and "0 < h_size (link_above bp p h) bp"
proof -
  have b: "same_but {bp} h (link_above bp p h)" by (simp add: same_but_def link_above_def set_ptr_def set_size_def)
  have n: "{bp} \<inter> set ys = {}" using y s by force
  show thesis
  proof (cases ys)
    case Nil
    then have "link_above bp p h = set_ptr bp k h" using c p by (simp add: link_above_def)
    then show thesis using that [of "[]"] Nil s b by (simp add: set_ptr_def block_def)
  next
    case (Cons z zs)
    then have z: "h_ptr h p = z" "chain h (z # zs) k" "gaps h (z # zs)" using c by auto
    show thesis
    proof (cases "bp + h_size h bp = z")
      case True
      then have l: "h_ptr (link_above bp p h) bp = h_ptr h z" "h_size (link_above bp p h) bp = h_size h bp + h_size h z"
        using z n Cons by (simp_all add: link_above_def set_ptr_def set_size_def)
      have zs: "{bp} \<inter> set zs = {}" using n Cons by auto
      have "chain (link_above bp p h) (bp # zs) k" using z(2) l same_but_chain [OF b zs] by (cases zs) auto
      moreover have "gaps (link_above bp p h) (bp # zs)" using z(3) l True same_but_gaps [OF b zs] by (cases zs) auto
      moreover have "block (link_above bp p h) bp = block h bp \<union> block h z" using l True by (auto simp: block_def)
      ultimately show thesis using that [of zs] b l s same_but_units [OF b zs] Cons by auto
    next
      case False
      then have l: "h_ptr (link_above bp p h) bp = z" "h_size (link_above bp p h) bp = h_size h bp"
        using z by (simp_all add: link_above_def set_ptr_def)
      have "bp + h_size h bp < z" using False y [of z] Cons by simp
      then show thesis
        using that [of ys] b l s z Cons same_but_chain [OF b n] same_but_gaps [OF b n] same_but_units [OF b n] by (simp add: block_def)
    qed
  qed
qed

lemma link_below_ok:
  assumes c: "chain h (bp # ws) k" "gaps h (bp # ws)" and p: "p + h_size h p \<le> bp" "p < bp" "p \<notin> set ws"
  obtains vs where "chain (link_below bp p h) (p # vs) k" and "gaps (link_below bp p h) (p # vs)" and "set vs \<subseteq> set (bp # ws)"
    and "free_units (link_below bp p h) (p # vs) = block h p \<union> free_units h (bp # ws)" and "same_but {p} h (link_below bp p h)"
    and "h_size (link_below bp p h) p = (if p + h_size h p = bp then h_size h p + h_size h bp else h_size h p)"
proof -
  have b: "same_but {p} h (link_below bp p h)" by (simp add: same_but_def link_below_def set_ptr_def set_size_def)
  have n: "{p} \<inter> set ws = {}" "{p} \<inter> set (bp # ws) = {}" using p by auto
  show thesis
  proof (cases "p + h_size h p = bp")
    case True
    then have l: "h_ptr (link_below bp p h) p = h_ptr h bp" "h_size (link_below bp p h) p = h_size h p + h_size h bp"
      by (simp_all add: link_below_def set_ptr_def set_size_def)
    have "chain (link_below bp p h) (p # ws) k" using c(1) l same_but_chain [OF b n(1)] by (cases ws) auto
    moreover have "gaps (link_below bp p h) (p # ws)" using c(2) l True same_but_gaps [OF b n(1)] by (cases ws) auto
    moreover have "block (link_below bp p h) p = block h p \<union> block h bp" using l True by (auto simp: block_def)
    ultimately show thesis using that [of ws] b l True same_but_units [OF b n(1)] by auto
  next
    case False
    then have l: "h_ptr (link_below bp p h) p = bp" "h_size (link_below bp p h) p = h_size h p"
      by (simp_all add: link_below_def set_ptr_def)
    then show thesis
      using that [of "bp # ws"] b False p same_but_chain [OF b n(2)] same_but_gaps [OF b n(2)] same_but_units [OF b n(2)] c
      by (simp add: block_def)
  qed
qed

lemma freep_irrelevant [simp]: "chain (h\<lparr>freep := f\<rparr>) xs z = chain h xs z" "gaps (h\<lparr>freep := f\<rparr>) xs = gaps h xs"
  by (rule chain_cong, simp) (rule gaps_cong, simp)

lemma gaps_snoc_cong: "(\<And>x. x \<in> set xs \<Longrightarrow> h_size h x = h_size h' x) \<Longrightarrow> gaps h (xs @ [p]) = gaps h' (xs @ [p])"
  by (induction xs rule: induct_list012) auto

lemma heap_pos: "heap_ok h ns \<Longrightarrow> x \<in> set ns \<Longrightarrow> x \<noteq> kbase h \<Longrightarrow> 0 < h_size h x"
  by (cases ns) (auto simp: heap_ok_def)

lemma block_self: "0 < h_size h x \<Longrightarrow> x \<in> block h x"
  by (simp add: block_def)

text \<open>A block that is disjoint from the free ones lies between two neighbours of the list.\<close>

lemma block_between:
  assumes ok: "heap_ok h ns" and b: "kbase h < bp" "0 < h_size h bp" and d: "block h bp \<inter> free_units h ns = {}"
  obtains xs p ys where "ns = xs @ p # ys" and "p < bp" and "p + h_size h p \<le> bp" and "bp \<notin> set ns"
    and "\<And>y. y \<in> set ys \<Longrightarrow> bp + h_size h bp \<le> y" and "kmfree (bp + 1) h = Some (kmfree_link bp p h)"
proof -
  have sub: "block h x \<subseteq> free_units h ns" if "x \<in> set ns" for x using that by (auto simp: free_units_def)
  have bn: "bp \<notin> set ns" using sub [of bp] block_self [OF b(2)] d by auto
  obtain xs p ys where e: "ns = xs @ p # ys" "p < bp" "\<And>y. y \<in> set ys \<Longrightarrow> bp < y" using heap_split [OF ok b(1) bn] by blast
  obtain q where q: "freep h = Some q" "q \<in> set ns" using ok by (auto simp: heap_ok_def)
  have f: "kmfree (bp + 1) h = Some (kmfree_link bp p h)"
    using find_from [of h xs p ys bp q] ok e q by (simp add: kmfree_def)
  have "\<not> bp \<in> block h p" using sub [of p] block_self [OF b(2)] d e(1) by auto
  then have pb: "p + h_size h p \<le> bp" using e(2) by (simp add: block_def not_le)
  have yb: "bp + h_size h bp \<le> y" if y: "y \<in> set ys" for y
  proof -
    have "y \<in> block h y" using heap_pos [OF ok, of y] e(1) y e(3) [OF y] b(1) by (intro block_self) simp
    then have "y \<notin> block h bp" using sub [of y] d e(1) y by auto
    then show ?thesis using e(3) [OF y] by (simp add: block_def)
  qed
  show thesis using that e(1,2) pb bn yb f by blast
qed

lemma relink_ok:
  assumes ok: "heap_ok h (xs @ p # ys)" and s: "same_but (B \<union> {p}) h h'" and b: "B \<inter> set (xs @ p # ys) = {}"
    and c: "chain h' (p # vs) (kbase h)" "gaps h' (p # vs)" and v: "set vs \<subseteq> B \<union> set ys" and z: "\<forall>x\<in>B. 0 < h_size h' x"
    and p: "p \<noteq> kbase h \<Longrightarrow> 0 < h_size h' p" "p = kbase h \<Longrightarrow> h_size h' p = 0" and f: "freep h' = Some r" "r \<in> set (xs @ p # vs)"
  shows "heap_ok h' (xs @ p # vs)"
proof -
  have d: "(B \<union> {p}) \<inter> set xs = {}" "p \<notin> set ys" using heap_base(4) [OF ok] b by auto
  have o: "chain h xs p" "gaps h (xs @ [p])" using ok gaps_append [of h xs p ys] by (auto simp: heap_ok_def chain_append)
  have same: "h_size h' x = h_size h x" if "x \<in> set xs \<union> set ys" for x using that s d b by (auto simp: same_but_def)
  have kb: "kbase h' = kbase h" using s by (simp add: same_but_def)
  have k: "h_size h' (kbase h) = 0" using heap_base(1) [OF ok] p(2) same [of "kbase h"] ok by (auto simp: heap_ok_def)
  have g: "gaps h' (xs @ p # vs)"
    using gaps_snoc_cong [of xs h h' p] same o(2) c(2) gaps_append [of h' xs p vs] by auto
  have pos: "0 < h_size h' x" if x: "x \<in> set (tl (xs @ p # vs))" for x
  proof -
    have "x \<in> set xs \<union> {p} \<union> set vs" using x by (cases xs) auto
    moreover have "x \<noteq> kbase h"
    proof -
      obtain ms where m: "xs @ p # vs = hd (xs @ p # ys) # ms" by (cases xs) auto
      then show ?thesis using gaps_sorted [OF g] x ok by (auto simp: heap_ok_def)
    qed
    ultimately show ?thesis
      using heap_pos [OF ok, of x] same [of x] v z p(1) by auto
  qed
  have "chain h' xs p" using same_but_chain [OF s d(1)] o(1) by simp
  then have "chain h' (xs @ p # vs) (kbase h)" using c(1) by (simp add: chain_append)
  moreover have "hd (xs @ p # vs) = kbase h" using ok by (cases xs) (auto simp: heap_ok_def)
  ultimately show ?thesis unfolding heap_ok_def kb using g k pos f by auto
qed

lemma kmfree_ok:
  assumes ok: "heap_ok h ns" and b: "kbase h < bp" "0 < h_size h bp" and d: "block h bp \<inter> free_units h ns = {}"
  obtains h' ns' where "kmfree (bp + 1) h = Some h'" and "heap_ok h' ns'" and "free_units h' ns' = free_units h ns \<union> block h bp"
    and "same_but (free_units h' ns' \<union> {kbase h}) h h'"
proof -
  obtain xs p ys where e: "ns = xs @ p # ys" "p < bp" "p + h_size h p \<le> bp" "bp \<notin> set ns" "\<And>y. y \<in> set ys \<Longrightarrow> bp + h_size h bp \<le> y"
    and f: "kmfree (bp + 1) h = Some (kmfree_link bp p h)" using block_between [OF ok b d] by blast
  have c: "chain h (p # ys) (kbase h)" "gaps h (p # ys)"
    using ok e(1) gaps_append [of h xs p ys] by (auto simp: heap_ok_def chain_append)
  have k: "kbase h \<le> p" "p = kbase h \<Longrightarrow> h_size h p = 0" using heap_base(2) [OF ok] e(1) ok by (auto simp: heap_ok_def)
  define h1 where "h1 = link_above bp p h"
  obtain ws where w: "chain h1 (bp # ws) (kbase h)" "gaps h1 (bp # ws)" "set ws \<subseteq> set ys"
      "free_units h1 (bp # ws) = block h bp \<union> free_units h ys" "same_but {bp} h h1" "0 < h_size h1 bp"
    using link_above_ok [OF c k(1) e(2) b(2) e(5)] unfolding h1_def by blast
  have hp: "h_size h1 p = h_size h p" "block h1 p = block h p" using w(5) e(2) by (simp_all add: same_but_def block_def)
  have p: "p + h_size h1 p \<le> bp" "p \<notin> set ws" using hp e(3) w(3) heap_base(4) [OF ok] e(1) by auto
  define h' where "h' = (link_below bp p h1)\<lparr>freep := Some p\<rparr>"
  obtain vs where v: "chain h' (p # vs) (kbase h)" "gaps h' (p # vs)" "set vs \<subseteq> set (bp # ws)"
      "free_units h' (p # vs) = block h1 p \<union> free_units h1 (bp # ws)" "same_but {p} h1 h'"
      "h_size h' p = (if p + h_size h1 p = bp then h_size h1 p + h_size h1 bp else h_size h1 p)"
    by (rule link_below_ok [OF w(1,2) p(1) e(2) p(2)])
      (simp add: h'_def same_but_def free_units_def block_def freep_irrelevant)
  have s: "same_but ({bp} \<union> {p}) h h'" using same_but_trans [OF w(5) v(5)] .
  have bp: "h_size h' bp = h_size h1 bp" using v(5) e(2) by (simp add: same_but_def)
  have "kmfree (bp + 1) h = Some h'" unfolding f h'_def h1_def kmfree_link_eq ..
  moreover have ok': "heap_ok h' (xs @ p # vs)"
    by (rule relink_ok [OF ok [unfolded e(1)] s]) (use e v w(3,6) hp k bp heap_pos [OF ok, of p] in \<open>auto simp: h'_def\<close>)
  moreover have fu: "free_units h' (xs @ p # vs) = free_units h ns \<union> block h bp"
    using same_but_units [OF s, of xs] e(1,4) heap_base(4) [OF ok] v(4) hp(2) w(4) by auto
  moreover have "same_but (free_units h' (xs @ p # vs) \<union> {kbase h}) h h'"
  proof -
    have "p \<in> free_units h ns \<union> {kbase h}" using heap_pos [OF ok, of p] e(1) block_self [of h p] by auto
    moreover have "bp \<in> block h bp" by (rule block_self [OF b(2)])
    ultimately show ?thesis using s unfolding fu same_but_def by auto
  qed
  ultimately show thesis by (rule that)
qed

section \<open>Allocation\<close>

lemma same_but_heap:
  assumes "heap_ok h ns" and "same_but X h h'" and "X \<inter> set ns = {}" and "freep h' = freep h"
  shows "heap_ok h' ns" and "free_units h' ns = free_units h ns"
proof -
  have s: "h_size h' x = h_size h x" if "x \<in> set ns" for x using that assms(2,3) by (auto simp: same_but_def)
  have k: "kbase h' = kbase h" using assms(2) by (simp add: same_but_def)
  show "heap_ok h' ns"
    using assms(1,4) s heap_base(1) [OF assms(1)] list.set_sel(2) [of ns]
    unfolding heap_ok_def k same_but_chain [OF assms(2,3)] same_but_gaps [OF assms(2,3)] by metis
  show "free_units h' ns = free_units h ns" by (rule same_but_units [OF assms(2,3)])
qed

lemma heap_units: "heap_ok h ns \<Longrightarrow> set ns \<subseteq> free_units h ns \<union> {kbase h}"
  using heap_pos block_self by (fastforce simp: free_units_def)

lemma chain_reach: "chain h xs z \<Longrightarrow> xs \<noteq> [] \<Longrightarrow> \<exists>k. (h_ptr h ^^ k) (hd xs) = z"
proof (induction xs rule: induct_list012)
  case (2 x)
  then show ?case by (intro exI [of _ 1]) simp
next
  case (3 x y xs)
  then obtain k where "(h_ptr h ^^ k) y = z" by auto
  then show ?case using 3(3) by (intro exI [of _ "Suc k"]) (simp add: funpow_Suc_right del: funpow.simps)
qed simp

lemma ring_reach:
  assumes ok: "heap_ok h ns" and "p \<in> set ns" and "q \<in> set ns"
  shows "\<exists>k. (h_ptr h ^^ k) p = q"
proof -
  have c: "chain h ns (kbase h)" using ok by (simp add: heap_ok_def)
  from assms(2) obtain us vs where "ns = us @ p # vs" by (meson split_list)
  then obtain i where i: "(h_ptr h ^^ i) p = kbase h" using c chain_reach [of h "p # vs" "kbase h"] by (auto simp: chain_append)
  from assms(3) obtain as bs where e: "ns = as @ q # bs" by (meson split_list)
  have "\<exists>j. (h_ptr h ^^ j) (kbase h) = q"
  proof (cases "as = []")
    case True
    then show ?thesis using ok e by (intro exI [of _ 0]) (simp add: heap_ok_def)
  next
    case False
    then have "hd as = kbase h" using ok e by (simp add: heap_ok_def)
    then show ?thesis using chain_reach [of h as q] c e False by (auto simp: chain_append)
  qed
  then obtain j where "(h_ptr h ^^ j) (kbase h) = q" by blast
  then show ?thesis using i by (intro exI [of _ "j + i"]) (simp add: funpow_add)
qed

lemma ring_next: "heap_ok h ns \<Longrightarrow> x \<in> set ns \<Longrightarrow> h_ptr h x \<in> set ns"
proof -
  assume ok: "heap_ok h ns" and "x \<in> set ns"
  then obtain us vs where e: "ns = us @ x # vs" by (meson split_list)
  then show ?thesis using ok heap_base(1) [OF ok] by (cases vs) (auto simp: heap_ok_def chain_append)
qed

lemma ring_prev:
  assumes "heap_ok h ns" and "x \<in> set ns" and "h_ptr h x \<noteq> kbase h"
  obtains us vs where "ns = us @ x # h_ptr h x # vs"
proof -
  from assms(2) obtain us vs where e: "ns = us @ x # vs" by (meson split_list)
  show thesis using assms(1,3) e that by (cases vs) (auto simp: heap_ok_def chain_append)
qed

lemma gaps_ordered:
  assumes "gaps h ns" and "x \<in> set ns" and "y \<in> set ns" and "x < y"
  shows "x + h_size h x < y"
proof -
  from assms(2) obtain us vs where e: "ns = us @ x # vs" by (meson split_list)
  have "y \<in> set vs" using gaps_sorted [OF assms(1)] assms(3,4) e by (auto simp: sorted_append)
  moreover have "gaps h (x # vs)" using assms(1) e gaps_append by blast
  ultimately show ?thesis using gaps_less by blast
qed

lemma blocks_disjoint:
  assumes "gaps h ns" and "x \<in> set ns" and "y \<in> set ns" and "x \<noteq> y"
  shows "block h x \<inter> block h y = {}"
  using gaps_ordered [OF assms(1-3)] gaps_ordered [OF assms(1,3,2)] assms(4) by (cases "x < y") (auto simp: block_def)

lemma free_units_minus:
  assumes "heap_ok h (us @ p # vs)"
  shows "free_units h (us @ vs) \<inter> block h p = {}"
proof -
  have "p \<notin> set (us @ vs)" using heap_base(4) [OF assms] by simp
  then show ?thesis using blocks_disjoint [of h "us @ p # vs" _ p] assms by (force simp: free_units_def heap_ok_def)
qed

text \<open>A block that fits exactly leaves the list.\<close>

lemma take_exact:
  assumes ok: "heap_ok h ns" and e: "ns = us @ prevp # p # vs" and n: "0 < h_size h p"
    and h': "h' = (set_ptr prevp (h_ptr h p) h)\<lparr>freep := Some prevp\<rparr>"
  shows "heap_ok h' (us @ prevp # vs)" and "free_units h' (us @ prevp # vs) = free_units h ns - block h' p"
    and "same_but {prevp} h h'" and "block h' p = block h p" and "h_size h' p = h_size h p"
proof -
  show s: "same_but {prevp} h h'" and bl: "block h' p = block h p" "h_size h' p = h_size h p"
    by (simp_all add: h' same_but_def set_ptr_def block_def)
  have d: "{prevp} \<inter> set vs = {}" using heap_base(4) [OF ok] e by auto
  have c: "chain h (p # vs) (kbase h)" "gaps h (prevp # p # vs)"
    using ok gaps_append [of h us prevp "p # vs"] by (auto simp: e heap_ok_def chain_append)
  have "chain h' (prevp # vs) (kbase h)" using c(1) same_but_chain [OF s d] by (cases vs) (auto simp: h' set_ptr_def)
  moreover have "gaps h' (prevp # vs)" using c(2) same_but_gaps [OF s d] by (cases vs) (auto simp: h' set_ptr_def)
  ultimately show "heap_ok h' (us @ prevp # vs)"
    using ok s heap_pos [OF ok, of prevp]
    by (intro relink_ok [of h us prevp "p # vs" "{}" h' vs prevp]) (auto simp: e h' set_ptr_def heap_ok_def)
  have "free_units h' (us @ prevp # vs) = free_units h (us @ prevp # vs)"
    by (simp add: free_units_def block_def h' set_ptr_def)
  then show "free_units h' (us @ prevp # vs) = free_units h ns - block h' p"
    using free_units_minus [of h "us @ [prevp]" p vs] ok unfolding bl e by simp blast
qed

text \<open>A larger block gives up its upper end.\<close>

lemma take_split:
  assumes ok: "heap_ok h ns" and e: "ns = us @ p # vs" and pk: "p \<noteq> kbase h" and n: "0 < n" "n < h_size h p" and r: "r \<in> set ns"
    and q: "q = p + (h_size h p - n)" and h': "h' = (set_size q n (set_size p (h_size h p - n) h))\<lparr>freep := Some r\<rparr>"
  shows "heap_ok h' ns" and "free_units h' ns = free_units h ns - block h' q" and "same_but {q, p} h h'"
    and "block h' q \<subseteq> block h p" and "h_size h' q = n"
proof -
  have g: "gaps h ns" using ok by (simp add: heap_ok_def)
  have "p < q" "\<not> p + h_size h p < q" using q n by linarith+
  then have qn: "q \<notin> set ns" using gaps_ordered [OF g, of p q] e by auto
  have s: "same_but ({q} \<union> {p}) h h'" by (simp add: h' same_but_def set_size_def)
  then show "same_but {q, p} h h'" by (simp add: insert_commute)
  have z: "h_size h' p = h_size h p - n" "h_size h' q = n" "h_ptr h' = h_ptr h" using q n by (simp_all add: h' set_size_def)
  have d: "({q} \<union> {p}) \<inter> set vs = {}" "({q} \<union> {p}) \<inter> set us = {}" using heap_base(4) [OF ok] qn e by auto
  have c: "chain h (p # vs) (kbase h)" "gaps h (p # vs)" using ok gaps_append [of h us p vs] by (auto simp: e heap_ok_def chain_append)
  have "chain h' (p # vs) (kbase h)" using c(1) chain_cong [of "p # vs" h' h "kbase h"] z(3) by simp
  moreover have "gaps h' (p # vs)" using c(2) same_but_gaps [OF s d(1)] z by (cases vs) auto
  ultimately show "heap_ok h' ns" unfolding e
    by (intro relink_ok [OF ok [unfolded e] s]) (use qn n z pk r in \<open>auto simp: e h'\<close>)
  have b: "block h' q = {q..<p + h_size h p}" "block h' p = {p..<q}" using z q n by (auto simp: block_def)
  then show "block h' q \<subseteq> block h p" "h_size h' q = n" using q z by (auto simp: block_def)
  show "free_units h' ns = free_units h ns - block h' q"
    using same_but_units [OF s d(1)] same_but_units [OF s d(2)] free_units_minus [OF ok [unfolded e]] b q by (auto simp: e block_def)
qed

lemma take_block_ok:
  assumes ok: "heap_ok h ns" and p: "prevp \<in> set ns" "h_ptr h prevp = p" and n: "0 < n" "n \<le> h_size h p"
  obtains q h' ns' where "take_block n prevp p h = (q, h')" and "heap_ok h' ns'" and "h_size h' q = n" and "block h' q \<subseteq> free_units h ns"
    and "free_units h' ns' = free_units h ns - block h' q" and "same_but (free_units h ns \<union> {kbase h}) h h'"
proof -
  have pk: "p \<noteq> kbase h" using ok n by (auto simp: heap_ok_def)
  obtain us vs where e: "ns = us @ prevp # p # vs" using ring_prev [OF ok p(1)] p(2) pk by auto
  have u: "set ns \<subseteq> free_units h ns \<union> {kbase h}" "block h p \<subseteq> free_units h ns"
    using heap_units [OF ok] e by auto
  have same: "same_but X h h' \<Longrightarrow> X \<subseteq> free_units h ns \<union> {kbase h} \<Longrightarrow> same_but (free_units h ns \<union> {kbase h}) h h'" for X h'
    by (auto simp: same_but_def)
  show thesis
  proof (cases "h_size h p = n")
    case True
    define h' where "h' = (set_ptr prevp (h_ptr h p) h)\<lparr>freep := Some prevp\<rparr>"
    have "take_block n prevp p h = (p, h')" using True by (simp add: take_block_def h'_def)
    then show thesis using that take_exact [OF ok e _ h'_def] True n u same p(1) by auto
  next
    case False
    define q where "q = p + (h_size h p - n)"
    define h' where "h' = (set_size q n (set_size p (h_size h p - n) h))\<lparr>freep := Some prevp\<rparr>"
    have t: "take_block n prevp p h = (q, h')"
      using False by (simp add: take_block_def h'_def q_def set_size_def Let_def)
    note k = take_split [of h ns "us @ [prevp]" p vs n prevp q h', OF ok _ pk n(1) _ p(1) q_def h'_def]
    have "q \<in> block h' q" using k(5) e False n by (intro block_self) simp
    then have "{q, p} \<subseteq> free_units h ns \<union> {kbase h}" using k(4) e False n u by auto
    then show thesis using that [OF t] k e False n u(2) same by auto
  qed
qed

text \<open>The pages that \<open>kalloc\<close> returns lie above \<open>base\<close> and overlap neither each other nor the free blocks.\<close>

definition page_units :: "nat list \<Rightarrow> nat set" where
  "page_units ps = (\<Union>p\<in>set ps. {p..<p + PGUNITS})"

fun pages_ok :: "nat \<Rightarrow> nat set \<Rightarrow> nat list \<Rightarrow> bool" where
  "pages_ok k F [] = True"
| "pages_ok k F (p # ps) \<longleftrightarrow> k < p \<and> {p..<p + PGUNITS} \<inter> F = {} \<and> pages_ok k (F \<union> {p..<p + PGUNITS}) ps"

lemma page_units_simps [simp]: "page_units [] = {}" "page_units (p # ps) = {p..<p + PGUNITS} \<union> page_units ps"
  by (auto simp: page_units_def)

lemma morecore_ok:
  assumes ok: "heap_ok h ns" and p: "kbase h < p" "{p..<p + PGUNITS} \<inter> free_units h ns = {}"
  obtains r h' ns' where "morecore (p # ps) h = Some (Some r, ps, h')" and "heap_ok h' ns'" and "freep h' = Some r" and "r \<in> set ns'"
    and "free_units h' ns' = free_units h ns \<union> {p..<p + PGUNITS}" and "same_but (free_units h' ns' \<union> {kbase h}) h h'"
proof -
  let ?P = "{p..<p + PGUNITS}"
  define h0 where "h0 = set_size p PGUNITS (h\<lparr>h_ptr := (\<lambda>x. if p \<le> x \<and> x < p + PGUNITS then 0 else h_ptr h x),
                    h_size := (\<lambda>x. if p \<le> x \<and> x < p + PGUNITS then 0 else h_size h x)\<rparr>)"
  have s: "same_but ?P h h0" by (auto simp: same_but_def h0_def set_size_def PGUNITS_def)
  have "?P \<inter> set ns = {}" using heap_units [OF ok] p by fastforce
  from same_but_heap [OF ok s this] have o: "heap_ok h0 ns" "free_units h0 ns = free_units h ns" by (simp_all add: h0_def set_size_def)
  have b: "block h0 p = ?P" "0 < h_size h0 p" "kbase h0 = kbase h" by (simp_all add: block_def h0_def set_size_def PGUNITS_def)
  obtain h' ns' where k: "kmfree (p + 1) h0 = Some h'" "heap_ok h' ns'" "free_units h' ns' = free_units h ns \<union> ?P"
      "same_but (free_units h' ns' \<union> {kbase h}) h0 h'"
    using kmfree_ok [OF o(1), of p] p o(2) b by (metis (no_types, lifting))
  obtain r where r: "freep h' = Some r" "r \<in> set ns'" using k(2) by (auto simp: heap_ok_def)
  have "same_but (free_units h' ns' \<union> {kbase h}) h h'"
    using same_but_trans [OF s k(4)] by (simp add: k(3) Un_assoc Un_left_commute insert_absorb sup.absorb2)
  then show thesis using that k r by (simp add: morecore_def h0_def Let_def)
qed

text \<open>
  What an allocation of \<open>n\<close> units does, if it takes the pages \<open>used\<close>: it returns a block of free units, or
  takes all pages and returns a null pointer; no other unit and no header of an allocated block changes.
\<close>

definition allocated :: "nat \<Rightarrow> kheap \<Rightarrow> nat set \<Rightarrow> nat list \<Rightarrow> nat option \<Rightarrow> nat list \<Rightarrow> kheap \<Rightarrow> nat list \<Rightarrow> bool" where
  "allocated n h F used r rest h' ns' \<longleftrightarrow> heap_ok h' ns' \<and> same_but (F \<union> page_units used \<union> {kbase h}) h h' \<and>
     (case r of None \<Rightarrow> rest = [] \<and> free_units h' ns' = F \<union> page_units used
      | Some a \<Rightarrow> \<exists>q. a = q + 1 \<and> h_size h' q = n \<and> block h' q \<subseteq> F \<union> page_units used \<and>
          free_units h' ns' = F \<union> page_units used - block h' q)"

lemma loop_found:
  assumes "heap_ok h ns" and "prevp \<in> set ns" and "h_ptr h prevp = p" and "0 < n" and "n \<le> h_size h p"
  shows "\<exists>r h' ns'. kmalloc_loop n prevp p pages h = Some (r, pages, h') \<and> allocated n h (free_units h ns) [] r pages h' ns'"
proof -
  obtain q h' ns' where t: "take_block n prevp p h = (q, h')" "heap_ok h' ns'" "h_size h' q = n" "block h' q \<subseteq> free_units h ns"
    "free_units h' ns' = free_units h ns - block h' q" "same_but (free_units h ns \<union> {kbase h}) h h'"
    by (rule take_block_ok [OF assms])
  have "kmalloc_loop n prevp p pages h = Some (Some (q + 1), pages, h')" using t(1) assms(5) by (simp add: kmalloc_loop.simps)
  moreover have "allocated n h (free_units h ns) [] (Some (q + 1)) pages h' ns'" using t by (simp add: allocated_def)
  ultimately show ?thesis by blast
qed

lemma allocated_after:
  assumes "allocated n h1 (F \<union> {p..<p + PGUNITS}) used r rest h' ns'" and "same_but (F \<union> {p..<p + PGUNITS} \<union> {kbase h}) h h1"
  shows "allocated n h F (p # used) r rest h' ns'"
proof -
  have "kbase h1 = kbase h" using assms(2) by (simp add: same_but_def)
  then have "same_but (F \<union> page_units (p # used) \<union> {kbase h}) h h'"
    using assms unfolding allocated_def same_but_def by auto
  then show ?thesis using assms(1) unfolding allocated_def by (cases r) (simp_all add: Un_assoc)
qed

text \<open>The search finds a block or comes to \<open>freep\<close>.\<close>

lemma loop_turn:
  assumes "heap_ok h ns" and "freep h = Some q" and "(h_ptr h ^^ k) p = q" and "prevp \<in> set ns" and "h_ptr h prevp = p" and "0 < n"
  shows "(\<exists>r h' ns'. kmalloc_loop n prevp p pages h = Some (r, pages, h') \<and> allocated n h (free_units h ns) [] r pages h' ns') \<or>
    \<not> n \<le> h_size h q \<and> (\<exists>x. kmalloc_loop n prevp p pages h = kmalloc_loop n x q pages h)"
  using assms(3-5)
proof (induction k arbitrary: prevp p)
  case 0
  then show ?case using loop_found [OF assms(1), of prevp p n pages] assms(6) by auto
next
  case (Suc k)
  show ?case
  proof (cases "n \<le> h_size h p \<or> p = q")
    case True
    then show ?thesis using loop_found [OF assms(1) Suc.prems(2,3) assms(6)] by blast
  next
    case False
    then have "kmalloc_loop n prevp p pages h = kmalloc_loop n p (h_ptr h p) pages h"
      using assms(2) by (subst kmalloc_loop.simps) simp
    moreover have "p \<in> set ns" using ring_next [OF assms(1) Suc.prems(2)] Suc.prems(3) by simp
    ultimately show ?thesis using Suc.IH [of "h_ptr h p" p] Suc.prems(1) by (simp add: funpow_Suc_right del: funpow.simps)
  qed
qed

lemma kmalloc_loop_ok:
  assumes "heap_ok h ns" and "prevp \<in> set ns" and "h_ptr h prevp = p" and "0 < n" and "pages_ok (kbase h) (free_units h ns) pages"
  shows "\<exists>r used rest h' ns'. kmalloc_loop n prevp p pages h = Some (r, rest, h') \<and> pages = used @ rest \<and>
    allocated n h (free_units h ns) used r rest h' ns'"
  using assms
proof (induction pages arbitrary: h ns prevp p)
  case (Cons pg ps)
  note ok = Cons.prems(1)
  obtain q where q: "freep h = Some q" "q \<in> set ns" using ok by (auto simp: heap_ok_def)
  obtain k where k: "(h_ptr h ^^ k) p = q" using ring_reach [OF ok _ q(2)] ring_next [OF ok Cons.prems(2)] Cons.prems(3) by auto
  from loop_turn [OF ok q(1) k Cons.prems(2-4), of "pg # ps"] show ?case
  proof (elim disjE conjE exE)
    fix x assume x: "\<not> n \<le> h_size h q" "kmalloc_loop n prevp p (pg # ps) h = kmalloc_loop n x q (pg # ps) h"
    obtain r h1 ns1 where m: "morecore (pg # ps) h = Some (Some r, ps, h1)" "heap_ok h1 ns1" "freep h1 = Some r" "r \<in> set ns1"
        "free_units h1 ns1 = free_units h ns \<union> {pg..<pg + PGUNITS}" "same_but (free_units h1 ns1 \<union> {kbase h}) h h1"
      using morecore_ok [OF ok, of pg ps] Cons.prems(5) by auto
    have "kbase h1 = kbase h" using m(6) by (simp add: same_but_def)
    then obtain r' used rest h' ns' where i: "kmalloc_loop n r (h_ptr h1 r) ps h1 = Some (r', rest, h')" "ps = used @ rest"
        "allocated n h1 (free_units h1 ns1) used r' rest h' ns'"
      using Cons.IH [OF m(2,4) refl Cons.prems(4)] Cons.prems(5) m(5) by auto
    have "kmalloc_loop n x q (pg # ps) h = Some (r', rest, h')"
      using x(1) q(1) m(1) i(1) by (subst kmalloc_loop.simps) simp
    moreover have "allocated n h (free_units h ns) (pg # used) r' rest h' ns'"
      using allocated_after i(3) m(5,6) by simp
    ultimately show ?case using i(2) x(2) by (metis append_Cons)
  qed (metis append_Nil)
next
  case Nil
  note ok = Nil.prems(1)
  obtain q where q: "freep h = Some q" "q \<in> set ns" using ok by (auto simp: heap_ok_def)
  obtain k where k: "(h_ptr h ^^ k) p = q" using ring_reach [OF ok _ q(2)] ring_next [OF ok Nil.prems(2)] Nil.prems(3) by auto
  from loop_turn [OF ok q(1) k Nil.prems(2-4), of "[]"] show ?case
  proof (elim disjE conjE exE)
    fix x assume x: "\<not> n \<le> h_size h q" "kmalloc_loop n prevp p [] h = kmalloc_loop n x q [] h"
    have "kmalloc_loop n x q [] h = Some (None, [], h)" using x(1) q(1) by (subst kmalloc_loop.simps) (simp add: morecore_def)
    moreover have "allocated n h (free_units h ns) [] None [] h ns" using ok by (simp add: allocated_def same_but_def)
    ultimately show ?case using x(2) by auto
  qed auto
qed

section \<open>The contract\<close>

text \<open>\<open>F\<close> is the set of free units; before the first call there is none.\<close>

definition free_set :: "kheap \<Rightarrow> nat set \<Rightarrow> bool" where
  "free_set h F \<longleftrightarrow> freep h = None \<and> F = {} \<or> (\<exists>ns. heap_ok h ns \<and> F = free_units h ns)"

lemma kmalloc_ok:
  assumes f: "free_set h F" and p: "pages_ok (kbase h) F pages" and n: "nbytes \<le> 4096"
  shows "\<exists>r used rest h'. kmalloc nbytes pages h = Some (Inr (r, rest, h')) \<and> pages = used @ rest \<and> freep h' \<noteq> None \<and>
    same_but (F \<union> page_units used \<union> {kbase h}) h h' \<and>
    (case r of None \<Rightarrow> rest = [] \<and> free_set h' (F \<union> page_units used)
     | Some a \<Rightarrow> \<exists>q. a = q + 1 \<and> h_size h' q = (nbytes + 15) div 16 + 1 \<and> block h' q \<subseteq> F \<union> page_units used \<and>
         free_set h' (F \<union> page_units used - block h' q))"
proof -
  define g where "g = (if freep h = None then (set_size (kbase h) 0 (set_ptr (kbase h) (kbase h) h))\<lparr>freep := Some (kbase h)\<rparr> else h)"
  have g: "same_but {kbase h} h g" by (simp add: g_def same_but_def set_size_def set_ptr_def)
  obtain ns where ns: "heap_ok g ns" "free_units g ns = F"
  proof (cases "freep h = None")
    case True
    then have "heap_ok g [kbase h]" "F = {}" "free_units g [kbase h] = {}"
      using f by (auto simp: g_def free_set_def heap_ok_def set_size_def set_ptr_def block_def)
    then show thesis using that by simp
  qed (use f that in \<open>auto simp: g_def free_set_def\<close>)
  obtain q where q: "freep g = Some q" "q \<in> set ns" using ns(1) by (auto simp: heap_ok_def)
  have k: "kbase g = kbase h" using g by (simp add: same_but_def)
  obtain r used rest h' ns' where l: "kmalloc_loop ((nbytes + 15) div 16 + 1) q (h_ptr g q) pages g = Some (r, rest, h')"
      "pages = used @ rest" "allocated ((nbytes + 15) div 16 + 1) g F used r rest h' ns'"
    using kmalloc_loop_ok [OF ns(1) q(2) refl, of "(nbytes + 15) div 16 + 1" pages] p ns(2) k by auto
  have "kmalloc nbytes pages h = Some (Inr (r, rest, h'))"
    using n l(1) q(1) by (simp add: kmalloc_def Let_def g_def [symmetric] add.commute [of 15])
  moreover have "same_but (F \<union> page_units used \<union> {kbase h}) h h'"
    using g l(3) k by (auto simp: allocated_def same_but_def)
  moreover have "freep h' \<noteq> None" using l(3) by (auto simp: allocated_def heap_ok_def)
  ultimately show ?thesis using l(2,3) unfolding allocated_def free_set_def by (cases r) fastforce+
qed

lemma kmfree_free_set:
  assumes "free_set h F" and "freep h \<noteq> None" and "kbase h < q" "0 < h_size h q" and "block h q \<inter> F = {}"
  shows "\<exists>h'. kmfree (q + 1) h = Some h' \<and> free_set h' (F \<union> block h q) \<and> freep h' \<noteq> None \<and> same_but (F \<union> block h q \<union> {kbase h}) h h'"
proof -
  obtain ns where ns: "heap_ok h ns" "F = free_units h ns" using assms(1,2) by (auto simp: free_set_def)
  obtain h' ns' where "kmfree (q + 1) h = Some h'" "heap_ok h' ns'" "free_units h' ns' = F \<union> block h q"
      "same_but (free_units h' ns' \<union> {kbase h}) h h'"
    using kmfree_ok [OF ns(1) assms(3,4)] assms(5) ns(2) by blast
  then show ?thesis unfolding free_set_def by (metis heap_ok_def option.distinct(1))
qed

section \<open>Blocks in use\<close>

text \<open>
  \<open>kstep\<close> is a call, or a write by the owner of a block \<open>q\<close> into its units above the header; \<open>L\<close> are the
  blocks in use. The pages that \<open>kalloc\<close> returns are not in use.
\<close>

definition in_use :: "kheap \<Rightarrow> nat set \<Rightarrow> nat set" where
  "in_use h L = (\<Union>q\<in>L. block h q)"

inductive kstep :: "kheap \<times> nat set \<Rightarrow> kheap \<times> nat set \<Rightarrow> bool" where
  step_alloc: "free_set h F \<Longrightarrow> pages_ok (kbase h) (F \<union> in_use h L) pages \<Longrightarrow> kmalloc nbytes pages h = Some (Inr (Some a, rest, h')) \<Longrightarrow>
    kstep (h, L) (h', insert (a - 1) L)"
| step_fail: "free_set h F \<Longrightarrow> pages_ok (kbase h) (F \<union> in_use h L) pages \<Longrightarrow> kmalloc nbytes pages h = Some (Inr (None, rest, h')) \<Longrightarrow>
    kstep (h, L) (h', L)"
| step_free: "q \<in> L \<Longrightarrow> kmfree (q + 1) h = Some h' \<Longrightarrow> kstep (h, L) (h', L - {q})"
| step_write: "q \<in> L \<Longrightarrow> q < x \<Longrightarrow> x < q + h_size h q \<Longrightarrow> kstep (h, L) (set_ptr x v (set_size x w h), L)"

text \<open>The blocks in use are apart from the free units and from each other.\<close>

definition live_ok :: "kheap \<Rightarrow> nat set \<Rightarrow> nat set \<Rightarrow> bool" where
  "live_ok h F L \<longleftrightarrow> free_set h F \<and> (L \<noteq> {} \<longrightarrow> freep h \<noteq> None) \<and>
     (\<forall>q\<in>L. kbase h < q \<and> 0 < h_size h q \<and> block h q \<inter> F = {}) \<and> (\<forall>q\<in>L. \<forall>r\<in>L. q \<noteq> r \<longrightarrow> block h q \<inter> block h r = {})"

lemma live_okD:
  assumes "live_ok h F L" and "q \<in> L"
  shows "kbase h < q" and "0 < h_size h q" and "block h q \<inter> F = {}" and "freep h \<noteq> None" and "q \<in> block h q"
    and "r \<in> L \<Longrightarrow> q \<noteq> r \<Longrightarrow> block h q \<inter> block h r = {}"
  using assms unfolding live_ok_def by (auto intro: block_self)

lemma chain_unique: "chain h (x # xs) k \<Longrightarrow> chain h (x # ys) k \<Longrightarrow> k \<notin> set xs \<Longrightarrow> k \<notin> set ys \<Longrightarrow> xs = ys"
proof (induction xs arbitrary: x ys)
  case Nil
  then show ?case by (cases ys) auto
next
  case (Cons y xs)
  then show ?case by (cases ys) auto
qed

lemma heap_cons: "heap_ok h ns \<Longrightarrow> ns = kbase h # tl ns"
  by (cases ns) (auto simp: heap_ok_def)

lemma free_unique:
  assumes "free_set h F" and "free_set h G"
  shows "F = G"
proof -
  have "ns = ms" if n: "heap_ok h ns" and m: "heap_ok h ms" for ns ms
    using chain_unique [of h "kbase h" "tl ns" "kbase h" "tl ms"] heap_cons [OF n] heap_cons [OF m] n m
    by (metis distinct.simps(2) heap_base(4) heap_ok_def)
  then show ?thesis using assms unfolding free_set_def by (metis heap_ok_def option.distinct(1))
qed

lemma free_above: "free_set h F \<Longrightarrow> u \<in> F \<Longrightarrow> kbase h < u"
proof -
  assume "free_set h F" "u \<in> F"
  then obtain ns x where "heap_ok h ns" "x \<in> set ns" "u \<in> block h x" by (auto simp: free_set_def free_units_def)
  then show ?thesis using heap_base(2) [of h ns x] by (cases "x = kbase h") (auto simp: heap_ok_def block_def)
qed

lemma pages_ok_units:
  "pages_ok k F ps \<Longrightarrow> page_units ps \<inter> F = {} \<and> (\<forall>u\<in>page_units ps. k < u)" "pages_ok k F ps \<Longrightarrow> G \<subseteq> F \<Longrightarrow> pages_ok k G ps"
proof (induction ps arbitrary: F G)
  case (Cons p ps)
  { case 1 then show ?case using Cons.IH(1) [of "F \<union> {p..<p + PGUNITS}"] by auto }
  { case 2 then show ?case using Cons.IH(2) [of "F \<union> {p..<p + PGUNITS}" "G \<union> {p..<p + PGUNITS}"] by auto }
qed simp_all

text \<open>Steps that leave the headers of blocks in use alone.\<close>

lemma live_frame:
  assumes "live_ok h F L" and "same_but X h h'" and "X \<inter> L = {}" and "free_set h' G" and "G \<inter> in_use h L = {}" and "freep h' \<noteq> None"
  shows "live_ok h' G L" and "in_use h' L = in_use h L"
proof -
  have b: "block h' q = block h q" "h_size h' q = h_size h q" if "q \<in> L" for q using assms(2,3) that by (auto simp: same_but_def block_def)
  have k: "kbase h' = kbase h" using assms(2) by (simp add: same_but_def)
  have "block h q \<inter> G = {}" if "q \<in> L" for q using assms(5) that by (auto simp: in_use_def)
  then show "live_ok h' G L" using assms(1,4,6) b k unfolding live_ok_def by auto
  show "in_use h' L = in_use h L" using b by (simp add: in_use_def)
qed

lemma live_alloc:
  assumes l: "live_ok h F L" and p: "pages_ok (kbase h) (F \<union> in_use h L) pages"
    and m: "kmalloc nbytes pages h = Some (Inr (r, rest, h'))"
  shows "\<exists>G. live_ok h' G (case r of None \<Rightarrow> L | Some a \<Rightarrow> insert (a - 1) L)"
proof -
  have n: "nbytes \<le> 4096" using m by (auto simp: kmalloc_def split: if_splits)
  have f: "free_set h F" using l by (simp add: live_ok_def)
  obtain used where u: "pages = used @ rest" "freep h' \<noteq> None" "same_but (F \<union> page_units used \<union> {kbase h}) h h'"
      and r: "case r of None \<Rightarrow> rest = [] \<and> free_set h' (F \<union> page_units used)
        | Some a \<Rightarrow> \<exists>q. a = q + 1 \<and> h_size h' q = (nbytes + 15) div 16 + 1 \<and> block h' q \<subseteq> F \<union> page_units used \<and>
         free_set h' (F \<union> page_units used - block h' q)"
    using kmalloc_ok [OF f pages_ok_units(2) [OF p] n] m by auto
  have pu: "page_units used \<subseteq> page_units pages" using u(1) by (auto simp: page_units_def)
  have d: "page_units used \<inter> in_use h L = {}" "\<And>x. x \<in> page_units used \<Longrightarrow> kbase h < x" using pages_ok_units(1) [OF p] pu by auto
  have fl: "F \<inter> in_use h L = {}" using live_okD(3) [OF l] by (auto simp: in_use_def)
  have "x \<notin> F \<union> page_units used \<union> {kbase h}" if "x \<in> L" for x
    using live_okD(1,5) [OF l that] fl d(1) that by (auto simp: in_use_def)
  then have x: "(F \<union> page_units used \<union> {kbase h}) \<inter> L = {}" by auto
  show ?thesis
  proof (cases r)
    case None
    then show ?thesis using live_frame(1) [OF l u(3) x _ _ u(2)] r fl d(1) by auto
  next
    case (Some a)
    then obtain q where q: "a = q + 1" "0 < h_size h' q" "block h' q \<subseteq> F \<union> page_units used"
      "free_set h' (F \<union> page_units used - block h' q)" using r by auto
    let ?G = "F \<union> page_units used - block h' q"
    have lv: "live_ok h' ?G L" "in_use h' L = in_use h L"
      using live_frame [OF l u(3) x q(4) _ u(2)] fl d(1) by auto
    have "kbase h < q" using block_self [OF q(2)] q(3) free_above [OF f] d(2) by blast
    moreover have "block h' q \<inter> in_use h' L = {}" using q(3) fl d(1) lv(2) by auto
    ultimately have "live_ok h' ?G (insert q L)"
      using lv(1) q(2) u(2,3) unfolding live_ok_def same_but_def by (auto simp: in_use_def)
    then show ?thesis using Some q(1) by auto
  qed
qed

lemma live_free:
  assumes l: "live_ok h F L" and q: "q \<in> L"
  shows "\<exists>h'. kmfree (q + 1) h = Some h' \<and> live_ok h' (F \<union> block h q) (L - {q})"
proof -
  have f: "free_set h F" using l by (simp add: live_ok_def)
  obtain h' where h': "kmfree (q + 1) h = Some h'" "free_set h' (F \<union> block h q)" "freep h' \<noteq> None"
      "same_but (F \<union> block h q \<union> {kbase h}) h h'"
    using kmfree_free_set [OF f live_okD(4,1,2,3) [OF l q]] by blast
  have d: "(F \<union> block h q) \<inter> in_use h (L - {q}) = {}"
    using live_okD(3) [OF l] live_okD(6) [OF l q] by (auto simp: in_use_def)
  have "x \<notin> F \<union> block h q \<union> {kbase h}" if "x \<in> L - {q}" for x
    using live_okD(1,5) [OF l, of x] d that by (auto simp: in_use_def)
  then have x: "(F \<union> block h q \<union> {kbase h}) \<inter> (L - {q}) = {}" by auto
  have "live_ok h F (L - {q})" using l by (auto simp: live_ok_def)
  from live_frame(1) [OF this h'(4) x h'(2) d h'(3)] h'(1) show ?thesis by blast
qed

lemma live_write:
  assumes l: "live_ok h F L" and q: "q \<in> L" "q < x" "x < q + h_size h q"
  shows "live_ok (set_ptr x v (set_size x w h)) F L"
proof -
  let ?h = "set_ptr x v (set_size x w h)"
  have s: "same_but {x} h ?h" and fr: "freep ?h = freep h" by (simp_all add: same_but_def set_ptr_def set_size_def)
  have xb: "x \<in> block h q" using q by (simp add: block_def)
  have "x \<notin> L" using live_okD(5,6) [OF l] q xb by (metis disjoint_iff less_irrefl)
  then have d: "{x} \<inter> L = {}" by simp
  have f: "free_set h F" and ne: "freep h \<noteq> None" using l q(1) by (auto simp: live_ok_def)
  then obtain ns where ns: "heap_ok h ns" "F = free_units h ns" by (auto simp: free_set_def)
  have "x \<notin> F \<union> {kbase h}" using live_okD(1,3) [OF l q(1)] xb q(2) by auto
  then have "{x} \<inter> set ns = {}" using heap_units [OF ns(1)] ns(2) by auto
  from same_but_heap [OF ns(1) s this fr] have "free_set ?h F" using ns(2) by (auto simp: free_set_def)
  moreover have "F \<inter> in_use h L = {}" using live_okD(3) [OF l] by (auto simp: in_use_def)
  ultimately show ?thesis using live_frame(1) [OF l s d] fr ne by simp
qed

lemma kstep_live: "kstep s t \<Longrightarrow> live_ok (fst s) F (snd s) \<Longrightarrow> \<exists>G. live_ok (fst t) G (snd t)"
proof (induction rule: kstep.induct)
  case (step_alloc h F' L pages nbytes a rest h')
  then have "F' = F" using free_unique by (auto simp: live_ok_def)
  then show ?case using live_alloc [of h F L pages nbytes "Some a" rest h'] step_alloc by simp
next
  case (step_fail h F' L pages nbytes rest h')
  then have "F' = F" using free_unique by (auto simp: live_ok_def)
  then show ?case using live_alloc [of h F L pages nbytes None rest h'] step_fail by simp
next
  case (step_free q L h h')
  then show ?case using live_free [of h F L q] by auto
next
  case (step_write q L x h v w)
  then show ?case using live_write [of h F L q x v w] by auto
qed

lemma ksteps_live: "kstep\<^sup>*\<^sup>* s t \<Longrightarrow> live_ok (fst s) F (snd s) \<Longrightarrow> \<exists>G. live_ok (fst t) G (snd t)"
  by (induction rule: rtranclp_induct) (use kstep_live in blast)+

lemma kmalloc_large_enough:
  assumes "free_set h F" and "pages_ok (kbase h) F pages" and "nbytes \<le> 4096"
  shows "\<exists>r rest h'. kmalloc nbytes pages h = Some (Inr (r, rest, h')) \<and>
    (case r of None \<Rightarrow> rest = [] | Some a \<Rightarrow> nbytes + 16 \<le> 16 * h_size h' (a - 1))"
proof -
  obtain r used rest h' where m: "kmalloc nbytes pages h = Some (Inr (r, rest, h'))"
    and r: "case r of None \<Rightarrow> rest = [] \<and> free_set h' (F \<union> page_units used)
      | Some a \<Rightarrow> \<exists>q. a = q + 1 \<and> h_size h' q = (nbytes + 15) div 16 + 1 \<and> block h' q \<subseteq> F \<union> page_units used \<and>
         free_set h' (F \<union> page_units used - block h' q)"
    using kmalloc_ok [OF assms] by blast
  have "nbytes \<le> 16 * ((nbytes + 15) div 16)" by linarith
  then show ?thesis using m r by (cases r) auto
qed

text \<open>C18: Whatever the sequence of \<open>kmalloc\<close> and \<open>kmfree\<close> calls, and whatever the owners write into their blocks,
  blocks in use never overlap each other or the free memory, and \<open>kmfree\<close> of each of them and \<open>kmalloc\<close> of
  every size up to a page return: the latter with a block that has room for a header and the size, or, when every
  page is used, with \<open>NULL\<close>.\<close>

theorem kmalloc_blocks_safe:
  assumes "kstep\<^sup>*\<^sup>* (h0, {}) (h, L)" and "freep h0 = None"
  shows "\<exists>F. free_set h F \<and> (\<forall>q\<in>L. block h q \<inter> F = {} \<and> (\<exists>h'. kmfree (q + 1) h = Some h')) \<and>
    (\<forall>q\<in>L. \<forall>r\<in>L. q \<noteq> r \<longrightarrow> block h q \<inter> block h r = {}) \<and>
    (\<forall>pages nbytes. pages_ok (kbase h) F pages \<and> nbytes \<le> 4096 \<longrightarrow> 
      (\<exists>r rest h'. kmalloc nbytes pages h = Some (Inr (r, rest, h')) \<and>
         (case r of None \<Rightarrow> rest = [] | Some a \<Rightarrow> nbytes + 16 \<le> 16 * h_size h' (a - 1))))"
proof -
  have "live_ok h0 {} {}" using assms(2) by (simp add: live_ok_def free_set_def)
  then obtain F where l: "live_ok h F L" using ksteps_live [OF assms(1), of "{}"] by auto
  then have f: "free_set h F" by (simp add: live_ok_def)
  show ?thesis
    using f live_okD(3,6) [OF l] live_free [OF l] kmalloc_large_enough [OF f] by (intro exI [of _ F]) blast
qed

definition heap_example :: kheap where
  "heap_example = \<lparr>h_ptr = (\<lambda>_. 0), h_size = (\<lambda>_. 0), freep = None, kbase = 100\<rparr>"

lemma kmalloc_example: "\<exists>h'. kmalloc 40 [512] heap_example = Some (Inr (Some 765, [], h')) \<and> h_size h' 764 = 4"
  by (simp add: kmalloc_def heap_example_def kmalloc_loop.simps morecore_def kmfree_def kmfree_find.simps kmfree_link_def
      set_ptr_def set_size_def PGUNITS_def take_block_def Let_def)

text \<open>A request of a whole page passes the test of its size but needs 257 units with its header, one more than a page
  has: pages are taken until two of them happen to be neighbours, or all are used up and the request fails.\<close>

lemma kmalloc_page_takes_all: "\<exists>h'. kmalloc 4096 [512, 1024, 1536] heap_example = Some (Inr (None, [], h'))"
  by (simp add: kmalloc_def heap_example_def kmalloc_loop.simps morecore_def kmfree_def kmfree_find.simps kmfree_link_def
      set_ptr_def set_size_def PGUNITS_def Let_def)

theorem kmalloc_blocks_safe_witness:
  "\<exists>h. kstep\<^sup>*\<^sup>* (heap_example, {}) (h, {764}) \<and> h_size h 764 = 4 \<and> (\<exists>h'. kmfree 765 h = Some h')"
proof -
  obtain h' where m: "kmalloc 40 [512] heap_example = Some (Inr (Some 765, [], h'))" "h_size h' 764 = 4" using kmalloc_example by blast
  have "kstep (heap_example, {}) (h', {764})"
    using step_alloc [of heap_example "{}" "{}" "[512]", OF _ _ m(1)]
    by (simp add: free_set_def heap_example_def in_use_def)
  then have s: "kstep\<^sup>*\<^sup>* (heap_example, {}) (h', {764})" by simp
  then show ?thesis using kmalloc_blocks_safe [OF s] m(2) by (auto simp: heap_example_def)
qed

end
