(* ===== verification/Mmap.thy ===== *)
theory Mmap
  imports File Vm_Space
begin

text \<open>
  Memory mappings, \<open>kern/mmap.c\<close>: the regions of the calling process as a linked list in address order, and
  the pages behind them. A \<open>struct mmap_region\<close> is a node with an index; \<open>nlive\<close> are the nodes that
  \<open>kmalloc\<close> has given out and \<open>kmfree\<close> has not taken back, and a node keeps its contents when it is freed, as
  \<open>kmfree\<close> writes to headers only. The result of \<open>kmalloc\<close> is an argument, \<open>None\<close> for \<open>NULL\<close>. All nodes are
  below \<open>ntop\<close>, so a walk along the list that takes more than \<open>ntop\<close> steps has come back to a node and
  would never end. Pointers are 64-bit words and their sums wrap. File offsets are not negative.
\<close>

section \<open>State\<close>

abbreviation (input) PROT_NONE :: u32 where "PROT_NONE \<equiv> 0x0"
abbreviation (input) PROT_READ :: u32 where "PROT_READ \<equiv> 0x1"
abbreviation (input) PROT_WRITE :: u32 where "PROT_WRITE \<equiv> 0x2"
abbreviation (input) PROT_EXEC :: u32 where "PROT_EXEC \<equiv> 0x4"
abbreviation (input) MAP_PRIVATE :: u32 where "MAP_PRIVATE \<equiv> 0x02"
abbreviation (input) MAP_FIXED :: u32 where "MAP_FIXED \<equiv> 0x10"
abbreviation (input) MAP_ANONYMOUS :: u32 where "MAP_ANONYMOUS \<equiv> 0x20"
abbreviation (input) MAP_POPULATE :: u32 where "MAP_POPULATE \<equiv> 0x8000"
abbreviation (input) MREMAP_MAYMOVE :: u32 where "MREMAP_MAYMOVE \<equiv> 1"
abbreviation (input) MREMAP_FIXED :: u32 where "MREMAP_FIXED \<equiv> 2"
abbreviation (input) MS_ASYNC :: u32 where "MS_ASYNC \<equiv> 1"
abbreviation (input) MS_SYNC :: u32 where "MS_SYNC \<equiv> 4"

record mmap_node = mmap_region +
  rnext :: "nat option"

record mmst = filest +
  km :: kmem
  p_pgdir :: u64
  p_regions :: "nat option"
  p_nregions :: int
  nodes :: "nat \<Rightarrow> mmap_node"
  nlive :: "nat set"
  ntop :: nat

definition node_upd :: "nat \<Rightarrow> (mmap_node \<Rightarrow> mmap_node) \<Rightarrow> 'a mmst_scheme \<Rightarrow> 'a mmst_scheme" where
  "node_upd i f s = s\<lparr>nodes := (nodes s)(i := f (nodes s i))\<rparr>"

definition on_km :: "(kmem \<Rightarrow> kmem kres) \<Rightarrow> 'a mmst_scheme \<Rightarrow> 'a mmst_scheme kres" where
  "on_km f s = kbind (f (km s)) (\<lambda>k. Inr (s\<lparr>km := k\<rparr>))"

definition in_km :: "(kmem \<Rightarrow> ('r \<times> kmem) kres) \<Rightarrow> 'a mmst_scheme \<Rightarrow> ('r \<times> 'a mmst_scheme) kres" where
  "in_km f s = kbind (f (km s)) (\<lambda>(r, k). Inr (r, s\<lparr>km := k\<rparr>))"

section \<open>The list of regions\<close>

primrec find_from :: "nat \<Rightarrow> u64 \<Rightarrow> nat option \<Rightarrow> 'a mmst_scheme \<Rightarrow> nat option kres" where
  "find_from 0 start region s = Inl (Deadlock ''find_mmap_region'')"
| "find_from (Suc k) start region s =
     (case region of
        None \<Rightarrow> Inr None
      | Some i \<Rightarrow> if in_region start (nodes s i) then Inr (Some i) else find_from k start (rnext (nodes s i)) s)"

definition find_region :: "u64 \<Rightarrow> 'a mmst_scheme \<Rightarrow> nat option kres" where
  "find_region start s = find_from (Suc (ntop s)) start (p_regions s) s"

text \<open>\<open>find_available_region\<close> looks at the next region before it tests that there is one; \<open>None\<close> is its result \<open>-1\<close>.\<close>

primrec available_from :: "nat \<Rightarrow> u64 \<Rightarrow> nat option \<Rightarrow> 'a mmst_scheme \<Rightarrow> nat option kres" where
  "available_from 0 start region s = Inl (Deadlock ''find_available_region'')"
| "available_from (Suc k) start region s =
     (case region of
        None \<Rightarrow> Inr None
      | Some i \<Rightarrow>
          let n = nodes s i in
          if raddr n + rlength n < start then
            (case rnext n of
               None \<Rightarrow> Inl (Fault ''find_available_region'')
             | Some j \<Rightarrow> if start < raddr (nodes s j) then Inr (Some i) else available_from k start (rnext n) s)
          else available_from k start (rnext n) s)"

definition find_available_region :: "u64 \<Rightarrow> 'a mmst_scheme \<Rightarrow> nat option kres" where
  "find_available_region start s = available_from (Suc (ntop s)) start (p_regions s) s"

primrec unlink_from :: "nat \<Rightarrow> u64 \<Rightarrow> nat \<Rightarrow> nat option \<Rightarrow> 'a mmst_scheme \<Rightarrow> 'a mmst_scheme kres" where
  "unlink_from 0 addr prev region s = Inl (Deadlock ''delete_mmap_node'')"
| "unlink_from (Suc k) addr prev region s =
     (case region of
        None \<Rightarrow> Inr s
      | Some r \<Rightarrow>
          if addr = raddr (nodes s r) then Inr (node_upd prev (\<lambda>n. n\<lparr>rnext := rnext (nodes s r)\<rparr>) s)
          else unlink_from k addr r (rnext (nodes s r)) s)"

definition delete_mmap_node :: "u64 \<Rightarrow> nat \<Rightarrow> 'a mmst_scheme \<Rightarrow> 'a mmst_scheme kres" where
  "delete_mmap_node kend node s =
     (case p_regions s of
        None \<Rightarrow> Inr s
      | Some head \<Rightarrow>
          let nd = nodes s node in
          kbind (if raddr nd = raddr (nodes s head) then Inr (s\<lparr>p_regions := rnext (nodes s head)\<rparr>)
                 else unlink_from (Suc (ntop s)) (raddr nd) head (Some head) s) (\<lambda>s.
          kbind (on_km (uvm_unmap kend (p_pgdir s) (raddr nd) ((rlength nd + PGSIZE - 1) div PGSIZE)) s) (\<lambda>s.
          Inr (s\<lparr>nlive := nlive s - {node}\<rparr>))))"

definition close_region :: "nat option \<Rightarrow> 'a mmst_scheme \<Rightarrow> 'a mmst_scheme kres" where
  "close_region f s = (case f of None \<Rightarrow> Inr s | Some f \<Rightarrow> fileclose f s)"

text \<open>The link of a region is read after its node was freed.\<close>

primrec free_from :: "nat \<Rightarrow> u64 \<Rightarrow> nat option \<Rightarrow> 'a mmst_scheme \<Rightarrow> 'a mmst_scheme kres" where
  "free_from 0 kend region s = Inl (Deadlock ''free_mmap_list'')"
| "free_from (Suc k) kend region s =
     (case region of
        None \<Rightarrow> Inr s
      | Some i \<Rightarrow>
          kbind (close_region (rfile (nodes s i)) s) (\<lambda>s.
          kbind (delete_mmap_node kend i s) (\<lambda>s.
          let s = s\<lparr>p_nregions := p_nregions s - 1\<rparr> in free_from k kend (rnext (nodes s i)) s)))"

definition free_mmap_list :: "u64 \<Rightarrow> 'a mmst_scheme \<Rightarrow> 'a mmst_scheme kres" where
  "free_mmap_list kend s = free_from (Suc (ntop s)) kend (p_regions s) s"

primrec usable_from :: "nat \<Rightarrow> u64 \<Rightarrow> u64 \<Rightarrow> nat option \<Rightarrow> 'a mmst_scheme \<Rightarrow> bool kres" where
  "usable_from 0 addr len cursor s = Inl (Deadlock ''is_usable'')"
| "usable_from (Suc k) addr len cursor s =
     (case cursor of
        None \<Rightarrow> Inr False
      | Some i \<Rightarrow>
          let n = nodes s i in
          if addr + len \<le> raddr n then Inr True
          else if raddr n + rlength n \<le> addr \<and>
               (case rnext n of None \<Rightarrow> True | Some j \<Rightarrow> addr + len \<le> raddr (nodes s j)) then Inr True
          else usable_from k addr len (rnext n) s)"

definition is_usable :: "u64 \<Rightarrow> u64 \<Rightarrow> 'a mmst_scheme \<Rightarrow> bool kres" where
  "is_usable addr len s =
     (if p_nregions s = 0 then Inr True else usable_from (Suc (ntop s)) addr len (p_regions s) s)"

text \<open>The loop at \<open>select_addr\<close>; \<open>len\<close> is the rounded len.\<close>

primrec select_from :: "nat \<Rightarrow> u64 \<Rightarrow> u64 \<Rightarrow> nat option \<Rightarrow> 'a mmst_scheme \<Rightarrow> u64 kres" where
  "select_from 0 len addr node s = Inl (Deadlock ''mmap'')"
| "select_from (Suc k) len addr node s =
     (case node of
        None \<Rightarrow> Inr addr
      | Some i \<Rightarrow>
          let n = nodes s i in
          if addr + len \<le> raddr n then Inr addr
          else if raddr n + rlength n \<le> addr \<and>
               (case rnext n of None \<Rightarrow> True | Some j \<Rightarrow> addr + len \<le> raddr (nodes s j)) then Inr addr
          else select_from k len (if addr \<le> raddr n + rlength n then raddr n + rlength n else addr) (rnext n) s)"

text \<open>The insertion of \<open>mmap\<close>, with \<open>p->regions\<close> set at its end.\<close>

primrec insert_from :: "nat \<Rightarrow> nat \<Rightarrow> u64 \<Rightarrow> nat option \<Rightarrow> 'a mmst_scheme \<Rightarrow> 'a mmst_scheme kres" where
  "insert_from 0 new addr node s = Inl (Deadlock ''mmap'')"
| "insert_from (Suc k) new addr node s =
     (case node of
        None \<Rightarrow> Inr s
      | Some i \<Rightarrow>
          let n = nodes s i in
          if addr < raddr n then Inr ((node_upd new (\<lambda>r. r\<lparr>rnext := Some i\<rparr>) s)\<lparr>p_regions := Some new\<rparr>)
          else
            case rnext n of
              None \<Rightarrow> Inr (node_upd i (\<lambda>n. n\<lparr>rnext := Some new\<rparr>) s)
            | Some j \<Rightarrow>
                if addr > raddr n \<and> addr < raddr (nodes s j)
                then Inr (node_upd i (\<lambda>n. n\<lparr>rnext := Some new\<rparr>) (node_upd new (\<lambda>r. r\<lparr>rnext := Some j\<rparr>) s))
                else insert_from k new addr (Some j) s)"

section \<open>The pages of a region\<close>

definition get_perm :: "u32 \<Rightarrow> u32 \<Rightarrow> u64" where
  "get_perm prot flags =
     (let perm = PTE_USER OR PTE_PXN OR PTE_PAGE OR
            push_bit 2 (if flags AND MAP_ANONYMOUS \<noteq> 0 then MT_NORMAL_NC else MT_NORMAL) OR PTE_AF OR PTE_SH;
          perm = (if prot AND PROT_READ \<noteq> 0 then perm OR PTE_RO else perm);
          perm = (if prot AND PROT_WRITE \<noteq> 0 then perm AND NOT PTE_RO else perm);
          perm = (if prot AND PROT_EXEC = 0 then perm OR PTE_UXN else perm)
      in if prot AND PROT_NONE \<noteq> 0 \<or> prot AND (PROT_READ OR PROT_WRITE) = 0 then perm AND NOT PTE_USER else perm)"

text \<open>The copying loop of \<open>map_file_page\<close>: \<open>left\<close> of the \<open>n\<close> bytes are still to be copied to the page.\<close>

function file_fill :: "nat \<Rightarrow> int \<Rightarrow> int \<Rightarrow> nat \<Rightarrow> nat \<Rightarrow> u64 \<Rightarrow> 'a mmst_scheme \<Rightarrow> (int \<times> 'a mmst_scheme) kres" where
  "file_fill ip offset i left n page s =
     (let curoff = offset mod 4096; cursize = min left (4096 - nat curoff) in
      if left = 0 \<or> curoff > int (unat (i_size (icache s ip))) then Inr (0, s)
      else
        kbind (copy_page ip (offset + 4096 * i) cursize (nat curoff) s) (\<lambda>(r, out, s).
        if r < 0 then Inr (r, s)
        else file_fill ip 0 (i + 1) (left - cursize) n page
               (s\<lparr>km := (km s)\<lparr>mem := store_bytes (page + of_nat (n - left)) out (mem (km s))\<rparr>\<rparr>)))"
  by pat_completeness auto

termination
proof (relation "measure (\<lambda>(ip, offset, i, left, n, page, s). left)", simp, goal_cases)
  case (1 ip offset i left n page s curoff cursize)
  have "nat (offset mod 4096) < 4096" by (simp add: nat_less_iff)
  then show ?case using 1 by simp
qed

declare file_fill.simps [simp del]

text \<open>The protection is computed but \<open>uvm_map\<close> is not given it.\<close>

definition map_file_page ::
    "u64 \<Rightarrow> u64 \<Rightarrow> nat \<Rightarrow> u64 \<Rightarrow> nat option \<Rightarrow> int \<Rightarrow> 'a mmst_scheme \<Rightarrow> (int \<times> 'a mmst_scheme) kres" where
  "map_file_page kend addr n perm f offset s =
     kbind (in_km kalloc s) (\<lambda>(page, s).
     if page = 0 then Inr (- ENOMEM, s)
     else
       let s = s\<lparr>km := zero_page page (km s)\<rparr> in
       case (case f of None \<Rightarrow> None | Some f \<Rightarrow> f_ip (ftable s f)) of
         None \<Rightarrow> Inl (Fault ''map_file_page'')
       | Some ip \<Rightarrow>
           kbind (file_fill ip offset 0 n n page s) (\<lambda>(r, s).
           if r < 0 then kbind (on_km (kfree kend page) s) (\<lambda>s. Inr (r, s))
           else
             kbind (in_km (uvm_map (p_pgdir s) addr PGSIZE (V2P page)) s) (\<lambda>(r, s).
             if r < 0 then kbind (on_km (kfree kend page) s) (\<lambda>s. Inr (r, s)) else Inr (0, s))))"

definition map_anon_page :: "u64 \<Rightarrow> u64 \<Rightarrow> u64 \<Rightarrow> 'a mmst_scheme \<Rightarrow> (int \<times> 'a mmst_scheme) kres" where
  "map_anon_page kend addr perm s =
     kbind (in_km kalloc s) (\<lambda>(page, s).
     if page = 0 then Inr (- ENOMEM, s)
     else
       let s = s\<lparr>km := zero_page page (km s)\<rparr> in
       kbind (in_km (uvm_map (p_pgdir s) addr PGSIZE (V2P page)) s) (\<lambda>(r, s).
       if r < 0 then kbind (on_km (kfree kend page) s) (\<lambda>s. Inr (- EINVAL, s)) else Inr (0, s)))"

text \<open>The loops over the pages, from the page at \<open>cur\<close>; on an error the pages before it are unmapped.\<close>

function pages_loop ::
    "u64 \<Rightarrow> (nat \<Rightarrow> 'a mmst_scheme \<Rightarrow> (int \<times> 'a mmst_scheme) kres) \<Rightarrow> u64 \<Rightarrow> nat \<Rightarrow> nat \<Rightarrow> 'a mmst_scheme \<Rightarrow>
     (int \<times> 'a mmst_scheme) kres" where
  "pages_loop kend map_page addr cur n s =
     (if cur < n then
        kbind (map_page cur s) (\<lambda>(r, s).
        if r < 0 then
          kbind (if cur \<noteq> 0 then on_km (uvm_unmap kend (p_pgdir s) addr (of_nat (cur div 4096))) s else Inr s) (\<lambda>s.
          Inr (r, s))
        else pages_loop kend map_page addr (cur + 4096) n s)
      else Inr (0, s))"
  by pat_completeness auto

termination
  by (relation "measure (\<lambda>(kend, map_page, addr, cur, n, s). n - cur)") auto

declare pages_loop.simps [simp del]

definition map_file_pages ::
    "u64 \<Rightarrow> u64 \<Rightarrow> u64 \<Rightarrow> u64 \<Rightarrow> nat option \<Rightarrow> int \<Rightarrow> 'a mmst_scheme \<Rightarrow> (int \<times> 'a mmst_scheme) kres" where
  "map_file_pages kend addr len perm f offset s =
     pages_loop kend (\<lambda>cur. map_file_page kend (addr + of_nat cur) (min 4096 (unat len - cur)) perm f (offset + int cur))
       addr 0 (unat len) s"

definition map_anon_pages :: "u64 \<Rightarrow> u64 \<Rightarrow> u64 \<Rightarrow> u64 \<Rightarrow> 'a mmst_scheme \<Rightarrow> (int \<times> 'a mmst_scheme) kres" where
  "map_anon_pages kend addr len perm s =
     pages_loop kend (\<lambda>cur. map_anon_page kend (addr + of_nat cur) perm) addr 0 (unat len) s"

definition mmap_load_pages ::
    "u64 \<Rightarrow> u64 \<Rightarrow> u64 \<Rightarrow> u32 \<Rightarrow> u32 \<Rightarrow> nat option \<Rightarrow> int \<Rightarrow> 'a mmst_scheme \<Rightarrow> (int \<times> 'a mmst_scheme) kres" where
  "mmap_load_pages kend addr len prot flags f offset s =
     (let perm = get_perm prot flags;
          perm = (if flags AND MAP_PRIVATE \<noteq> 0 \<and> flags AND MAP_POPULATE = 0 then perm OR PTE_RO else perm);
          perm = (if flags AND MAP_SHARED \<noteq> 0 then perm AND NOT PTE_RO else perm)
      in if flags AND MAP_ANONYMOUS \<noteq> 0 then map_anon_pages kend addr len perm s
         else map_file_pages kend addr len perm f offset s)"

definition scale_mmap_region :: "u64 \<Rightarrow> nat \<Rightarrow> u64 \<Rightarrow> 'a mmst_scheme \<Rightarrow> (int \<times> 'a mmst_scheme) kres" where
  "scale_mmap_region kend region sz s =
     (let n = nodes s region in
      if rlength n = sz then Inr (0, s)
      else
        kbind
          (if rlength n < sz then
             mmap_load_pages kend (raddr n + rlength n) (sz - rlength n) (rprot n) (rflags n) (rfile n) (roffset n) s
           else
             let dstart = ROUNDDOWN (raddr n + rlength n) PGSIZE;
                 dpages = (rlength n - dstart + PGSIZE - 1) div PGSIZE
             in if raddr n + sz \<le> dstart \<and> dpages > 0
                then kbind (on_km (uvm_unmap kend (p_pgdir s) dstart dpages) s) (\<lambda>s. Inr (0, s))
                else Inr (0, s)) (\<lambda>(r, s).
        if r < 0 then Inr (r, s) else Inr (0, node_upd region (\<lambda>n. n\<lparr>rlength := sz\<rparr>) s)))"

section \<open>The system calls\<close>

text \<open>\<open>PROT_NONE\<close> at a fixed address takes the user's access to pages that are mapped; the count is of such pages.\<close>

definition protect_page :: "u64 \<Rightarrow> u64 \<Rightarrow> nat \<times> kmem \<Rightarrow> (nat \<times> kmem) kres" where
  "protect_page pgdir va = (\<lambda>(mapped, k).
     kbind (pgdir_walk pgdir va False k) (\<lambda>(pte, k).
     if pte = 0 then Inl (Fault ''mmap'')
     else if mem k pte AND PTE_VALID \<noteq> 0 then Inr (mapped + 1, store pte (mem k pte AND NOT PTE_USER) k)
     else Inr (mapped, k)))"

text \<open>The part of \<open>mmap\<close> that decides on the address: \<open>Inl r\<close> when it returns \<open>r\<close>.\<close>

definition mmap_fixed :: "u64 \<Rightarrow> u64 \<Rightarrow> u32 \<Rightarrow> 'a mmst_scheme \<Rightarrow> ((int + u64) \<times> 'a mmst_scheme) kres" where
  "mmap_fixed addr len prot s =
     (if addr AND (PGSIZE - 1) \<noteq> 0 then Inr (Inl (- EINVAL), s)
      else if prot = PROT_NONE then
        let n = unat (len div PGSIZE) in
        kbind (in_km (\<lambda>k. kfold (\<lambda>i. protect_page (p_pgdir s) (addr + of_nat i * PGSIZE)) [0..<n] (0, k)) s) (\<lambda>(mapped, s).
        Inr (Inl (if mapped = n then sint addr else - EINVAL), s))
      else
        kbind (find_region addr s) (\<lambda>tmp.
        if (case tmp of None \<Rightarrow> False | Some i \<Rightarrow> addr = raddr (nodes s i)) then Inr (Inl (- EINVAL), s)
        else kbind (is_usable addr len s) (\<lambda>ok. Inr (if ok then Inr addr else Inl (- EINVAL), s))))"

definition mmap_addr :: "u64 \<Rightarrow> u64 \<Rightarrow> u32 \<Rightarrow> u32 \<Rightarrow> 'a mmst_scheme \<Rightarrow> ((int + u64) \<times> 'a mmst_scheme) kres" where
  "mmap_addr addr len prot flags s =
     (let select = (\<lambda>addr. kbind (select_from (Suc (ntop s)) (ROUNDUP len PGSIZE) addr (p_regions s) s) (\<lambda>a. Inr (Inr a, s)))
      in if addr \<noteq> 0 then
           if ROUNDUP (ROUNDUP addr PGSIZE + len) PGSIZE > USERTOP then Inr (Inl EINVAL, s)
           else if flags AND MAP_FIXED \<noteq> 0 then mmap_fixed addr len prot s
           else select (if addr AND (PGSIZE - 1) \<noteq> 0 then ROUNDDOWN addr PGSIZE else addr)
         else select (case p_regions s of Some i \<Rightarrow> raddr (nodes s i) | None \<Rightarrow> MMAPBASE))"

definition new_region :: "nat \<Rightarrow> mmap_region \<Rightarrow> 'a mmst_scheme \<Rightarrow> 'a mmst_scheme" where
  "new_region new r s =
     s\<lparr>nodes := (nodes s)(new := mmap_region.extend r \<lparr>rnext = None\<rparr>), nlive := insert new (nlive s), ntop := max (Suc new) (ntop s)\<rparr>"

text \<open>The file of a mapping gets two more references. An anonymous mapping with a file leaves by an error path
  on which the result was not set.\<close>

definition mmap_file :: "u32 \<Rightarrow> nat option \<Rightarrow> 'a mmst_scheme \<Rightarrow> 'a mmst_scheme kres" where
  "mmap_file flags f s =
     (case f of
        None \<Rightarrow> Inr s
      | Some f \<Rightarrow>
          kbind (filedup f s) (\<lambda>(f, s).
          if flags AND MAP_ANONYMOUS = 0 then kbind (filedup f s) (\<lambda>(f, s). Inr s) else Inl (Fault ''mmap: error'')))"

definition mmap ::
    "u64 \<Rightarrow> nat option \<Rightarrow> u64 \<Rightarrow> u64 \<Rightarrow> u32 \<Rightarrow> u32 \<Rightarrow> nat option \<Rightarrow> int \<Rightarrow> 'a mmst_scheme \<Rightarrow> (int \<times> 'a mmst_scheme) kres" where
  "mmap kend slot addr len prot flags f offset s =
     kbind (mmap_addr addr len prot flags s) (\<lambda>(a, s).
     case a of
       Inl r \<Rightarrow> Inr (r, s)
     | Inr addr \<Rightarrow>
         if addr + ROUNDUP len PGSIZE > USERTOP then Inr (- ENOMEM, s)
         else
           case slot of
             None \<Rightarrow> Inr (- ENOMEM, s)
           | Some new \<Rightarrow>
               kbind (mmap_file flags f (new_region new \<lparr>raddr = addr, rlength = len, roffset = offset, rfile = f,
                 rprot = prot, rflags = flags\<rparr> s)) (\<lambda>s.
               kbind (if p_nregions s = 0 then Inr (s\<lparr>p_regions := Some new\<rparr>)
                      else insert_from (Suc (ntop s)) new addr (p_regions s) s) (\<lambda>s.
               kbind (mmap_load_pages kend addr len prot flags f offset s) (\<lambda>(r, s).
               if r < 0 then kbind (close_region f s) (\<lambda>s. Inr (r, s\<lparr>nlive := nlive s - {new}\<rparr>))
               else Inr (sint addr, node_upd new (\<lambda>n. n\<lparr>raddr := addr, rlength := ROUNDUP len PGSIZE\<rparr>)
                      (s\<lparr>p_nregions := p_nregions s + 1\<rparr>))))))"

text \<open>The checks of \<open>sys_mmap\<close>; the descriptor is the one in the trap frame.\<close>

definition sys_mmap ::
    "u64 \<Rightarrow> nat option \<Rightarrow> u64 \<Rightarrow> u64 \<Rightarrow> u32 \<Rightarrow> u32 \<Rightarrow> int \<Rightarrow> u64 \<Rightarrow> 'a mmst_scheme \<Rightarrow> (int \<times> 'a mmst_scheme) kres" where
  "sys_mmap kend slot addr len prot flags fd offset s =
     (let anon = flags AND MAP_ANONYMOUS \<noteq> 0; f = (if anon then None else p_ofile (this s) (nat fd)) in
      if anon \<and> fd \<noteq> - 1 then Inr (- EINVAL, s)
      else if \<not> anon \<and> (fd < 0 \<or> fd \<ge> int NOFILE \<or> f = None) then Inr (- EBADF, s)
      else if flags AND (MAP_PRIVATE OR MAP_SHARED) = 0 then Inr (- EINVAL, s)
      else if sint len \<le> 0 \<or> sint offset < 0 then Inr (- EINVAL, s)
      else if flags AND MAP_FIXED \<noteq> 0 \<and> addr = 0 then Inr (- EINVAL, s)
      else if \<not> anon \<and> \<not> f_readable (ftable s (the f)) then Inr (- EACCES, s)
      else if \<not> anon \<and> flags AND MAP_SHARED \<noteq> 0 \<and> prot AND PROT_WRITE \<noteq> 0 \<and> \<not> f_writable (ftable s (the f))
      then Inr (- EACCES, s)
      else mmap kend slot addr len prot flags f (sint offset) s)"

text \<open>The kernel reads and writes user memory through the tables of the process; a page that is not mapped is a fault.\<close>

definition user_addr :: "u64 \<Rightarrow> kmem \<Rightarrow> u64 \<Rightarrow> u64 option" where
  "user_addr pgdir k va = map_option (\<lambda>p. p + va mod PGSIZE) (frame_at (mem k) pgdir va)"

definition user_bytes :: "u64 \<Rightarrow> u64 \<Rightarrow> nat \<Rightarrow> kmem \<Rightarrow> u8 list kres" where
  "user_bytes pgdir va n k =
     (case those (map (\<lambda>i. user_addr pgdir k (va + of_nat i)) [0..<n]) of
        None \<Rightarrow> Inl (Fault ''user'')
      | Some as \<Rightarrow> Inr (map (get_byte (mem k)) as))"

definition user_copy :: "u64 \<Rightarrow> u64 \<Rightarrow> u64 \<Rightarrow> nat \<Rightarrow> kmem \<Rightarrow> kmem kres" where
  "user_copy pgdir dst src n k =
     kbind (user_bytes pgdir src n k) (\<lambda>bs.
     case those (map (\<lambda>i. user_addr pgdir k (dst + of_nat i)) [0..<n]) of
       None \<Rightarrow> Inl (Fault ''user'')
     | Some as \<Rightarrow> Inr (k\<lparr>mem := fold (\<lambda>(a, b). set_byte a b) (zip as bs) (mem k)\<rparr>))"

definition write_back :: "nat \<Rightarrow> u64 \<Rightarrow> 'a mmst_scheme \<Rightarrow> (int \<times> 'a mmst_scheme) kres" where
  "write_back region len s =
     (let n = nodes s region in
      case (case rfile n of None \<Rightarrow> None | Some f \<Rightarrow> f_ip (ftable s f)) of
        None \<Rightarrow> Inl (Fault ''writei'')
      | Some ip \<Rightarrow>
          kbind (begin_op s) (\<lambda>s.
          kbind (user_bytes (p_pgdir s) (raddr n) (unat len) (km s)) (\<lambda>src.
          kbind (v6_writei ip src (word_of_int (roffset n)) s) (\<lambda>(e, s).
          kbind (end_op s) (\<lambda>s. Inr (e, s))))))"

definition written_back :: "mmap_node \<Rightarrow> bool" where
  "written_back n \<longleftrightarrow> rflags n AND MAP_SHARED \<noteq> 0 \<and> rfile n \<noteq> None \<and> rprot n AND PROT_WRITE \<noteq> 0"

definition munmap :: "u64 \<Rightarrow> u64 \<Rightarrow> u64 \<Rightarrow> 'a mmst_scheme \<Rightarrow> (int \<times> 'a mmst_scheme) kres" where
  "munmap kend addr len s =
     (if addr AND (PGSIZE - 1) \<noteq> 0 then Inr (- EINVAL, s)
      else
        let len = ROUNDUP len PGSIZE in
        kbind (find_region addr s) (\<lambda>region.
        case region of
          None \<Rightarrow> Inr (0, s)
        | Some i \<Rightarrow>
            let n = nodes s i in
            kbind (if written_back n then write_back i (rlength n) s else Inr (0, s)) (\<lambda>(e, s).
            if e < 0 then Inr (e, s)
            else if rlength n \<le> len then
              kbind (close_region (rfile n) s) (\<lambda>s.
              kbind (delete_mmap_node kend i s) (\<lambda>s.
              Inr (0, s\<lparr>p_nregions := p_nregions s - 1\<rparr>)))
            else
              kbind (on_km (uvm_unmap kend (p_pgdir s) addr (len div PGSIZE)) s) (\<lambda>s.
              Inr (0, node_upd i (\<lambda>n. n\<lparr>raddr := raddr n + len, rlength := rlength n - len\<rparr>) s)))))"

primrec msync_from :: "nat \<Rightarrow> u64 \<Rightarrow> u64 \<Rightarrow> nat option \<Rightarrow> 'a mmst_scheme \<Rightarrow> (int \<times> 'a mmst_scheme) kres" where
  "msync_from 0 addr len region s = Inl (Deadlock ''msync'')"
| "msync_from (Suc k) addr len region s =
     (case region of
        None \<Rightarrow> Inr (0, s)
      | Some i \<Rightarrow>
          let n = nodes s i in
          if raddr n = addr \<and> written_back n then
            let l = (if rlength n < len then rlength n else len) in
            kbind (write_back i l s) (\<lambda>(e, s).
            if e < 0 then Inr (e, s)
            else if len - l \<le> 0 then Inr (0, s)
            else msync_from k (addr + l) (len - l) (rnext n) s)
          else msync_from k addr len (rnext n) s)"

definition msync :: "u64 \<Rightarrow> u64 \<Rightarrow> u32 \<Rightarrow> 'a mmst_scheme \<Rightarrow> (int \<times> 'a mmst_scheme) kres" where
  "msync addr len flags s =
     (let flags = (if flags AND MS_ASYNC = 0 \<and> flags AND MS_SYNC = 0 then flags OR MS_ASYNC else flags) in
      if flags AND MS_ASYNC \<noteq> 0 then Inr (0, s)
      else if addr AND (PGSIZE - 1) \<noteq> 0 then Inr (- EINVAL, s)
      else msync_from (Suc (ntop s)) addr len (p_regions s) s)"

text \<open>The test of the constant \<open>MREMAP_FIXED\<close> always holds. Results are pointers, error numbers among them.\<close>

definition mremap ::
    "u64 \<Rightarrow> nat option \<Rightarrow> u64 \<Rightarrow> u64 \<Rightarrow> u64 \<Rightarrow> u32 \<Rightarrow> u64 \<Rightarrow> 'a mmst_scheme \<Rightarrow> (u64 \<times> 'a mmst_scheme) kres" where
  "mremap kend slot old_addr old_len new_len flags new_addr s =
     kbind (find_region old_addr s) (\<lambda>region.
     case region of
       None \<Rightarrow> Inr (word_of_int (- EINVAL), s)
     | Some i \<Rightarrow>
         let n = nodes s i;
             move = (\<lambda>s. let n = nodes s i in
               kbind (mmap kend slot new_addr new_len (rprot n) (rflags n OR MAP_FIXED) (rfile n) (roffset n) s) (\<lambda>(r, s).
               Inr (word_of_int r :: u64, s)))
         in if rlength n \<noteq> old_len then Inr (word_of_int (- EINVAL), s)
            else if (case rnext n of None \<Rightarrow> True | Some j \<Rightarrow> raddr n + new_len \<le> raddr (nodes s j)) then
              if flags AND MREMAP_FIXED \<noteq> 0 then
                kbind (munmap kend old_addr old_len s) (\<lambda>(e, s). if e < 0 then Inr (word_of_int e, s) else move s)
              else
                kbind (scale_mmap_region kend i new_len s) (\<lambda>(e, s).
                Inr (if e < 0 then word_of_int e else raddr (nodes s i), s))
            else if flags AND MREMAP_MAYMOVE = 0 then Inr (word_of_int (- EINVAL), s)
            else
              kbind (move s) (\<lambda>(mapped, s).
              if mapped \<ge> word_of_int (- 4095) then Inr (mapped, s)
              else
                kbind (on_km (user_copy (p_pgdir s) new_addr (raddr n) (unat (rlength n))) s) (\<lambda>s.
                kbind (msync mapped new_len MS_SYNC s) (\<lambda>(e, s).
                if e < 0 then Inr (word_of_int e, s)
                else
                  kbind (munmap kend (raddr n) (rlength n) s) (\<lambda>(e, s).
                  Inr (if e < 0 then word_of_int e else mapped, s))))))"

section \<open>Copies for another process\<close>

definition copy_mmap_region :: "nat \<Rightarrow> nat \<Rightarrow> 'a mmst_scheme \<Rightarrow> 'a mmst_scheme kres" where
  "copy_mmap_region dest src s =
     (let n = nodes s src; s = node_upd dest (\<lambda>_. n\<lparr>rnext := None, rfile := None\<rparr>) s in
      case rfile n of
        Some f \<Rightarrow>
          if rflags n AND MAP_ANONYMOUS = 0
          then kbind (filedup f s) (\<lambda>(f, s). Inr (node_upd dest (\<lambda>d. d\<lparr>rfile := Some f\<rparr>) s))
          else Inr s
      | None \<Rightarrow> Inr s)"

text \<open>\<open>copy_mmap_list\<close> returns the first region of the child; \<open>slots\<close> are the results of \<open>kmalloc\<close>.\<close>

primrec copy_from ::
    "nat \<Rightarrow> nat option list \<Rightarrow> nat option \<Rightarrow> nat option \<Rightarrow> nat option \<Rightarrow> 'a mmst_scheme \<Rightarrow> (int \<times> nat option \<times> 'a mmst_scheme) kres" where
  "copy_from 0 slots node cnode tail s = Inl (Deadlock ''copy_mmap_list'')"
| "copy_from (Suc k) slots node cnode tail s =
     (case node of
        None \<Rightarrow> Inr (0, cnode, s)
      | Some i \<Rightarrow>
          (case slots of
             Some new # slots \<Rightarrow>
               kbind (copy_mmap_region new i (s\<lparr>nlive := insert new (nlive s), ntop := max (Suc new) (ntop s)\<rparr>)) (\<lambda>s.
               let s = (case tail of None \<Rightarrow> s | Some t \<Rightarrow> node_upd t (\<lambda>n. n\<lparr>rnext := Some new\<rparr>) s) in
               copy_from k slots (rnext (nodes s i)) (case cnode of None \<Rightarrow> Some new | Some c \<Rightarrow> Some c) (Some new) s)
           | _ \<Rightarrow> Inr (- ENOMEM, None, s)))"

definition copy_mmap_list :: "nat option list \<Rightarrow> 'a mmst_scheme \<Rightarrow> (int \<times> nat option \<times> 'a mmst_scheme) kres" where
  "copy_mmap_list slots s = copy_from (Suc (ntop s)) slots (p_regions s) None None s"

text \<open>The copy of the pages of a region on a write to it; \<open>a\<close> is the address of the next page.\<close>

function copy_mmap_pages :: "u64 \<Rightarrow> nat \<Rightarrow> nat \<Rightarrow> u64 \<Rightarrow> kmem \<Rightarrow> (int \<times> kmem) kres" where
  "copy_mmap_pages pgdir a e perm k =
     (if a < e then
        kbind (pgdir_walk pgdir (of_nat a) False k) (\<lambda>(pte, k).
        if pte = 0 then Inr (- EINVAL, k)
        else
          let pa = PTE_ADDR (mem k pte) in
          kbind (kalloc k) (\<lambda>(page, k).
          if page = 0 then Inr (- ENOMEM, k)
          else copy_mmap_pages pgdir (a + 4096) e perm (store pte (V2P page OR perm) (copy_frame page (P2V pa) k))))
      else Inr (0, k))"
  by pat_completeness auto

termination
  by (relation "measure (\<lambda>(pgdir, a, e, perm, k). e - a)") auto

declare copy_mmap_pages.simps [simp del]

end
