(* ===== verification/Mmap_Regions.thy ===== *)
theory Mmap_Regions
  imports Mmap
begin

text \<open>
  The linked list of regions of \<open>kern/mmap.c\<close> as a list of nodes: the loops over it return, the search is the
  search of \<^theory_text>\<open>Vm\<close>, the address that \<open>mmap\<close> chooses meets no region, and insertion and deletion are the ones on
  sorted lists. The invariant of the mappings of a process relates the list to the address space.
\<close>

section \<open>Nodes in a row\<close>

primrec rlist :: "(nat \<Rightarrow> mmap_node) \<Rightarrow> nat option \<Rightarrow> nat list \<Rightarrow> bool" where
  "rlist m p [] \<longleftrightarrow> p = None"
| "rlist m p (i # is) \<longleftrightarrow> p = Some i \<and> rlist m (rnext (m i)) is"

lemma rlist_cong: "(\<And>i. i \<in> set is \<Longrightarrow> rnext (m' i) = rnext (m i)) \<Longrightarrow> rlist m' p is = rlist m p is"
  by (induction "is" arbitrary: p) auto

lemma rlist_None [simp]: "rlist m None is \<longleftrightarrow> is = []"
  by (cases "is") auto

lemma rlist_next: "rlist m p (i # j # is) \<Longrightarrow> rnext (m i) = Some j"
  by simp

lemma rlist_last: "rlist m p [i] \<Longrightarrow> rnext (m i) = None"
  by simp

text \<open>The part of a node that is not its link.\<close>

abbreviation region :: "mmap_node \<Rightarrow> mmap_region" where "region n \<equiv> mmap_region.truncate n"

lemma region_eq: "region n = region n' \<longleftrightarrow> raddr n = raddr n' \<and> rlength n = rlength n' \<and> roffset n = roffset n' \<and>
    rfile n = rfile n' \<and> rprot n = rprot n' \<and> rflags n = rflags n'"
  by (simp add: mmap_region.truncate_def)

lemma region_rnext [simp]: "region (n\<lparr>rnext := x\<rparr>) = region n"
  by (simp add: mmap_region.truncate_def)

section \<open>Searching\<close>

lemma find_from_ok:
  "rlist (nodes s) p ids \<Longrightarrow> length ids < k \<Longrightarrow>
   find_from k start p s = Inr (find (\<lambda>i. in_region start (nodes s i)) ids)"
proof (induction ids arbitrary: p k)
  case Nil
  then show ?case by (cases k) simp_all
next
  case (Cons i ids)
  then show ?case by (cases k) simp_all
qed

lemma in_region_region [simp]: "in_region start (region n) = in_region start n"
  by (simp add: in_region_def mmap_region.truncate_def)

text \<open>The search of \<open>mmap.c\<close> finds what the page table functions are told about.\<close>

lemma find_from_list:
  assumes "rlist (nodes s) p ids" and "length ids < k"
  shows "\<exists>r. find_from k start p s = Inr r \<and>
    map_option (\<lambda>i. region (nodes s i)) r = find_mmap_region (map (\<lambda>i. region (nodes s i)) ids) start"
proof -
  have "map_option f (find (\<lambda>i. P (f i)) xs) = find P (map f xs)" for f :: "nat \<Rightarrow> mmap_region" and P xs
    by (induction xs) auto
  from this [of "\<lambda>i. region (nodes s i)" "in_region start" ids] show ?thesis
    using find_from_ok [OF assms, of start] by (simp add: find_mmap_region_def)
qed

section \<open>Regions in order\<close>

definition region_ok :: "'a mmap_region_scheme \<Rightarrow> bool" where
  "region_ok r \<longleftrightarrow> unat (raddr r) mod 4096 = 0 \<and> unat (rlength r) mod 4096 = 0 \<and> 0 < unat (rlength r) \<and>
     unat (raddr r) + unat (rlength r) \<le> 2 ^ 48"

definition rend :: "'a mmap_region_scheme \<Rightarrow> nat" where
  "rend r = unat (raddr r) + unat (rlength r)"

lemma region_okD:
  assumes "region_ok r"
  shows "unat (raddr r + rlength r) = rend r" and "rend r \<le> 2 ^ 48" and "unat (raddr r) < rend r"
    and "unat (raddr r) mod 4096 = 0" and "rend r mod 4096 = 0"
proof -
  show "unat (raddr r + rlength r) = rend r"
    unfolding rend_def using assms by (intro unat_add_nowrap64) (simp add: region_ok_def)
  show "rend r mod 4096 = 0" using assms by (simp add: region_ok_def rend_def mod_eq_0_iff_dvd)
qed (use assms in \<open>auto simp: region_ok_def rend_def\<close>)

text \<open>Regions that do not meet, in the order of their addresses.\<close>

definition in_order :: "(nat \<Rightarrow> mmap_node) \<Rightarrow> nat list \<Rightarrow> bool" where
  "in_order m ids \<longleftrightarrow> sorted_wrt (\<lambda>i j. rend (m i) \<le> unat (raddr (m j))) ids \<and> (\<forall>i\<in>set ids. region_ok (m i))"

lemma in_order_simps [simp]:
  "in_order m []"
  "in_order m (i # is) \<longleftrightarrow> (\<forall>j\<in>set is. rend (m i) \<le> unat (raddr (m j))) \<and> region_ok (m i) \<and> in_order m is"
  by (auto simp: in_order_def)

lemma in_order_append:
  "in_order m (is @ js) \<longleftrightarrow> in_order m is \<and> in_order m js \<and> (\<forall>i\<in>set is. \<forall>j\<in>set js. rend (m i) \<le> unat (raddr (m j)))"
  by (auto simp: in_order_def sorted_wrt_append)

lemma in_order_cong: "(\<And>i. i \<in> set is \<Longrightarrow> region (m' i) = region (m i)) \<Longrightarrow> in_order m' is = in_order m is"
  by (induction "is") (auto simp: region_eq rend_def region_ok_def)

definition apart :: "nat \<Rightarrow> nat \<Rightarrow> mmap_node \<Rightarrow> bool" where
  "apart a n r \<longleftrightarrow> a + n \<le> unat (raddr r) \<or> rend r \<le> a"

lemma in_order_head:
  assumes "in_order m (i # is)" and "a + n \<le> unat (raddr (m i)) \<or> rend (m i) \<le> a \<and> (\<forall>j\<in>set (take 1 is). a + n \<le> unat (raddr (m j)))"
  shows "\<forall>j\<in>set (i # is). apart a n (m j)"
proof (cases "a + n \<le> unat (raddr (m i))")
  case True
  have "unat (raddr (m i)) \<le> unat (raddr (m j))" if "j \<in> set is" for j
    using assms(1) that region_okD(3) [of "m i"] by fastforce
  then have "a + n \<le> unat (raddr (m j))" if "j \<in> set is" for j using True that le_trans by blast
  then show ?thesis using True by (auto simp: apart_def)
next
  case False
  show ?thesis
  proof (cases "is")
    case Nil
    then show ?thesis using False assms(2) by (simp add: apart_def)
  next
    case (Cons j js)
    have "unat (raddr (m j)) \<le> unat (raddr (m l))" if "l \<in> set js" for l
      using assms(1) Cons that region_okD(3) [of "m j"] by fastforce
    then have "a + n \<le> unat (raddr (m l))" if "l \<in> set js" for l using False assms(2) Cons that le_trans by (metis list.set_intros(1) take_Suc_Cons One_nat_def)
    then show ?thesis using False assms(2) Cons by (auto simp: apart_def)
  qed
qed

lemma select_from_ok:
  assumes "rlist (nodes s) p ids" and "length ids < k" and "in_order (nodes s) ids"
    and "unat addr \<le> 2 ^ 48" and "unat len \<le> 2 ^ 63" and "unat addr mod 4096 = 0"
  shows "\<exists>a. select_from k len addr p s = Inr a \<and> unat addr \<le> unat a \<and> unat a \<le> 2 ^ 48 \<and> unat a mod 4096 = 0 \<and>
    (\<forall>i\<in>set ids. apart (unat a) (unat len) (nodes s i))"
  using assms
proof (induction ids arbitrary: p k addr)
  case Nil
  then show ?case by (cases k) auto
next
  case (Cons i ids)
  let ?n = "nodes s i"
  obtain k' where k: "k = Suc k'" "length ids < k'" using Cons.prems(2) by (cases k) auto
  have p: "p = Some i" and r: "rlist (nodes s) (rnext ?n) ids" and o: "region_ok ?n" "in_order (nodes s) ids"
    using Cons.prems(1,3) by auto
  have w: "unat (addr + len) = unat addr + unat len" using Cons.prems(4,5) by (intro unat_add_nowrap64) simp
  have e: "unat (raddr ?n + rlength ?n) = rend ?n" "rend ?n \<le> 2 ^ 48" "rend ?n mod 4096 = 0" using region_okD [OF o(1)] by auto
  have nx: "(case rnext ?n of None \<Rightarrow> True | Some j \<Rightarrow> addr + len \<le> raddr (nodes s j)) \<longleftrightarrow>
      (\<forall>j\<in>set (take 1 ids). unat addr + unat len \<le> unat (raddr (nodes s j)))"
    using r w by (cases ids) (auto simp: word_le_nat_alt)
  show ?case
  proof (cases "addr + len \<le> raddr ?n \<or> raddr ?n + rlength ?n \<le> addr \<and>
      (case rnext ?n of None \<Rightarrow> True | Some j \<Rightarrow> addr + len \<le> raddr (nodes s j))")
    case True
    then have "unat addr + unat len \<le> unat (raddr ?n) \<or> rend ?n \<le> unat addr \<and> (\<forall>j\<in>set (take 1 ids). unat addr + unat len \<le> unat (raddr (nodes s j)))"
      unfolding nx by (auto simp: word_le_nat_alt w e(1))
    from in_order_head [OF Cons.prems(3) this] show ?thesis using True k p Cons.prems(4,6) by (auto simp: Let_def)
  next
    case False
    let ?a = "if addr \<le> raddr ?n + rlength ?n then raddr ?n + rlength ?n else addr"
    have a: "unat ?a = max (unat addr) (rend ?n)" using e(1) by (auto simp: word_le_nat_alt max_def)
    have "unat ?a \<le> 2 ^ 48" "unat ?a mod 4096 = 0" using a e Cons.prems(4,6) by (auto simp: max_def)
    from Cons.IH [OF r k(2) o(2) this(1) Cons.prems(5) this(2)] obtain b where
      b: "select_from k' len ?a (rnext ?n) s = Inr b" "unat ?a \<le> unat b" "unat b \<le> 2 ^ 48" "unat b mod 4096 = 0"
        "\<forall>i\<in>set ids. apart (unat b) (unat len) (nodes s i)" by (elim exE conjE)
    have "apart (unat b) (unat len) ?n" using b(2) a by (auto simp: apart_def)
    then show ?thesis using False k p b a by (auto simp: Let_def)
  qed
qed

section \<open>Inserting and deleting\<close>

text \<open>The state with other links.\<close>

definition relink :: "(nat \<Rightarrow> mmap_node) \<Rightarrow> nat option \<Rightarrow> 'a mmst_scheme \<Rightarrow> 'a mmst_scheme" where
  "relink nds q s = s\<lparr>nodes := nds, p_regions := q\<rparr>"

lemma relink_id: "Inr s = Inr (relink (nodes s) (p_regions s) s)"
  by (simp add: relink_def)

lemma relink_node_upd: "node_upd i f s = relink ((nodes s)(i := f (nodes s i))) (p_regions s) s"
  by (simp add: relink_def node_upd_def)

lemma relink_relink [simp]: "relink nds q (relink nds' q' s) = relink nds q s"
  by (simp add: relink_def)

lemma relink_p_regions: "(relink nds q s)\<lparr>p_regions := r\<rparr> = relink nds r s"
  by (simp add: relink_def)

lemma relink_sel [simp]: "nodes (relink nds q s) = nds" "p_regions (relink nds q s) = q" "km (relink nds q s) = km s"
  "p_pgdir (relink nds q s) = p_pgdir s" "p_nregions (relink nds q s) = p_nregions s" "nlive (relink nds q s) = nlive s"
  "ntop (relink nds q s) = ntop s"
  by (simp_all add: relink_def)

lemma insert_from_Some:
  "insert_from (Suc k) new addr (Some i) s =
     (if addr < raddr (nodes s i) then Inr (relink ((nodes s)(new := (nodes s new)\<lparr>rnext := Some i\<rparr>)) (Some new) s)
      else case rnext (nodes s i) of
        None \<Rightarrow> Inr (relink ((nodes s)(i := (nodes s i)\<lparr>rnext := Some new\<rparr>)) (p_regions s) s)
      | Some j \<Rightarrow>
          if addr > raddr (nodes s i) \<and> addr < raddr (nodes s j) then
            let nds = (nodes s)(new := (nodes s new)\<lparr>rnext := Some j\<rparr>)
            in Inr (relink (nds(i := (nds i)\<lparr>rnext := Some new\<rparr>)) (p_regions s) s)
          else insert_from k new addr (Some j) s)"
  by (simp add: Let_def relink_node_upd relink_p_regions split: option.split)

declare insert_from.simps(2) [simp del]

lemma insert_from_returns:
  "rlist (nodes s) p ids \<Longrightarrow> length ids < k \<Longrightarrow> \<exists>nds q. insert_from k new addr p s = Inr (relink nds q s)"
proof (induction ids arbitrary: p k)
  case Nil
  then obtain k' where "k = Suc k'" by (cases k) auto
  then show ?case using Nil relink_id by (simp add: insert_from.simps(2)) blast
next
  case (Cons i ids)
  then obtain k' where k: "k = Suc k'" "length ids < k'" by (cases k) auto
  have p: "p = Some i" "rlist (nodes s) (rnext (nodes s i)) ids" using Cons.prems(1) by simp_all
  show ?case
    unfolding k(1) p(1) insert_from_Some using Cons.IH [OF p(2) k(2)] by (auto simp: Let_def split: option.split) blast+
qed

text \<open>Insertion behind a node that is below the address.\<close>

lemma insert_behind:
  assumes "rlist (nodes s) (Some i) (i # is)" and "length is < k" and "distinct (new # i # is)" and "raddr (nodes s i) < addr"
    and "in_order (nodes s) (i # is)" and "\<forall>j\<in>set is. raddr (nodes s j) \<noteq> addr" and "rnext (nodes s new) = None"
  shows "\<exists>nds. insert_from k new addr (Some i) s = Inr (relink nds (p_regions s) s) \<and>
    rlist nds (Some i) (i # takeWhile (\<lambda>j. raddr (nodes s j) < addr) is @ new # dropWhile (\<lambda>j. raddr (nodes s j) < addr) is) \<and>
    (\<forall>j. region (nds j) = region (nodes s j)) \<and> (\<forall>j. j \<notin> set (new # i # is) \<longrightarrow> nds j = nodes s j)"
  using assms
proof (induction "is" arbitrary: i k)
  case Nil
  then obtain k' where "k = Suc k'" by (cases k) auto
  then show ?case using Nil.prems
    by (intro exI [of _ "(nodes s)(i := (nodes s i)\<lparr>rnext := Some new\<rparr>)"] conjI) (simp_all add: insert_from_Some fun_upd_def)
next
  case (Cons j "is")
  obtain k' where k: "k = Suc k'" "length is < k'" using Cons.prems(2) by (cases k) auto
  have n: "rnext (nodes s i) = Some j" "rlist (nodes s) (Some j) (j # is)" using Cons.prems(1) by simp_all
  have lt: "\<not> addr < raddr (nodes s i)" using Cons.prems(4) by simp
  show ?case
  proof (cases "addr < raddr (nodes s j)")
    case True
    define nds where "nds = (nodes s)(new := (nodes s new)\<lparr>rnext := Some j\<rparr>, i := (nodes s i)\<lparr>rnext := Some new\<rparr>)"
    have nds: "rnext (nds i) = Some new" "rnext (nds new) = Some j" "region (nds l) = region (nodes s l)"
      "l \<noteq> i \<Longrightarrow> l \<noteq> new \<Longrightarrow> nds l = nodes s l" for l using Cons.prems(3) by (simp_all add: nds_def)
    have "insert_from k new addr (Some i) s = Inr (relink nds (p_regions s) s)"
      using True Cons.prems(3,4) k(1) n lt by (simp add: insert_from_Some Let_def nds_def)
    moreover have "l \<noteq> i" "l \<noteq> new" if "l \<in> set (j # is)" for l using that Cons.prems(3) by auto
    then have "rnext (nds l) = rnext (nodes s l)" if "l \<in> set (j # is)" for l using that nds(4) by simp
    then have "rlist nds (Some j) (j # is)" using n(2) rlist_cong [of "j # is" nds "nodes s"] by blast
    moreover have "\<not> raddr (nodes s j) < addr" using True by simp
    ultimately show ?thesis using Cons.prems(3) nds by (intro exI [of _ nds] conjI) simp_all
  next
    case False
    then have j: "raddr (nodes s j) < addr" using Cons.prems(6) by force
    have "distinct (new # j # is)" "in_order (nodes s) (j # is)" "\<forall>j\<in>set is. raddr (nodes s j) \<noteq> addr"
      using Cons.prems(3,5,6) by auto
    from Cons.IH [OF n(2) k(2) this(1) j this(2,3) Cons.prems(7)] obtain nds where
      nds: "insert_from k' new addr (Some j) s = Inr (relink nds (p_regions s) s)"
        "rlist nds (Some j) (j # takeWhile (\<lambda>j. raddr (nodes s j) < addr) is @ new # dropWhile (\<lambda>j. raddr (nodes s j) < addr) is)"
        "\<forall>j. region (nds j) = region (nodes s j)" "\<forall>l. l \<notin> set (new # j # is) \<longrightarrow> nds l = nodes s l" by blast
    have "nds i = nodes s i" using nds(4) Cons.prems(3) by auto
    then show ?thesis using nds False lt k(1) n(1) j by (intro exI [of _ nds] conjI) (simp_all add: insert_from_Some)
  qed
qed

lemma in_order_less:
  assumes "in_order m (i # is)" and "j \<in> set is"
  shows "raddr (m i) < raddr (m j)"
  using assms region_okD(3) [of "m i"] by (fastforce simp: word_less_nat_alt)

lemma insert_ok:
  assumes "rlist (nodes s) (p_regions s) ids" and "length ids < k" and "distinct (new # ids)" and "in_order (nodes s) ids"
    and "\<forall>j\<in>set ids. raddr (nodes s j) \<noteq> addr" and "rnext (nodes s new) = None" and "ids \<noteq> []"
  shows "\<exists>nds q. insert_from k new addr (p_regions s) s = Inr (relink nds q s) \<and>
    rlist nds q (takeWhile (\<lambda>j. raddr (nodes s j) < addr) ids @ new # dropWhile (\<lambda>j. raddr (nodes s j) < addr) ids) \<and>
    (\<forall>j. region (nds j) = region (nodes s j))"
proof -
  obtain i "is" where ids: "ids = i # is" using assms(7) by (cases ids) auto
  obtain k' where k: "k = Suc k'" "length is < k'" using assms(2) ids by (cases k) auto
  show ?thesis
  proof (cases "raddr (nodes s i) < addr")
    case True
    have p: "p_regions s = Some i" using assms(1) ids by simp
    from insert_behind [of s i "is" k new addr] obtain nds where
      "insert_from k new addr (Some i) s = Inr (relink nds (p_regions s) s)"
      "rlist nds (Some i) (i # takeWhile (\<lambda>j. raddr (nodes s j) < addr) is @ new # dropWhile (\<lambda>j. raddr (nodes s j) < addr) is)"
      "\<forall>j. region (nds j) = region (nodes s j)"
      using assms True k ids by auto
    then show ?thesis using True ids p by (intro exI [of _ nds] exI [of _ "p_regions s"]) auto
  next
    case False
    then have lt: "addr < raddr (nodes s i)" using assms(5) ids by force
    define nds where "nds = (nodes s)(new := (nodes s new)\<lparr>rnext := Some i\<rparr>)"
    have nds: "rnext (nds new) = Some i" "region (nds l) = region (nodes s l)" "l \<noteq> new \<Longrightarrow> nds l = nodes s l" for l
      by (simp_all add: nds_def)
    have "insert_from k new addr (p_regions s) s = Inr (relink nds (Some new) s)"
      using lt k(1) ids assms(1) by (simp add: insert_from_Some nds_def)
    moreover have "l \<noteq> new" if "l \<in> set ids" for l using that assms(3) by auto
    then have "rnext (nds l) = rnext (nodes s l)" if "l \<in> set ids" for l using that nds(3) by simp
    then have "rlist nds (Some i) ids" using assms(1) ids rlist_cong [of ids nds "nodes s"] by auto
    ultimately show ?thesis using False ids nds by (intro exI [of _ nds] exI [of _ "Some new"] conjI) simp_all
  qed
qed

text \<open>Deletion from behind \<open>prev\<close>.\<close>

lemma unlink_behind:
  assumes "rlist (nodes s) (rnext (nodes s prev)) is" and "length is < k" and "distinct (prev # is)" and "d \<in> set is"
    and "\<forall>j\<in>set is. raddr (nodes s j) = raddr (nodes s d) \<longrightarrow> j = d"
  shows "\<exists>nds. unlink_from k (raddr (nodes s d)) prev (rnext (nodes s prev)) s = Inr (relink nds (p_regions s) s) \<and>
    rlist nds (Some prev) (prev # remove1 d is) \<and> (\<forall>j. region (nds j) = region (nodes s j)) \<and>
    (\<forall>j. j \<notin> set (prev # is) \<longrightarrow> nds j = nodes s j)"
  using assms
proof (induction "is" arbitrary: prev k)
  case (Cons i "is")
  obtain k' where k: "k = Suc k'" "length is < k'" using Cons.prems(2) by (cases k) auto
  have n: "rnext (nodes s prev) = Some i" "rlist (nodes s) (rnext (nodes s i)) is" using Cons.prems(1) by simp_all
  show ?case
  proof (cases "i = d")
    case True
    define nds where "nds = (nodes s)(prev := (nodes s prev)\<lparr>rnext := rnext (nodes s d)\<rparr>)"
    have nds: "rnext (nds prev) = rnext (nodes s d)" "region (nds l) = region (nodes s l)" "l \<noteq> prev \<Longrightarrow> nds l = nodes s l" for l
      by (simp_all add: nds_def)
    have "unlink_from k (raddr (nodes s d)) prev (rnext (nodes s prev)) s = Inr (relink nds (p_regions s) s)"
      using k(1) n(1) True by (simp add: relink_node_upd nds_def)
    moreover have "l \<noteq> prev" if "l \<in> set is" for l using that Cons.prems(3) by auto
    then have "rlist nds (rnext (nodes s d)) is" using n(2) True nds(3) rlist_cong [of "is" nds "nodes s"] by auto
    ultimately show ?thesis using nds True by (intro exI [of _ nds] conjI) simp_all
  next
    case False
    then have "raddr (nodes s i) \<noteq> raddr (nodes s d)" "d \<in> set is" using Cons.prems(4,5) by auto
    moreover have "distinct (i # is)" "\<forall>j\<in>set is. raddr (nodes s j) = raddr (nodes s d) \<longrightarrow> j = d" using Cons.prems(3,5) by auto
    ultimately obtain nds where nds: "unlink_from k' (raddr (nodes s d)) i (rnext (nodes s i)) s = Inr (relink nds (p_regions s) s)"
      "rlist nds (Some i) (i # remove1 d is)" "\<forall>j. region (nds j) = region (nodes s j)" "\<forall>j. j \<notin> set (i # is) \<longrightarrow> nds j = nodes s j"
      using Cons.IH [OF n(2) k(2)] by blast
    have "nds prev = nodes s prev" using nds(4) Cons.prems(3) by auto
    then show ?thesis using nds False k(1) n(1) \<open>raddr (nodes s i) \<noteq> raddr (nodes s d)\<close>
      by (intro exI [of _ nds] conjI) simp_all
  qed
qed simp

lemma in_order_inj:
  assumes "in_order m ids" and "distinct ids" and "i \<in> set ids" and "j \<in> set ids" and "raddr (m i) = raddr (m j)"
  shows "i = j"
  using assms
proof (induction ids)
  case (Cons l ids)
  show ?case
  proof (cases "i = l \<or> j = l")
    case True
    then show ?thesis using Cons.prems(3-5) in_order_less [OF Cons.prems(1), of i] in_order_less [OF Cons.prems(1), of j] by auto
  next
    case False
    then show ?thesis using Cons by auto
  qed
qed simp

text \<open>The unlinking part of \<open>delete_mmap_node\<close>.\<close>

lemma unlink_ok:
  assumes r: "rlist (nodes s) (Some head) ids" and p: "p_regions s = Some head" and l: "length ids \<le> ntop s"
    and d: "distinct ids" "in_order (nodes s) ids" "i \<in> set ids"
  shows "\<exists>nds q. (if raddr (nodes s i) = raddr (nodes s head) then Inr (s\<lparr>p_regions := rnext (nodes s head)\<rparr>)
      else unlink_from (Suc (ntop s)) (raddr (nodes s i)) head (Some head) s) = Inr (relink nds q s) \<and>
    rlist nds q (remove1 i ids) \<and> (\<forall>j. region (nds j) = region (nodes s j))"
proof -
  obtain "is" where ids: "ids = head # is" "rlist (nodes s) (rnext (nodes s head)) is" using r by (cases ids) auto
  show ?thesis
  proof (cases "i = head")
    case True
    have "s\<lparr>p_regions := q\<rparr> = relink (nodes s) q s" for q by (simp add: relink_def)
    then show ?thesis using True ids by (intro exI [of _ "nodes s"] exI [of _ "rnext (nodes s head)"]) simp
  next
    case False
    have ne: "raddr (nodes s i) \<noteq> raddr (nodes s head)" using in_order_inj [OF d(2,1,3), of head] ids(1) False by auto
    have i: "i \<in> set is" "distinct (head # is)" "\<forall>j\<in>set is. raddr (nodes s j) = raddr (nodes s i) \<longrightarrow> j = i"
      using in_order_inj [OF d(2,1) _ d(3)] d ids(1) False by auto
    have "length is < ntop s" using l ids(1) by simp
    from unlink_behind [OF ids(2) this i(2,1,3)] obtain nds where
      "unlink_from (ntop s) (raddr (nodes s i)) head (rnext (nodes s head)) s = Inr (relink nds (p_regions s) s)"
      "rlist nds (Some head) (head # remove1 i is)" "\<forall>j. region (nds j) = region (nodes s j)" by blast
    then show ?thesis using ne False ids(1) p by (intro exI [of _ nds] exI [of _ "p_regions s"]) simp
  qed
qed

end
