(* ===== verification/Mmap_Pages.thy ===== *)
theory Mmap_Pages
  imports Mmap
begin

text \<open>
  The pages of an anonymous mapping: one page, the loop over the pages of a region, and the way back when the
  loop fails. The code works on the page tables and the frames only, so it is proved on \<open>kmem\<close> and carried
  over to the state of \<^theory_text>\<open>Mmap\<close>.
\<close>

section \<open>One page\<close>

definition anon_page :: "u64 \<Rightarrow> u64 \<Rightarrow> u64 \<Rightarrow> kmem \<Rightarrow> (int \<times> kmem) kres" where
  "anon_page kend pgdir va k =
     kbind (kalloc k) (\<lambda>(page, k).
     if page = 0 then Inr (- ENOMEM, k)
     else
       kbind (uvm_map pgdir va PGSIZE (V2P page) (zero_page page k)) (\<lambda>(r, k).
       if r < 0 then kbind (kfree kend page k) (\<lambda>k. Inr (- EINVAL, k)) else Inr (0, k)))"

lemma map_anon_page_km: "map_anon_page kend va perm s = in_km (anon_page kend (p_pgdir s) va) s"
proof (cases "kalloc (km s)")
  case (Inr x)
  obtain page k where x: "x = (page, k)" by (cases x)
  show ?thesis
  proof (cases "uvm_map (p_pgdir s) va PGSIZE (V2P page) (zero_page page k)")
    case (Inr y)
    obtain r k2 where "y = (r, k2)" by (cases y)
    then show ?thesis
      using Inr \<open>kalloc (km s) = Inr x\<close> x
      by (cases "kfree kend page k2") (simp_all add: map_anon_page_def anon_page_def in_km_def on_km_def Let_def)
  qed (use Inr x in \<open>simp add: map_anon_page_def anon_page_def in_km_def on_km_def Let_def\<close>)
qed (simp add: map_anon_page_def anon_page_def in_km_def on_km_def)

text \<open>The pages in use are kept, no entry outside the range changes, and the pages of the range, which were not
  mapped before, have zeroed frames of their own.\<close>

definition anon_mapped :: "u64 \<Rightarrow> u64 \<Rightarrow> nat \<Rightarrow> nat \<Rightarrow> u64 list \<Rightarrow> kmem \<Rightarrow> u64 list \<Rightarrow> kmem \<Rightarrow> bool" where
  "anon_mapped kend pgdir a n fs k fs' k' \<longleftrightarrow> space_ok kend pgdir fs' k' \<and> set fs' \<subseteq> set fs \<and> keeps kend pgdir fs k fs' k' \<and>
     (\<forall>x. unat x < 2 ^ 48 \<longrightarrow> \<not> (a \<le> unat x \<and> unat x < a + n) \<longrightarrow> pte_of (mem k') pgdir x = pte_of (mem k) pgdir x) \<and>
     (\<forall>x. a \<le> unat x \<and> unat x < a + n \<longrightarrow> frame_at (mem k) pgdir x = None \<and>
        (\<exists>p\<in>set fs. frame_at (mem k') pgdir x = Some p \<and> kref k' (frame (V2P p)) = 1 \<and> (\<forall>b. b - p < PGSIZE \<longrightarrow> mem k' b = 0)))"

lemma keeps_refl: "keeps kend pgdir fs k fs k"
  by (simp add: keeps_def)

lemma anon_mapped_refl: "space_ok kend pgdir fs k \<Longrightarrow> anon_mapped kend pgdir a 0 fs k fs k"
  unfolding anon_mapped_def using keeps_refl by auto

text \<open>A fresh page that has been zeroed.\<close>

lemma kalloc_zero:
  assumes sp: "space_ok kend pgdir (p # fs) k"
  obtains k1 where "kalloc k = Inr (p, k1)" and "p \<noteq> 0" and "space_ok kend pgdir fs (zero_page p k1)"
    and "fresh_page kend pgdir fs (zero_page p k1) p" and "keeps kend pgdir (p # fs) k fs (zero_page p k1)"
    and "\<And>x. pte_of (mem (zero_page p k1)) pgdir x = pte_of (mem k) pgdir x"
    and "kref (zero_page p k1) (frame (V2P p)) = 1" and "\<And>b. b - p < PGSIZE \<Longrightarrow> mem (zero_page p k1) b = 0"
proof -
  obtain k1 where k1: "kalloc k = Inr (p, k1)" "p \<noteq> 0" "space_ok kend pgdir fs k1" "fresh_page kend pgdir fs k1 p"
    "mem k1 = mem k" "kref k1 = (kref k)(frame (V2P p) := 1)" by (rule kalloc_fresh [OF sp]) (rule that)
  let ?k = "zero_page p k1"
  have p: "page_ok kend p" "p \<notin> set fs" "p \<notin> tables (mem k1) pgdir" using k1(4) by (auto simp: fresh_page_def data_page_def)
  have m: "mem ?k a = mem k1 a" if "\<not> a - p < PGSIZE" for a using that by (simp add: zero_page_def)
  have f: "freelist ?k = freelist k1" "fpages ?k = fpages k1" "kref ?k = kref k1" by (simp_all add: zero_page_def)
  note dw = data_write_space [OF k1(3) p m f]
  have "frame_at (mem ?k) pgdir x = frame_at (mem k1) pgdir x" for x by (rule frame_at_pte [OF dw(3)])
  then have fr: "fresh_page kend pgdir fs ?k p" using k1(4) dw(2) f(3) by (simp add: fresh_page_def data_page_def)
  have "keeps kend pgdir (p # fs) k fs ?k"
    unfolding keeps_def
  proof (intro allI impI conjI)
    fix q assume q: "data_page kend pgdir (p # fs) k q"
    then have ne: "q \<noteq> p" "page_ok kend q" by (auto simp: data_page_def)
    show kr: "kref ?k (frame (V2P q)) = kref k (frame (V2P q))"
      using ne page_ok_frame_inj [OF ne(2) p(1)] k1(6) f(3) by auto
    show "data_page kend pgdir fs ?k q" using q kr dw(2) k1(5) by (simp add: data_page_def)
    show "mem ?k b = mem k b" if "b - q < PGSIZE" for b
      using m [of b] in_page_disjoint [OF p(1) ne(2), of b] that ne(1) k1(5) by auto
  qed
  then show thesis
    using that [OF k1(1,2) dw(1) fr] dw(3) k1(5,6) f(3) by (simp add: zero_page_def)
qed

lemma anon_page_ok:
  assumes sp: "space_ok kend pgdir fs k" and va: "unat va mod 4096 = 0" "unat va < 2 ^ 48"
  shows "\<exists>r k' fs'. anon_page kend pgdir va k = Inr (r, k') \<and> space_ok kend pgdir fs' k' \<and> set fs' \<subseteq> set fs \<and>
     length fs \<le> length fs' + 4 \<and> keeps kend pgdir fs k fs' k' \<and>
     (r = 0 \<and> frame_at (mem k) pgdir va = None \<and> (\<exists>p\<in>set fs. kref k' (frame (V2P p)) = 1 \<and> (\<forall>b. b - p < PGSIZE \<longrightarrow> mem k' b = 0) \<and>
        (\<forall>x. pte_of (mem k') pgdir x = (if same_page va x then V2P p OR PTE_UDATA else pte_of (mem k) pgdir x)) \<and> page_ok kend p) \<or>
      (r = - ENOMEM \<and> fs = [] \<or> r = - EINVAL \<and> (length fs' \<le> 1 \<or> frame_at (mem k) pgdir va \<noteq> None)) \<and>
        (\<forall>x. pte_of (mem k') pgdir x = pte_of (mem k) pgdir x))"
proof (cases fs)
  case Nil
  then have "kalloc k = Inr (0, k)" using sp kalloc_Nil by (auto simp: space_ok_def vm_inv_def)
  then show ?thesis using sp Nil keeps_refl by (simp add: anon_page_def)
next
  case (Cons p fs0)
  obtain k1 where k1: "kalloc k = Inr (p, k1)" "p \<noteq> 0" "space_ok kend pgdir fs0 (zero_page p k1)"
    "fresh_page kend pgdir fs0 (zero_page p k1) p" "keeps kend pgdir (p # fs0) k fs0 (zero_page p k1)"
    "\<And>x. pte_of (mem (zero_page p k1)) pgdir x = pte_of (mem k) pgdir x"
    "kref (zero_page p k1) (frame (V2P p)) = 1" "\<And>b. b - p < PGSIZE \<Longrightarrow> mem (zero_page p k1) b = 0"
    by (rule kalloc_zero [OF sp [unfolded Cons]]) (rule that)
  let ?k = "zero_page p k1"
  have dp: "data_page kend pgdir fs0 ?k p" using k1(4) by (simp add: fresh_page_def)
  have f: "frame_at (mem ?k) pgdir va = frame_at (mem k) pgdir va" by (rule frame_at_pte [OF k1(6)])
  from map_fresh [OF k1(3,4) va] obtain r k2 fs2 where m: "uvm_map pgdir va PGSIZE (V2P p) ?k = Inr (r, k2)"
    "space_ok kend pgdir fs2 k2" "set fs2 \<subseteq> set fs0" "keeps kend pgdir fs0 ?k fs2 k2" and len: "length fs0 \<le> length fs2 + 3" and
    c: "r = 0 \<and> frame_at (mem ?k) pgdir va = None \<and>
        (\<forall>x. pte_of (mem k2) pgdir x = (if same_page va x then V2P p OR PTE_UDATA else pte_of (mem ?k) pgdir x)) \<or>
      r = - EINVAL \<and> (\<forall>x. pte_of (mem k2) pgdir x = pte_of (mem ?k) pgdir x) \<and> fresh_page kend pgdir fs2 k2 p \<and>
        (fs2 = [] \<or> frame_at (mem ?k) pgdir va \<noteq> None)" by (elim exE conjE)
  have kp: "keeps kend pgdir fs k fs2 k2" using keeps_trans [OF k1(5) m(4)] Cons by simp
  from c show ?thesis
  proof
    assume c: "r = 0 \<and> frame_at (mem ?k) pgdir va = None \<and>
        (\<forall>x. pte_of (mem k2) pgdir x = (if same_page va x then V2P p OR PTE_UDATA else pte_of (mem ?k) pgdir x))"
    have "kref k2 (frame (V2P p)) = 1" "\<forall>b. b - p < PGSIZE \<longrightarrow> mem k2 b = 0" "page_ok kend p"
      using keepsD(2,3) [OF m(4) dp] k1(7,8) dp by (simp_all add: data_page_def)
    then have "\<exists>p\<in>set fs. kref k2 (frame (V2P p)) = 1 \<and> (\<forall>b. b - p < PGSIZE \<longrightarrow> mem k2 b = 0) \<and>
        (\<forall>x. pte_of (mem k2) pgdir x = (if same_page va x then V2P p OR PTE_UDATA else pte_of (mem k) pgdir x)) \<and> page_ok kend p"
      using c k1(6) Cons by (intro bexI [of _ p]) simp_all
    moreover have "anon_page kend pgdir va k = Inr (0, k2)" using k1(1,2) m(1) c by (simp add: anon_page_def)
    moreover have "set fs2 \<subseteq> set fs" using m(3) Cons by auto
    moreover have "frame_at (mem k) pgdir va = None" using c f by simp
    moreover have "length fs \<le> length fs2 + 4" using len Cons by simp
    ultimately show ?thesis using m(2) kp by blast
  next
    assume c: "r = - EINVAL \<and> (\<forall>x. pte_of (mem k2) pgdir x = pte_of (mem ?k) pgdir x) \<and> fresh_page kend pgdir fs2 k2 p \<and>
        (fs2 = [] \<or> frame_at (mem ?k) pgdir va \<noteq> None)"
    then have fr: "fresh_page kend pgdir fs2 k2 p" by blast
    obtain k3 where k3: "kfree kend p k2 = Inr k3" "space_ok kend pgdir (p # fs2) k3"
      "\<And>x. pte_of (mem k3) pgdir x = pte_of (mem k2) pgdir x"
      "\<And>q. data_page kend pgdir fs2 k2 q \<Longrightarrow> q \<noteq> p \<Longrightarrow> data_page kend pgdir (p # fs2) k3 q \<and>
        kref k3 (frame (V2P q)) = kref k2 (frame (V2P q)) \<and> (\<forall>b. b - q < PGSIZE \<longrightarrow> mem k3 b = mem k2 b)"
      by (rule kfree_fresh [OF m(2) fr]) (rule that)
    have "keeps kend pgdir fs k (p # fs2) k3"
      unfolding keeps_def
    proof (intro allI impI)
      fix q assume q: "data_page kend pgdir fs k q"
      have "q \<noteq> p" using q Cons by (auto simp: data_page_def)
      then show "data_page kend pgdir (p # fs2) k3 q \<and> kref k3 (frame (V2P q)) = kref k (frame (V2P q)) \<and>
          (\<forall>b. b - q < PGSIZE \<longrightarrow> mem k3 b = mem k b)"
        using keepsD [OF kp q] k3(4) [of q] by simp
    qed
    moreover have "anon_page kend pgdir va k = Inr (- EINVAL, k3)" using k1(1,2) m(1) c k3(1) by (simp add: anon_page_def EINVAL_def)
    moreover have "set (p # fs2) \<subseteq> set fs" using m(3) Cons by auto
    ultimately show ?thesis
      using k3(2,3) c f k1(6) len Cons by (intro exI [of _ "- EINVAL"] exI [of _ k3] exI [of _ "p # fs2"]) auto
  qed
qed

section \<open>The pages of a region\<close>

lemma anon_mapped_step:
  assumes am: "anon_mapped kend pgdir a n fs k fs1 k1" and al: "a mod 4096 = 0" "n mod 4096 = 0" and le: "b + 4096 \<le> 2 ^ 48"
    and b: "b = a + n" and k2: "space_ok kend pgdir fs2 k2" "set fs2 \<subseteq> set fs1" "keeps kend pgdir fs1 k1 fs2 k2"
    and f: "frame_at (mem k1) pgdir (of_nat b) = None" and p: "p \<in> set fs1" "kref k2 (frame (V2P p)) = 1" "\<forall>c. c - p < PGSIZE \<longrightarrow> mem k2 c = 0"
      "page_ok kend p"
    and pte: "\<forall>x. pte_of (mem k2) pgdir x = (if same_page (of_nat b) x then V2P p OR PTE_UDATA else pte_of (mem k1) pgdir x)"
  shows "anon_mapped kend pgdir a (n + 4096) fs k fs2 k2"
proof -
  have al': "b mod 4096 = 0" using al b by (simp add: mod_eq_0_iff_dvd)
  have same: "same_page (of_nat b) x \<longleftrightarrow> b \<le> unat x \<and> unat x < b + 4096" if "unat x < 2 ^ 48" for x
    by (rule same_page_range [OF al' le that])
  have k1: "space_ok kend pgdir fs1 k1" "set fs1 \<subseteq> set fs" "keeps kend pgdir fs k fs1 k1" using am by (simp_all add: anon_mapped_def)
  have old: "pte_of (mem k2) pgdir x = pte_of (mem k) pgdir x" if "unat x < 2 ^ 48" "\<not> (a \<le> unat x \<and> unat x < a + (n + 4096))" for x
  proof -
    have "\<not> same_page (of_nat b) x" using same [OF that(1)] that(2) b by auto
    moreover have "\<not> (a \<le> unat x \<and> unat x < a + n)" using that(2) by auto
    ultimately show ?thesis using pte am that(1) by (simp add: anon_mapped_def)
  qed
  have new: "frame_at (mem k) pgdir x = None \<and> (\<exists>p\<in>set fs. frame_at (mem k2) pgdir x = Some p \<and> kref k2 (frame (V2P p)) = 1 \<and>
      (\<forall>c. c - p < PGSIZE \<longrightarrow> mem k2 c = 0))" if x: "a \<le> unat x" "unat x < a + (n + 4096)" for x
  proof -
    have lt: "unat x < 2 ^ 48" using x(2) le b by simp
    show ?thesis
    proof (cases "unat x < a + n")
      case True
      then obtain q where q: "frame_at (mem k) pgdir x = None" "q \<in> set fs" "frame_at (mem k1) pgdir x = Some q"
        "kref k1 (frame (V2P q)) = 1" "\<forall>c. c - q < PGSIZE \<longrightarrow> mem k1 c = 0" using am x(1) by (auto simp: anon_mapped_def)
      have "pte_of (mem k2) pgdir x = pte_of (mem k1) pgdir x" using pte same [OF lt] True b by auto
      then have "frame_at (mem k2) pgdir x = Some q" using q(3) frame_at_pte by metis
      moreover have dq: "data_page kend pgdir fs1 k1 q" using space_okD(2) [OF k1(1) lt q(3)] ..
      then have "kref k2 (frame (V2P q)) = 1" "\<forall>c. c - q < PGSIZE \<longrightarrow> mem k2 c = 0" using keepsD(2,3) [OF k2(3) dq] q(4,5) by auto
      ultimately show ?thesis using q(1,2) by blast
    next
      case False
      then have sp: "same_page (of_nat b) x" using same [OF lt] x b by auto
      then have "frame_at (mem k2) pgdir x = Some p" using pte PTE_UDATA_entry [OF p(4)] by (simp add: frame_at_def)
      moreover have "frame_at (mem k1) pgdir x = None" using same_page_frame [OF sp, of "mem k1" pgdir] f by simp
      moreover have "pte_of (mem k1) pgdir x = pte_of (mem k) pgdir x" using am lt False by (simp add: anon_mapped_def)
      then have "frame_at (mem k1) pgdir x = frame_at (mem k) pgdir x" by (rule frame_at_pte)
      ultimately have "frame_at (mem k2) pgdir x = Some p" "frame_at (mem k) pgdir x = None" by simp_all
      then show ?thesis using p(2,3) subsetD [OF k1(2) p(1)] by (intro conjI bexI [of _ p]) simp_all
    qed
  qed
  show ?thesis unfolding anon_mapped_def using k2(1,2) k1(2) keeps_trans [OF k1(3) k2(3)] old new by blast
qed

text \<open>Nothing is mapped that was not mapped before.\<close>

definition undone :: "u64 \<Rightarrow> u64 \<Rightarrow> u64 list \<Rightarrow> kmem \<Rightarrow> u64 list \<Rightarrow> kmem \<Rightarrow> bool" where
  "undone kend pgdir fs k fs' k' \<longleftrightarrow> space_ok kend pgdir fs' k' \<and> set fs' \<subseteq> set fs \<and> keeps kend pgdir fs k fs' k' \<and>
     (\<forall>x. unat x < 2 ^ 48 \<longrightarrow> frame_at (mem k') pgdir x = frame_at (mem k) pgdir x)"

lemma unmap_undoes:
  assumes am: "anon_mapped kend pgdir a n fs k fs1 k1" and un: "unmapped kend pgdir a n fs1 k1 fs2 k2" and le: "a + n \<le> 2 ^ 48"
  shows "undone kend pgdir fs k fs2 k2"
proof -
  let ?F = "frames_in (mem k1) pgdir a n"
  have F: "?F \<subseteq> set fs" using am by (fastforce simp: frames_in_def anon_mapped_def)
  have k1: "set fs1 \<subseteq> set fs" "keeps kend pgdir fs k fs1 k1" using am by (simp_all add: anon_mapped_def)
  have "frame_at (mem k2) pgdir x = frame_at (mem k) pgdir x" if x: "unat x < 2 ^ 48" for x
  proof (cases "a \<le> unat x \<and> unat x < a + n")
    case True
    then have "pte_of (mem k2) pgdir x = 0" "frame_at (mem k) pgdir x = None" using un am x by (simp_all add: unmapped_def anon_mapped_def)
    then show ?thesis by (simp add: frame_at_def)
  next
    case False
    then have "pte_of (mem k2) pgdir x = pte_of (mem k) pgdir x" using un am x by (auto simp: unmapped_def anon_mapped_def)
    then show ?thesis by (rule frame_at_pte)
  qed
  moreover have "data_page kend pgdir fs2 k2 q \<and> kref k2 (frame (V2P q)) = kref k (frame (V2P q)) \<and>
      (\<forall>c. c - q < PGSIZE \<longrightarrow> mem k2 c = mem k c)" if q: "data_page kend pgdir fs k q" for q
  proof -
    have "q \<notin> ?F" using F q by (auto simp: data_page_def)
    then show ?thesis using un keepsD [OF k1(2) q] by (auto simp: unmapped_def data_page_def)
  qed
  ultimately show ?thesis using un F k1(1) by (auto simp: undone_def keeps_def unmapped_def)
qed

lemma anon_mapped_same:
  assumes am: "anon_mapped kend pgdir a n fs k fs1 k1" and k2: "space_ok kend pgdir fs2 k2" "set fs2 \<subseteq> set fs1" "keeps kend pgdir fs1 k1 fs2 k2"
    and pte: "\<forall>x. pte_of (mem k2) pgdir x = pte_of (mem k1) pgdir x" and le: "a + n \<le> 2 ^ 48"
  shows "anon_mapped kend pgdir a n fs k fs2 k2"
proof -
  have k1: "space_ok kend pgdir fs1 k1" "set fs1 \<subseteq> set fs" "keeps kend pgdir fs k fs1 k1" using am by (simp_all add: anon_mapped_def)
  have "frame_at (mem k) pgdir x = None \<and> (\<exists>p\<in>set fs. frame_at (mem k2) pgdir x = Some p \<and> kref k2 (frame (V2P p)) = 1 \<and>
      (\<forall>c. c - p < PGSIZE \<longrightarrow> mem k2 c = 0))" if x: "a \<le> unat x" "unat x < a + n" for x
  proof -
    obtain q where q: "frame_at (mem k) pgdir x = None" "q \<in> set fs" "frame_at (mem k1) pgdir x = Some q"
      "kref k1 (frame (V2P q)) = 1" "\<forall>c. c - q < PGSIZE \<longrightarrow> mem k1 c = 0" using am x by (auto simp: anon_mapped_def)
    have "frame_at (mem k2) pgdir x = Some q" using q(3) frame_at_pte pte by metis
    moreover have "unat x < 2 ^ 48" using x le by simp
    from space_okD(2) [OF k1(1) this q(3)] have dq: "data_page kend pgdir fs1 k1 q" ..
    ultimately show ?thesis using keepsD(2,3) [OF k2(3) dq] q by auto
  qed
  then show ?thesis
    using am k2(1,2) k1(2) keeps_trans [OF k1(3) k2(3)] pte by (auto simp: anon_mapped_def)
qed

lemma unmap_mapped:
  assumes sp: "space_ok kend pgdir fs k" and al: "unat va mod 4096 = 0" "n mod 4096 = 0" and le: "unat va + n \<le> 2 ^ 48"
    and m: "\<forall>x. unat va \<le> unat x \<and> unat x < unat va + n \<longrightarrow> frame_at (mem k) pgdir x \<noteq> None"
  shows "\<exists>k' fs'. uvm_unmap kend pgdir va (of_nat (n div 4096)) k = Inr k' \<and> unmapped kend pgdir (unat va) n fs k fs' k'"
proof -
  have n: "4096 * (n div 4096) = n" using al(2) by (simp add: mult_div_mod_eq [symmetric] mod_eq_0_iff_dvd)
  have "frame_at (mem k) pgdir (of_nat (unat va + 4096 * i)) \<noteq> None" if "i < n div 4096" for i
  proof -
    have "4096 * i < n" using that n by linarith
    then have "unat va \<le> unat (of_nat (unat va + 4096 * i) :: u64)" "unat (of_nat (unat va + 4096 * i) :: u64) < unat va + n"
      using le by (simp_all only: unat_of_nat) (simp_all add: take_bit_nat_eq_self)
    then show ?thesis using m by blast
  qed
  then show ?thesis using uvm_unmap_ok [OF sp al(1), of "n div 4096"] le n by simp
qed

lemma undo_loop:
  assumes am: "anon_mapped kend pgdir (unat addr) cur fs k0 fs1 (km s)"
    and al: "unat addr mod 4096 = 0" "cur mod 4096 = 0" and le: "unat addr + cur \<le> 2 ^ 48"
  shows "\<exists>k fs'. (if cur \<noteq> 0 then on_km (uvm_unmap kend pgdir addr (of_nat (cur div 4096))) s else Inr s) = Inr (s\<lparr>km := k\<rparr>) \<and>
    undone kend pgdir fs k0 fs' k"
proof -
  let ?k = "km s" and ?n = "cur div 4096"
  have sp: "space_ok kend pgdir fs1 ?k" using am by (simp add: anon_mapped_def)
  have "\<forall>x. unat addr \<le> unat x \<and> unat x < unat addr + cur \<longrightarrow> frame_at (mem ?k) pgdir x \<noteq> None"
    using am unfolding anon_mapped_def by (metis option.distinct(1))
  from unmap_mapped [OF sp al le this] obtain k fs' where
    k: "uvm_unmap kend pgdir addr (of_nat ?n) ?k = Inr k" "unmapped kend pgdir (unat addr) cur fs1 ?k fs' k" by (elim exE conjE)
  then have u: "undone kend pgdir fs k0 fs' k" using unmap_undoes [OF am _ le] by simp
  show ?thesis
  proof (cases "cur = 0")
    case True
    then have "undone kend pgdir fs k0 fs1 ?k" using am by (auto simp: undone_def anon_mapped_def intro: frame_at_pte)
    then show ?thesis using True by (intro exI [of _ ?k] exI [of _ fs1]) simp
  next
    case False
    then show ?thesis using k(1) u by (intro exI [of _ k] exI [of _ fs']) (simp add: on_km_def)
  qed
qed

lemma page_end:
  assumes "(m :: nat) mod 4096 = 0" and "N mod 4096 = 0" and "m \<le> N" and "N < m + 4096"
  shows "m = N"
proof -
  obtain i j where "m = 4096 * i" "N = 4096 * j" using assms(1,2) by (auto simp: mod_eq_0_iff_dvd elim!: dvdE)
  then show ?thesis using assms(3,4) by simp
qed

lemma page_next:
  assumes "(m :: nat) < n" and "m mod 4096 = 0" and "N mod 4096 = 0" and "n \<le> N"
  shows "m + 4096 \<le> N"
proof -
  obtain i j where "m = 4096 * i" "N = 4096 * j" using assms(2,3) by (auto simp: mod_eq_0_iff_dvd elim!: dvdE)
  moreover from this have "i < j" using assms(1,4) by linarith
  ultimately show ?thesis by simp
qed

text \<open>The loop fails at the page \<open>va\<close>: what was mapped is taken back, and there is a reason.\<close>

lemma anon_loop_fail:
  assumes am: "anon_mapped kend pgdir (unat addr) cur fs k0 fs1 (km s)" and al: "unat addr mod 4096 = 0" "cur mod 4096 = 0"
    and va: "unat va = unat addr + cur" and N: "cur + 4096 \<le> N" "unat addr + N \<le> 2 ^ 48"
    and k2: "space_ok kend pgdir fs2 k2" "set fs2 \<subseteq> set fs1" "keeps kend pgdir fs1 (km s) fs2 k2" and len: "length fs1 \<le> length fs2 + 4"
      "length fs \<le> length fs1 + 4 * (cur div 4096)"
    and pte: "\<forall>x. pte_of (mem k2) pgdir x = pte_of (mem (km s)) pgdir x"
    and c: "fs1 = [] \<or> length fs2 \<le> 1 \<or> frame_at (mem (km s)) pgdir va \<noteq> None"
  shows "\<exists>k fs'. (if cur \<noteq> 0 then on_km (uvm_unmap kend pgdir addr (of_nat (cur div 4096))) (s\<lparr>km := k2\<rparr>) else Inr (s\<lparr>km := k2\<rparr>)) = Inr (s\<lparr>km := k\<rparr>) \<and>
    undone kend pgdir fs k0 fs' k \<and> (length fs \<le> 4 * (N div 4096) + 1 \<or>
      (\<exists>x. unat addr \<le> unat x \<and> unat x < unat addr + N \<and> frame_at (mem k0) pgdir x \<noteq> None))"
proof -
  have le: "unat addr + cur \<le> 2 ^ 48" using N by simp
  have "anon_mapped kend pgdir (unat addr) cur fs k0 fs2 (km (s\<lparr>km := k2\<rparr>))" using anon_mapped_same [OF am k2 pte le] by simp
  from undo_loop [OF this al le] obtain k fs' where
    k: "(if cur \<noteq> 0 then on_km (uvm_unmap kend pgdir addr (of_nat (cur div 4096))) (s\<lparr>km := k2\<rparr>) else Inr (s\<lparr>km := k2\<rparr>)) = Inr (s\<lparr>km := k\<rparr>)"
      "undone kend pgdir fs k0 fs' k" by (elim exE conjE) simp
  have "length fs \<le> 4 * (N div 4096) + 1 \<or>
      (\<exists>x. unat addr \<le> unat x \<and> unat x < unat addr + N \<and> frame_at (mem k0) pgdir x \<noteq> None)"
  proof (cases "frame_at (mem (km s)) pgdir va = None")
    case True
    then have "length fs1 \<le> 5" using c len(1) by auto
    moreover have "cur div 4096 + 1 \<le> N div 4096" using div_le_mono [OF N(1), of 4096] by simp
    ultimately show ?thesis using len(2) by linarith
  next
    case False
    have "pte_of (mem (km s)) pgdir va = pte_of (mem k0) pgdir va" using am va N by (simp add: anon_mapped_def)
    then have "frame_at (mem k0) pgdir va \<noteq> None" using False frame_at_pte by metis
    then show ?thesis using va N by (intro disjI2 exI [of _ va]) simp
  qed
  then show ?thesis using k by blast
qed

lemma anon_loop_ok:
  assumes "anon_mapped kend pgdir (unat addr) cur fs k0 fs1 (km s)" and "p_pgdir s = pgdir" and "unat addr mod 4096 = 0"
    and "cur mod 4096 = 0" and "unat addr + N \<le> 2 ^ 48" and "N mod 4096 = 0" and "n \<le> N" and "cur \<le> N" and "N < n + 4096"
    and "length fs \<le> length fs1 + 4 * (cur div 4096)"
  shows "\<exists>r k fs'. pages_loop kend (\<lambda>cur. map_anon_page kend (addr + of_nat cur) perm) addr cur n s = Inr (r, s\<lparr>km := k\<rparr>) \<and>
    (r = 0 \<and> anon_mapped kend pgdir (unat addr) N fs k0 fs' k \<or>
     (r = - ENOMEM \<or> r = - EINVAL) \<and> undone kend pgdir fs k0 fs' k \<and> (length fs \<le> 4 * (N div 4096) + 1 \<or>
       (\<exists>x. unat addr \<le> unat x \<and> unat x < unat addr + N \<and> frame_at (mem k0) pgdir x \<noteq> None)))"
  using assms
proof (induction "n - cur" arbitrary: cur s fs1 rule: less_induct)
  case less
  note am = less.prems(1) and pg = less.prems(2) and al = less.prems(3,4)
  show ?case
  proof (cases "cur < n")
    case False
    have "cur = N" by (rule page_end) (use False less.prems(4,6,8,9) in auto)
    then show ?thesis using False am by (intro exI [of _ 0] exI [of _ "km s"] exI [of _ fs1]) (simp add: pages_loop.simps)
  next
    case True
    let ?va = "addr + of_nat cur" and ?k = "km s"
    define b where "b = unat addr + cur"
    have lt: "cur + 4096 \<le> N" using True less.prems(4,6,7) by (rule page_next)
    have b: "b + 4096 \<le> 2 ^ 48" "b mod 4096 = 0" using less.prems(3-5) lt by (auto simp: b_def mod_eq_0_iff_dvd)
    have "unat (of_nat cur :: u64) = cur" using b(1) by (simp add: b_def unat_of_nat)
    then have va: "?va = of_nat b" "unat ?va = b" using b(1) unat_add_nowrap64 [of addr "of_nat cur"] by (simp_all add: b_def)
    have sp: "space_ok kend pgdir fs1 ?k" using am by (simp add: anon_mapped_def)
    have "unat ?va mod 4096 = 0" "unat ?va < 2 ^ 48" using va(2) b by simp_all
    from anon_page_ok [OF sp this] obtain r k2 fs2 where
      p: "anon_page kend pgdir ?va ?k = Inr (r, k2)" and k2: "space_ok kend pgdir fs2 k2" "set fs2 \<subseteq> set fs1" "keeps kend pgdir fs1 ?k fs2 k2"
      and len: "length fs1 \<le> length fs2 + 4" and
      c: "r = 0 \<and> frame_at (mem ?k) pgdir ?va = None \<and> (\<exists>p\<in>set fs1. kref k2 (frame (V2P p)) = 1 \<and> (\<forall>b. b - p < PGSIZE \<longrightarrow> mem k2 b = 0) \<and>
        (\<forall>x. pte_of (mem k2) pgdir x = (if same_page ?va x then V2P p OR PTE_UDATA else pte_of (mem ?k) pgdir x)) \<and> page_ok kend p) \<or>
      (r = - ENOMEM \<and> fs1 = [] \<or> r = - EINVAL \<and> (length fs2 \<le> 1 \<or> frame_at (mem ?k) pgdir ?va \<noteq> None)) \<and>
        (\<forall>x. pte_of (mem k2) pgdir x = pte_of (mem ?k) pgdir x)" by (elim exE conjE)
    have step: "map_anon_page kend ?va perm s = Inr (r, s\<lparr>km := k2\<rparr>)"
      using p pg by (simp add: map_anon_page_km in_km_def)
    from c show ?thesis
    proof
      assume c: "r = 0 \<and> frame_at (mem ?k) pgdir ?va = None \<and> (\<exists>p\<in>set fs1. kref k2 (frame (V2P p)) = 1 \<and> (\<forall>b. b - p < PGSIZE \<longrightarrow> mem k2 b = 0) \<and>
        (\<forall>x. pte_of (mem k2) pgdir x = (if same_page ?va x then V2P p OR PTE_UDATA else pte_of (mem ?k) pgdir x)) \<and> page_ok kend p)"
      then obtain p where p: "p \<in> set fs1" "kref k2 (frame (V2P p)) = 1" "\<forall>b. b - p < PGSIZE \<longrightarrow> mem k2 b = 0" "page_ok kend p"
        "\<forall>x. pte_of (mem k2) pgdir x = (if same_page (of_nat b) x then V2P p OR PTE_UDATA else pte_of (mem ?k) pgdir x)"
        unfolding va(1) by blast
      have f: "frame_at (mem ?k) pgdir (of_nat b) = None" using c va(1) by simp
      have "anon_mapped kend pgdir (unat addr) (cur + 4096) fs k0 fs2 (km (s\<lparr>km := k2\<rparr>))"
        using anon_mapped_step [OF am al b(1) b_def k2 f p] by simp
      moreover have "(cur + 4096) div 4096 = cur div 4096 + 1" by (simp add: div_add_self2)
      then have "length fs \<le> length fs2 + 4 * ((cur + 4096) div 4096)" using len less.prems(10) by linarith
      moreover have "n - (cur + 4096) < n - cur" using True by simp
      ultimately show ?thesis
        using less.hyps [of "cur + 4096" fs2 "s\<lparr>km := k2\<rparr>"] less.prems(2-9) lt True step c
        by (simp add: pages_loop.simps [of kend _ addr cur])
    next
      assume c: "(r = - ENOMEM \<and> fs1 = [] \<or> r = - EINVAL \<and> (length fs2 \<le> 1 \<or> frame_at (mem ?k) pgdir ?va \<noteq> None)) \<and>
        (\<forall>x. pte_of (mem k2) pgdir x = pte_of (mem ?k) pgdir x)"
      then have neg: "r < 0" by (auto simp: ENOMEM_def EINVAL_def)
      have "unat ?va = unat addr + cur" using va(2) b_def by simp
      from anon_loop_fail [OF am al this lt less.prems(5) k2 len less.prems(10)] c obtain k fs' where
        k: "(if cur \<noteq> 0 then on_km (uvm_unmap kend pgdir addr (of_nat (cur div 4096))) (s\<lparr>km := k2\<rparr>) else Inr (s\<lparr>km := k2\<rparr>)) = Inr (s\<lparr>km := k\<rparr>)"
          "undone kend pgdir fs k0 fs' k" "length fs \<le> 4 * (N div 4096) + 1 \<or>
          (\<exists>x. unat addr \<le> unat x \<and> unat x < unat addr + N \<and> frame_at (mem k0) pgdir x \<noteq> None)" by metis
      have "pages_loop kend (\<lambda>cur. map_anon_page kend (addr + of_nat cur) perm) addr cur n s = Inr (r, s\<lparr>km := k\<rparr>)"
        using True step neg k(1) pg by (simp add: pages_loop.simps [of kend _ addr cur] split: if_splits)
      then show ?thesis using c k(2,3) by blast
    qed
  qed
qed

end
