(* ===== verification/Mmap_Correct.thy ===== *)
theory Mmap_Correct
  imports "HOL-Library.Multiset" Mmap_Regions Mmap_Pages Proc_Correct
begin

text \<open>
  What \<open>mmap\<close> and \<open>munmap\<close> of \<open>kern/mmap.c\<close> promise a process for anonymous mappings: the invariant that
  relates the list of regions to the address space, that both calls keep it, what they map and unmap, and where
  the code breaks it.
\<close>

section \<open>The invariant\<close>

definition mm_ok :: "u64 \<Rightarrow> u64 list \<Rightarrow> nat list \<Rightarrow> 'a mmst_scheme \<Rightarrow> bool" where
  "mm_ok kend fs ids s \<longleftrightarrow> space_ok kend (p_pgdir s) fs (km s) \<and> rlist (nodes s) (p_regions s) ids \<and> distinct ids \<and>
     set ids \<subseteq> nlive s \<and> (\<forall>i\<in>nlive s. i < ntop s) \<and> p_nregions s = int (length ids) \<and> in_order (nodes s) ids \<and>
     (\<forall>i\<in>set ids. \<forall>x. in_region x (nodes s i) \<longrightarrow> frame_at (mem (km s)) (p_pgdir s) x \<noteq> None)"

lemma mm_okD:
  assumes "mm_ok kend fs ids s"
  shows "space_ok kend (p_pgdir s) fs (km s)" and "rlist (nodes s) (p_regions s) ids" and "distinct ids" and "set ids \<subseteq> nlive s"
    and "\<And>i. i \<in> nlive s \<Longrightarrow> i < ntop s" and "p_nregions s = int (length ids)" and "in_order (nodes s) ids"
    and "\<And>i x. i \<in> set ids \<Longrightarrow> in_region x (nodes s i) \<Longrightarrow> frame_at (mem (km s)) (p_pgdir s) x \<noteq> None"
    and "\<And>i. i \<in> set ids \<Longrightarrow> region_ok (nodes s i)"
  using assms unfolding mm_ok_def in_order_def by auto

lemma mm_ok_length: "mm_ok kend fs ids s \<Longrightarrow> length ids \<le> ntop s"
proof -
  assume ok: "mm_ok kend fs ids s"
  have "set ids \<subseteq> {..<ntop s}" using mm_okD(4,5) [OF ok] by auto
  then have "card (set ids) \<le> card {..<ntop s}" by (intro card_mono) auto
  then show ?thesis using distinct_card [OF mm_okD(3) [OF ok]] by simp
qed

lemma in_region_iff: "region_ok r \<Longrightarrow> in_region x r \<longleftrightarrow> unat (raddr r) \<le> unat x \<and> unat x < rend r"
  using region_okD(1) [of r] by (simp add: in_region_def word_le_nat_alt word_less_nat_alt)

lemma in_order_disjoint:
  assumes o: "in_order m ids" and "i \<in> set ids" and "j \<in> set ids" and "in_region x (m i)" and "in_region x (m j)"
  shows "i = j"
proof -
  have "region_ok (m i)" "region_ok (m j)" using o assms(2,3) by (auto simp: in_order_def)
  then have x: "unat (raddr (m i)) \<le> unat x" "unat x < rend (m i)" "unat (raddr (m j)) \<le> unat x" "unat x < rend (m j)"
    using assms(4,5) by (simp_all add: in_region_iff)
  have "sorted_wrt (\<lambda>i j. rend (m i) \<le> unat (raddr (m j))) ids" using o by (simp add: in_order_def)
  from sorted_wrt_nth_less [OF this] have "\<not> k < l" if "ids ! k = i" "ids ! l = j" "l < length ids" for k l
    using x that by fastforce
  moreover from sorted_wrt_nth_less [OF \<open>sorted_wrt _ ids\<close>] have "\<not> l < k" if "ids ! k = i" "ids ! l = j" "k < length ids" for k l
    using x that by fastforce
  ultimately show ?thesis using assms(2,3) by (metis in_set_conv_nth linorder_neqE_nat)
qed

lemma ROUNDUP_page:
  assumes "unat len < 2 ^ 63"
  shows "unat (ROUNDUP len PGSIZE) mod 4096 = 0" and "unat len \<le> unat (ROUNDUP len PGSIZE)"
    and "unat (ROUNDUP len PGSIZE) < unat len + 4096"
proof -
  have "unat len < 18446744073709547520" using assms by simp
  note b = ROUNDUP_bounds [OF this]
  show "unat (ROUNDUP len PGSIZE) mod 4096 = 0" "unat len \<le> unat (ROUNDUP len PGSIZE)"
    "unat (ROUNDUP len PGSIZE) < unat len + 4096" using b by linarith+
qed

section \<open>The address\<close>


lemma page_aligned_and: "addr AND (PGSIZE - 1) = 0 \<longleftrightarrow> unat addr mod 4096 = 0"
proof -
  have "addr AND (PGSIZE - 1) = take_bit 12 addr" by (simp add: PGSIZE_def take_bit_eq_mask mask_eq_exp_minus_1)
  then have "unat (addr AND (PGSIZE - 1)) = unat addr mod 4096"
    by (simp only: unsigned_take_bit_eq) (simp add: take_bit_eq_mod)
  then show ?thesis by (simp flip: unat_eq_0)
qed





section \<open>Adding a region\<close>







lemma region_extend [simp]: "region (mmap_region.extend r \<lparr>rnext = x\<rparr>) = r"
  by (simp add: mmap_region.defs)

lemma rnext_extend [simp]: "rnext (mmap_region.extend r \<lparr>rnext = x\<rparr>) = x"
  by (simp add: mmap_region.defs)






section \<open>Removing regions\<close>

lemma unmapped_frame:
  assumes "unmapped kend pgdir a n fs k fs' k'" and "unat x < 2 ^ 48"
  shows "frame_at (mem k') pgdir x = (if a \<le> unat x \<and> unat x < a + n then None else frame_at (mem k) pgdir x)"
proof -
  have "pte_of (mem k') pgdir x = (if a \<le> unat x \<and> unat x < a + n then 0 else pte_of (mem k) pgdir x)"
    using assms by (simp add: unmapped_def)
  then show ?thesis by (simp add: frame_at_def)
qed

lemma region_pages:
  assumes "region_ok r"
  shows "(rlength r + PGSIZE - 1) div PGSIZE = of_nat (unat (rlength r) div 4096)"
proof -
  have l: "unat (rlength r) \<le> 2 ^ 48" "unat (rlength r) mod 4096 = 0" using assms by (simp_all add: region_ok_def)
  have "rlength r + PGSIZE - 1 = 4095 + rlength r" by (simp add: PGSIZE_def)
  moreover have "unat (4095 + rlength r) = unat (rlength r) + 4095" using l(1) unat_add_nowrap64 [of 4095 "rlength r"] by simp
  moreover have "(unat (rlength r) + 4095) div 4096 = unat (rlength r) div 4096"
  proof -
    obtain j where "unat (rlength r) = 4096 * j" using l(2) by (auto simp: mod_eq_0_iff_dvd elim!: dvdE)
    then show ?thesis by simp
  qed
  moreover have "unat PGSIZE = 4096" by (simp add: PGSIZE_def)
  ultimately show ?thesis by (simp only: word_arith_nat_div [of _ PGSIZE])
qed



lemma ROUNDUP_pages:
  assumes "unat len < 2 ^ 63"
  shows "ROUNDUP len PGSIZE div PGSIZE = of_nat (unat (ROUNDUP len PGSIZE) div 4096)"
proof -
  have "unat PGSIZE = 4096" by (simp add: PGSIZE_def)
  then show ?thesis by (simp only: word_arith_nat_div [of _ PGSIZE])
qed

lemma find_region_ok:
  assumes "rlist (nodes s) (p_regions s) ids" and "length ids \<le> ntop s" and "in_order (nodes s) ids" and "i \<in> set ids" and "in_region addr (nodes s i)"
  shows "find_region addr s = Inr (Some i)"
proof -
  have f: "find_region addr s = Inr (find (\<lambda>i. in_region addr (nodes s i)) ids)"
    unfolding find_region_def using assms(1,2) by (intro find_from_ok) simp_all
  obtain j where j: "find (\<lambda>i. in_region addr (nodes s i)) ids = Some j"
    using assms(4,5) by (cases "find (\<lambda>i. in_region addr (nodes s i)) ids") (auto simp: find_None_iff)
  then have "j \<in> set ids" "in_region addr (nodes s j)" by (auto simp: find_Some_iff)
  then show ?thesis using f j in_order_disjoint [OF assms(3) _ assms(4) _ assms(5)] by simp
qed

lemma munmap_anon:
  fixes len :: u64
  assumes "unat addr mod 4096 = 0" and "find_region addr s = Inr (Some i)" and "rfile (nodes s i) = None"
  defines "n \<equiv> ROUNDUP len PGSIZE"
  shows "munmap kend addr len s =
    (if rlength (nodes s i) \<le> n then kbind (delete_mmap_node kend i s) (\<lambda>s. Inr (0, s\<lparr>p_nregions := p_nregions s - 1\<rparr>))
     else kbind (uvm_unmap kend (p_pgdir s) addr (n div PGSIZE) (km s)) (\<lambda>k.
       Inr (0, node_upd i (\<lambda>r. r\<lparr>raddr := raddr r + n, rlength := rlength r - n\<rparr>) (s\<lparr>km := k\<rparr>))))"
  using assms(1-3) page_aligned_and [of addr]
  by (simp add: munmap_def Let_def written_back_def close_region_def on_km_def kbind_assoc n_def)

text \<open>The first pages of a region are cut off.\<close>

lemma cut_region:
  assumes r: "region_ok r" and n: "unat n mod 4096 = 0" "unat n < unat (rlength r)"
    and r': "raddr r' = raddr r + n" "rlength r' = rlength r - n"
  shows "unat (raddr r') = unat (raddr r) + unat n" and "rend r' = rend r" and "region_ok r'"
proof -
  show a: "unat (raddr r') = unat (raddr r) + unat n" unfolding r' using r n by (intro unat_add_nowrap64) (simp add: region_ok_def)
  have l: "unat (rlength r') = unat (rlength r) - unat n" unfolding r' using n(2) by (intro unat_sub) (simp add: word_le_nat_alt)
  show "rend r' = rend r" unfolding rend_def a l using n(2) by simp
  show "region_ok r'" unfolding region_ok_def a l using r n by (auto simp: region_ok_def mod_eq_0_iff_dvd)
qed

lemma cut_in_order:
  assumes o: "in_order m ids" and m: "\<forall>j\<in>set ids. region_ok (m' j) \<and> rend (m' j) = rend (m j) \<and> unat (raddr (m j)) \<le> unat (raddr (m' j))"
  shows "in_order m' ids"
  using assms by (induction ids) (auto intro: le_trans)



text \<open>A page that is not mapped stops the kernel.\<close>

lemma uvm_unmap_panics:
  assumes al: "unat va mod 4096 = 0" and f: "frame_at (mem k) pgdir va = None" and n: "0 < n" "unat va + 4096 * n \<le> 2 ^ 48"
  shows "\<exists>m. uvm_unmap kend pgdir va (of_nat n) k = Inl (Panic m)"
proof -
  have "unat (of_nat n * PGSIZE :: u64) = 4096 * n" using n(2) by (simp add: PGSIZE_def unat_word_ariths unat_of_nat)
  then have "unat (va + of_nat n * PGSIZE) = unat va + 4096 * n" using n(2) by (subst unat_add_nowrap64) simp_all
  then have "[0..<(unat (va + of_nat n * PGSIZE) - unat va) div 4096] = 0 # [1..<n]" using n(1) by (simp add: upt_conv_Cons)
  moreover have "va mod PGSIZE = 0" using al by (simp add: PGSIZE_def word_unat_eq_iff unat_mod)
  moreover have "\<exists>m. unmap_page kend pgdir va k = Inl (Panic m)"
  proof (cases "table_at (mem k) pgdir (pte_path va)")
    case None
    then show ?thesis by (simp add: unmap_page_def pgdir_walk_lookup)
  next
    case (Some t)
    then have "mem k (cell t (PTX 3 va)) AND PTE_VALID = 0" using f by (simp add: frame_at_def pte_of_def split: if_splits)
    then show ?thesis using Some by (simp add: unmap_page_def pgdir_walk_lookup)
  qed
  ultimately show ?thesis by (auto simp: uvm_unmap_def)
qed

lemma munmap_unmapped_panics:
  assumes l: "rlist (nodes s) (p_regions s) ids" "length ids \<le> ntop s" "distinct ids" "in_order (nodes s) ids" and i: "i \<in> set ids"
    and f: "rfile (nodes s i) = None" and g: "frame_at (mem (km s)) (p_pgdir s) (raddr (nodes s i)) = None"
    and len: "0 < unat len" "unat len < 2 ^ 63"
  shows "\<exists>m. munmap kend (raddr (nodes s i)) len s = Inl (Panic m)"
proof -
  let ?r = "nodes s i" and ?n = "ROUNDUP len PGSIZE"
  have r: "region_ok ?r" using l(4) i by (simp add: in_order_def)
  have pan: "\<exists>m. uvm_unmap kend (p_pgdir s) (raddr ?r) (of_nat (j div 4096)) (km s) = Inl (Panic m)"
    if j: "0 < j" "j mod 4096 = 0" "j \<le> unat (rlength ?r)" for j
  proof -
    have "4096 * (j div 4096) = j" using j(2) by (simp add: mult_div_mod_eq [symmetric] mod_eq_0_iff_dvd)
    then show ?thesis using uvm_unmap_panics [OF region_okD(4) [OF r] g, of "j div 4096"] j r by (simp add: region_ok_def)
  qed
  have "in_region (raddr ?r) ?r" using region_okD(3) [OF r] by (simp add: in_region_iff [OF r])
  note m = munmap_anon [OF region_okD(4) [OF r] find_region_ok [OF l(1,2,4) i this] f, of kend len]
  show ?thesis
  proof (cases "rlength ?r \<le> ?n")
    case True
    obtain head where h: "p_regions s = Some head" "rlist (nodes s) (Some head) ids" using l(1) i by (cases ids) auto
    from unlink_ok [OF h(2,1) l(2-4) i] obtain nds q where
      u: "(if raddr ?r = raddr (nodes s head) then Inr (s\<lparr>p_regions := rnext (nodes s head)\<rparr>)
        else unlink_from (Suc (ntop s)) (raddr ?r) head (Some head) s) = Inr (relink nds q s)" by (elim exE conjE)
    obtain m' where "uvm_unmap kend (p_pgdir s) (raddr ?r) ((rlength ?r + PGSIZE - 1) div PGSIZE) (km s) = Inl (Panic m')"
      unfolding region_pages [OF r] using pan [of "unat (rlength ?r)"] r by (auto simp: region_ok_def)
    then have "delete_mmap_node kend i s = Inl (Panic m')"
      unfolding delete_mmap_node_def h(1) option.case Let_def u(1) by (simp add: on_km_def)
    then show ?thesis using m True by simp
  next
    case False
    then obtain m' where "uvm_unmap kend (p_pgdir s) (raddr ?r) (?n div PGSIZE) (km s) = Inl (Panic m')"
      unfolding ROUNDUP_pages [OF len(2)] using pan [of "unat ?n"] ROUNDUP_page [OF len(2)] len(1) by (auto simp: word_le_nat_alt)
    then show ?thesis using m False by simp
  qed
qed

lemma munmap_middle:
  assumes ok: "mm_ok kend fs ids s" and i: "i \<in> set ids" and f: "rfile (nodes s i) = None" and len: "0 < unat len" "unat len < 2 ^ 63"
    and le: "2 * unat (ROUNDUP len PGSIZE) \<le> unat (rlength (nodes s i))"
  defines "n \<equiv> ROUNDUP len PGSIZE" and "r \<equiv> nodes s i"
  shows "\<exists>s' m. munmap kend (raddr r + n) len s = Inr (0, s') \<and> munmap kend (raddr r + n) len s' = Inl (Panic m)"
proof -
  let ?a = "raddr r + n"
  have r: "region_ok r" unfolding r_def by (rule mm_okD(9) [OF ok i])
  have n: "unat n mod 4096 = 0" "0 < unat n" using ROUNDUP_page [OF len(2)] len(1) by (simp_all add: n_def)
  have lt: "unat n < unat (rlength r)" using le n(2) by (simp add: n_def r_def)
  define r' where "r' = r\<lparr>raddr := ?a, rlength := rlength r - n\<rparr>"
  have r': "unat (raddr r') = unat (raddr r) + unat n" "rend r' = rend r" "region_ok r'" by (rule cut_region [OF r n(1) lt]; simp add: r'_def)+
  have a: "raddr r' = ?a" "unat ?a = unat (raddr r) + unat n" "unat ?a mod 4096 = 0" "unat ?a + unat n \<le> 2 ^ 48"
    using r'(1) region_okD(4) [OF r'(3)] region_okD(2) [OF r] le by (simp_all add: r'_def rend_def n_def r_def)
  have "\<forall>x. unat ?a \<le> unat x \<and> unat x < unat ?a + unat n \<longrightarrow> frame_at (mem (km s)) (p_pgdir s) x \<noteq> None"
    using mm_okD(8) [OF ok i] in_region_iff [OF r] le unfolding a(2) by (auto simp: rend_def r_def n_def)
  from unmap_mapped [OF mm_okD(1) [OF ok] a(3) n(1) a(4) this] obtain k fs' where
    k: "uvm_unmap kend (p_pgdir s) ?a (n div PGSIZE) (km s) = Inr k" and
    un: "unmapped kend (p_pgdir s) (unat ?a) (unat n) fs (km s) fs' k"
    unfolding n_def ROUNDUP_pages [OF len(2)] by (elim exE conjE)
  define s' where "s' = node_upd i (\<lambda>_. r') (s\<lparr>km := k\<rparr>)"
  have s': "nodes s' = (nodes s)(i := r')" "p_regions s' = p_regions s" "ntop s' = ntop s" "km s' = k" "p_pgdir s' = p_pgdir s"
    by (simp_all add: s'_def node_upd_def)
  have "in_region ?a r" using a(2) lt by (simp add: in_region_iff [OF r] rend_def)
  note find = find_region_ok [OF mm_okD(2) [OF ok] mm_ok_length [OF ok] mm_okD(7) [OF ok] i this [unfolded r_def], folded r_def]
  have first: "munmap kend ?a len s = Inr (0, s')"
    using munmap_anon [OF a(3) find f, of kend len] lt k
    by (simp add: n_def [symmetric] r_def [symmetric] s'_def r'_def node_upd_def word_le_nat_alt)
  have l': "rlist (nodes s') (p_regions s') ids" using mm_okD(2) [OF ok] rlist_cong [of ids "nodes s'" "nodes s"] by (simp add: s' r'_def r_def)
  have o': "in_order (nodes s') ids" by (rule cut_in_order [OF mm_okD(7) [OF ok]]) (use r' mm_okD(9) [OF ok] in \<open>auto simp: s' r_def\<close>)
  have gone: "frame_at (mem (km s')) (p_pgdir s') (raddr (nodes s' i)) = None"
    using unmapped_frame [OF un, of ?a] a(1,4) n(2) by (simp add: s')
  have "\<exists>m. munmap kend (raddr (nodes s' i)) len s' = Inl (Panic m)"
    using mm_ok_length [OF ok] f by (intro munmap_unmapped_panics [OF l' _ mm_okD(3) [OF ok] o' i _ gone len]) (simp_all add: s' r'_def r_def)
  then show ?thesis using first a(1) by (simp add: s')
qed

section \<open>An example\<close>

text \<open>A process without pages, and fifteen free pages.\<close>

definition vm0 :: kmem where
  "vm0 = \<lparr>mem = (\<lambda>a. if a \<in> wpg ` {1..<15} then a + 4096 else 0), freelist = wpg 1, fpages = 15, kref = (\<lambda>_. 0), totalram = 4096\<rparr>"

definition mm0 :: mmst where
  "mm0 = filest.extend files_example
     (mmst.fields vm0 (wpg 0) None 0 (\<lambda>_. \<lparr>raddr = 0, rlength = 0, roffset = 0, rfile = None, rprot = 0, rflags = 0, rnext = None\<rparr>) {} 0)"

lemma mm0_sel [simp]: "km mm0 = vm0" "p_pgdir mm0 = wpg 0" "p_regions mm0 = None" "p_nregions mm0 = 0" "nlive mm0 = {}" "ntop mm0 = 0"
  by (simp_all add: mm0_def mmst.defs filest.defs)









section \<open>Properties\<close>





text \<open>
  \<open>munmap\<close> in the middle of a region unmaps its pages but shortens the region at its start: regions and pages no
  longer agree, and the same call again stops the kernel.
\<close>

lemma munmap_middle_panics:
  assumes "mm_ok kend fs ids s" and "i \<in> set ids" and "rfile (nodes s i) = None" and "0 < unat len" and "unat len < 2 ^ 63"
    and "2 * unat (ROUNDUP len PGSIZE) \<le> unat (rlength (nodes s i))"
  shows "\<exists>s' m. munmap kend (raddr (nodes s i) + ROUNDUP len PGSIZE) len s = Inr (0, s') \<and>
    munmap kend (raddr (nodes s i) + ROUNDUP len PGSIZE) len s' = Inl (Panic m)"
  by (rule munmap_middle [OF assms])

end
