(* ===== verification/Spec2Isabelle.thy ===== *)
theory Spec2Isabelle
  imports Mm Klist Log_Crash Bits Cstring Pipe Sigset Vm_Space Console File V6_Correct Proc_Correct Cred Kmalloc Mmap_Correct
begin

text \<open>
  A verification of the kernel under \<open>src/kern\<close> and \<open>src/inc\<close>: an operating system in the tradition of
  xv6 for the Raspberry Pi 3, with a journalled file system on an SD card, a page allocator, user page
  tables, pipes, a console, and processes that are scheduled on four CPUs and receive signals.

  \<^bold>\<open>How the program is modelled.\<close> A C function is a HOL function on an explicit state; a struct is a
  record with the field names of the source, an integer a word of its width, an object in memory a
  function from byte offsets to bytes (theory \<open>Bytes\<close>). A function that can stop the kernel returns a
  value of type \<open>kres\<close> (theory \<open>K_Prelude\<close>): \<open>Inl\<close> with \<open>Panic\<close>, \<open>Fault\<close> (an access through a null pointer
  or beyond an array, or a signed overflow), \<open>Deadlock\<close> (an endless loop), or \<open>Sleeps\<close> (the caller waits for something that no code in the call
  will provide), and otherwise \<open>Inr\<close> of its result. Error numbers are plain integers (theory \<open>Errno\<close>). The
  states of the disk stack are extensible records, each layer adding its own globals: \<open>iost\<close> (card,
  request queue, buffer cache, superblocks), \<open>logst\<close> (the logs), \<open>fsst\<close> (inode cache, mount table,
  console, running process), \<open>pgst\<close> (page cache), \<open>filest\<close> (open files) and \<open>mmst\<close> (mapped regions).

  \<^bold>\<open>Parts and theories.\<close>
  \<^item> \<open>K_Prelude\<close>, \<open>K_Layout\<close>: the result monad, word arithmetic, the address macros of \<open>inc/memlayout.h\<close>
    and \<open>inc/mmu.h\<close>.
  \<^item> \<open>Mm\<close>: the page allocator, \<open>kern/mm.c\<close>. \<open>mm_init\<close> frees every page between the kernel and the top of
    memory once; \<open>kalloc\<close> and \<open>kfree\<close> keep the free list and the reference counts consistent.
  \<^item> \<open>Kmalloc\<close>: the allocator of small objects, \<open>kern/kmalloc.c\<close>, as a ring of free blocks in a memory of
    16-byte units, with the step relation of its callers.
  \<^item> \<open>Vm\<close>, \<open>Vm_Space\<close>: user page tables, \<open>kern/vm.c\<close>, as a tree of page-table pages in memory. \<open>uvm_map\<close> is proved
    against the address translation of the hardware; \<open>Vm_Space\<close> adds the frames that are mapped and proves
    \<open>uvm_unmap\<close>.
  \<^item> \<open>Klist\<close>: the intrusive lists of \<open>inc/list.h\<close> on a store of links, proved to represent HOL lists, also while the
    loop of \<open>wakeup1\<close> takes entries off the list it walks along.
  \<^item> \<open>Bits\<close>, \<open>Cstring\<close>, \<open>Sigset\<close>: \<open>kern/find_bits.c\<close> and \<open>inc/find_bits.h\<close>, \<open>inc/string.h\<close>, and the signal
    sets of \<open>kern/signal.c\<close>.
  \<^item> \<open>Ring\<close>, \<open>Pipe\<close>, \<open>Console\<close>: ring buffers with wrapping counters, \<open>kern/pipe.c\<close> as a step relation
    between readers and writers, and \<open>kern/console.c\<close> with its line editor and \<open>printf\<close>.
  \<^item> \<open>Dev\<close>, \<open>Bio\<close>, \<open>Log\<close>, \<open>Log_Crash\<close>: the SD card as the sequence of its sector writes, the request queue
    of \<open>kern/dev.c\<close>, the buffer cache of \<open>kern/bio.c\<close> and the redo log of \<open>kern/log.c\<close>. The buffer cache is the
    locale \<open>block_cache\<close>, interpreted by the functions of \<open>bio.c\<close>.
  \<^item> \<open>Task\<close>, \<open>Inode\<close>: credentials, sleep locks, and the state of the virtual file system with the parts of
    \<open>kern/vfs.c\<close> and \<open>kern/vfsmount.c\<close> that a file system calls.
  \<^item> \<open>Cred\<close>: the system calls of \<open>kern/sysproc.c\<close> that change user and group numbers and capabilities.
  \<^item> \<open>V6\<close>, \<open>Vfs\<close>: the file system \<open>kern/v6.c\<close> and the generic layer of \<open>kern/vfs.c\<close> above it.
  \<^item> \<open>Txn\<close>: the locale \<open>block_txn\<close> of operations on blocks inside a transaction, interpreted by buffer
    cache and log; everything proved of the file system rests on it.
  \<^item> \<open>V6_Alloc\<close>, \<open>V6_Tree\<close>, \<open>V6_File\<close>, \<open>V6_Inode\<close>, \<open>V6_Rw\<close>: the correctness of the file system. The bitmap is
    the set of blocks in use; the addresses of an inode and its indirect blocks are a function from
    paths to blocks; a file is a function from offsets to bytes. \<open>V6_Example\<close> has a small file system for
    the witnesses and \<open>V6_Correct\<close> the promises of \<open>v6.c\<close> to its callers.
  \<^item> \<open>Pagecache\<close>, \<open>File\<close>: \<open>kern/pagecache.c\<close> and \<open>kern/file.c\<close>.
  \<^item> \<open>Mmap\<close>: memory mappings, \<open>kern/mmap.c\<close> and \<open>sys_mmap\<close>. The regions of a process are a linked list of nodes;
    \<open>Mmap_Regions\<close> relates it to a HOL list in address order, \<open>Mmap_Pages\<close> has the pages behind anonymous regions,
    and \<open>Mmap_Correct\<close> what \<open>mmap\<close> and \<open>munmap\<close> promise for them.
  \<^item> \<open>Proc\<close>: processes, scheduling and signals, \<open>kern/proc.c\<close>. A process is an index into the process table;
    an operation is one call by the process that runs on a CPU, up to its return or to \<open>swtch\<close>.
  \<^item> \<open>Sched\<close>, \<open>Proc_Inv\<close>, \<open>Proc_Family\<close>, \<open>Proc_Reach\<close>: where a process is, given its state; that every operation
    keeps this, and the agreement of parents, children and process numbers; and the step relation \<open>pstep\<close>
    of all CPUs with its reachable states. A step is a section with \<open>ptable.lock\<close> held or a change a process makes
    to its own entry; \<open>fork\<close>, \<open>exit\<close> and the other calls that do not hold the lock throughout are several steps,
    and are proved to be runs of the machine. \<open>Proc_Correct\<close> has the promises of \<open>proc.c\<close> to its callers.

  \<^bold>\<open>What is shown.\<close> A commit is atomic under power failure at every sector write, and so is recovery,
  also when it fails in turn; the reservation of \<open>begin_op\<close> keeps \<open>log_write\<close> from running out of log. The
  buffer cache returns what was last written to a block, whatever it recycles. Inside a transaction
  \<open>v6_writei\<close> replaces exactly a range of a file and \<open>v6_readi\<close> returns it; blocks are allocated and
  freed one bit at a time; inodes survive the trip to the card. The page tables that \<open>uvm_map\<close>
  builds translate as asked, and \<open>uvm_unmap\<close> takes away what it is given; an anonymous \<open>mmap\<close> adds one region of
  zeroed pages and \<open>munmap\<close> takes pages off its start; blocks of \<open>kmalloc\<close> never overlap; without capabilities and
  the user number 0 no identity call but \<open>setuid\<close> gives a process a new identity. Lists, rings, pipes and the line
  editor refine sequences. However the CPUs interleave, no process is lost or in two places, the run queue is
  first in, first out, and child lists agree with parent pointers, as long as \<open>wait4\<close> has not freed a live child
  and \<open>SIGCONT\<close> was not handled by default; \<open>wakeup\<close> wakes exactly the sleepers of a channel; \<open>sigreturn\<close> restores what
  the delivery of a signal saved. Where the code does not do what it means to, a theorem says what it does: the
  log region that is one block short, \<open>setuid\<close> that checks nothing, the 32-bit overflow of the card offset,
  \<open>uvm_dealloc\<close>, the bit searches, \<open>wait4\<close> with \<open>WNOHANG\<close>, \<open>munmap\<close> in the middle of a region, signals to sleeping
  processes, and others.

  \<^bold>\<open>Bounds and fuel.\<close> Functions are total: loops over tables run over lists of indices, and recursion has
  a termination proof. \<open>open_follow\<close>, which follows symbolic links without a limit, is a partial
  function; so are the two loops of \<open>Kmalloc\<close>, which are proved to return on every heap that \<open>kmalloc\<close> and
  \<open>kmfree\<close> build. \<open>component_search\<close> of \<open>namex\<close> has fuel \<open>MOUNTSIZE + 1\<close>, more than the mount points a path
  element can cross, and the loop of \<open>v6_getdents\<close> one round for every 64 bytes of the directory and two
  more, as each round consumes an entry. The walks along the list of regions in \<open>Mmap\<close> have one step more than
  there are nodes, so that running out of steps means a cycle. The loops over \<open>inc/list.h\<close> lists are partial
  functions, proved to return on well-formed rings.

  \<^bold>\<open>Not modelled.\<close> Spin locks are not state: a section that holds one is atomic. Concurrency appears
  where the code gives it up, as \<open>Sleeps\<close>, and as interleavings in \<open>Pipe\<close>, \<open>Log\<close> and \<open>Proc_Reach\<close>. The links of the
  process table are HOL lists there: \<open>proc_alloc\<close> clears the links of an unused entry, which by the invariants is in
  no list. The register
  protocols of the card controllers, the other device drivers, interrupts and assembly are hardware.
  \<open>ext2.c\<close> is left out: calls through the operation tables go to \<open>v6.c\<close>. The other system call wrappers only
  fetch arguments. \<open>exec.c\<close> and the timers are left out. \<open>kmalloc\<close> of an inode's private part is taken to succeed.
\<close>

end
